(* ===== verification/Prelude.thy ===== *)
theory Prelude
  imports Main "HOL-Library.Multiset" "HOL-Library.AList" "HOL-Library.Char_ord" "HOL-Library.List_Lexorder"
    "HOL-Library.Product_Lexorder"
begin

text \<open>
  Shared vocabulary of the development.

  \<^item> \<^bold>\<open>Strings.\<close> A Rust \<open>String\<close>, \<open>str\<close> or \<open>Arc<str>\<close> newtype is a \<^typ>\<open>string\<close>; the order is
    the byte-wise lexicographic one of \<open>str: Ord\<close> (theories \<open>Char_ord\<close> and \<open>List_Lexorder\<close>),
    and tuples are compared lexicographically (\<open>Product_Lexorder\<close>), as \<open>derive(Ord)\<close> does.
  \<^item> \<^bold>\<open>Hash maps that the code iterates\<close> are association lists with distinct keys; the list order
    stands for one iteration order of the hash table, and since theorems quantify over every
    list they hold for every order. Reads are \<^const>\<open>map_of\<close>, writes are \<^const>\<open>AList.update\<close> and
    \<^const>\<open>AList.delete\<close>. Hash maps that are only read and written by key are HOL maps, and
    hash sets are HOL sets.
  \<^item> \<^bold>\<open>B-tree maps\<close> are association lists sorted by key (\<open>bt_alter\<close> below), so that iteration is
    in key order.
\<close>

named_theorems alist_simps \<open>rewrite rules for association lists\<close>

type_synonym phase_id = string
type_synonym type_id = string
type_synonym affinity_id = string
type_synonym task_id = string
type_synonym worker_id = nat

section \<open>Association lists as hash maps\<close>

abbreviation keys :: "('k \<times> 'v) list \<Rightarrow> 'k list" where
  "keys al \<equiv> map fst al"

definition get_count :: "('k \<times> nat) list \<Rightarrow> 'k \<Rightarrow> nat" where
  "get_count al k = (case map_of al k of None \<Rightarrow> 0 | Some n \<Rightarrow> n)"

definition total_count :: "('k \<times> nat) list \<Rightarrow> nat" where
  "total_count al = sum_list (map snd al)"

text \<open>\<open>if let Some(c) = m.get_mut(k) { *c = c.saturating_sub(1) }\<close>: an absent key stays absent.\<close>

definition dec_count :: "'k \<Rightarrow> ('k \<times> nat) list \<Rightarrow> ('k \<times> nat) list" where
  "dec_count k al = AList.map_entry k (\<lambda>n. n - 1) al"

text \<open>\<open>*m.entry(k).or_insert(0) += 1\<close>\<close>

definition inc_count :: "'k \<Rightarrow> ('k \<times> nat) list \<Rightarrow> ('k \<times> nat) list" where
  "inc_count k al = AList.update k (get_count al k + 1) al"

text \<open>\<open>m.remove(k).unwrap_or_default()\<close> read as a value: an absent key counts as the empty list.\<close>

definition lookup_list :: "('k \<times> 'v list) list \<Rightarrow> 'k \<Rightarrow> 'v list" where
  "lookup_list m k = (case map_of m k of Some l \<Rightarrow> l | None \<Rightarrow> [])"

lemma lookup_list_mem: "x \<in> set (lookup_list m k) \<longleftrightarrow> (\<exists>l. map_of m k = Some l \<and> x \<in> set l)"
  by (cases "map_of m k") (auto simp: lookup_list_def)

lemma map_of_alist_update [simp, alist_simps]:
  "map_of (AList.update k v al) = (map_of al)(k \<mapsto> v)"
  by (rule AList.update_conv')

lemma map_of_alist_delete [simp, alist_simps]:
  "map_of (AList.delete k al) = (map_of al)(k := None)"
  by (rule AList.delete_conv')

lemma map_of_alist_map_entry [simp, alist_simps]:
  "map_of (AList.map_entry k f al) = (map_of al)(k := map_option f (map_of al k))"
  by (rule ext) (simp add: AList.map_of_map_entry split: option.split)

lemma distinct_keys_update [simp, intro]:
  "distinct (keys al) \<Longrightarrow> distinct (keys (AList.update k v al))"
  by (rule AList.distinct_update)

lemma distinct_keys_delete [simp, intro]:
  "distinct (keys al) \<Longrightarrow> distinct (keys (AList.delete k al))"
  by (rule AList.distinct_delete)

lemma keys_map_entry [simp]: "keys (AList.map_entry k f al) = keys al"
  by (induction al) auto

lemma map_entry_cong: "map_of al k = Some v \<Longrightarrow> f v = g v \<Longrightarrow> AList.map_entry k f al = AList.map_entry k g al"
  by (induction al) (auto split: if_splits)

lemma keys_map_values [simp]: "map (fst \<circ> (\<lambda>(k, v). (k, f k v))) al = keys al"
  by auto

lemma fst_set_update [simp]: "fst ` set (AList.update k v al) = insert k (fst ` set al)"
  using AList.dom_update [of k v al] by simp

lemma fst_set_delete [simp]: "fst ` set (AList.delete k al) = fst ` set al - {k}"
proof -
  have "set (keys (AList.delete k al)) = set (keys al) - {k}"
    by (simp only: AList.delete_keys set_removeAll)
  then show ?thesis by simp
qed

lemma map_of_Some_iff_mem:
  "distinct (keys al) \<Longrightarrow> map_of al k = Some v \<longleftrightarrow> (k, v) \<in> set al"
  by (rule map_of_eq_Some_iff)

lemma set_AList_update:
  "distinct (keys al) \<Longrightarrow> set (AList.update k v al) = insert (k, v) {e \<in> set al. fst e \<noteq> k}"
  by (induction al) (auto simp: image_iff)

lemma set_AList_delete: "set (AList.delete k al) = {e \<in> set al. fst e \<noteq> k}"
  by (auto simp: AList.delete_eq)

lemma get_count_update [simp]:
  "get_count (AList.update k v al) k' = (if k' = k then v else get_count al k')"
  by (simp add: get_count_def)

lemma get_count_inc [simp]:
  "get_count (inc_count k al) k' = (if k' = k then get_count al k + 1 else get_count al k')"
  by (simp add: inc_count_def)

lemma get_count_dec [simp]:
  "get_count (dec_count k al) k' = (if k' = k then get_count al k - 1 else get_count al k')"
  by (simp add: dec_count_def get_count_def split: option.split)

lemma distinct_keys_inc [simp]: "distinct (keys al) \<Longrightarrow> distinct (keys (inc_count k al))"
  by (simp add: inc_count_def)

lemma distinct_keys_dec [simp]: "distinct (keys (dec_count k al)) = distinct (keys al)"
  by (simp add: dec_count_def)

text \<open>\<^const>\<open>AList.update\<close> replaces one existing value, whatever else the list holds.\<close>

lemma total_count_update_existing:
  "map_of al k = Some d \<Longrightarrow> total_count (AList.update k v al) + d = total_count al + v"
  by (induction al) (auto simp: total_count_def split: if_splits)

section \<open>B-tree maps as sorted association lists\<close>

text \<open>
  \<open>bt_alter k f m\<close> is \<open>m.entry(k)\<close> followed by a write: \<open>f\<close> receives the present value, or
  \<^const>\<open>None\<close> for a vacant entry, which is inserted at its place in the key order.
\<close>

fun bt_alter :: "'k::linorder \<Rightarrow> ('v option \<Rightarrow> 'v) \<Rightarrow> ('k \<times> 'v) list \<Rightarrow> ('k \<times> 'v) list" where
  "bt_alter k f [] = [(k, f None)]"
| "bt_alter k f ((k', v) # m) =
     (if k < k' then (k, f None) # (k', v) # m
      else if k = k' then (k, f (Some v)) # m
      else (k', v) # bt_alter k f m)"

abbreviation bt_sorted :: "('k::linorder \<times> 'v) list \<Rightarrow> bool" where
  "bt_sorted m \<equiv> sorted_wrt (<) (keys m)"

lemma fst_set_bt_alter [simp]: "fst ` set (bt_alter k f m) = insert k (fst ` set m)"
  by (induction k f m rule: bt_alter.induct) auto

lemma bt_sorted_alter [simp]: "bt_sorted m \<Longrightarrow> bt_sorted (bt_alter k f m)"
proof (induction k f m rule: bt_alter.induct)
  case (2 k f k' v m)
  then show ?case by auto
qed simp

lemma bt_sorted_distinct: "bt_sorted m \<Longrightarrow> distinct (keys m)"
  by (simp add: strict_sorted_iff)

lemma map_of_bt_alter [simp]:
  "bt_sorted m \<Longrightarrow> map_of (bt_alter k f m) = (map_of m)(k \<mapsto> f (map_of m k))"
proof (induction k f m rule: bt_alter.induct)
  case (2 k f k' v m)
  have "k < k' \<Longrightarrow> map_of m k = None"
    using "2.prems" by (auto simp: map_of_eq_None_iff)
  with "2" show ?case by auto
qed auto

lemma bt_sorted_map_values [simp]: "bt_sorted (map (\<lambda>(k, v). (k, g k v)) m) = bt_sorted m"
proof -
  have "keys (map (\<lambda>(k, v). (k, g k v)) m) = keys m" by (induction m) auto
  then show ?thesis by metis
qed

section \<open>Arithmetic\<close>

text \<open>\<open>usize::div_ceil\<close>\<close>

definition div_ceil :: "nat \<Rightarrow> nat \<Rightarrow> nat" where
  "div_ceil a b = (if a mod b = 0 then a div b else a div b + 1)"

lemma div_ceil_conv: "0 < b \<Longrightarrow> div_ceil a b = (a + b - 1) div b"
proof -
  assume b: "0 < b"
  have "(a + b - 1) div b = (a div b * b + (a mod b + b - 1)) div b" using b by simp
  also have "\<dots> = a div b + (a mod b + b - 1) div b" using b by (metis div_mult_self3 not_less_zero)
  also have "(a mod b + b - 1) div b = (if a mod b = 0 then 0 else 1)"
  proof (cases "a mod b")
    case (Suc r)
    then have "b * 1 \<le> a mod b + b - 1" "a mod b + b - 1 < b * Suc 1" using b mod_less_divisor [of b a] by simp_all
    with Suc show ?thesis by (simp add: div_nat_eqI)
  qed (use b in simp)
  finally show ?thesis by (simp add: div_ceil_def)
qed

section \<open>Lists\<close>

text \<open>\<open>iter().position(p)\<close>\<close>

fun position :: "('a \<Rightarrow> bool) \<Rightarrow> 'a list \<Rightarrow> nat option" where
  "position p [] = None"
| "position p (x # xs) = (if p x then Some 0 else map_option Suc (position p xs))"

text \<open>\<open>VecDeque::remove(i)\<close> on an index in range\<close>

definition remove_nth :: "nat \<Rightarrow> 'a list \<Rightarrow> 'a list" where
  "remove_nth i xs = take i xs @ drop (Suc i) xs"

lemma position_Some: "position p xs = Some i \<Longrightarrow> i < length xs \<and> p (xs ! i)"
  by (induction xs arbitrary: i) (auto split: if_splits)

lemma position_None: "position p xs = None \<longleftrightarrow> (\<forall>x \<in> set xs. \<not> p x)"
  by (induction xs) auto

lemma position_first: "position p xs = Some i \<Longrightarrow> j < i \<Longrightarrow> \<not> p (xs ! j)"
proof (induction xs arbitrary: i j)
  case (Cons x xs)
  then show ?case by (cases j) (auto split: if_splits)
qed simp

lemma position_iff: "position p xs = Some i \<longleftrightarrow> i < length xs \<and> p (xs ! i) \<and> (\<forall>j < i. \<not> p (xs ! j))"
proof
  assume "i < length xs \<and> p (xs ! i) \<and> (\<forall>j < i. \<not> p (xs ! j))"
  moreover from this obtain k where k: "position p xs = Some k"
    by (cases "position p xs") (auto simp: position_None)
  ultimately show "position p xs = Some i"
    using position_Some [OF k] position_first [OF k] by (metis linorder_neqE_nat)
qed (use position_Some position_first in blast)

lemma set_remove_nth:
  "i < length xs \<Longrightarrow> set (remove_nth i xs) \<union> {xs ! i} = set xs"
proof -
  assume i: "i < length xs"
  have "xs = take i xs @ xs ! i # drop (Suc i) xs"
    using i by (rule id_take_nth_drop)
  then have "set xs = set (take i xs @ xs ! i # drop (Suc i) xs)" by simp
  then show ?thesis by (auto simp: remove_nth_def)
qed

lemma set_remove_nth_subset: "set (remove_nth i xs) \<subseteq> set xs"
  by (auto simp: remove_nth_def dest: in_set_takeD in_set_dropD)

lemma distinct_map_remove_nth:
  "distinct (map f xs) \<Longrightarrow> i < length xs \<Longrightarrow>
     distinct (map f (remove_nth i xs)) \<and> f (xs ! i) \<notin> f ` set (remove_nth i xs)"
proof -
  assume d: "distinct (map f xs)" and i: "i < length xs"
  have "map f xs = map f (take i xs) @ f (xs ! i) # map f (drop (Suc i) xs)"
    using id_take_nth_drop [OF i] by (metis list.simps(9) map_append)
  with d show ?thesis by (auto simp: remove_nth_def)
qed

lemma mset_remove_nth: "i < length xs \<Longrightarrow> add_mset (xs ! i) (mset (remove_nth i xs)) = mset xs"
  unfolding remove_nth_def
  by (metis add_mset_add_single id_take_nth_drop mset.simps(2) mset_append union_mset_add_mset_right)

lemma length_remove_nth [simp]: "i < length xs \<Longrightarrow> length (remove_nth i xs) = length xs - 1"
  by (simp add: remove_nth_def)

text \<open>A first-match search finds something exactly when a match exists.\<close>

lemma find_eq_None_iff: "List.find p xs = None \<longleftrightarrow> (\<forall>x \<in> set xs. \<not> p x)"
  by (induction xs) auto

lemma find_SomeD: "List.find p xs = Some x \<Longrightarrow> x \<in> set xs \<and> p x"
  by (induction xs) (auto split: if_splits)

lemma distinct_subseteq_mset: "mset xs \<subseteq># mset ys \<Longrightarrow> distinct ys \<Longrightarrow> distinct xs"
  unfolding distinct_count_atmost_1 by (metis One_nat_def count_mset_0_iff le_zero_eq less_one linorder_not_less mset_subset_eq_count order_le_less set_mset_mset not_in_iff)

end
