(* ===== verification/Task_Types.thy ===== *)
theory Task_Types
  imports Prelude
begin

text \<open>
  The task data model of \<open>crates/dynrunner-core/src/types\<close>: task kinds, dependencies, the task
  description handed to the scheduler and the error classes with their wire text.
  \<open>'i\<close> is the consumer's identifier type (\<open>I: Identifier\<close>) and \<open>'j\<close> the JSON value type of the
  payload, neither of which the modelled code inspects. Paths are strings.
\<close>

section \<open>Task kinds (\<open>types/task.rs\<close>)\<close>

datatype task_kind = Work | Setup | SecondaryAffine | SecondaryEagerPrep

definition is_worker_assignable :: "task_kind \<Rightarrow> bool" where
  "is_worker_assignable k \<longleftrightarrow> k = Work"

definition counts_for_phase_drain :: "task_kind \<Rightarrow> bool" where
  "counts_for_phase_drain k \<longleftrightarrow> \<not> (k = SecondaryAffine \<or> k = SecondaryEagerPrep)"

definition is_secondary_affine :: "task_kind \<Rightarrow> bool" where
  "is_secondary_affine k \<longleftrightarrow> k = SecondaryAffine"

definition is_secondary_eager_prep :: "task_kind \<Rightarrow> bool" where
  "is_secondary_eager_prep k \<longleftrightarrow> k = SecondaryEagerPrep"

section \<open>Versions, dependencies, tasks\<close>

record task_version =
  primary_epoch :: nat
  seq :: nat

definition default_version :: task_version where
  "default_version = \<lparr>primary_epoch = 0, seq = 0\<rparr>"

text \<open>\<open>derive(PartialOrd, Ord)\<close>: lexicographic in field order.\<close>

definition version_less :: "task_version \<Rightarrow> task_version \<Rightarrow> bool" where
  "version_less a b \<longleftrightarrow> (primary_epoch a, seq a) < (primary_epoch b, seq b)"

record task_dep =
  dep_task_id :: task_id
  dep_phase_id :: phase_id
  inherit_outputs :: bool
  dep_def_id :: "nat option"

definition is_unphased :: "task_dep \<Rightarrow> bool" where
  "is_unphased d \<longleftrightarrow> dep_phase_id d = ''''"

definition fill_phase :: "phase_id \<Rightarrow> task_dep \<Rightarrow> task_dep" where
  "fill_phase enclosing d = (if is_unphased d then d\<lparr>dep_phase_id := enclosing\<rparr> else d)"

datatype upload_root = Source | Output

record upload_file_ref =
  upload_source :: string
  upload_dest :: "string option"
  root :: upload_root

record ('i, 'j) task_info =
  path :: string
  task_size :: nat
  task_identifier :: 'i
  phase_id :: phase_id
  type_id :: type_id
  kind :: task_kind
  setup_affinity :: "string option"
  upload_file :: "upload_file_ref option"
  required_files :: "upload_file_ref list option"
  affinity_id :: "affinity_id option"
  payload :: 'j
  task_id :: task_id
  task_depends_on :: "task_dep list"
  preferred_secondaries :: "string list"
  preferred_version :: task_version
  resolved_path :: "string option"

text \<open>The full identity of a task and of a dependency.\<close>

abbreviation ident :: "('i, 'j) task_info \<Rightarrow> phase_id \<times> task_id" where
  "ident t \<equiv> (phase_id t, task_id t)"

abbreviation dep_ident :: "task_dep \<Rightarrow> phase_id \<times> task_id" where
  "dep_ident d \<equiv> (dep_phase_id d, dep_task_id d)"

abbreviation dep_ids :: "('i, 'j) task_info \<Rightarrow> task_id list" where
  "dep_ids t \<equiv> map dep_task_id (task_depends_on t)"

section \<open>Bounded strings (\<open>bounded_string.rs\<close>)\<close>

text \<open>
  A string is its UTF-8 bytes. \<open>utf8_len\<close> is \<open>char::len_utf8\<close> read off the leading byte;
  \<open>char_ends\<close> lists the end offsets of the characters, \<open>char_indices().map(|(i, c)| i + c.len_utf8())\<close>.
\<close>

definition utf8_len :: "char \<Rightarrow> nat" where
  "utf8_len c = (let b = (of_char c :: nat) in
     if b < 192 then 1 else if b < 224 then 2 else if b < 240 then 3 else 4)"

lemma utf8_len_pos [simp]: "0 < utf8_len c"
  by (simp add: utf8_len_def Let_def)

function char_ends :: "nat \<Rightarrow> string \<Rightarrow> nat list" where
  "char_ends i [] = []"
| "char_ends i (c # cs) =
     (let e = i + utf8_len c in e # char_ends e (drop (utf8_len c) (c # cs)))"
  by pat_completeness auto
termination
  by (relation "measure (\<lambda>(i, s). length s)") auto

definition truncate_in_place :: "nat \<Rightarrow> string \<Rightarrow> string" where
  "truncate_in_place n s =
     (if length s \<le> n then s
      else let ends = takeWhile (\<lambda>e. e \<le> n) (char_ends 0 s);
               cut = (if ends = [] then 0 else last ends)
           in take cut s)"

section \<open>Error classes and their wire text (\<open>types/error.rs\<close>)\<close>

datatype error_type =
    ResourceExhausted string
  | NonRecoverable
  | Recoverable
  | Unfulfillable string
  | InvalidTask string

datatype retry_class_t = Retryable | Permanent | Reinjectable

definition memory_kind :: string where
  "memory_kind = ''memory''"

fun retry_class :: "error_type \<Rightarrow> retry_class_t" where
  "retry_class Recoverable = Retryable"
| "retry_class (ResourceExhausted k) = (if k = memory_kind then Retryable else Permanent)"
| "retry_class NonRecoverable = Permanent"
| "retry_class (InvalidTask _) = Permanent"
| "retry_class (Unfulfillable _) = Reinjectable"

fun wire_value :: "error_type \<Rightarrow> string" where
  "wire_value (ResourceExhausted k) =
     (if k = memory_kind then ''oom'' else ''resource_exhausted:'' @ k)"
| "wire_value NonRecoverable = ''non_recoverable''"
| "wire_value Recoverable = ''recoverable''"
| "wire_value (Unfulfillable reason) = ''unfulfillable:'' @ reason"
| "wire_value (InvalidTask reason) = ''invalid_task:'' @ reason"

definition strip_prefix :: "string \<Rightarrow> string \<Rightarrow> string option" where
  "strip_prefix pre s =
     (if take (length pre) s = pre then Some (drop (length pre) s) else None)"

definition from_wire :: "string \<Rightarrow> error_type option" where
  "from_wire s =
     (if s = ''oom'' then Some (ResourceExhausted memory_kind)
      else case strip_prefix ''resource_exhausted:'' s of
        Some k \<Rightarrow> Some (ResourceExhausted k)
      | None \<Rightarrow>
     (case strip_prefix ''unfulfillable:'' s of
        Some r \<Rightarrow> Some (Unfulfillable (truncate_in_place 2048 r))
      | None \<Rightarrow>
     (case strip_prefix ''invalid_task:'' s of
        Some r \<Rightarrow> Some (InvalidTask (truncate_in_place 2048 r))
      | None \<Rightarrow>
        if s = ''non_recoverable'' then Some NonRecoverable
        else if s = ''recoverable'' then Some Recoverable
        else None)))"

text \<open>
  The reasons an \<^typ>\<open>error_type\<close> value carries are \<open>BoundedString<2048>\<close>: at most 2048 bytes.
\<close>

fun error_bounded :: "error_type \<Rightarrow> bool" where
  "error_bounded (Unfulfillable r) = (length r \<le> 2048)"
| "error_bounded (InvalidTask r) = (length r \<le> 2048)"
| "error_bounded _ = True"

section \<open>Lemmas\<close>

lemma strip_prefix_append [simp]: "strip_prefix pre (pre @ s) = Some s"
  by (simp add: strip_prefix_def)

lemma truncate_short [simp]: "length s \<le> n \<Longrightarrow> truncate_in_place n s = s"
  by (simp add: truncate_in_place_def)

lemma truncate_length: "length (truncate_in_place n s) \<le> n"
proof -
  have "last (takeWhile (\<lambda>e. e \<le> n) es) \<le> n" if "takeWhile (\<lambda>e. e \<le> n) es \<noteq> []" for es
    using that by (metis last_in_set set_takeWhileD)
  then show ?thesis
    by (auto simp: truncate_in_place_def Let_def intro: order_trans [OF min.cobounded2])
qed

lemma from_wire_bounded: "from_wire s = Some e \<Longrightarrow> error_bounded e"
  by (auto simp: from_wire_def truncate_length split: if_splits option.splits)

lemma wire_roundtrip: "error_bounded e \<Longrightarrow> from_wire (wire_value e) = Some e"
  by (cases e) (auto simp: from_wire_def strip_prefix_def)

section \<open>Properties\<close>

lemma char_ends_sorted: "sorted_wrt (<) (i # char_ends i s)"
proof (induction i s rule: char_ends.induct)
  case (2 i c cs)
  have "i < i + utf8_len c" by (simp add: utf8_len_def Let_def)
  with 2 [OF refl] show ?case by (auto simp: Let_def)
qed simp

text \<open>
  a bounded string is cut at the last character boundary that fits. A string that fits is kept;
  a longer one becomes a prefix whose length is the largest of 0 and the character ends that are at
  most the bound.
\<close>

theorem truncate_at_boundary:
  "truncate_in_place n s =
     (if length s \<le> n then s else take (Max (insert 0 {e \<in> set (char_ends 0 s). e \<le> n})) s) \<and>
   length (truncate_in_place n s) \<le> n"
proof -
  let ?w = "takeWhile (\<lambda>e. e \<le> n) (char_ends 0 s)"
  have st: "sorted_wrt (<) (0 # char_ends 0 s)" by (rule char_ends_sorted)
  then have so: "sorted (char_ends 0 s)" by (auto dest: strict_sorted_imp_sorted)
  have "set (takeWhile (\<lambda>e. e \<le> n) es) = {e \<in> set es. e \<le> n}" if "sorted es" for es :: "nat list"
    using that by (induction es) auto
  then have w: "set ?w = {e \<in> set (char_ends 0 s). e \<le> n}" using so by blast
  have sw: "sorted ?w" using so by (rule sorted_takeWhile)
  have "(if ?w = [] then 0 else last ?w) = Max (insert 0 (set ?w))"
  proof (cases "?w = []")
    case False
    obtain us u where u: "?w = us @ [u]" using False by (cases ?w rule: rev_cases) auto
    have "x \<le> last ?w" if "x \<in> set ?w" for x
      using that sw unfolding u by (auto simp: sorted_append)
    then have "Max (insert 0 (set ?w)) = last ?w"
      using False by (intro Max_eqI) auto
    then show ?thesis using False by simp
  qed simp
  then show ?thesis using truncate_length [of n s] by (simp add: truncate_in_place_def Let_def w)
qed

text \<open>
  an error survives the wire. Decoding the wire form of an error whose reason fits the bound gives
  the error back, and everything the decoder produces fits the bound, so decoding, encoding and
  decoding again changes nothing.
\<close>

theorem error_wire_stable:
  "(error_bounded e \<longrightarrow> from_wire (wire_value e) = Some e) \<and>
   (from_wire s = Some e \<longrightarrow> error_bounded e \<and> from_wire (wire_value e) = Some e)"
  using wire_roundtrip from_wire_bounded by blast

theorem error_wire_stable_witness:
  "from_wire (wire_value (InvalidTask ''no such file'')) = Some (InvalidTask ''no such file'')"
proof -
  have "error_bounded (InvalidTask ''no such file'')" by simp
  then show ?thesis using error_wire_stable by blast
qed

section \<open>The order of versions\<close>

text \<open>The derived order of \<^typ>\<open>task_version\<close>, as an instance of the library's linear orders.\<close>

instantiation task_version_ext :: (linorder) linorder
begin

definition less_eq_task_version_ext :: "'a task_version_scheme \<Rightarrow> 'a task_version_scheme \<Rightarrow> bool" where
  "less_eq_task_version_ext a b \<longleftrightarrow>
     (primary_epoch a, seq a, task_version.more a) \<le> (primary_epoch b, seq b, task_version.more b)"

definition less_task_version_ext :: "'a task_version_scheme \<Rightarrow> 'a task_version_scheme \<Rightarrow> bool" where
  "less_task_version_ext a b \<longleftrightarrow>
     (primary_epoch a, seq a, task_version.more a) < (primary_epoch b, seq b, task_version.more b)"

instance
  by standard (auto simp: less_eq_task_version_ext_def less_task_version_ext_def)

end

lemma version_less_iff: "version_less a b \<longleftrightarrow> a < b"
  by (auto simp: version_less_def less_task_version_ext_def)

lemma default_version_least: "default_version \<le> v"
  by (auto simp: default_version_def less_eq_task_version_ext_def)

end
