(* ===== verification/Kahn.thy ===== *)
theory Kahn
  imports Prelude
begin

text \<open>
  The topological-sort loop that \<open>PendingPool::new\<close> (over phases) and \<open>PendingPool::extend\<close> (over
  task identities) both run: \<open>children_of\<close>, the in-degree map, the ready queue. \<open>None\<close> is the
  panic of \<open>expect("child in indegree map")\<close> or of the \<open>usize\<close> underflow of \<open>*entry -= 1\<close>.
  The theory shows that on in-degrees that count the edges the loop never panics, and that it
  visits every node exactly when the edges are acyclic.
\<close>

section \<open>The loop\<close>

text \<open>\<open>children_of.entry(parent).or_default().push(child)\<close> over the edges \<open>(parent, child)\<close>.\<close>

definition push_child :: "'a \<times> 'a \<Rightarrow> ('a \<Rightarrow> 'a list) \<Rightarrow> 'a \<Rightarrow> 'a list" where
  "push_child e ch = ch(fst e := ch (fst e) @ [snd e])"

definition children_of :: "('a \<times> 'a) list \<Rightarrow> 'a \<Rightarrow> 'a list" where
  "children_of es = fold push_child es (\<lambda>_. [])"

fun kahn_dec :: "'a list \<Rightarrow> ('a \<times> nat) list \<Rightarrow> 'a list \<Rightarrow> (('a \<times> nat) list \<times> 'a list) option" where
  "kahn_dec [] ind nz = Some (ind, nz)"
| "kahn_dec (c # cs) ind nz =
     (case map_of ind c of
        None \<Rightarrow> None
      | Some 0 \<Rightarrow> None
      | Some (Suc d) \<Rightarrow>
          kahn_dec cs (AList.update c d ind) (if d = 0 then nz @ [c] else nz))"

lemma kahn_dec_measure:
  "kahn_dec cs ind nz = Some (ind', nz') \<Longrightarrow> distinct (keys ind) \<Longrightarrow>
   distinct (keys ind') \<and> total_count ind' + length nz' \<le> total_count ind + length nz"
proof (induction cs ind nz rule: kahn_dec.induct)
  case (2 c cs ind nz)
  then obtain d where d: "map_of ind c = Some (Suc d)"
    by (auto split: option.splits nat.splits)
  then have "total_count (AList.update c d ind) + Suc d = total_count ind + d"
    using "2.prems"(2) total_count_update_existing [of ind c "Suc d" d] by simp
  moreover have "distinct (keys (AList.update c d ind))"
    using "2.prems"(2) by (rule AList.distinct_update)
  moreover have "distinct (keys ind') \<and>
      total_count ind' + length nz' \<le>
        total_count (AList.update c d ind) + length (if d = 0 then nz @ [c] else nz)"
    using "2.IH" [OF d refl] "2.prems" d calculation(2) by simp
  ultimately show ?case by (auto split: if_splits)
qed simp

text \<open>
  \<open>srt\<close> is whether the newly freed nodes are sorted before they join the queue (\<open>extend\<close> sorts,
  \<open>new\<close> does not). The in-degree map has distinct keys, being a hash map; the test of it is there
  for termination only.
\<close>

function kahn_loop ::
  "bool \<Rightarrow> ('a::linorder \<Rightarrow> 'a list) \<Rightarrow> 'a list \<Rightarrow> ('a \<times> nat) list \<Rightarrow> nat \<Rightarrow>
   (('a \<times> nat) list \<times> nat) option" where
  "kahn_loop srt ch [] ind visited = Some (ind, visited)"
| "kahn_loop srt ch (p # q) ind visited =
     (if distinct (keys ind) then
        (case kahn_dec (ch p) ind [] of
           None \<Rightarrow> None
         | Some (ind', nz) \<Rightarrow>
             kahn_loop srt ch (q @ (if srt then sort nz else nz)) ind' (Suc visited))
      else None)"
  by pat_completeness auto
termination
  by (relation "measure (\<lambda>(srt, ch, q, ind, v). total_count ind + length q)")
     (auto dest!: kahn_dec_measure)

text \<open>Nodes of in-degree zero, in map order: the initial queue.\<close>

definition zero_nodes :: "('a \<times> nat) list \<Rightarrow> 'a list" where
  "zero_nodes ind = map fst (filter (\<lambda>(_, d). d = 0) ind)"

section \<open>Correctness\<close>

definition edge_count :: "('a \<times> 'a) list \<Rightarrow> 'a set \<Rightarrow> 'a \<Rightarrow> nat" where
  "edge_count es P v = length (filter (\<lambda>(u, w). w = v \<and> u \<notin> P) es)"

lemma fold_push_child: "fold push_child es ch p = ch p @ map snd (filter (\<lambda>e. fst e = p) es)"
  by (induction es arbitrary: ch) (auto simp: push_child_def)

lemma children_of_eq: "children_of es p = map snd (filter (\<lambda>e. fst e = p) es)"
  by (simp add: children_of_def fold_push_child)

lemma edge_count_insert:
  "p \<notin> P \<Longrightarrow> edge_count es P v = edge_count es (insert p P) v + count_list (children_of es p) v"
  by (induction es) (auto simp: edge_count_def children_of_eq)

lemma edge_count_zeroD: "edge_count es P v = 0 \<Longrightarrow> (u, v) \<in> set es \<Longrightarrow> u \<in> P"
  by (fastforce simp: edge_count_def filter_empty_conv)

lemma edge_count_posD: "edge_count es P v \<noteq> 0 \<Longrightarrow> \<exists>u. (u, v) \<in> set es \<and> u \<notin> P"
  by (induction es) (auto simp: edge_count_def split: if_splits)

lemma kahn_dec_correct:
  assumes "\<forall>c \<in> set cs. map_of ind c = Some (f c) \<and> count_list cs c \<le> f c"
  shows "\<exists>ind' zs. kahn_dec cs ind nz = Some (ind', nz @ zs) \<and> keys ind' = keys ind \<and>
    (\<forall>v. map_of ind' v = (if v \<in> set cs then Some (f v - count_list cs v) else map_of ind v)) \<and>
    distinct zs \<and> set zs = {c \<in> set cs. f c = count_list cs c}"
  using assms
proof (induction cs arbitrary: ind nz f)
  case (Cons c cs)
  from Cons.prems have c: "map_of ind c = Some (f c)" "Suc (count_list cs c) \<le> f c"
    by auto
  then obtain d where d: "f c = Suc d" by (cases "f c") auto
  define ind1 where "ind1 = AList.update c d ind"
  define nz1 where "nz1 = (if d = 0 then nz @ [c] else nz)"
  have "c \<in> fst ` set ind"
    using c(1) by (force dest: map_of_SomeD)
  then have k1: "keys ind1 = keys ind"
    by (simp add: ind1_def update_keys)
  have "\<forall>x \<in> set cs. map_of ind1 x = Some ((f(c := d)) x) \<and> count_list cs x \<le> (f(c := d)) x"
    using Cons.prems c(2) d by (auto simp: ind1_def)
  from Cons.IH [OF this, of nz1] obtain ind' zs where
    IH: "kahn_dec cs ind1 nz1 = Some (ind', nz1 @ zs)" "keys ind' = keys ind1"
      "\<forall>v. map_of ind' v =
         (if v \<in> set cs then Some ((f(c := d)) v - count_list cs v) else map_of ind1 v)"
      "distinct zs" "set zs = {x \<in> set cs. (f(c := d)) x = count_list cs x}"
    by blast
  define zs' where "zs' = (if d = 0 then c # zs else zs)"
  have "count_list cs c = 0" if "d = 0" using c(2) d that by simp
  then have notin: "c \<notin> set cs" if "d = 0" using that by (simp add: count_list_0_iff)
  have "kahn_dec (c # cs) ind nz = Some (ind', nz @ zs')"
    using IH(1) c(1) d by (simp add: ind1_def nz1_def zs'_def split: if_splits)
  moreover have "map_of ind' v =
     (if v \<in> set (c # cs) then Some (f v - count_list (c # cs) v) else map_of ind v)" for v
    using IH(3) d by (auto simp: ind1_def count_list_0_iff)
  moreover have "distinct zs'" using IH(4,5) notin by (auto simp: zs'_def)
  moreover have "x \<in> set zs' \<longleftrightarrow> x \<in> set (c # cs) \<and> f x = count_list (c # cs) x" for x
  proof (cases "x = c")
    case True
    have "d = count_list cs c \<longleftrightarrow> d = 0" if "c \<notin> set cs"
      using that by (simp add: count_list_0_iff)
    with True show ?thesis using IH(5) d notin by (auto simp: zs'_def)
  qed (simp add: zs'_def IH(5))
  then have "set zs' = {x \<in> set (c # cs). f x = count_list (c # cs) x}" by blast
  ultimately show ?case using k1 IH(2) by auto
qed simp

text \<open>
  The loop invariant. \<open>P\<close> is the set of nodes already visited; \<open>r\<close> the visiting order.
\<close>

definition kahn_inv :: "('a \<times> 'a) list \<Rightarrow> 'a set \<Rightarrow> ('a \<Rightarrow> nat) \<Rightarrow> 'a list \<Rightarrow> ('a \<times> nat) list \<Rightarrow> bool" where
  "kahn_inv es P r q ind \<longleftrightarrow>
     distinct (keys ind) \<and> finite P \<and> distinct q \<and> P \<inter> set q = {} \<and>
     P \<union> set q = {v. map_of ind v = Some 0} \<and>
     (\<forall>v \<in> fst ` set ind. map_of ind v = Some (edge_count es P v)) \<and>
     (\<forall>(u, v) \<in> set es. u \<in> fst ` set ind \<and> v \<in> fst ` set ind) \<and>
     (\<forall>x \<in> P. r x < card P) \<and> (\<forall>(u, v) \<in> set es. v \<in> P \<longrightarrow> u \<in> P \<and> r u < r v)"

lemma kahn_inv_count:
  "kahn_inv es P r q ind \<Longrightarrow> v \<in> fst ` set ind \<Longrightarrow> map_of ind v = Some (edge_count es P v)"
  unfolding kahn_inv_def by blast

lemma kahn_inv_zero:
  "kahn_inv es P r q ind \<Longrightarrow> v \<in> P \<or> v \<in> set q \<longleftrightarrow> map_of ind v = Some 0"
  unfolding kahn_inv_def by blast

lemma kahn_inv_edge:
  "kahn_inv es P r q ind \<Longrightarrow> (u, v) \<in> set es \<Longrightarrow> u \<in> fst ` set ind \<and> v \<in> fst ` set ind"
  unfolding kahn_inv_def by blast

lemma kahn_inv_step:
  assumes inv: "kahn_inv es P r (p # q) ind"
  obtains ind' zs where "kahn_dec (children_of es p) ind [] = Some (ind', zs)"
    "keys ind' = keys ind"
    "\<And>zs'. mset zs' = mset zs \<Longrightarrow> kahn_inv es (insert p P) (r(p := card P)) (q @ zs') ind'"
proof -
  let ?ch = "children_of es p"
  note I = inv [unfolded kahn_inv_def]
  have p: "p \<notin> P" "finite P" "map_of ind p = Some 0"
    using I kahn_inv_zero [OF inv, of p] by auto
  have ch: "c \<in> set ?ch \<longleftrightarrow> (p, c) \<in> set es" for c
    by (force simp: children_of_eq)
  have pre: "map_of ind c = Some (edge_count es P c) \<and> count_list ?ch c \<le> edge_count es P c"
    if "c \<in> set ?ch" for c
    using that kahn_inv_count [OF inv] kahn_inv_edge [OF inv] edge_count_insert [OF p(1), of es c]
    by (auto simp: ch)
  with kahn_dec_correct [of ?ch ind "edge_count es P" "[]"] obtain ind' zs where
    kd: "kahn_dec ?ch ind [] = Some (ind', zs)" "keys ind' = keys ind"
      "\<And>v. map_of ind' v = (if v \<in> set ?ch then Some (edge_count es P v - count_list ?ch v) else map_of ind v)"
      "distinct zs" "set zs = {c \<in> set ?ch. edge_count es P c = count_list ?ch c}"
    by auto
  have ks: "fst ` set ind' = fst ` set ind"
    using kd(2) by (metis list.set_map)
  have new: "map_of ind' v = Some (edge_count es (insert p P) v)" if "v \<in> fst ` set ind" for v
    using kahn_inv_count [OF inv that] kd(3) [of v] edge_count_insert [OF p(1), of es v]
    by (cases "v \<in> set ?ch") (auto simp: count_list_0_iff)
  have z: "map_of ind' v = Some 0 \<longleftrightarrow> map_of ind v = Some 0 \<or> v \<in> set zs" for v
    using kd(3,5) pre [of v] edge_count_insert [OF p(1), of es v]
    by (cases "v \<in> set ?ch") (auto simp: count_list_0_iff)
  have disj: "v \<notin> set zs" if "map_of ind v = Some 0" for v
    using that pre [of v] kd(5) by (auto simp: count_list_0_iff)
  have preds: "u \<in> P" if "(u, p) \<in> set es" for u
  proof -
    have "p \<in> fst ` set ind" using p(3) by (force dest: map_of_SomeD)
    then have "edge_count es P p = 0" using kahn_inv_count [OF inv] p(3) by simp
    then show ?thesis using edge_count_zeroD that by metis
  qed
  have "kahn_inv es (insert p P) (r(p := card P)) (q @ zs') ind'" if "mset zs' = mset zs" for zs'
  proof -
    have zs': "set zs' = set zs" "distinct zs'"
      using that kd(4) mset_eq_setD mset_eq_imp_distinct_iff by blast+
    have "insert p P \<union> set (q @ zs') = {v. map_of ind' v = Some 0}"
      using kahn_inv_zero [OF inv] z zs'(1) by auto
    moreover have "distinct (q @ zs')" "insert p P \<inter> set (q @ zs') = {}"
      using I zs' disj kahn_inv_zero [OF inv] by auto
    moreover have "\<forall>x \<in> insert p P. (r(p := card P)) x < card (insert p P)"
      using I p by (auto simp: less_Suc_eq)
    moreover have "\<forall>(u, v) \<in> set es. v \<in> insert p P \<longrightarrow>
        u \<in> insert p P \<and> (r(p := card P)) u < (r(p := card P)) v"
      using I p(1) preds by fastforce
    ultimately show ?thesis
      using I new ks p(2) kd(2) unfolding kahn_inv_def by simp
  qed
  with kd(1,2) show thesis by (rule that)
qed

lemma kahn_loop_inv:
  "kahn_inv es P r q ind \<Longrightarrow>
   \<exists>ind' P' r'. kahn_loop srt (children_of es) q ind (card P) = Some (ind', card P') \<and>
     keys ind' = keys ind \<and> kahn_inv es P' r' [] ind'"
proof (induction srt "children_of es" q ind "card P" arbitrary: P r rule: kahn_loop.induct)
  case (2 srt p q ind)
  from kahn_inv_step [OF "2.prems"] obtain ind' zs where
    st: "kahn_dec (children_of es p) ind [] = Some (ind', zs)" "keys ind' = keys ind"
      "\<And>zs'. mset zs' = mset zs \<Longrightarrow> kahn_inv es (insert p P) (r(p := card P)) (q @ zs') ind'"
    by metis
  let ?zs = "if srt then sort zs else zs"
  have inv: "kahn_inv es (insert p P) (r(p := card P)) (q @ ?zs) ind'" by (rule st(3)) simp
  have d: "distinct (keys ind)" "p \<notin> P" "finite P"
    using "2.prems" by (auto simp: kahn_inv_def)
  then have c: "Suc (card P) = card (insert p P)" by simp
  from "2.hyps" [OF d(1) st(1) refl c inv] obtain ind'' P' r' where
    "kahn_loop srt (children_of es) (q @ ?zs) ind' (card (insert p P)) = Some (ind'', card P')"
    "keys ind'' = keys ind'" "kahn_inv es P' r' [] ind''"
    by blast
  then show ?case using d(1) st c by (intro exI [of _ ind''] exI [of _ P'] exI [of _ r']) simp
qed (auto simp: kahn_inv_def)

lemma kahn_inv_acyclic:
  assumes inv: "kahn_inv es P r [] ind"
  shows "card P = length ind \<longleftrightarrow> acyclic (set es)"
proof
  note I = inv [unfolded kahn_inv_def]
  have sub: "P \<subseteq> fst ` set ind"
    using kahn_inv_zero [OF inv] by (force dest: map_of_SomeD)
  have len: "length ind = card (fst ` set ind)"
    using I distinct_card [of "keys ind"] by simp
  {
    assume "card P = length ind"
    then have "P = fst ` set ind" using sub len by (simp add: card_subset_eq)
    then have "r u < r v" if "(u, v) \<in> set es" for u v
      using I that by auto
    then have "acyclic ((set es)\<inverse>)"
      by (intro acyclicI_order [of _ r]) auto
    then show "acyclic (set es)" by simp
  }
  assume ac: "acyclic (set es)"
  have "fst ` set ind - P = {}"
  proof (rule ccontr)
    assume "fst ` set ind - P \<noteq> {}"
    moreover have "wf (set es)" using ac by (simp add: finite_acyclic_wf)
    ultimately obtain v where v: "v \<in> fst ` set ind - P"
        "\<And>u. (u, v) \<in> set es \<Longrightarrow> u \<notin> fst ` set ind - P"
      by (metis all_not_in_conv wfE_min)
    then have "edge_count es P v \<noteq> 0"
      using kahn_inv_count [OF inv, of v] kahn_inv_zero [OF inv, of v] by auto
    from edge_count_posD [OF this] obtain u where "(u, v) \<in> set es" "u \<notin> P" by blast
    then show False using v(2) kahn_inv_edge [OF inv] by blast
  qed
  then show "card P = length ind" using sub len by (simp add: Diff_eq_empty_iff subset_antisym)
qed

text \<open>The result both callers use.\<close>

lemma kahn_loop_correct:
  assumes "distinct (keys ind)"
    and "\<forall>v \<in> fst ` set ind. map_of ind v = Some (edge_count es {} v)"
    and "\<forall>(u, v) \<in> set es. u \<in> fst ` set ind \<and> v \<in> fst ` set ind"
    and "mset q = mset (zero_nodes ind)"
  obtains ind' n where "kahn_loop srt (children_of es) q ind 0 = Some (ind', n)"
    "keys ind' = keys ind" "n \<le> length ind" "n = length ind \<longleftrightarrow> acyclic (set es)"
    "n \<noteq> length ind \<Longrightarrow> \<exists>p d. (p, d) \<in> set ind' \<and> d \<noteq> 0"
proof -
  have "set q = set (zero_nodes ind)" "distinct q \<longleftrightarrow> distinct (zero_nodes ind)"
    using assms(4) mset_eq_setD mset_eq_imp_distinct_iff by blast+
  moreover have "distinct (zero_nodes ind)"
    using assms(1) by (simp add: zero_nodes_def distinct_map_filter)
  moreover have "set (zero_nodes ind) = {v. map_of ind v = Some 0}"
    using assms(1) by (force simp: zero_nodes_def)
  ultimately have "kahn_inv es {} (\<lambda>_. 0) q ind"
    using assms(1-3) by (simp add: kahn_inv_def)
  from kahn_loop_inv [OF this, of srt] obtain ind' P r where
    L: "kahn_loop srt (children_of es) q ind 0 = Some (ind', card P)"
      "keys ind' = keys ind" and I: "kahn_inv es P r [] ind'"
    by auto
  have len: "length ind' = length ind" using L(2) by (metis length_map)
  have "P \<subseteq> fst ` set ind'"
    using I by (force simp: kahn_inv_def dest: map_of_SomeD)
  then have le: "card P \<le> length ind"
    using len by (metis List.finite_set card_length card_mono length_map list.set_map order_trans)
  have nz: "\<exists>p d. (p, d) \<in> set ind' \<and> d \<noteq> 0" if "card P \<noteq> length ind"
  proof (rule ccontr)
    assume "\<not> ?thesis"
    then have "map_of ind' v = Some 0" if "v \<in> fst ` set ind'" for v
      using kahn_inv_count [OF I that] by (metis map_of_SomeD)
    then have "fst ` set ind' \<subseteq> P"
      using kahn_inv_zero [OF I] by auto
    moreover have "finite P" using I unfolding kahn_inv_def by blast
    ultimately have "card (fst ` set ind') \<le> card P"
      by (simp add: card_mono)
    then show False
      using that le len I distinct_card [of "keys ind'"] by (simp add: kahn_inv_def)
  qed
  show thesis
    by (rule that [OF L le]) (use kahn_inv_acyclic [OF I] len nz in auto)
qed

end
