(* ===== verification/Pool_State.thy ===== *)
theory Pool_State
  imports Task_Types Kahn
begin

text \<open>
  The state of the pending pool, \<open>crates/dynrunner-scheduler-api/src/pending_pool/{types,pool}.rs\<close>:
  the buckets, the per-phase state machine, the task-dependency bookkeeping and the terminal sets,
  with the constructor \<open>PendingPool::new\<close> and the hydration setters of \<open>pool.rs\<close>.
\<close>

section \<open>Types (\<open>types.rs\<close>)\<close>

datatype phase_status = Blocked | Active | Draining | Drained | Done

type_synonym bucket_key = "phase_id \<times> type_id \<times> affinity_id"

record ('i, 'j) bucket =
  items :: "('i, 'j) task_info list"
  pinned_workers :: "worker_id list"

definition bucket_new :: "('i, 'j) bucket" where
  "bucket_new = \<lparr>items = [], pinned_workers = []\<rparr>"

datatype pending_pool_error =
    DependencyCycle phase_id
  | UnknownDependency phase_id
  | DuplicateTaskId task_id
  | UnknownTaskDep task_id task_id
  | TaskDepCycle "task_id list"

definition no_affinity :: affinity_id where
  "no_affinity = ''''"

definition affinity_key :: "('i, 'j) task_info \<Rightarrow> affinity_id" where
  "affinity_key t = (case affinity_id t of Some a \<Rightarrow> a | None \<Rightarrow> no_affinity)"

definition bucket_key :: "('i, 'j) task_info \<Rightarrow> bucket_key" where
  "bucket_key t = (phase_id t, type_id t, affinity_key t)"

text \<open>\<open>TaskReservation\<close> of \<open>reservation.rs\<close>.\<close>

record task_reservation =
  holder :: "((phase_id \<times> task_id) \<times> string) list"
  active :: bool

section \<open>The pool (\<open>pool.rs\<close>)\<close>

record ('i, 'j) pending_pool =
  buckets :: "(bucket_key \<times> ('i, 'j) bucket) list"
  phase_state :: "(phase_id \<times> phase_status) list"
  phase_deps :: "(phase_id \<times> phase_id list) list"
  in_flight_per_phase :: "(phase_id \<times> nat) list"
  worker_affinity :: "worker_id \<rightharpoonup> bucket_key option"
  drained_pending :: "phase_id list"
  task_deps :: "task_id \<rightharpoonup> task_id set"
  blocked :: "(task_id \<times> ('i, 'j) task_info) list"
  dependents_of :: "(task_id \<times> task_id list) list"
  completed_tasks :: "task_id set"
  failed_tasks :: "task_id set"
  soft_failed :: "(task_id \<times> phase_id) list"
  dormant_tasks :: "task_id set"
  affine_prereq_ids :: "task_id set"
  in_flight_tasks :: "task_id set"
  blocked_per_phase :: "(phase_id \<times> nat) list"
  reservation :: task_reservation

text \<open>\<open>PendingPool::iter\<close>: the queued items in bucket order.\<close>

definition bucket_items :: "(bucket_key \<times> ('i, 'j) bucket) list \<Rightarrow> ('i, 'j) task_info list" where
  "bucket_items bs = concat (map (\<lambda>kb. items (snd kb)) bs)"

abbreviation queued :: "('i, 'j) pending_pool \<Rightarrow> ('i, 'j) task_info list" where
  "queued p \<equiv> bucket_items (buckets p)"

abbreviation queued_ids :: "('i, 'j) pending_pool \<Rightarrow> task_id list" where
  "queued_ids p \<equiv> map task_id (queued p)"

abbreviation phase_status_of :: "('i, 'j) pending_pool \<Rightarrow> phase_id \<Rightarrow> phase_status option" where
  "phase_status_of p ph \<equiv> map_of (phase_state p) ph"

text \<open>
  \<open>self.buckets.entry(key).or_insert_with(Bucket::new).items.push_back(item)\<close> and \<open>push_front\<close>.
\<close>

definition push_back_item :: "('i, 'j) task_info \<Rightarrow> (bucket_key \<times> ('i, 'j) bucket) list \<Rightarrow>
    (bucket_key \<times> ('i, 'j) bucket) list" where
  "push_back_item t bs =
     bt_alter (bucket_key t)
       (\<lambda>ob. let b = (case ob of Some b \<Rightarrow> b | None \<Rightarrow> bucket_new) in b\<lparr>items := items b @ [t]\<rparr>) bs"

definition push_front_item :: "('i, 'j) task_info \<Rightarrow> (bucket_key \<times> ('i, 'j) bucket) list \<Rightarrow>
    (bucket_key \<times> ('i, 'j) bucket) list" where
  "push_front_item t bs =
     bt_alter (bucket_key t)
       (\<lambda>ob. let b = (case ob of Some b \<Rightarrow> b | None \<Rightarrow> bucket_new) in b\<lparr>items := t # items b\<rparr>) bs"

subsection \<open>\<open>PendingPool::new\<close>\<close>

definition new_indegree :: "phase_id list \<Rightarrow> (phase_id \<times> phase_id list) list \<Rightarrow> (phase_id \<times> nat) list" where
  "new_indegree phase_set deps =
     fold (\<lambda>(child, parents) ind. AList.update child (get_count ind child + length parents) ind)
       deps (map (\<lambda>p. (p, 0)) phase_set)"

definition new_edges :: "(phase_id \<times> phase_id list) list \<Rightarrow> (phase_id \<times> phase_id) list" where
  "new_edges deps = concat (map (\<lambda>(child, parents). map (\<lambda>parent. (parent, child)) parents) deps)"

definition initial_pool :: "phase_id list \<Rightarrow> (phase_id \<times> phase_id list) list \<Rightarrow> ('i, 'j) pending_pool" where
  "initial_pool phase_set deps =
     \<lparr>buckets = [],
      phase_state = map (\<lambda>p.
        (p, case map_of deps p of
              Some v \<Rightarrow> if v \<noteq> [] then Blocked else Active
            | None \<Rightarrow> Active)) phase_set,
      phase_deps = deps,
      in_flight_per_phase = map (\<lambda>p. (p, 0)) phase_set,
      worker_affinity = Map.empty,
      drained_pending = [],
      task_deps = Map.empty,
      blocked = [],
      dependents_of = [],
      completed_tasks = {},
      failed_tasks = {},
      soft_failed = [],
      dormant_tasks = {},
      affine_prereq_ids = {},
      in_flight_tasks = {},
      blocked_per_phase = [],
      reservation = \<lparr>holder = [], active = False\<rparr>\<rparr>"

text \<open>The outer \<open>None\<close> is a panic; \<open>phases\<close> may repeat a phase, the code collects them in a set.\<close>

definition pool_new :: "phase_id list \<Rightarrow> (phase_id \<times> phase_id list) list \<Rightarrow>
    (pending_pool_error + ('i, 'j) pending_pool) option" where
  "pool_new phases deps =
     (let phase_set = remdups phases in
      case find (\<lambda>parent. parent \<notin> set phase_set) (concat (map snd deps)) of
        Some parent \<Rightarrow> Some (Inl (UnknownDependency parent))
      | None \<Rightarrow>
     (case find (\<lambda>child. child \<notin> set phase_set) (keys deps) of
        Some child \<Rightarrow> Some (Inl (UnknownDependency child))
      | None \<Rightarrow>
     (let indegree = new_indegree phase_set deps in
      case kahn_loop False (children_of (new_edges deps)) (zero_nodes indegree) indegree 0 of
        None \<Rightarrow> None
      | Some (ind, visited) \<Rightarrow>
          if visited \<noteq> length phase_set then
            (case find (\<lambda>(_, d). d \<noteq> 0) ind of
               Some (p, _) \<Rightarrow> Some (Inl (DependencyCycle p))
             | None \<Rightarrow>
                 (case phase_set of
                    p # _ \<Rightarrow> Some (Inl (DependencyCycle p))
                  | [] \<Rightarrow> None))
          else Some (Inr (initial_pool phase_set deps)))))"

subsection \<open>Hydration setters\<close>

definition set_no_barrier_phases :: "phase_id list \<Rightarrow> ('i, 'j) pending_pool \<Rightarrow> ('i, 'j) pending_pool" where
  "set_no_barrier_phases phases p =
     fold (\<lambda>ph p. if phase_status_of p ph = Some Blocked
                   then p\<lparr>phase_state := AList.update ph Active (phase_state p)\<rparr> else p) phases p"

definition mark_tasks_completed :: "task_id list \<Rightarrow> ('i, 'j) pending_pool \<Rightarrow> ('i, 'j) pending_pool" where
  "mark_tasks_completed ids p = p\<lparr>completed_tasks := completed_tasks p \<union> set ids\<rparr>"

definition mark_tasks_failed :: "task_id list \<Rightarrow> ('i, 'j) pending_pool \<Rightarrow> ('i, 'j) pending_pool" where
  "mark_tasks_failed ids p = p\<lparr>failed_tasks := failed_tasks p \<union> set ids\<rparr>"

definition mark_tasks_failed_pending_retry ::
  "(task_id \<times> phase_id) list \<Rightarrow> ('i, 'j) pending_pool \<Rightarrow> ('i, 'j) pending_pool" where
  "mark_tasks_failed_pending_retry its p =
     fold (\<lambda>(id, ph) p. if id \<notin> failed_tasks p
                         then p\<lparr>soft_failed := AList.update id ph (soft_failed p)\<rparr> else p) its p"

definition mark_tasks_dormant :: "task_id list \<Rightarrow> ('i, 'j) pending_pool \<Rightarrow> ('i, 'j) pending_pool" where
  "mark_tasks_dormant ids p = p\<lparr>dormant_tasks := dormant_tasks p \<union> set ids\<rparr>"

definition mark_affine_prereqs :: "task_id list \<Rightarrow> ('i, 'j) pending_pool \<Rightarrow> ('i, 'j) pending_pool" where
  "mark_affine_prereqs ids p = p\<lparr>affine_prereq_ids := affine_prereq_ids p \<union> set ids\<rparr>"

definition mark_tasks_in_flight ::
  "(task_id \<times> phase_id) list \<Rightarrow> ('i, 'j) pending_pool \<Rightarrow> ('i, 'j) pending_pool" where
  "mark_tasks_in_flight its p =
     fold (\<lambda>(id, ph) p.
        if id \<notin> in_flight_tasks p
        then p\<lparr>in_flight_tasks := insert id (in_flight_tasks p),
               in_flight_per_phase := inc_count ph (in_flight_per_phase p)\<rparr>
        else p) its p"

section \<open>Buckets\<close>

text \<open>
  The buckets are sorted by key, and an item sits in the bucket its own phase, type and affinity name.
\<close>

definition buckets_wf :: "(bucket_key \<times> ('i, 'j) bucket) list \<Rightarrow> bool" where
  "buckets_wf bs \<longleftrightarrow> bt_sorted bs \<and> (\<forall>(k, b) \<in> set bs. \<forall>t \<in> set (items b). bucket_key t = k)"

lemma bucket_items_simps [simp]:
  "bucket_items [] = []"
  "bucket_items ((k, b) # bs) = items b @ bucket_items bs"
  by (simp_all add: bucket_items_def)

lemma bucket_items_mem: "t \<in> set (bucket_items bs) \<longleftrightarrow> (\<exists>k b. (k, b) \<in> set bs \<and> t \<in> set (items b))"
  by (force simp: bucket_items_def)

lemma mset_bucket_items_alter:
  assumes "bt_sorted bs" "\<And>ob. mset (items (f ob)) = add_mset t (mset (case ob of Some b \<Rightarrow> items b | None \<Rightarrow> []))"
  shows "mset (bucket_items (bt_alter k f bs)) = add_mset t (mset (bucket_items bs))"
  using assms by (induction k f bs rule: bt_alter.induct) (auto simp: less_le)

lemma mset_push_back [simp]:
  "bt_sorted bs \<Longrightarrow> mset (bucket_items (push_back_item t bs)) = add_mset t (mset (bucket_items bs))"
  unfolding push_back_item_def
  by (rule mset_bucket_items_alter) (auto simp: bucket_new_def Let_def split: option.split)

lemma mset_push_front [simp]:
  "bt_sorted bs \<Longrightarrow> mset (bucket_items (push_front_item t bs)) = add_mset t (mset (bucket_items bs))"
  unfolding push_front_item_def
  by (rule mset_bucket_items_alter) (auto simp: bucket_new_def Let_def split: option.split)

lemma buckets_wf_sorted [simp]: "buckets_wf bs \<Longrightarrow> bt_sorted bs"
  by (simp add: buckets_wf_def)

lemma buckets_wfD: "buckets_wf bs \<Longrightarrow> (k, b) \<in> set bs \<Longrightarrow> t \<in> set (items b) \<Longrightarrow> bucket_key t = k"
  unfolding buckets_wf_def by blast

lemma buckets_wfI:
  "bt_sorted bs \<Longrightarrow> (\<And>k b t. (k, b) \<in> set bs \<Longrightarrow> t \<in> set (items b) \<Longrightarrow> bucket_key t = k) \<Longrightarrow>
   buckets_wf bs"
  unfolding buckets_wf_def by blast

lemma buckets_wf_alter:
  assumes wf: "buckets_wf bs"
    and f: "\<And>ob t'. t' \<in> set (items (f ob)) \<Longrightarrow> t' = t \<or> (\<exists>b. ob = Some b \<and> t' \<in> set (items b))"
  shows "buckets_wf (bt_alter (bucket_key t) f bs)"
proof -
  let ?m = "bt_alter (bucket_key t) f bs"
  have sorted: "bt_sorted ?m" using wf by (simp add: bt_sorted_alter)
  have "bucket_key t' = k" if "(k, b) \<in> set ?m" "t' \<in> set (items b)" for k b t'
  proof -
    from that(1) sorted have "map_of ?m k = Some b"
      by (simp add: bt_sorted_distinct)
    with wf have m: "(if k = bucket_key t then Some (f (map_of bs k)) else map_of bs k) = Some b"
      by (simp add: map_of_bt_alter split: if_splits)
    have old: "bucket_key t' = k" if "map_of bs k = Some b'" "t' \<in> set (items b')" for b'
      using buckets_wfD [OF wf map_of_SomeD [OF that(1)] that(2)] .
    show ?thesis
    proof (cases "k = bucket_key t")
      case True
      with m that(2) f [of t' "map_of bs k"] old show ?thesis by auto
    qed (use m old that(2) in simp)
  qed
  with sorted show ?thesis by (rule buckets_wfI)
qed

lemma buckets_wf_push_back [simp]: "buckets_wf bs \<Longrightarrow> buckets_wf (push_back_item t bs)"
  unfolding push_back_item_def
  by (rule buckets_wf_alter) (auto simp: bucket_new_def Let_def split: option.splits)

lemma buckets_wf_push_front [simp]: "buckets_wf bs \<Longrightarrow> buckets_wf (push_front_item t bs)"
  unfolding push_front_item_def
  by (rule buckets_wf_alter) (auto simp: bucket_new_def Let_def split: option.splits)

text \<open>Replacing the content of existing buckets by a part of it.\<close>

lemma buckets_wf_map:
  "buckets_wf bs \<Longrightarrow> (\<And>k b. set (items (f k b)) \<subseteq> set (items b)) \<Longrightarrow>
   buckets_wf (map (\<lambda>(k, b). (k, f k b)) bs)"
  by (rule buckets_wfI) (auto, meson buckets_wfD subsetD)

lemma map_entry_as_map:
  "distinct (keys al) \<Longrightarrow> AList.map_entry k f al = map (\<lambda>(k', v). (k', if k' = k then f v else v)) al"
proof (induction al)
  case (Cons a al)
  have "map (\<lambda>(k', v). (k', if k' = k then f v else v)) al = al" if "k \<notin> fst ` set al"
    using that by (intro map_idI) (force split: if_splits)
  with Cons show ?case by (cases a) auto
qed simp

lemma buckets_wf_map_entry:
  assumes "buckets_wf bs" "\<And>b. set (items (f b)) \<subseteq> set (items b)"
  shows "buckets_wf (AList.map_entry k f bs)"
  using assms buckets_wf_map [of bs "\<lambda>k' b. if k' = k then f b else b"]
  by (simp add: map_entry_as_map bt_sorted_distinct)

lemma mset_bucket_items_map_entry:
  assumes "distinct (keys bs)" "map_of bs k = Some b"
  shows "mset (bucket_items (AList.map_entry k f bs)) + mset (items b)
       = mset (bucket_items bs) + mset (items (f b))"
  using assms by (induction bs) (auto split: if_splits)

section \<open>The phase graph\<close>

lemma edge_count_append: "edge_count (es @ es') P v = edge_count es P v + edge_count es' P v"
  by (simp add: edge_count_def)

lemma edge_count_parents:
  "edge_count (map (\<lambda>parent. (parent, c)) ps) {} v = (if v = c then length ps else 0)"
  by (simp add: edge_count_def comp_def)

lemma new_edges_Cons:
  "new_edges ((c, ps) # deps) = map (\<lambda>parent. (parent, c)) ps @ new_edges deps"
  by (simp add: new_edges_def)

lemma indegree_fold:
  assumes "distinct (keys ind)" "fst ` set deps \<subseteq> fst ` set ind"
  shows "(let r = fold (\<lambda>(child, parents) ind.
              AList.update child (get_count ind child + length parents) ind) deps ind
          in distinct (keys r) \<and> fst ` set r = fst ` set ind \<and> length r = length ind \<and>
             (\<forall>v \<in> fst ` set ind. map_of r v = Some (get_count ind v + edge_count (new_edges deps) {} v)))"
  using assms
proof (induction deps arbitrary: ind)
  case Nil
  then show ?case
    by (auto simp: Let_def get_count_def new_edges_def edge_count_def split: option.split)
next
  case (Cons d deps)
  obtain c ps where d: "d = (c, ps)" by (cases d)
  let ?ind = "AList.update c (get_count ind c + length ps) ind"
  have c: "c \<in> fst ` set ind" using Cons.prems d by auto
  have ks: "fst ` set ?ind = fst ` set ind" using c by auto
  have len: "length ?ind = length ind"
    using c by (metis length_map update_keys list.set_map)
  have g: "get_count ?ind v = get_count ind v + (if v = c then length ps else 0)" for v
    by (simp add: get_count_def)
  have "distinct (keys ?ind)" "fst ` set deps \<subseteq> fst ` set ?ind"
    using Cons.prems ks by auto
  from Cons.IH [OF this] show ?case
    unfolding d new_edges_Cons edge_count_append edge_count_parents
    using insert_absorb [OF c] by (simp add: Let_def g len add.assoc)
qed

lemma new_indegree_correct:
  assumes "distinct phase_set" "fst ` set deps \<subseteq> set phase_set"
  shows "distinct (keys (new_indegree phase_set deps))"
    "fst ` set (new_indegree phase_set deps) = set phase_set"
    "length (new_indegree phase_set deps) = length phase_set"
    "v \<in> set phase_set \<Longrightarrow>
       map_of (new_indegree phase_set deps) v = Some (edge_count (new_edges deps) {} v)"
proof -
  let ?ind = "map (\<lambda>p. (p, 0::nat)) phase_set"
  have k: "keys ?ind = phase_set" by (simp add: comp_def)
  have k': "fst ` set ?ind = set phase_set" by force
  have g: "get_count ?ind v = 0" for v
    by (auto simp: get_count_def map_of_eq_None_iff map_of_map_restrict restrict_map_def split: option.split)
  have "distinct (keys ?ind)" "fst ` set deps \<subseteq> fst ` set ?ind"
    unfolding k k' using assms .
  from indegree_fold [OF this]
  show "distinct (keys (new_indegree phase_set deps))"
    "fst ` set (new_indegree phase_set deps) = set phase_set"
    "length (new_indegree phase_set deps) = length phase_set"
    "v \<in> set phase_set \<Longrightarrow>
       map_of (new_indegree phase_set deps) v = Some (edge_count (new_edges deps) {} v)"
    unfolding new_indegree_def [symmetric] k' by (simp_all add: Let_def g)
qed

text \<open>The relation \<open>deps\<close> declares: \<open>(parent, child)\<close>.\<close>

definition phase_edges :: "(phase_id \<times> phase_id list) list \<Rightarrow> (phase_id \<times> phase_id) set" where
  "phase_edges deps = {(parent, child). \<exists>ps. (child, ps) \<in> set deps \<and> parent \<in> set ps}"

definition deps_closed :: "phase_id list \<Rightarrow> (phase_id \<times> phase_id list) list \<Rightarrow> bool" where
  "deps_closed phases deps \<longleftrightarrow>
     (\<forall>(child, ps) \<in> set deps. child \<in> set phases \<and> set ps \<subseteq> set phases)"

lemma set_new_edges: "set (new_edges deps) = phase_edges deps"
  by (force simp: new_edges_def phase_edges_def)

lemma pool_new_open:
  assumes "\<not> deps_closed phases deps"
  shows "\<exists>q. q \<notin> set phases \<and> pool_new phases deps = Some (Inl (UnknownDependency q))"
proof (cases "find (\<lambda>parent. parent \<notin> set phases) (concat (map snd deps))")
  case (Some q)
  then show ?thesis by (auto simp: pool_new_def Let_def dest!: find_SomeD)
next
  case None
  then have "\<forall>(child, ps) \<in> set deps. set ps \<subseteq> set phases"
    by (force simp: find_None_iff)
  with assms have "find (\<lambda>child. child \<notin> set phases) (keys deps) \<noteq> None"
    by (fastforce simp: find_None_iff deps_closed_def)
  then obtain q where "find (\<lambda>child. child \<notin> set phases) (keys deps) = Some q" by blast
  with None show ?thesis by (auto simp: pool_new_def Let_def dest!: find_SomeD)
qed

lemma pool_new_closed:
  assumes cl: "deps_closed phases deps"
  shows "if acyclic (phase_edges deps)
    then (pool_new phases deps :: (_ + ('i, 'j) pending_pool) option) = Some (Inr (initial_pool (remdups phases) deps))
    else \<exists>q. q \<in> set phases \<and> (pool_new phases deps :: (_ + ('i, 'j) pending_pool) option) = Some (Inl (DependencyCycle q))"
proof -
  let ?ps = "remdups phases"
  let ?ind = "new_indegree ?ps deps"
  have sub: "fst ` set deps \<subseteq> set ?ps" using cl by (auto simp: deps_closed_def)
  note ind = new_indegree_correct [OF distinct_remdups sub]
  have f1: "find (\<lambda>parent. parent \<notin> set phases) (concat (map snd deps)) = None"
    and f2: "find (\<lambda>child. child \<notin> set phases) (keys deps) = None"
    using cl by (fastforce simp: find_None_iff deps_closed_def)+
  have edges: "\<forall>(u, v) \<in> set (new_edges deps). u \<in> fst ` set ?ind \<and> v \<in> fst ` set ?ind"
    unfolding set_new_edges ind(2) using cl by (auto simp: phase_edges_def deps_closed_def)
  have cnt: "\<forall>v \<in> fst ` set ?ind. map_of ?ind v = Some (edge_count (new_edges deps) {} v)"
    unfolding ind(2) using ind(4) by blast
  from kahn_loop_correct [OF ind(1) cnt edges refl, of False] obtain ind' n where
    k: "kahn_loop False (children_of (new_edges deps)) (zero_nodes ?ind) ?ind 0 = Some (ind', n)"
      "keys ind' = keys ?ind" "n = length ?ind \<longleftrightarrow> acyclic (set (new_edges deps))"
      "n \<noteq> length ?ind \<Longrightarrow> \<exists>p d. (p, d) \<in> set ind' \<and> d \<noteq> 0"
    by metis
  show ?thesis
  proof (cases "acyclic (phase_edges deps)")
    case True
    then show ?thesis using k(1,3) f1 f2 ind(3) by (simp add: pool_new_def Let_def set_new_edges)
  next
    case False
    then have n: "n \<noteq> length ?ind" using k(3) by (simp add: set_new_edges)
    with k(4) obtain q d where q: "find (\<lambda>(_, d). d \<noteq> 0) ind' = Some (q, d)"
      by (cases "find (\<lambda>(_, d). d \<noteq> 0) ind'") (force simp: find_None_iff)+
    then have "q \<in> set (keys ind')" by (force dest: find_SomeD)
    then have "q \<in> set phases" unfolding k(2) using ind(2) by simp
    then show ?thesis
      using False k(1) f1 f2 n q ind(3) by (simp add: pool_new_def Let_def)
  qed
qed

lemma pool_new_Inr:
  assumes "pool_new phases deps = Some (Inr (p :: ('i, 'j) pending_pool))"
  shows "deps_closed phases deps" "acyclic (phase_edges deps)" "p = initial_pool (remdups phases) deps"
proof -
  show cl: "deps_closed phases deps"
    using assms pool_new_open [of phases deps, where ?'a = 'i and ?'b = 'j] by auto
  have *: "if acyclic (phase_edges deps)
    then (pool_new phases deps :: (_ + ('i, 'j) pending_pool) option) = Some (Inr (initial_pool (remdups phases) deps))
    else \<exists>q. q \<in> set phases \<and> (pool_new phases deps :: (_ + ('i, 'j) pending_pool) option) = Some (Inl (DependencyCycle q))"
    using cl by (rule pool_new_closed)
  show "acyclic (phase_edges deps)" "p = initial_pool (remdups phases) deps"
    using * assms by (auto split: if_splits)
qed

section \<open>The pool invariant\<close>

text \<open>
  The representation invariant of the pool, kept by every operation.

  \<^item> \<open>keys_wf\<close>: the hash maps have one entry per key.
  \<^item> \<open>deps_wf\<close>: \<open>task_deps\<close> has an entry for exactly the blocked tasks, non-empty, and it covers every
    declared prerequisite that is neither completed nor an affine one; every unresolved
    prerequisite lists its dependent in the reverse index \<open>dependents_of\<close>, so that its completion or
    failure will find it (a task already recorded as failed may be missing there).
  \<^item> \<open>counts_wf\<close>: \<open>blocked_per_phase\<close> counts the blocked tasks of each phase.
  \<^item> \<open>ids_wf\<close>: a task id occurs once among the queued and blocked tasks.
\<close>

definition keys_wf :: "('i, 'j) pending_pool \<Rightarrow> bool" where
  "keys_wf p \<longleftrightarrow>
     distinct (keys (phase_state p)) \<and> distinct (keys (in_flight_per_phase p)) \<and>
     distinct (keys (dependents_of p)) \<and> distinct (keys (soft_failed p)) \<and>
     distinct (keys (blocked_per_phase p))"

definition deps_wf :: "('i, 'j) pending_pool \<Rightarrow> bool" where
  "deps_wf p \<longleftrightarrow>
     (\<forall>tid t. (tid, t) \<in> set (blocked p) \<longrightarrow> task_id t = tid \<and>
        (\<exists>D. task_deps p tid = Some D \<and> D \<noteq> {} \<and>
           D \<subseteq> set (dep_ids t) \<and> set (dep_ids t) \<subseteq> completed_tasks p \<union> affine_prereq_ids p \<union> D)) \<and>
     (\<forall>tid D d. task_deps p tid = Some D \<longrightarrow> tid \<in> fst ` set (blocked p) \<and>
        (d \<in> D \<longrightarrow> tid \<in> failed_tasks p \<or>
           (\<exists>l. map_of (dependents_of p) d = Some l \<and> tid \<in> set l)))"

definition blocked_count :: "('i, 'j) pending_pool \<Rightarrow> phase_id \<Rightarrow> nat" where
  "blocked_count p ph = length (filter (\<lambda>(_, t). phase_id t = ph) (blocked p))"

definition counts_wf :: "('i, 'j) pending_pool \<Rightarrow> bool" where
  "counts_wf p \<longleftrightarrow> (\<forall>ph. get_count (blocked_per_phase p) ph = blocked_count p ph)"

definition ids_wf :: "('i, 'j) pending_pool \<Rightarrow> bool" where
  "ids_wf p \<longleftrightarrow> distinct (queued_ids p @ keys (blocked p))"

definition pool_wf :: "('i, 'j) pending_pool \<Rightarrow> bool" where
  "pool_wf p \<longleftrightarrow> buckets_wf (buckets p) \<and> keys_wf p \<and> deps_wf p \<and> counts_wf p \<and> ids_wf p"

text \<open>The tasks the pool holds: queued and blocked.\<close>

abbreviation live_tasks :: "('i, 'j) pending_pool \<Rightarrow> ('i, 'j) task_info multiset" where
  "live_tasks p \<equiv> mset (queued p) + mset (map snd (blocked p))"

abbreviation live_ids :: "('i, 'j) pending_pool \<Rightarrow> task_id set" where
  "live_ids p \<equiv> task_id ` set (queued p) \<union> fst ` set (blocked p)"

lemma pool_wf_initial: "distinct phase_set \<Longrightarrow> pool_wf (initial_pool phase_set deps)"
  by (simp add: pool_wf_def keys_wf_def deps_wf_def counts_wf_def ids_wf_def blocked_count_def
      initial_pool_def buckets_wf_def get_count_def comp_def)

lemma deps_wfI:
  assumes "\<And>tid t. (tid, t) \<in> set (blocked p) \<Longrightarrow> task_id t = tid"
    and "\<And>tid t. (tid, t) \<in> set (blocked p) \<Longrightarrow> \<exists>D. task_deps p tid = Some D \<and> D \<noteq> {} \<and>
        D \<subseteq> set (dep_ids t) \<and> set (dep_ids t) \<subseteq> completed_tasks p \<union> affine_prereq_ids p \<union> D"
    and "\<And>tid D. task_deps p tid = Some D \<Longrightarrow> tid \<in> fst ` set (blocked p)"
    and "\<And>tid D d. task_deps p tid = Some D \<Longrightarrow> d \<in> D \<Longrightarrow> tid \<notin> failed_tasks p \<Longrightarrow>
        \<exists>l. map_of (dependents_of p) d = Some l \<and> tid \<in> set l"
  shows "deps_wf p"
  unfolding deps_wf_def using assms by blast

lemma deps_wfD:
  assumes "deps_wf p"
  shows "(tid, t) \<in> set (blocked p) \<Longrightarrow> task_id t = tid"
    and "(tid, t) \<in> set (blocked p) \<Longrightarrow> \<exists>D. task_deps p tid = Some D \<and> D \<noteq> {} \<and>
        D \<subseteq> set (dep_ids t) \<and> set (dep_ids t) \<subseteq> completed_tasks p \<union> affine_prereq_ids p \<union> D"
    and "task_deps p tid = Some D \<Longrightarrow> tid \<in> fst ` set (blocked p)"
    and "task_deps p tid = Some D \<Longrightarrow> d \<in> D \<Longrightarrow> tid \<notin> failed_tasks p \<Longrightarrow>
        \<exists>l. map_of (dependents_of p) d = Some l \<and> tid \<in> set l"
  using assms unfolding deps_wf_def by blast+

lemma pool_wfD:
  assumes "pool_wf p"
  shows "buckets_wf (buckets p)" "keys_wf p" "deps_wf p" "counts_wf p" "ids_wf p"
  using assms by (simp_all add: pool_wf_def)

lemma pool_wfI:
  "buckets_wf (buckets p) \<Longrightarrow> keys_wf p \<Longrightarrow> deps_wf p \<Longrightarrow> counts_wf p \<Longrightarrow> ids_wf p \<Longrightarrow> pool_wf p"
  by (simp add: pool_wf_def)

text \<open>
  Framing: an operation that leaves the blocked side of the pool alone, apart from growing the
  terminal sets, keeps the part of the invariant about it.
\<close>

lemma pool_wf_frame:
  assumes "pool_wf p"
    and "blocked q = blocked p" "task_deps q = task_deps p" "dependents_of q = dependents_of p"
      "blocked_per_phase q = blocked_per_phase p"
      "completed_tasks p \<subseteq> completed_tasks q" "affine_prereq_ids p \<subseteq> affine_prereq_ids q"
      "failed_tasks p \<subseteq> failed_tasks q"
    and "distinct (keys (phase_state q))" "distinct (keys (in_flight_per_phase q))"
      "distinct (keys (soft_failed q))"
    and "buckets_wf (buckets q)" "ids_wf q"
  shows "pool_wf q"
proof (rule pool_wfI)
  note wf = pool_wfD [OF assms(1)]
  show "keys_wf q" "counts_wf q"
    using wf assms by (simp_all add: keys_wf_def counts_wf_def blocked_count_def)
  show "deps_wf q"
  proof (rule deps_wfI)
    fix tid t assume b: "(tid, t) \<in> set (blocked q)"
    show "task_id t = tid" using b assms(2) deps_wfD(1) [OF wf(3)] by simp
    show "\<exists>D. task_deps q tid = Some D \<and> D \<noteq> {} \<and> D \<subseteq> set (dep_ids t) \<and>
        set (dep_ids t) \<subseteq> completed_tasks q \<union> affine_prereq_ids q \<union> D"
      using b assms(2,3,6,7) deps_wfD(2) [OF wf(3), of tid t] by fastforce
  next
    fix tid D d assume d: "task_deps q tid = Some D"
    show "tid \<in> fst ` set (blocked q)" using d assms(2,3) deps_wfD(3) [OF wf(3)] by simp
    assume "d \<in> D" "tid \<notin> failed_tasks q"
    then show "\<exists>l. map_of (dependents_of q) d = Some l \<and> tid \<in> set l"
      using d assms(3,4,8) deps_wfD(4) [OF wf(3), of tid D d] by auto
  qed
qed (use assms in auto)

lemma pool_wf_keys:
  assumes "pool_wf p"
  shows "distinct (keys (phase_state p))" "distinct (keys (in_flight_per_phase p))"
    "distinct (keys (dependents_of p))" "distinct (keys (soft_failed p))"
    "distinct (keys (blocked_per_phase p))" "distinct (keys (blocked p))"
  using assms by (simp_all add: pool_wf_def keys_wf_def ids_wf_def)

lemma live_ids_tasks:
  assumes "deps_wf p"
  shows "live_ids p = task_id ` set_mset (live_tasks p)"
    "image_mset task_id (live_tasks p) = mset (queued_ids p @ keys (blocked p))"
    "map (task_id \<circ> snd) (blocked p) = keys (blocked p)"
proof -
  show m: "map (task_id \<circ> snd) (blocked p) = keys (blocked p)"
    using deps_wfD(1) [OF assms] by (auto intro!: map_cong)
  then have k: "image_mset task_id (mset (map snd (blocked p))) = mset (keys (blocked p))"
    using m by (metis map_map mset_map)
  show "image_mset task_id (live_tasks p) = mset (queued_ids p @ keys (blocked p))"
    unfolding image_mset_union k by simp
  have "task_id ` snd ` set (blocked p) = fst ` set (blocked p)"
    using arg_cong [OF k, of set_mset] by simp
  then show "live_ids p = task_id ` set_mset (live_tasks p)" by (simp add: image_Un)
qed

lemma update_new [simp]: "k \<notin> fst ` set al \<Longrightarrow> AList.update k v al = al @ [(k, v)]"
  by (induction al) auto

section \<open>Sample tasks\<close>

text \<open>A plain work task, for the concrete instances of the properties.\<close>

definition sample_task :: "phase_id \<Rightarrow> task_id \<Rightarrow> task_id list \<Rightarrow> (unit, unit) task_info" where
  "sample_task ph tid deps =
     \<lparr>path = ''f'', task_size = 1, task_identifier = (), phase_id = ph, type_id = ''t'', kind = Work,
      setup_affinity = None, upload_file = None, required_files = None, affinity_id = None,
      payload = (), task_id = tid,
      task_depends_on = map (\<lambda>d. \<lparr>dep_task_id = d, dep_phase_id = ph, inherit_outputs = False,
                                    dep_def_id = None\<rparr>) deps,
      preferred_secondaries = [], preferred_version = default_version, resolved_path = None\<rparr>"

lemma sample_task_simps [simp]:
  "task_id (sample_task ph tid deps) = tid" "phase_id (sample_task ph tid deps) = ph"
  "dep_ids (sample_task ph tid deps) = deps" "kind (sample_task ph tid deps) = Work"
  "bucket_key (sample_task ph tid deps) = (ph, ''t'', '''')"
  by (simp_all add: sample_task_def bucket_key_def affinity_key_def no_affinity_def comp_def)

text \<open>One active phase \<open>p\<close>.\<close>

definition sample_pool :: "(unit, unit) pending_pool" where
  "sample_pool = initial_pool [''p''] []"

lemma sample_pool_wf: "pool_wf sample_pool"
  by (simp add: sample_pool_def pool_wf_initial)

section \<open>Properties\<close>

text \<open>
  the constructor accepts exactly the well-formed phase graphs. \<open>PendingPool::new\<close> never panics. It
  returns a pool when every phase a dependency names is declared and the graph has no cycle, with
  the phases that have no dependency active and the others blocked; otherwise it reports an
  undeclared phase, or a phase of a cyclic graph.
\<close>

theorem pool_new_correct:
  "case (pool_new phases deps :: (pending_pool_error + ('i, 'j) pending_pool) option) of
     Some (Inr p) \<Rightarrow> deps_closed phases deps \<and> acyclic (phase_edges deps) \<and>
       p = initial_pool (remdups phases) deps
   | Some (Inl (UnknownDependency q)) \<Rightarrow> \<not> deps_closed phases deps \<and> q \<notin> set phases
   | Some (Inl (DependencyCycle q)) \<Rightarrow> deps_closed phases deps \<and> \<not> acyclic (phase_edges deps) \<and> q \<in> set phases
   | _ \<Rightarrow> False"
proof (cases "deps_closed phases deps")
  case True
  show ?thesis using pool_new_closed [OF True, where ?'i = 'i and ?'j = 'j] True by (cases "acyclic (phase_edges deps)") auto
next
  case False
  show ?thesis using pool_new_open [OF False, where ?'a = 'i and ?'b = 'j] False by auto
qed

end
