(* ===== verification/Pool_Extend.thy ===== *)
theory Pool_Extend
  imports Pool_State
begin

text \<open>
  Ingest: \<open>pending_pool/extend.rs\<close> (\<open>extend\<close>, \<open>commit_item\<close>, the known-id collectors) and
  \<open>pending_pool/partition.rs\<close> (\<open>partition_ingest\<close>).
\<close>

section \<open>Known identities\<close>

definition collect_known_task_ids :: "('i, 'j) pending_pool \<Rightarrow> task_id set" where
  "collect_known_task_ids p =
     set (queued_ids p) \<union> set (keys (blocked p)) \<union> completed_tasks p \<union> failed_tasks p
     \<union> set (keys (soft_failed p)) \<union> dormant_tasks p \<union> in_flight_tasks p"

definition collect_known_phase_task_ids :: "('i, 'j) pending_pool \<Rightarrow> (phase_id \<times> task_id) list" where
  "collect_known_phase_task_ids p = map ident (queued p) @ map (\<lambda>(_, t). ident t) (blocked p)"

text \<open>
  \<open>unresolved_deps\<close> returns a hash set; the list is that set in one iteration order, without repeats.
\<close>

definition unresolved_deps :: "('i, 'j) pending_pool \<Rightarrow> ('i, 'j) task_info \<Rightarrow> task_id list" where
  "unresolved_deps p t =
     remdups (filter (\<lambda>id. id \<notin> completed_tasks p \<and> id \<notin> affine_prereq_ids p) (dep_ids t))"

section \<open>\<open>commit_item\<close>\<close>

definition push_dependent ::
  "task_id \<Rightarrow> task_id \<Rightarrow> (task_id \<times> task_id list) list \<Rightarrow> (task_id \<times> task_id list) list" where
  "push_dependent tid dep m =
     AList.update dep (lookup_list m dep @ [tid]) m"

definition commit_item :: "('i, 'j) task_info \<Rightarrow> ('i, 'j) pending_pool \<Rightarrow> ('i, 'j) pending_pool" where
  "commit_item t p =
     (if \<exists>d \<in> set (dep_ids t). d \<in> failed_tasks p
      then p\<lparr>failed_tasks := insert (task_id t) (failed_tasks p)\<rparr>
      else let unresolved = unresolved_deps p t in
        if unresolved = [] then p\<lparr>buckets := push_back_item t (buckets p)\<rparr>
        else p\<lparr>dependents_of := fold (push_dependent (task_id t)) unresolved (dependents_of p),
               task_deps := (task_deps p)(task_id t \<mapsto> set unresolved),
               blocked_per_phase := inc_count (phase_id t) (blocked_per_phase p),
               blocked := AList.update (task_id t) t (blocked p)\<rparr>)"

section \<open>\<open>extend\<close>\<close>

text \<open>\<open>seen_in_batch\<close>: the first item whose identity an earlier item of the batch has.\<close>

fun first_batch_duplicate :: "(phase_id \<times> task_id) set \<Rightarrow> ('i, 'j) task_info list \<Rightarrow> task_id option" where
  "first_batch_duplicate seen [] = None"
| "first_batch_duplicate seen (t # ts) =
     (if ident t \<in> seen then Some (task_id t) else first_batch_duplicate (insert (ident t) seen) ts)"

text \<open>The in-degree map and the edge list that the closure \<open>add_edges\<close> builds.\<close>

type_synonym node = "phase_id \<times> task_id"

definition or_insert_zero :: "node \<Rightarrow> (node \<times> nat) list \<Rightarrow> (node \<times> nat) list" where
  "or_insert_zero k ind = (if k \<in> set (keys ind) then ind else AList.update k 0 ind)"

definition add_edge :: "(task_id \<Rightarrow> bool) \<Rightarrow> node \<Rightarrow> task_dep \<Rightarrow>
    (node \<times> nat) list \<times> (node \<times> node) list \<Rightarrow> (node \<times> nat) list \<times> (node \<times> node) list" where
  "add_edge pre_resolved node dep g =
     (if pre_resolved (dep_task_id dep) then g
      else (or_insert_zero (dep_ident dep) (inc_count node (fst g)), snd g @ [(dep_ident dep, node)]))"

definition add_edges :: "(task_id \<Rightarrow> bool) \<Rightarrow> ('i, 'j) task_info \<Rightarrow>
    (node \<times> nat) list \<times> (node \<times> node) list \<Rightarrow> (node \<times> nat) list \<times> (node \<times> node) list" where
  "add_edges pre_resolved t g =
     fold (add_edge pre_resolved (ident t)) (task_depends_on t) (or_insert_zero (ident t) (fst g), snd g)"

definition pre_resolved :: "('i, 'j) pending_pool \<Rightarrow> task_id \<Rightarrow> bool" where
  "pre_resolved p d \<longleftrightarrow> d \<in> completed_tasks p \<or> d \<in> failed_tasks p"

definition union_graph :: "('i, 'j) pending_pool \<Rightarrow> ('i, 'j) task_info list \<Rightarrow>
    (node \<times> nat) list \<times> (node \<times> node) list" where
  "union_graph p its = fold (add_edges (pre_resolved p)) (map snd (blocked p) @ its) ([], [])"

text \<open>
  The walk that names the offenders when the sort left nodes over. Every successor it takes has a
  residual in-degree, so it stays among the keys of \<open>residual\<close> and meets a visited node or stops.
\<close>

definition next_in_walk :: "(node \<Rightarrow> node list) \<Rightarrow> (node \<times> nat) list \<Rightarrow> node \<Rightarrow> node option" where
  "next_in_walk ch residual cur =
     (case filter (\<lambda>c. get_count residual c \<noteq> 0) (ch cur) of
        [] \<Rightarrow> None
      | c # cs \<Rightarrow> Some (fold min cs c))"

lemma next_in_walk_key:
  assumes "next_in_walk ch residual cur = Some n"
  shows "n \<in> fst ` set residual"
proof -
  have "get_count residual n \<noteq> 0"
  proof -
    obtain c cs where f: "filter (\<lambda>c. get_count residual c \<noteq> 0) (ch cur) = c # cs"
      and n: "n = fold min cs c"
      using assms by (auto simp: next_in_walk_def split: list.splits)
    have "fold min xs y \<in> insert y (set xs)" for xs :: "node list" and y
      by (induction xs arbitrary: y) (auto simp: min_def split: if_splits)
    then have "n \<in> set (c # cs)" unfolding n by (metis list.simps(15))
    then show ?thesis unfolding f [symmetric] by simp
  qed
  then show ?thesis
    by (auto simp: get_count_def split: option.splits dest!: map_of_SomeD intro: rev_image_eqI)
qed

function cycle_walk :: "(node \<Rightarrow> node list) \<Rightarrow> (node \<times> nat) list \<Rightarrow> node \<Rightarrow> node list \<Rightarrow> task_id list" where
  "cycle_walk ch residual cur visited_walk =
     (if cur \<in> set visited_walk then []
      else snd cur # (case next_in_walk ch residual cur of
        Some n \<Rightarrow> cycle_walk ch residual n (cur # visited_walk)
      | None \<Rightarrow> []))"
  by pat_completeness auto
termination
proof (relation "measure (\<lambda>(ch, residual, cur, vis). card (insert cur (fst ` set residual) - set vis))")
  fix ch :: "node \<Rightarrow> node list" and residual cur vis n
  assume *: "cur \<notin> set vis" "next_in_walk ch residual cur = Some n"
  let ?K = "fst ` set residual"
  have "n \<in> ?K" using *(2) by (rule next_in_walk_key)
  then have "insert n ?K - set (cur # vis) = (insert cur ?K - set vis) - {cur}" by auto
  moreover have "cur \<in> insert cur ?K - set vis" using *(1) by simp
  ultimately show "((ch, residual, n, cur # vis), ch, residual, cur, vis)
      \<in> measure (\<lambda>(ch, residual, cur, vis). card (insert cur (fst ` set residual) - set vis))"
    by (simp add: card_Diff_singleton_if card_gt_0_iff)
qed simp

declare cycle_walk.simps [simp del]

text \<open>
  The result \<open>None\<close> is a panic; an \<open>Inl\<close> error leaves the pool as it was, because the code writes to
  it in the commit loop only.
\<close>

definition pool_extend :: "('i, 'j) task_info list \<Rightarrow> ('i, 'j) pending_pool \<Rightarrow>
    (pending_pool_error + ('i, 'j) pending_pool) option" where
  "pool_extend new_items p =
     (let pool_full = set (collect_known_phase_task_ids p);
          known_ids_phaseless = collect_known_task_ids p
      in case first_batch_duplicate {} new_items of
        Some tid \<Rightarrow> Some (Inl (DuplicateTaskId tid))
      | None \<Rightarrow>
     (case find (\<lambda>t. ident t \<in> pool_full \<or> task_id t \<in> known_ids_phaseless) new_items of
        Some t \<Rightarrow> Some (Inl (DuplicateTaskId (task_id t)))
      | None \<Rightarrow>
     (let known_full = pool_full \<union> set (map ident new_items) in
      case find (\<lambda>(t, d). \<not> (dep_ident d \<in> known_full \<or> dep_task_id d \<in> known_ids_phaseless))
             (concat (map (\<lambda>t. map (\<lambda>d. (t, d)) (task_depends_on t)) new_items)) of
        Some (t, d) \<Rightarrow> Some (Inl (UnknownTaskDep (dep_task_id d) (task_id t)))
      | None \<Rightarrow>
     (let (indegree, edges) = union_graph p new_items;
          ch = children_of edges
      in case kahn_loop True ch (sort (zero_nodes indegree)) indegree 0 of
        None \<Rightarrow> None
      | Some (residual, visited) \<Rightarrow>
          if visited \<noteq> length residual then
            Some (Inl (TaskDepCycle
              (case sort (map fst (filter (\<lambda>(_, d). d \<noteq> 0) residual)) of
                 [] \<Rightarrow> []
               | first # _ \<Rightarrow> cycle_walk ch residual first [])))
          else Some (Inr (fold commit_item new_items p))))))"

section \<open>\<open>partition_ingest\<close>\<close>

record ('i, 'j) ingest_partition =
  valid :: "('i, 'j) task_info list"
  invalid_deps :: "(('i, 'j) task_info \<times> string) list"
  duplicates :: "(('i, 'j) task_info \<times> string) list"

definition format_ident :: "phase_id \<Rightarrow> task_id \<Rightarrow> string" where
  "format_ident ph tid = ''(phase='' @ ph @ '', task_id='' @ tid @ '')''"

fun join_strings :: "string \<Rightarrow> string list \<Rightarrow> string" where
  "join_strings sep [] = ''''"
| "join_strings sep [x] = x"
| "join_strings sep (x # y # ys) = x @ sep @ join_strings sep (y # ys)"

definition partition_step :: "('i, 'j) pending_pool \<Rightarrow> node set \<Rightarrow> ('i, 'j) task_info \<Rightarrow>
    node set \<times> ('i, 'j) ingest_partition \<Rightarrow> node set \<times> ('i, 'j) ingest_partition" where
  "partition_step p known_full t s =
     (let (seen_in_batch, result) = s in
      if ident t \<in> seen_in_batch \<or> ident t \<in> set (collect_known_phase_task_ids p)
           \<or> task_id t \<in> collect_known_task_ids p then
        (seen_in_batch,
         result\<lparr>duplicates := duplicates result
           @ [(t, ''duplicate task identity '' @ format_ident (phase_id t) (task_id t))]\<rparr>)
      else
        let missing = map (\<lambda>d. format_ident (dep_phase_id d) (dep_task_id d))
              (filter (\<lambda>d. \<not> (dep_ident d \<in> known_full \<or> dep_task_id d \<in> collect_known_task_ids p))
                 (task_depends_on t))
        in if missing \<noteq> [] then
             (insert (ident t) seen_in_batch,
              result\<lparr>invalid_deps := invalid_deps result
                @ [(t, ''missing dep '' @ join_strings '', '' missing)]\<rparr>)
           else (insert (ident t) seen_in_batch, result\<lparr>valid := valid result @ [t]\<rparr>))"

definition partition_ingest :: "('i, 'j) task_info list \<Rightarrow> ('i, 'j) pending_pool \<Rightarrow> ('i, 'j) ingest_partition" where
  "partition_ingest new_items p =
     (let known_full = set (collect_known_phase_task_ids p) \<union> set (map ident new_items) in
      snd (fold (partition_step p known_full) new_items
             ({}, \<lparr>valid = [], invalid_deps = [], duplicates = []\<rparr>)))"

section \<open>\<open>commit_item\<close> keeps the invariant\<close>

lemma set_unresolved_deps:
  "set (unresolved_deps p t) = set (dep_ids t) - completed_tasks p - affine_prereq_ids p"
  by (auto simp: unresolved_deps_def)

lemma distinct_unresolved [simp]: "distinct (unresolved_deps p t)"
  by (simp add: unresolved_deps_def)

lemma push_dependent_lookup:
  "map_of (fold (push_dependent tid) ds m) d =
     (if d \<in> set ds then Some (lookup_list m d @ replicate (count_list ds d) tid)
      else map_of m d)"
proof (induction ds arbitrary: m)
  case (Cons a ds)
  then show ?case
    by (auto simp: push_dependent_def lookup_list_def count_list_0_iff replicate_app_Cons_same
        split: option.splits)
qed simp

lemma distinct_push_dependents [simp]:
  "distinct (keys m) \<Longrightarrow> distinct (keys (fold (push_dependent tid) ds m))"
  by (induction ds arbitrary: m) (auto simp: push_dependent_def)

lemma push_dependent_keeps:
  "map_of m d = Some l \<Longrightarrow> x \<in> set l \<Longrightarrow>
   \<exists>l'. map_of (fold (push_dependent tid) ds m) d = Some l' \<and> x \<in> set l'"
  by (simp add: push_dependent_lookup lookup_list_def)

lemma push_dependent_adds:
  "d \<in> set ds \<Longrightarrow> \<exists>l'. map_of (fold (push_dependent tid) ds m) d = Some l' \<and> tid \<in> set l'"
  by (simp add: push_dependent_lookup count_list_0_iff)

lemma commit_item_cases [case_names failed ready wait]:
  obtains (failed) d where "d \<in> set (dep_ids t)" "d \<in> failed_tasks p"
      "commit_item t p = p\<lparr>failed_tasks := insert (task_id t) (failed_tasks p)\<rparr>"
  | (ready) "set (dep_ids t) \<inter> failed_tasks p = {}"
      "set (dep_ids t) \<subseteq> completed_tasks p \<union> affine_prereq_ids p"
      "commit_item t p = p\<lparr>buckets := push_back_item t (buckets p)\<rparr>"
  | (wait) "set (dep_ids t) \<inter> failed_tasks p = {}" "unresolved_deps p t \<noteq> []"
      "commit_item t p =
         p\<lparr>dependents_of := fold (push_dependent (task_id t)) (unresolved_deps p t) (dependents_of p),
           task_deps := (task_deps p)(task_id t \<mapsto> set (unresolved_deps p t)),
           blocked_per_phase := inc_count (phase_id t) (blocked_per_phase p),
           blocked := AList.update (task_id t) t (blocked p)\<rparr>"
proof (cases "\<exists>d \<in> set (dep_ids t). d \<in> failed_tasks p")
  case True
  then obtain d where "d \<in> set (dep_ids t)" "d \<in> failed_tasks p" by blast
  then show ?thesis by (intro failed) (auto simp: commit_item_def)
next
  case False
  show ?thesis
  proof (cases "unresolved_deps p t = []")
    case True
    then have "set (dep_ids t) \<subseteq> completed_tasks p \<union> affine_prereq_ids p"
      using set_unresolved_deps [of p t] by auto
    with False True show ?thesis by (intro ready) (auto simp: commit_item_def)
  next
    case False': False
    with False show ?thesis by (intro wait) (auto simp: commit_item_def Let_def)
  qed
qed

text \<open>
  The invariant is kept even when the committed item is judged by fewer completed tasks than the
  blocked items were: \<open>reinject\<close> takes a completed task back before it commits its dependents again.
\<close>

lemma commit_item_wf_weak:
  assumes wf: "pool_wf (p\<lparr>completed_tasks := C\<rparr>)" and C: "completed_tasks p \<subseteq> C"
    and new: "task_id t \<notin> live_ids p"
  shows "pool_wf ((commit_item t p)\<lparr>completed_tasks := C\<rparr>)"
proof (cases rule: commit_item_cases [of t p])
  case (failed d)
  then show ?thesis
    using pool_wfD [OF wf] pool_wf_keys [OF wf]
    by (intro pool_wf_frame [OF wf]) (auto simp: ids_wf_def)
next
  case ready
  have "mset (queued_ids (commit_item t p)) = add_mset (task_id t) (mset (queued_ids p))"
    using pool_wfD(1) [OF wf] by (simp add: ready)
  then have "distinct (queued_ids (commit_item t p) @ keys (blocked p)) \<longleftrightarrow>
      distinct ((task_id t # queued_ids p) @ keys (blocked p))"
    by (intro mset_eq_imp_distinct_iff) simp
  then have "ids_wf ((commit_item t p)\<lparr>completed_tasks := C\<rparr>)"
    using pool_wfD(5) [OF wf] new by (simp add: ids_wf_def ready)
  then show ?thesis
    using pool_wfD(1) [OF wf] pool_wf_keys [OF wf]
    by (intro pool_wf_frame [OF wf]) (simp_all add: ready)
next
  case wait
  let ?q = "(commit_item t p)\<lparr>completed_tasks := C\<rparr>"
  note D = deps_wfD [OF pool_wfD(3) [OF wf], simplified]
  have bl: "blocked ?q = blocked p @ [(task_id t, t)]" using new by (simp add: wait(3))
  then have "counts_wf ?q" "ids_wf ?q" "keys_wf ?q"
    using wf new by (auto simp: counts_wf_def pool_wf_def blocked_count_def wait(3) ids_wf_def keys_wf_def)
  moreover have "deps_wf ?q"
  proof (rule deps_wfI)
    fix tid
    show "task_id x = tid" if "(tid, x) \<in> set (blocked ?q)" for x
      using that bl D(1) by auto
    show "\<exists>D. task_deps ?q tid = Some D \<and> D \<noteq> {} \<and> D \<subseteq> set (dep_ids x) \<and>
        set (dep_ids x) \<subseteq> completed_tasks ?q \<union> affine_prereq_ids ?q \<union> D"
      if "(tid, x) \<in> set (blocked ?q)" for x
    proof (cases "tid = task_id t")
      case True
      with that bl new have "x = t" by (force simp: rev_image_eqI)
      moreover have "set (unresolved_deps p t) \<noteq> {}" using wait(2) by simp
      ultimately show ?thesis
        using True set_unresolved_deps [of p t] C
        by (intro exI [of _ "set (unresolved_deps p t)"]) (auto simp: wait(3))
    next
      case False
      with that bl have "(tid, x) \<in> set (blocked p)" by auto
      from D(2) [OF this] False show ?thesis by (simp add: wait(3))
    qed
    show "tid \<in> fst ` set (blocked ?q)" if "task_deps ?q tid = Some E" for E
      using that D(3) [of tid] bl by (auto simp: wait(3) split: if_splits)
    show "\<exists>l. map_of (dependents_of ?q) d = Some l \<and> tid \<in> set l"
      if "task_deps ?q tid = Some E" "d \<in> E" "tid \<notin> failed_tasks ?q" for E d
    proof (cases "tid = task_id t")
      case True
      with that show ?thesis by (simp add: wait(3)) (metis push_dependent_adds)
    next
      case False
      with that D(4) [of tid E d] show ?thesis
        by (simp add: wait(3)) (metis push_dependent_keeps)
    qed
  qed
  ultimately show ?thesis using pool_wfD(1) [OF wf] by (simp add: pool_wf_def wait(3))
qed

lemma commit_item_frame:
  "completed_tasks (commit_item t p) = completed_tasks p \<and> affine_prereq_ids (commit_item t p) = affine_prereq_ids p \<and>
   in_flight_per_phase (commit_item t p) = in_flight_per_phase p \<and> phase_state (commit_item t p) = phase_state p \<and>
   soft_failed (commit_item t p) = soft_failed p \<and> in_flight_tasks (commit_item t p) = in_flight_tasks p"
  by (cases rule: commit_item_cases [of t p]) simp_all

lemma commit_item_fields [simp]:
  "completed_tasks (commit_item t p) = completed_tasks p"
  "affine_prereq_ids (commit_item t p) = affine_prereq_ids p"
  "in_flight_per_phase (commit_item t p) = in_flight_per_phase p"
  "phase_state (commit_item t p) = phase_state p"
  "soft_failed (commit_item t p) = soft_failed p"
  by (simp_all add: commit_item_frame)

lemma commit_item_wf:
  assumes "pool_wf p" "task_id t \<notin> live_ids p"
  shows "pool_wf (commit_item t p)"
proof -
  have id: "q\<lparr>completed_tasks := completed_tasks q\<rparr> = q" for q :: "('a, 'b) pending_pool" by simp
  have "pool_wf ((commit_item t p)\<lparr>completed_tasks := completed_tasks p\<rparr>)"
    using commit_item_wf_weak [where p = p and C = "completed_tasks p" and t = t] assms by simp
  then show ?thesis using id [of "commit_item t p"] commit_item_frame [of t p] by metis
qed

section \<open>The dependency graph of a batch\<close>

text \<open>The edges of the union graph: prerequisite to dependent, terminal prerequisites left out.\<close>

definition batch_edges :: "('i, 'j) pending_pool \<Rightarrow> ('i, 'j) task_info list \<Rightarrow> (node \<times> node) set" where
  "batch_edges p its =
     {(dep_ident d, ident t) |d t. t \<in> snd ` set (blocked p) \<union> set its \<and>
        d \<in> set (task_depends_on t) \<and> \<not> pre_resolved p (dep_task_id d)}"

definition graph_wf :: "(node \<times> nat) list \<times> (node \<times> node) list \<Rightarrow> bool" where
  "graph_wf g \<longleftrightarrow> distinct (keys (fst g)) \<and>
     (\<forall>v. get_count (fst g) v = edge_count (snd g) {} v) \<and>
     (\<forall>(u, v) \<in> set (snd g). u \<in> fst ` set (fst g) \<and> v \<in> fst ` set (fst g))"

lemma or_insert_zero_keys [simp]: "fst ` set (or_insert_zero k ind) = insert k (fst ` set ind)"
  by (auto simp: or_insert_zero_def simp del: update_new)

lemma or_insert_zero_distinct [simp]:
  "distinct (keys ind) \<Longrightarrow> distinct (keys (or_insert_zero k ind))"
  by (simp add: or_insert_zero_def del: update_new)

lemma or_insert_zero_count [simp]: "get_count (or_insert_zero k ind) v = get_count ind v"
proof (cases "k \<in> set (keys ind)")
  case False
  then have "map_of ind k = None" by (simp add: map_of_eq_None_iff)
  then show ?thesis by (simp add: or_insert_zero_def get_count_def del: update_new)
qed (simp add: or_insert_zero_def)

lemma inc_count_keys [simp]: "fst ` set (inc_count k al) = insert k (fst ` set al)"
  by (simp add: inc_count_def)

lemma edge_count_snoc:
  "edge_count (es @ [(u, w)]) {} v = edge_count es {} v + (if v = w then 1 else 0)"
  by (simp add: edge_count_def)

lemma graph_wf_add_edge: "graph_wf g \<Longrightarrow> graph_wf (add_edge pr node d g)"
  by (cases g) (auto simp: graph_wf_def add_edge_def edge_count_snoc get_count_inc)

lemma graph_wf_fold_add_edge: "graph_wf g \<Longrightarrow> graph_wf (fold (add_edge pr node) ds g)"
  by (induction ds arbitrary: g) (auto simp: graph_wf_add_edge)

lemma graph_wf_add_edges: "graph_wf g \<Longrightarrow> graph_wf (add_edges pr t g)"
  unfolding add_edges_def
  by (rule graph_wf_fold_add_edge) (auto simp: graph_wf_def)

lemma set_fold_add_edge:
  "set (snd (fold (add_edge pr node) ds g)) =
     set (snd g) \<union> {(dep_ident d, node) |d. d \<in> set ds \<and> \<not> pr (dep_task_id d)}"
  by (induction ds arbitrary: g) (auto simp: add_edge_def)

lemma set_fold_add_edges:
  "set (snd (fold (add_edges pr) ts g)) =
     set (snd g) \<union> {(dep_ident d, ident t) |d t. t \<in> set ts \<and> d \<in> set (task_depends_on t) \<and> \<not> pr (dep_task_id d)}"
proof (induction ts arbitrary: g)
  case (Cons t ts)
  then show ?case by (auto simp: add_edges_def set_fold_add_edge)
qed simp

lemma union_graph_correct:
  "graph_wf (union_graph p its)" "set (snd (union_graph p its)) = batch_edges p its"
proof -
  have "graph_wf (fold (add_edges pr) ts g)" if "graph_wf g" for pr ts g
    using that by (induction ts arbitrary: g) (auto simp: graph_wf_add_edges)
  moreover have "graph_wf ([], [])" by (simp add: graph_wf_def get_count_def edge_count_def)
  ultimately show "graph_wf (union_graph p its)" unfolding union_graph_def .
  show "set (snd (union_graph p its)) = batch_edges p its"
    by (auto simp: union_graph_def set_fold_add_edges batch_edges_def)
qed

lemma union_graph_kahn:
  obtains residual n where
    "kahn_loop True (children_of (snd (union_graph p its)))
       (sort (zero_nodes (fst (union_graph p its)))) (fst (union_graph p its)) 0 = Some (residual, n)"
    "n = length residual \<longleftrightarrow> acyclic (batch_edges p its)"
proof -
  let ?g = "union_graph p its"
  have wf: "distinct (keys (fst ?g))" "\<And>v. get_count (fst ?g) v = edge_count (snd ?g) {} v"
    "\<forall>(u, v) \<in> set (snd ?g). u \<in> fst ` set (fst ?g) \<and> v \<in> fst ` set (fst ?g)"
    using union_graph_correct(1) [of p its] unfolding graph_wf_def by blast+
  have cnt: "\<forall>v \<in> fst ` set (fst ?g). map_of (fst ?g) v = Some (edge_count (snd ?g) {} v)"
  proof
    fix v assume "v \<in> fst ` set (fst ?g)"
    then have "map_of (fst ?g) v \<noteq> None" by (simp add: map_of_eq_None_iff)
    with wf(2) [of v] show "map_of (fst ?g) v = Some (edge_count (snd ?g) {} v)"
      by (auto simp: get_count_def split: option.splits)
  qed
  have "mset (sort (zero_nodes (fst ?g))) = mset (zero_nodes (fst ?g))" by simp
  from kahn_loop_correct [OF wf(1) cnt wf(3) this, of True] obtain ind' n where
    k: "kahn_loop True (children_of (snd ?g)) (sort (zero_nodes (fst ?g))) (fst ?g) 0 = Some (ind', n)"
      "keys ind' = keys (fst ?g)" "n = length (fst ?g) \<longleftrightarrow> acyclic (set (snd ?g))"
    by metis
  have "length ind' = length (fst ?g)" using k(2) by (metis length_map)
  with k show thesis by (intro that [of ind' n]) (simp_all add: union_graph_correct(2))
qed

section \<open>What \<open>extend\<close> accepts\<close>

definition batch_ok :: "('i, 'j) pending_pool \<Rightarrow> ('i, 'j) task_info list \<Rightarrow> bool" where
  "batch_ok p its \<longleftrightarrow>
     distinct (map ident its) \<and>
     (\<forall>t \<in> set its. task_id t \<notin> collect_known_task_ids p) \<and>
     (\<forall>t \<in> set its. \<forall>d \<in> set (task_depends_on t).
        dep_ident d \<in> set (collect_known_phase_task_ids p) \<union> ident ` set its \<or>
        dep_task_id d \<in> collect_known_task_ids p) \<and>
     acyclic (batch_edges p its)"

lemma first_batch_duplicate_None:
  "first_batch_duplicate seen ts = None \<longleftrightarrow> distinct (map ident ts) \<and> ident ` set ts \<inter> seen = {}"
  by (induction ts arbitrary: seen) auto

lemma known_phase_subset:
  "deps_wf p \<Longrightarrow> (ph, tid) \<in> set (collect_known_phase_task_ids p) \<Longrightarrow> tid \<in> collect_known_task_ids p"
  by (force simp: collect_known_phase_task_ids_def collect_known_task_ids_def dest: deps_wfD(1))

lemma pool_extend_total: "pool_extend its p \<noteq> None"
proof -
  obtain residual n where
    "kahn_loop True (children_of (snd (union_graph p its)))
       (sort (zero_nodes (fst (union_graph p its)))) (fst (union_graph p its)) 0 = Some (residual, n)"
    by (rule union_graph_kahn)
  then show ?thesis by (simp add: pool_extend_def Let_def case_prod_unfold split: option.split)
qed

lemma pool_extend_Inr_iff:
  assumes "deps_wf p"
  shows "pool_extend its p = Some (Inr q) \<longleftrightarrow> batch_ok p its \<and> q = fold commit_item its p"
proof -
  obtain residual n where k:
    "kahn_loop True (children_of (snd (union_graph p its)))
       (sort (zero_nodes (fst (union_graph p its)))) (fst (union_graph p its)) 0 = Some (residual, n)"
    "n = length residual \<longleftrightarrow> acyclic (batch_edges p its)"
    by (rule union_graph_kahn)
  have dup: "find (\<lambda>t. ident t \<in> set (collect_known_phase_task_ids p) \<or> task_id t \<in> collect_known_task_ids p) its
      = None \<longleftrightarrow> (\<forall>t \<in> set its. task_id t \<notin> collect_known_task_ids p)"
    using known_phase_subset [OF assms] by (auto simp: find_None_iff)
  have dep: "find (\<lambda>(t, d). \<not> (dep_ident d \<in> set (collect_known_phase_task_ids p) \<union> set (map ident its) \<or>
          dep_task_id d \<in> collect_known_task_ids p))
        (concat (map (\<lambda>t. map (\<lambda>d. (t, d)) (task_depends_on t)) its)) = None \<longleftrightarrow>
      (\<forall>t \<in> set its. \<forall>d \<in> set (task_depends_on t).
        dep_ident d \<in> set (collect_known_phase_task_ids p) \<union> ident ` set its \<or>
        dep_task_id d \<in> collect_known_task_ids p)"
    by (force simp: find_None_iff)
  have seen: "first_batch_duplicate {} its = None \<longleftrightarrow> distinct (map ident its)"
    by (simp add: first_batch_duplicate_None)
  show ?thesis
    unfolding pool_extend_def batch_ok_def seen [symmetric] dup [symmetric] dep [symmetric] k(2) [symmetric]
    using k(1) by (auto simp: Let_def case_prod_unfold split: option.splits)
qed

section \<open>What \<open>extend\<close> leaves in the pool\<close>

lemma commit_item_live:
  assumes wf: "buckets_wf (buckets p)" and new: "task_id t \<notin> live_ids p"
  shows "live_tasks (commit_item t p) =
      live_tasks p + (if \<exists>d \<in> set (dep_ids t). d \<in> failed_tasks p then {#} else {#t#})"
    and "live_ids (commit_item t p) \<subseteq> insert (task_id t) (live_ids p)"
    and "failed_tasks (commit_item t p) =
      failed_tasks p \<union> (if \<exists>d \<in> set (dep_ids t). d \<in> failed_tasks p then {task_id t} else {})"
proof -
  have q: "set (bucket_items (push_back_item t (buckets p))) = insert t (set (queued p))"
    using mset_push_back [OF buckets_wf_sorted [OF wf], of t] by (metis set_mset_add_mset_insert set_mset_mset)
  show "live_tasks (commit_item t p) =
      live_tasks p + (if \<exists>d \<in> set (dep_ids t). d \<in> failed_tasks p then {#} else {#t#})"
    using wf new by (cases rule: commit_item_cases [of t p]) auto
  show "live_ids (commit_item t p) \<subseteq> insert (task_id t) (live_ids p)"
    using q by (cases rule: commit_item_cases [of t p]) auto
  show "failed_tasks (commit_item t p) =
      failed_tasks p \<union> (if \<exists>d \<in> set (dep_ids t). d \<in> failed_tasks p then {task_id t} else {})"
    by (cases rule: commit_item_cases [of t p]) auto
qed

lemma commit_items_live:
  assumes "pool_wf p" "distinct (map task_id its)"
    and "\<forall>t \<in> set its. task_id t \<notin> live_ids p \<and> task_id t \<notin> failed_tasks p"
  shows "pool_wf (fold commit_item its p) \<and>
    live_tasks (fold commit_item its p) =
      live_tasks p + mset (filter (\<lambda>t. task_id t \<notin> failed_tasks (fold commit_item its p)) its) \<and>
    failed_tasks p \<subseteq> failed_tasks (fold commit_item its p) \<and>
    failed_tasks (fold commit_item its p) \<subseteq> failed_tasks p \<union> task_id ` set its"
  using assms
proof (induction its arbitrary: p)
  case (Cons t its)
  let ?p = "commit_item t p"
  note L = commit_item_live [OF pool_wfD(1) [OF Cons.prems(1)], of t]
  have t: "task_id t \<notin> live_ids p" "task_id t \<notin> failed_tasks p" using Cons.prems(3) by auto
  have "pool_wf ?p" using commit_item_wf [OF Cons.prems(1) t(1)] .
  moreover have "\<forall>u \<in> set its. task_id u \<notin> live_ids ?p \<and> task_id u \<notin> failed_tasks ?p"
  proof
    fix u assume u: "u \<in> set its"
    then have "task_id u \<noteq> task_id t"
      using Cons.prems(2) by (metis distinct.simps(2) image_eqI list.set_map list.simps(9))
    moreover have "task_id u \<notin> live_ids p" "task_id u \<notin> failed_tasks p"
      using u Cons.prems(3) by (meson list.set_intros(2))+
    ultimately have "task_id u \<notin> insert (task_id t) (live_ids p)" "task_id u \<notin> failed_tasks ?p"
      unfolding L(3) [OF t(1)] by auto
    then show "task_id u \<notin> live_ids ?p \<and> task_id u \<notin> failed_tasks ?p"
      using L(2) [OF t(1)] by (meson subsetD)
  qed
  ultimately have IH: "pool_wf (fold commit_item its ?p)"
      "live_tasks (fold commit_item its ?p) =
         live_tasks ?p + mset (filter (\<lambda>t. task_id t \<notin> failed_tasks (fold commit_item its ?p)) its)"
      "failed_tasks ?p \<subseteq> failed_tasks (fold commit_item its ?p)"
      "failed_tasks (fold commit_item its ?p) \<subseteq> failed_tasks ?p \<union> task_id ` set its"
    using Cons.IH [of ?p] Cons.prems(2) by auto
  have "task_id t \<in> failed_tasks (fold commit_item its ?p) \<longleftrightarrow> (\<exists>d \<in> set (dep_ids t). d \<in> failed_tasks p)"
    using IH(3,4) L(3) [OF t(1)] t(2) Cons.prems(2) by (auto split: if_splits)
  then show ?case using IH L(1,3) [OF t(1)] by (auto split: if_splits)
qed simp

section \<open>What \<open>partition_ingest\<close> computes\<close>

definition is_known :: "('i, 'j) pending_pool \<Rightarrow> ('i, 'j) task_info \<Rightarrow> bool" where
  "is_known p t \<longleftrightarrow> ident t \<in> set (collect_known_phase_task_ids p) \<or> task_id t \<in> collect_known_task_ids p"

definition deps_known :: "('i, 'j) pending_pool \<Rightarrow> node set \<Rightarrow> ('i, 'j) task_info \<Rightarrow> bool" where
  "deps_known p full t \<longleftrightarrow>
     (\<forall>d \<in> set (task_depends_on t). dep_ident d \<in> full \<or> dep_task_id d \<in> collect_known_task_ids p)"

lemma partition_step_cases:
  obtains (duplicate) m where "ident t \<in> seen \<or> is_known p t"
      "partition_step p full t (seen, r) = (seen, r\<lparr>duplicates := duplicates r @ [(t, m)]\<rparr>)"
  | (fine) "ident t \<notin> seen" "\<not> is_known p t" "deps_known p full t"
      "partition_step p full t (seen, r) = (insert (ident t) seen, r\<lparr>valid := valid r @ [t]\<rparr>)"
  | (missing) m where "ident t \<notin> seen" "\<not> is_known p t" "\<not> deps_known p full t"
      "partition_step p full t (seen, r) =
         (insert (ident t) seen, r\<lparr>invalid_deps := invalid_deps r @ [(t, m)]\<rparr>)"
proof -
  have dk: "filter (\<lambda>d. \<not> (dep_ident d \<in> full \<or> dep_task_id d \<in> collect_known_task_ids p)) (task_depends_on t)
      = [] \<longleftrightarrow> deps_known p full t"
    by (simp add: filter_empty_conv deps_known_def)
  show thesis
  proof (cases "ident t \<in> seen \<or> is_known p t")
    case True
    then show thesis by (intro duplicate) (auto simp: partition_step_def is_known_def)
  next
    case False
    then show thesis
      using dk by (cases "deps_known p full t")
        (rule fine missing, auto simp: partition_step_def is_known_def Let_def)+
  qed
qed

lemma partition_fold:
  "let (seen', r') = fold (partition_step p full) its (seen, r) in
     mset (valid r') + mset (map fst (invalid_deps r')) + mset (map fst (duplicates r')) =
       mset (valid r) + mset (map fst (invalid_deps r)) + mset (map fst (duplicates r)) + mset its \<and>
     (\<forall>t \<in> set (valid r'). t \<in> set (valid r) \<or> t \<in> set its \<and> \<not> is_known p t \<and> deps_known p full t) \<and>
     (\<forall>t \<in> fst ` set (invalid_deps r'). t \<in> fst ` set (invalid_deps r) \<or>
        t \<in> set its \<and> \<not> is_known p t \<and> \<not> deps_known p full t) \<and>
     (distinct (map ident (valid r)) \<and> ident ` set (valid r) \<subseteq> seen \<longrightarrow> distinct (map ident (valid r')))"
proof (induction its arbitrary: seen r)
  case (Cons t its)
  show ?case
  proof (cases rule: partition_step_cases [of t seen p full r])
    case (duplicate m)
    with Cons [of seen "r\<lparr>duplicates := duplicates r @ [(t, m)]\<rparr>"] show ?thesis
      by (auto simp: Let_def case_prod_unfold)
  next
    case fine
    with Cons [of "insert (ident t) seen" "r\<lparr>valid := valid r @ [t]\<rparr>"] show ?thesis
      by (auto simp: Let_def case_prod_unfold)
  next
    case (missing m)
    with Cons [of "insert (ident t) seen" "r\<lparr>invalid_deps := invalid_deps r @ [(t, m)]\<rparr>"] show ?thesis
      by (auto simp: Let_def case_prod_unfold)
  qed
qed simp

section \<open>Properties\<close>

text \<open>
  C20: \<open>extend\<close> accepts exactly the good batches. On a well-formed pool it never panics, and it succeeds
  exactly when the identities of the batch are distinct, no id of it is known to the pool, every
  dependency resolves to the pool or the batch, and the dependency graph of the blocked tasks and
  the batch is acyclic; it then commits the items in order.
\<close>

theorem extend_accepts:
  assumes "pool_wf p"
  shows "pool_extend its p \<noteq> None \<and>
    (pool_extend its p = Some (Inr q) \<longleftrightarrow> batch_ok p its \<and> q = fold commit_item its p)"
  using pool_extend_total pool_extend_Inr_iff [OF pool_wfD(3) [OF assms]] by blast

theorem extend_accepts_witness:
  "pool_extend [sample_task ''p'' ''b'' [''a''], sample_task ''p'' ''a'' []] sample_pool \<noteq> None"
  using extend_accepts [OF sample_pool_wf] by blast

text \<open>
  no task of an accepted batch is lost or duplicated. When the bare task ids of the batch are
  distinct, an accepted batch leaves the pool well-formed, and its tasks end up queued or blocked,
  each once, save those whose id is recorded as failed because a prerequisite had failed.
\<close>

theorem extend_conserves:
  assumes wf: "pool_wf p" and e: "pool_extend its p = Some (Inr q)" and d: "distinct (map task_id its)"
  shows "pool_wf q \<and> live_tasks q = live_tasks p + mset (filter (\<lambda>t. task_id t \<notin> failed_tasks q) its) \<and>
    failed_tasks q \<subseteq> failed_tasks p \<union> task_id ` set its"
proof -
  have ok: "batch_ok p its" "q = fold commit_item its p"
    using e pool_extend_Inr_iff [OF pool_wfD(3) [OF wf]] by auto
  then have "\<forall>t \<in> set its. task_id t \<notin> live_ids p \<and> task_id t \<notin> failed_tasks p"
    by (auto simp: batch_ok_def collect_known_task_ids_def)
  from commit_items_live [OF wf d this] show ?thesis unfolding ok(2) by blast
qed

definition sample_batch :: "(unit, unit) task_info list" where
  "sample_batch = [sample_task ''p'' ''b'' [''a''], sample_task ''p'' ''a'' []]"

lemma sample_batch_ok: "batch_ok sample_pool sample_batch"
proof -
  have "batch_edges sample_pool sample_batch \<subseteq> {((''p'', ''a''), (''p'', ''b''))}"
    by (auto simp: batch_edges_def sample_pool_def initial_pool_def sample_batch_def sample_task_def pre_resolved_def)
  moreover have "acyclic {((''p'', ''a''), (''p'', ''b''))}" 
    by (rule acyclicI_order [where f = "\<lambda>x. if x = (''p'', ''a'') then 1 else (0 :: nat)"]) simp
  ultimately have "acyclic (batch_edges sample_pool sample_batch)" using acyclic_subset by blast
  then show ?thesis
    by (auto simp: batch_ok_def sample_pool_def initial_pool_def sample_batch_def sample_task_def
        collect_known_task_ids_def)
qed

theorem extend_conserves_witness:
  "pool_wf (fold commit_item sample_batch sample_pool) \<and> size (live_tasks (fold commit_item sample_batch sample_pool)) = 2"
proof -
  let ?q = "fold commit_item sample_batch sample_pool"
  have "pool_extend sample_batch sample_pool = Some (Inr ?q)"
    using pool_extend_Inr_iff [OF pool_wfD(3) [OF sample_pool_wf]] sample_batch_ok by blast
  moreover have "distinct (map task_id sample_batch)" by (simp add: sample_batch_def)
  moreover have "failed_tasks ?q = {}" by code_simp
  moreover have "live_tasks sample_pool = {#}" by (simp add: sample_pool_def initial_pool_def)
  moreover have "length sample_batch = 2" by (simp add: sample_batch_def)
  ultimately show ?thesis
    using extend_conserves [OF sample_pool_wf, of sample_batch ?q] by simp
qed

lemma partition_ingest_spec:
  fixes its :: "('i, 'j) task_info list"
  defines "r p \<equiv> partition_ingest its p"
  shows "mset (valid (r p)) + mset (map fst (invalid_deps (r p))) + mset (map fst (duplicates (r p))) = mset its"
    "distinct (map ident (valid (r p)))"
    "t \<in> set (valid (r p)) \<Longrightarrow> \<not> is_known p t \<and>
       deps_known p (set (collect_known_phase_task_ids p) \<union> ident ` set its) t"
    "(t, why) \<in> set (invalid_deps (r p)) \<Longrightarrow> \<not> is_known p t \<and>
       \<not> deps_known p (set (collect_known_phase_task_ids p) \<union> ident ` set its) t"
  using partition_fold [of p "set (collect_known_phase_task_ids p) \<union> set (map ident its)" its "{}"
      "\<lparr>valid = [], invalid_deps = [], duplicates = []\<rparr>"]
  unfolding r_def partition_ingest_def by (force simp: Let_def case_prod_unfold)+

text \<open>
  \<open>partition_ingest\<close> splits its input. Every input item lands in exactly one of the three outputs;
  the valid ones have distinct identities, unknown ids and resolvable dependencies, the invalid ones
  an unresolvable dependency.
\<close>

theorem partition_ingest_splits:
  assumes "r = partition_ingest its p"
  shows "mset (valid r) + mset (map fst (invalid_deps r)) + mset (map fst (duplicates r)) = mset its \<and>
    distinct (map ident (valid r)) \<and>
    (\<forall>t \<in> set (valid r). \<not> is_known p t \<and>
       deps_known p (set (collect_known_phase_task_ids p) \<union> ident ` set its) t) \<and>
    (\<forall>(t, why) \<in> set (invalid_deps r). \<not> is_known p t \<and>
       \<not> deps_known p (set (collect_known_phase_task_ids p) \<union> ident ` set its) t)"
  using partition_ingest_spec [where its = its and p = p] unfolding assms by blast

theorem partition_ingest_splits_witness:
  "mset (valid (partition_ingest sample_batch sample_pool)) \<subseteq># mset sample_batch"
proof -
  have "mset sample_batch = mset (valid (partition_ingest sample_batch sample_pool)) +
      (mset (map fst (invalid_deps (partition_ingest sample_batch sample_pool))) +
       mset (map fst (duplicates (partition_ingest sample_batch sample_pool))))"
    using partition_ingest_splits [OF refl, of sample_batch sample_pool] by (simp add: add.assoc)
  then show ?thesis by (metis mset_subset_eq_add_left)
qed

text \<open>
  the two ingest policies agree. A batch for which \<open>partition_ingest\<close> reports neither duplicates nor
  invalid dependencies is either committed by \<open>extend\<close> or rejected for a dependency cycle, never
  rejected as a duplicate or for an unknown dependency.
\<close>

theorem partition_agrees_with_extend:
  assumes "partition_ingest its p = \<lparr>valid = its', invalid_deps = [], duplicates = []\<rparr>"
  shows "case pool_extend its p of
      Some (Inr q) \<Rightarrow> q = fold commit_item its p
    | Some (Inl (TaskDepCycle c)) \<Rightarrow> True
    | _ \<Rightarrow> False"
proof -
  let ?full = "set (collect_known_phase_task_ids p) \<union> ident ` set its"
  note S = partition_ingest_spec [where its = its and p = p, unfolded assms, simplified]
  have m: "set its' = set its" using S(1) by (metis set_mset_mset)
  have "distinct (map ident its') \<longleftrightarrow> distinct (map ident its)"
    using S(1) by (intro mset_eq_imp_distinct_iff) (metis mset_map)
  then have 1: "first_batch_duplicate {} its = None" using S(2) by (simp add: first_batch_duplicate_None)
  have 2: "find (\<lambda>t. ident t \<in> set (collect_known_phase_task_ids p) \<or> task_id t \<in> collect_known_task_ids p) its = None"
    using S(3) m by (auto simp: find_None_iff is_known_def)
  have 3: "find (\<lambda>(t, d). \<not> (dep_ident d \<in> set (collect_known_phase_task_ids p) \<union> set (map ident its) \<or>
        dep_task_id d \<in> collect_known_task_ids p)) (concat (map (\<lambda>t. map (\<lambda>d. (t, d)) (task_depends_on t)) its)) = None"
    using S(3) m by (auto simp: find_None_iff deps_known_def)
  obtain residual n where
    "kahn_loop True (children_of (snd (union_graph p its)))
       (sort (zero_nodes (fst (union_graph p its)))) (fst (union_graph p its)) 0 = Some (residual, n)"
    by (rule union_graph_kahn)
  then show ?thesis
    using 1 2 3 by (simp add: pool_extend_def Let_def case_prod_unfold)
qed

theorem partition_agrees_with_extend_witness:
  "case pool_extend sample_batch sample_pool of
      Some (Inr q) \<Rightarrow> q = fold commit_item sample_batch sample_pool
    | Some (Inl (TaskDepCycle c)) \<Rightarrow> True
    | _ \<Rightarrow> False"
proof (rule partition_agrees_with_extend)
  show "partition_ingest sample_batch sample_pool = \<lparr>valid = sample_batch, invalid_deps = [], duplicates = []\<rparr>"
    by code_simp
qed

end
