(* ===== verification/Pool_Phase.thy ===== *)
theory Pool_Phase
  imports Pool_Extend
begin

text \<open>
  The phase state machine of the pool: \<open>maybe_transition_drain\<close> and the counters it reads
  (\<open>pending_pool/lifecycle.rs\<close>, end of the file), \<open>mark_phase_done\<close>, \<open>seed_completed_phases\<close> and the
  polling of drained phases.
\<close>

section \<open>Counters\<close>

definition in_flight :: "('i, 'j) pending_pool \<Rightarrow> phase_id \<Rightarrow> nat" where
  "in_flight p ph = get_count (in_flight_per_phase p) ph"

definition queued_count :: "('i, 'j) pending_pool \<Rightarrow> phase_id \<Rightarrow> nat" where
  "queued_count p ph =
     sum_list (map (\<lambda>(_, b). length (filter (\<lambda>t. counts_for_phase_drain (kind t)) (items b)))
       (filter (\<lambda>((q, _, _), _). q = ph) (buckets p)))"

definition predecessors_done :: "('i, 'j) pending_pool \<Rightarrow> phase_id \<Rightarrow> bool" where
  "predecessors_done p ph \<longleftrightarrow>
     (case map_of (phase_deps p) ph of
        None \<Rightarrow> True
      | Some deps \<Rightarrow> list_all (\<lambda>d. phase_status_of p d = Some Done) deps)"

definition phase_has_live_affine_prereq :: "('i, 'j) pending_pool \<Rightarrow> phase_id \<Rightarrow> bool" where
  "phase_has_live_affine_prereq p ph \<longleftrightarrow>
     list_ex (\<lambda>t. is_secondary_affine (kind t) \<and> task_id t \<in> affine_prereq_ids p \<and>
                  task_id t \<notin> completed_tasks p \<and> task_id t \<notin> failed_tasks p)
       (bucket_items (filter (\<lambda>((q, _, _), _). q = ph) (buckets p)))"

definition is_dead_ended :: "('i, 'j) pending_pool \<Rightarrow> task_id \<Rightarrow> bool" where
  "is_dead_ended p tid \<longleftrightarrow> tid \<in> failed_tasks p"

subsection \<open>\<open>live_blocked_count\<close>\<close>

definition is_dead_for :: "('i, 'j) pending_pool \<Rightarrow> phase_id \<Rightarrow> task_id \<Rightarrow> bool" where
  "is_dead_for p ph tid \<longleftrightarrow> is_dead_ended p tid \<or> map_of (soft_failed p) tid = Some ph"

definition doom_one :: "('i, 'j) pending_pool \<Rightarrow> phase_id \<Rightarrow> task_id \<Rightarrow> task_id set \<times> bool \<Rightarrow> task_id set \<times> bool" where
  "doom_one p ph tid s =
     (let (doomed, changed) = s in
      if tid \<in> doomed then s
      else case task_deps p tid of
        None \<Rightarrow> s
      | Some deps \<Rightarrow>
          if \<exists>d \<in> deps. is_dead_for p ph d \<or> d \<in> doomed then (insert tid doomed, True) else s)"

definition doom_pass :: "('i, 'j) pending_pool \<Rightarrow> phase_id \<Rightarrow> task_id set \<Rightarrow> task_id set \<times> bool" where
  "doom_pass p ph doomed = fold (doom_one p ph) (keys (blocked p)) (doomed, False)"

lemma doom_fold:
  "let (d', c') = fold (doom_one p ph) ks (d, c) in
     d \<subseteq> d' \<and> d' \<subseteq> d \<union> set ks \<and> (c \<longrightarrow> c') \<and> (c' \<longrightarrow> c \<or> d \<noteq> d') \<and> (\<not> c' \<longrightarrow> d' = d)"
proof (induction ks arbitrary: d c)
  case (Cons k ks)
  obtain d1 c1 where s: "doom_one p ph k (d, c) = (d1, c1)" by fastforce
  then have "d1 = d \<and> c1 = c \<or> d1 = insert k d \<and> k \<notin> d \<and> c1"
    by (auto simp: doom_one_def split: if_splits option.splits)
  with Cons [of d1 c1] show ?case by (auto simp: s Let_def case_prod_unfold)
qed simp

function doom_loop :: "('i, 'j) pending_pool \<Rightarrow> phase_id \<Rightarrow> task_id set \<Rightarrow> task_id set" where
  "doom_loop p ph doomed =
     (let (doomed', changed) = doom_pass p ph doomed in
      if changed then doom_loop p ph doomed' else doomed')"
  by pat_completeness auto
termination
proof (relation "measure (\<lambda>(p, ph, doomed). card (fst ` set (blocked p) - doomed))")
  fix p :: "('i, 'j) pending_pool" and ph doomed x doomed' changed
  assume "x = doom_pass p ph doomed" "(doomed', changed) = x" changed
  then have "fold (doom_one p ph) (keys (blocked p)) (doomed, False) = (doomed', True)"
    by (simp add: doom_pass_def)
  then have "doomed \<subset> doomed'" "doomed' \<subseteq> doomed \<union> fst ` set (blocked p)"
    using doom_fold [of p ph "keys (blocked p)" doomed False] by auto
  then have "fst ` set (blocked p) - doomed' \<subset> fst ` set (blocked p) - doomed" by blast
  then show "((p, ph, doomed'), p, ph, doomed)
      \<in> measure (\<lambda>(p, ph, doomed). card (fst ` set (blocked p) - doomed))"
    by (simp add: psubset_card_mono)
qed simp

declare doom_loop.simps [simp del]

definition live_blocked_count :: "('i, 'j) pending_pool \<Rightarrow> phase_id \<Rightarrow> nat" where
  "live_blocked_count p ph =
     (let doomed = doom_loop p ph {} in
      length (filter (\<lambda>(_, t). phase_id t = ph \<and> task_id t \<notin> doomed) (blocked p)))"

section \<open>\<open>maybe_transition_drain\<close>\<close>

definition drain_target :: "('i, 'j) pending_pool \<Rightarrow> phase_id \<Rightarrow> phase_status \<Rightarrow> phase_status" where
  "drain_target p ph current =
     (let q = queued_count p ph;
          f = in_flight p ph;
          b = get_count (blocked_per_phase p) ph;
          drained_eligible = \<not> phase_has_live_affine_prereq p ph
      in if q = 0 \<and> f = 0 \<and> b = 0 \<and> predecessors_done p ph \<and> drained_eligible then Drained
         else if q = 0 \<and> f = 0 \<and> b = 0 then current
         else if q = 0 \<and> f = 0 \<and> drained_eligible \<and> live_blocked_count p ph = 0 then Drained
         else if q = 0 then Draining
         else Active)"

definition maybe_transition_drain :: "phase_id \<Rightarrow> ('i, 'j) pending_pool \<Rightarrow> ('i, 'j) pending_pool" where
  "maybe_transition_drain ph p =
     (case phase_status_of p ph of
        None \<Rightarrow> p
      | Some current \<Rightarrow>
          if current \<notin> {Active, Draining} then p
          else
            let nxt = drain_target p ph current in
            if nxt \<noteq> current then
              p\<lparr>phase_state := AList.update ph nxt (phase_state p),
                drained_pending :=
                  (if nxt = Drained \<and> ph \<notin> set (drained_pending p)
                   then drained_pending p @ [ph] else drained_pending p)\<rparr>
            else p)"

section \<open>Phase completion\<close>

definition drop_affine_items :: "phase_id \<Rightarrow> ('i, 'j) pending_pool \<Rightarrow> ('i, 'j) pending_pool" where
  "drop_affine_items ph p =
     p\<lparr>buckets := map (\<lambda>(k, b). (k,
        if fst k = ph then b\<lparr>items := filter (\<lambda>t. \<not> is_secondary_affine (kind t)) (items b)\<rparr> else b))
        (buckets p)\<rparr>"

definition activate_one :: "phase_id \<Rightarrow> ('i, 'j) pending_pool \<times> bool \<Rightarrow> ('i, 'j) pending_pool \<times> bool" where
  "activate_one ph s =
     (let (p, flipped) = s in
      if predecessors_done p ph
      then (p\<lparr>phase_state := AList.update ph Active (phase_state p)\<rparr>, True)
      else s)"

definition blocked_phases :: "('i, 'j) pending_pool \<Rightarrow> phase_id list" where
  "blocked_phases p = filter (\<lambda>ph. phase_status_of p ph = Some Blocked) (keys (phase_state p))"

definition activate_phases_with_all_deps_done ::
  "('i, 'j) pending_pool \<Rightarrow> ('i, 'j) pending_pool \<times> bool" where
  "activate_phases_with_all_deps_done p = fold activate_one (blocked_phases p) (p, False)"

definition mark_phase_done :: "phase_id \<Rightarrow> ('i, 'j) pending_pool \<Rightarrow> ('i, 'j) pending_pool" where
  "mark_phase_done ph p =
     fst (activate_phases_with_all_deps_done
            (drop_affine_items ph (p\<lparr>phase_state := AList.update ph Done (phase_state p)\<rparr>)))"

text \<open>
  Activating a phase changes no \<open>Done\<close> entry, so each phase of the list is judged as at the start.
\<close>

lemma activate_one_eq:
  "activate_one ph (p, c) =
     (if predecessors_done p ph
      then (p\<lparr>phase_state := AList.update ph Active (phase_state p)\<rparr>, True) else (p, c))"
  by (simp add: activate_one_def)

lemma activate_fold_frame:
  "\<exists>st. fst (fold activate_one phs (p, c)) = p\<lparr>phase_state := st\<rparr> \<and>
     (distinct (keys (phase_state p)) \<longrightarrow> distinct (keys st))"
proof (induction phs arbitrary: p c)
  case Nil
  show ?case by (intro exI [of _ "phase_state p"]) simp
next
  case (Cons a phs)
  let ?p = "p\<lparr>phase_state := AList.update a Active (phase_state p)\<rparr>"
  show ?case using Cons [of p c] Cons [of ?p True]
    by (auto simp: activate_one_eq simp del: update_new)
qed

lemma activate_fold:
  assumes "\<forall>ph \<in> set phs. phase_status_of p ph \<in> {Some Blocked, Some Active}"
  shows "(\<forall>ph. phase_status_of (fst (fold activate_one phs (p, c))) ph =
       (if ph \<in> set phs \<and> predecessors_done p ph then Some Active else phase_status_of p ph)) \<and>
     (snd (fold activate_one phs (p, c)) \<longleftrightarrow> c \<or> (\<exists>ph \<in> set phs. predecessors_done p ph))"
  using assms
proof (induction phs arbitrary: p c)
  case (Cons a phs)
  show ?case
  proof (cases "predecessors_done p a")
    case True
    let ?p = "p\<lparr>phase_state := AList.update a Active (phase_state p)\<rparr>"
    have pd: "predecessors_done ?p ph = predecessors_done p ph" for ph
      using Cons.prems by (auto simp: predecessors_done_def list_all_iff split: option.split)
    show ?thesis using Cons.IH [of ?p True] Cons.prems True
      by (simp add: activate_one_eq pd)
  qed (use Cons in \<open>auto simp: activate_one_eq\<close>)
qed simp

lemma set_blocked_phases: "set (blocked_phases p) = {ph. phase_status_of p ph = Some Blocked}"
  by (auto simp: blocked_phases_def dest: map_of_SomeD intro: rev_image_eqI)

lemma activate_status:
  "phase_status_of (fst (activate_phases_with_all_deps_done p)) ph =
     (if phase_status_of p ph = Some Blocked \<and> predecessors_done p ph then Some Active
      else phase_status_of p ph)"
  "snd (activate_phases_with_all_deps_done p) \<longleftrightarrow>
     (\<exists>ph. phase_status_of p ph = Some Blocked \<and> predecessors_done p ph)"
  using activate_fold [of "blocked_phases p" p False]
  by (auto simp: activate_phases_with_all_deps_done_def set_blocked_phases)

lemma activate_frame:
  obtains st where "fst (activate_phases_with_all_deps_done p) = p\<lparr>phase_state := st\<rparr>"
    "distinct (keys (phase_state p)) \<Longrightarrow> distinct (keys st)"
  using activate_fold_frame [of "blocked_phases p" p False]
  unfolding activate_phases_with_all_deps_done_def by blast

lemma finite_blocked_phases: "finite {ph. phase_status_of p ph = Some Blocked}"
  unfolding set_blocked_phases [symmetric] by simp

function activate_loop :: "('i, 'j) pending_pool \<Rightarrow> ('i, 'j) pending_pool" where
  "activate_loop p =
     (let (q, flipped) = activate_phases_with_all_deps_done p in
      if flipped then activate_loop q else q)"
  by pat_completeness auto
termination
proof (relation "measure (\<lambda>p. card {ph. phase_status_of p ph = Some Blocked})")
  fix p q :: "('i, 'j) pending_pool" and x flipped
  assume "x = activate_phases_with_all_deps_done p" "(q, flipped) = x" flipped
  then have q: "q = fst (activate_phases_with_all_deps_done p)"
    and f: "snd (activate_phases_with_all_deps_done p)" by (metis fst_conv, metis snd_conv)
  from f obtain ph where "phase_status_of p ph = Some Blocked" "predecessors_done p ph"
    using activate_status(2) by blast
  then have "{ph. phase_status_of q ph = Some Blocked} \<subset> {ph. phase_status_of p ph = Some Blocked}"
    unfolding q by (auto simp: activate_status(1) split: if_splits)
  then show "(q, p) \<in> measure (\<lambda>p. card {ph. phase_status_of p ph = Some Blocked})"
    by (simp add: psubset_card_mono finite_blocked_phases)
qed simp

declare activate_loop.simps [simp del]

definition seed_completed_phases :: "phase_id list \<Rightarrow> ('i, 'j) pending_pool \<Rightarrow> ('i, 'j) pending_pool" where
  "seed_completed_phases phases p =
     activate_loop
       (fold (\<lambda>ph p. if phase_status_of p ph \<noteq> None
                     then p\<lparr>phase_state := AList.update ph Done (phase_state p)\<rparr> else p) phases p)"

definition drain_empty_active_phases :: "('i, 'j) pending_pool \<Rightarrow> ('i, 'j) pending_pool" where
  "drain_empty_active_phases p =
     fold maybe_transition_drain
       (map fst (filter (\<lambda>(_, s). s \<in> {Active, Draining}) (phase_state p))) p"

section \<open>Polling\<close>

definition poll_drain_transitions :: "('i, 'j) pending_pool \<Rightarrow> phase_id list \<times> ('i, 'j) pending_pool" where
  "poll_drain_transitions p = (drained_pending p, p\<lparr>drained_pending := []\<rparr>)"

definition has_drained_pending :: "('i, 'j) pending_pool \<Rightarrow> bool" where
  "has_drained_pending p \<longleftrightarrow> drained_pending p \<noteq> []"

definition phases_pending_soft_finalize :: "('i, 'j) pending_pool \<Rightarrow> phase_id list" where
  "phases_pending_soft_finalize p =
     remdups_adj (sort (filter (\<lambda>ph. phase_status_of p ph \<in> {Some Active, Some Draining} \<and>
                                     queued_count p ph = 0 \<and> in_flight p ph = 0)
       (map snd (soft_failed p))))"

definition stuck_drainable :: "('i, 'j) pending_pool \<Rightarrow> phase_id \<Rightarrow> phase_status \<Rightarrow> bool" where
  "stuck_drainable p ph s \<longleftrightarrow>
     (case s of
        Drained \<Rightarrow> True
      | Blocked \<Rightarrow> False
      | Done \<Rightarrow> False
      | _ \<Rightarrow> queued_count p ph = 0 \<and> in_flight p ph = 0 \<and> live_blocked_count p ph = 0 \<and>
             predecessors_done p ph \<and> \<not> phase_has_live_affine_prereq p ph)"

definition phases_stuck_drainable :: "('i, 'j) pending_pool \<Rightarrow> phase_id list" where
  "phases_stuck_drainable p =
     remdups_adj (sort (map fst (filter (\<lambda>(ph, s). stuck_drainable p ph s) (phase_state p))))"

definition resurface_drained_pending :: "('i, 'j) pending_pool \<Rightarrow> bool \<times> ('i, 'j) pending_pool" where
  "resurface_drained_pending p =
     (let to_repush = map fst (filter (\<lambda>(ph, s). s = Drained \<and> ph \<notin> set (drained_pending p)) (phase_state p))
      in (to_repush \<noteq> [], p\<lparr>drained_pending := drained_pending p @ to_repush\<rparr>))"

section \<open>The doomed tasks are the least fixpoint\<close>

text \<open>
  A blocked task is doomed for a phase when some unresolved prerequisite of it has failed for good,
  has soft-failed in that phase, or is itself doomed.
\<close>

inductive doomed_task :: "('i, 'j) pending_pool \<Rightarrow> phase_id \<Rightarrow> task_id \<Rightarrow> bool"
  for p :: "('i, 'j) pending_pool" and ph :: phase_id where
  dead_dep: "tid \<in> fst ` set (blocked p) \<Longrightarrow> task_deps p tid = Some D \<Longrightarrow> d \<in> D \<Longrightarrow>
    is_dead_for p ph d \<Longrightarrow> doomed_task p ph tid"
| doomed_dep: "tid \<in> fst ` set (blocked p) \<Longrightarrow> task_deps p tid = Some D \<Longrightarrow> d \<in> D \<Longrightarrow>
    doomed_task p ph d \<Longrightarrow> doomed_task p ph tid"

lemma doom_fold_sound:
  assumes "\<forall>x \<in> d. doomed_task p ph x" "set ks \<subseteq> fst ` set (blocked p)"
  shows "\<forall>x \<in> fst (fold (doom_one p ph) ks (d, c)). doomed_task p ph x"
  using assms
proof (induction ks arbitrary: d c)
  case (Cons k ks)
  obtain d1 c1 where s: "doom_one p ph k (d, c) = (d1, c1)" by fastforce
  have k: "k \<in> fst ` set (blocked p)" using Cons.prems(2) by simp
  have "doomed_task p ph k" if "task_deps p k = Some D" "e \<in> D" "is_dead_for p ph e \<or> e \<in> d" for D e
    using that Cons.prems(1) k by (auto intro: doomed_task.intros)
  with s Cons.prems(1) have "\<forall>x \<in> d1. doomed_task p ph x"
    by (auto simp: doom_one_def split: if_splits option.splits)
  with Cons.IH [of d1 c1] Cons.prems(2) show ?case by (simp add: s)
qed simp

lemma doom_fold_fixed:
  assumes "fold (doom_one p ph) ks (d, c) = (d', False)" "tid \<in> set ks" "task_deps p tid = Some D"
    "e \<in> D" "is_dead_for p ph e \<or> e \<in> d"
  shows "tid \<in> d"
  using assms
proof (induction ks arbitrary: c)
  case (Cons k ks)
  obtain d1 c1 where s: "doom_one p ph k (d, c) = (d1, c1)" by fastforce
  have f: "fold (doom_one p ph) ks (d1, c1) = (d', False)" using Cons.prems(1) s by simp
  then have "\<not> c1" using doom_fold [of p ph ks d1 c1] by (auto simp: case_prod_unfold)
  with s have d1: "d1 = d" "k \<notin> d \<Longrightarrow> task_deps p k = Some D \<Longrightarrow> \<not> (\<exists>e \<in> D. is_dead_for p ph e \<or> e \<in> d)" for D
    by (auto simp: doom_one_def split: if_splits option.splits)
  show ?case
  proof (cases "tid = k")
    case True
    then show ?thesis using d1(2) Cons.prems(3-5) by blast
  next
    case False
    then show ?thesis using Cons.IH [of c1] f d1(1) Cons.prems by simp
  qed
qed simp

lemma doom_loop_sound:
  "\<forall>x \<in> doomed. doomed_task p ph x \<Longrightarrow> x \<in> doom_loop p ph doomed \<Longrightarrow> doomed_task p ph x"
proof (induction p ph doomed rule: doom_loop.induct)
  case (1 p ph doomed)
  obtain d' c where s: "doom_pass p ph doomed = (d', c)" by fastforce
  have d': "\<forall>x \<in> d'. doomed_task p ph x"
    using doom_fold_sound [OF "1.prems"(1), of "keys (blocked p)" False] s by (simp add: doom_pass_def)
  show ?case
  proof (cases c)
    case True
    then have "x \<in> doom_loop p ph d'" using "1.prems"(2) s by (subst (asm) doom_loop.simps) simp
    then show ?thesis using "1.IH" [OF s [symmetric] refl True d'] by blast
  next
    case False
    then have "x \<in> d'" using "1.prems"(2) s by (subst (asm) doom_loop.simps) simp
    then show ?thesis using d' by blast
  qed
qed

lemma doom_loop_closed:
  assumes "tid \<in> fst ` set (blocked p)" "task_deps p tid = Some D" "e \<in> D"
    "is_dead_for p ph e \<or> e \<in> doom_loop p ph doomed"
  shows "tid \<in> doom_loop p ph doomed"
  using assms
proof (induction p ph doomed rule: doom_loop.induct)
  case (1 p ph doomed)
  obtain d' c where s: "doom_pass p ph doomed = (d', c)" by fastforce
  show ?case
  proof (cases c)
    case True
    then have "doom_loop p ph doomed = doom_loop p ph d'" using s by (subst doom_loop.simps) simp
    then show ?thesis using "1.IH" [OF s [symmetric] refl True] "1.prems" by simp
  next
    case False
    then have l: "doom_loop p ph doomed = d'" using s by (subst doom_loop.simps) simp
    have "d' = doomed"
      using s False doom_fold [of p ph "keys (blocked p)" doomed False] by (auto simp: doom_pass_def case_prod_unfold)
    then show ?thesis
      using doom_fold_fixed [of p ph "keys (blocked p)" doomed False d' tid D e] s False "1.prems" l
      by (simp add: doom_pass_def)
  qed
qed

lemma doom_loop_eq: "doom_loop p ph {} = {tid. doomed_task p ph tid}"
proof (intro equalityI subsetI CollectI)
  fix x assume "x \<in> doom_loop p ph {}"
  then show "doomed_task p ph x" using doom_loop_sound by blast
next
  fix x assume "x \<in> {tid. doomed_task p ph tid}"
  then have "doomed_task p ph x" by simp
  then show "x \<in> doom_loop p ph {}" by (induction) (auto intro: doom_loop_closed)
qed

section \<open>Framing\<close>

lemma maybe_transition_drain_frame:
  obtains st dp where "maybe_transition_drain ph p = p\<lparr>phase_state := st, drained_pending := dp\<rparr>"
    "distinct (keys (phase_state p)) \<Longrightarrow> distinct (keys st)"
    "\<And>q. q \<noteq> ph \<Longrightarrow> map_of st q = phase_status_of p q"
proof (cases "phase_status_of p ph")
  case None
  then show ?thesis by (intro that [where st = "phase_state p" and dp = "drained_pending p"]) (simp_all add: maybe_transition_drain_def)
next
  case (Some c)
  show ?thesis
  proof (cases "c \<in> {Active, Draining} \<and> drain_target p ph c \<noteq> c")
    case True
    with Some show ?thesis
      by (intro that [where st = "AList.update ph (drain_target p ph c) (phase_state p)"
            and dp = "if drain_target p ph c = Drained \<and> ph \<notin> set (drained_pending p)
             then drained_pending p @ [ph] else drained_pending p"])
        (simp_all add: maybe_transition_drain_def Let_def del: update_new)
  next
    case False
    with Some show ?thesis
      by (intro that [where st = "phase_state p" and dp = "drained_pending p"])
        (auto simp: maybe_transition_drain_def Let_def)
  qed
qed

lemma maybe_transition_drain_fields [simp]:
  "buckets (maybe_transition_drain ph p) = buckets p"
  "phase_deps (maybe_transition_drain ph p) = phase_deps p"
  "in_flight_per_phase (maybe_transition_drain ph p) = in_flight_per_phase p"
  "worker_affinity (maybe_transition_drain ph p) = worker_affinity p"
  "task_deps (maybe_transition_drain ph p) = task_deps p"
  "blocked (maybe_transition_drain ph p) = blocked p"
  "dependents_of (maybe_transition_drain ph p) = dependents_of p"
  "completed_tasks (maybe_transition_drain ph p) = completed_tasks p"
  "failed_tasks (maybe_transition_drain ph p) = failed_tasks p"
  "soft_failed (maybe_transition_drain ph p) = soft_failed p"
  "dormant_tasks (maybe_transition_drain ph p) = dormant_tasks p"
  "affine_prereq_ids (maybe_transition_drain ph p) = affine_prereq_ids p"
  "in_flight_tasks (maybe_transition_drain ph p) = in_flight_tasks p"
  "blocked_per_phase (maybe_transition_drain ph p) = blocked_per_phase p"
  "reservation (maybe_transition_drain ph p) = reservation p"
  by (rule maybe_transition_drain_frame [of ph p]; simp)+

lemma maybe_transition_drain_wf [simp]: "pool_wf p \<Longrightarrow> pool_wf (maybe_transition_drain ph p)"
proof (rule maybe_transition_drain_frame [of ph p])
  fix st dp
  assume *: "pool_wf p" "maybe_transition_drain ph p = p\<lparr>phase_state := st, drained_pending := dp\<rparr>"
    "distinct (keys (phase_state p)) \<Longrightarrow> distinct (keys st)"
  then show ?thesis
    using pool_wfD [OF *(1)] pool_wf_keys [OF *(1)]
    by (intro pool_wf_frame [OF *(1)]) (auto simp: ids_wf_def)
qed

lemma fold_transition_drain_fields [simp]:
  "buckets (fold maybe_transition_drain phs p) = buckets p"
  "phase_deps (fold maybe_transition_drain phs p) = phase_deps p"
  "in_flight_per_phase (fold maybe_transition_drain phs p) = in_flight_per_phase p"
  "worker_affinity (fold maybe_transition_drain phs p) = worker_affinity p"
  "task_deps (fold maybe_transition_drain phs p) = task_deps p"
  "blocked (fold maybe_transition_drain phs p) = blocked p"
  "dependents_of (fold maybe_transition_drain phs p) = dependents_of p"
  "completed_tasks (fold maybe_transition_drain phs p) = completed_tasks p"
  "failed_tasks (fold maybe_transition_drain phs p) = failed_tasks p"
  "soft_failed (fold maybe_transition_drain phs p) = soft_failed p"
  "affine_prereq_ids (fold maybe_transition_drain phs p) = affine_prereq_ids p"
  "in_flight_tasks (fold maybe_transition_drain phs p) = in_flight_tasks p"
  "blocked_per_phase (fold maybe_transition_drain phs p) = blocked_per_phase p"
  by (induction phs arbitrary: p) simp_all

lemma fold_transition_drain_wf [simp]: "pool_wf p \<Longrightarrow> pool_wf (fold maybe_transition_drain phs p)"
  by (induction phs arbitrary: p) simp_all

lemma mset_filter_buckets:
  "mset (bucket_items (map (\<lambda>(k, b). (k, if P k then b\<lparr>items := filter Q (items b)\<rparr> else b)) bs))
     \<subseteq># mset (bucket_items bs)"
  by (induction bs) (auto simp: subset_mset.add_mono)

lemma drop_affine_items_wf: "pool_wf p \<Longrightarrow> pool_wf (drop_affine_items ph p)"
proof -
  assume wf: "pool_wf p"
  let ?q = "drop_affine_items ph p"
  have "mset (queued ?q) \<subseteq># mset (queued p)"
    unfolding drop_affine_items_def by (simp add: mset_filter_buckets)
  then have "image_mset task_id (mset (queued ?q)) \<subseteq># image_mset task_id (mset (queued p))"
    by (rule image_mset_subseteq_mono)
  then have "mset (queued_ids ?q @ keys (blocked p)) \<subseteq># mset (queued_ids p @ keys (blocked p))"
    by simp
  then have "distinct (queued_ids ?q @ keys (blocked p))"
    using pool_wfD(5) [OF wf] unfolding ids_wf_def
    by (rule distinct_subseteq_mset)
  then show ?thesis
    using pool_wf_keys [OF wf] pool_wfD(1) [OF wf]
    by (intro pool_wf_frame [OF wf]) (auto simp: drop_affine_items_def ids_wf_def intro!: buckets_wf_map split: if_splits)
qed

lemma mark_phase_done_wf: "pool_wf p \<Longrightarrow> pool_wf (mark_phase_done ph p)"
proof -
  assume wf: "pool_wf p"
  let ?p = "p\<lparr>phase_state := AList.update ph Done (phase_state p)\<rparr>"
  have "pool_wf ?p"
    using pool_wfD [OF wf] pool_wf_keys [OF wf]
    by (intro pool_wf_frame [OF wf]) (auto simp: ids_wf_def)
  then have wf': "pool_wf (drop_affine_items ph ?p)" by (rule drop_affine_items_wf)
  let ?q = "drop_affine_items ph ?p"
  obtain st where st: "fst (activate_phases_with_all_deps_done ?q) = ?q\<lparr>phase_state := st\<rparr>"
      "distinct (keys st)"
    using activate_frame [of ?q] pool_wf_keys(1) [OF wf'] by blast
  have "pool_wf (fst (activate_phases_with_all_deps_done ?q))"
    unfolding st(1) using pool_wfD [OF wf'] pool_wf_keys [OF wf'] st(2)
    by (intro pool_wf_frame [OF wf']) (auto simp: ids_wf_def)
  then show ?thesis by (simp add: mark_phase_done_def)
qed

section \<open>Properties\<close>

lemma live_blocked_count_doomed:
  assumes "deps_wf p"
  shows "live_blocked_count p ph =
    length (filter (\<lambda>(x, t). phase_id t = ph \<and> \<not> doomed_task p ph x) (blocked p))"
proof -
  have "filter (\<lambda>(_, t). phase_id t = ph \<and> task_id t \<notin> doom_loop p ph {}) (blocked p) =
      filter (\<lambda>(x, t). phase_id t = ph \<and> \<not> doomed_task p ph x) (blocked p)"
    by (rule filter_cong [OF refl]) (auto simp: doom_loop_eq dest: deps_wfD(1) [OF assms])
  then show ?thesis by (simp add: live_blocked_count_def)
qed

text \<open>
  the drain check counts the blocked tasks that can still run. On a well-formed pool
  \<open>live_blocked_count\<close> is the number of blocked tasks of the phase outside the least set of doomed
  tasks: those with an unresolved prerequisite that failed for good, soft-failed in this phase, or is
  doomed itself.
\<close>

theorem live_blocked_count_correct:
  assumes "pool_wf p"
  shows "live_blocked_count p ph =
    length (filter (\<lambda>(x, t). phase_id t = ph \<and> \<not> doomed_task p ph x) (blocked p))"
  using live_blocked_count_doomed [OF pool_wfD(3) [OF assms]] .

definition blocked_pool :: "(unit, unit) pending_pool" where
  "blocked_pool = commit_item (sample_task ''p'' ''b'' [''a'']) sample_pool"

lemma blocked_pool_wf: "pool_wf blocked_pool"
  unfolding blocked_pool_def by (rule commit_item_wf [OF sample_pool_wf]) (simp add: sample_pool_def initial_pool_def)

theorem live_blocked_count_correct_witness:
  "length (filter (\<lambda>(x, t). phase_id t = ''p'' \<and> \<not> doomed_task blocked_pool ''p'' x) (blocked blocked_pool)) = 1"
proof -
  have "live_blocked_count blocked_pool ''p'' = 1" by code_simp
  then show ?thesis using live_blocked_count_correct [OF blocked_pool_wf, of "''p''"] by simp
qed

text \<open>
  a phase drains only when it has nothing left to run. When \<open>maybe_transition_drain\<close> marks a phase
  of a well-formed pool drained, the phase was active or draining, no task of it that counts is
  queued, none is in flight, every blocked task of it is doomed, and no affine prerequisite of it is
  unfinished; the phase is announced for polling, and no other phase changes its state.
\<close>

theorem drain_transition_safe:
  assumes wf: "pool_wf p" and dr: "phase_status_of p ph \<noteq> Some Drained"
    and dr': "phase_status_of (maybe_transition_drain ph p) ph = Some Drained"
  shows "phase_status_of p ph \<in> {Some Active, Some Draining} \<and> queued_count p ph = 0 \<and> in_flight p ph = 0 \<and>
    (\<forall>(x, t) \<in> set (blocked p). phase_id t = ph \<longrightarrow> doomed_task p ph x) \<and>
    \<not> phase_has_live_affine_prereq p ph \<and> ph \<in> set (drained_pending (maybe_transition_drain ph p)) \<and>
    (\<forall>q. q \<noteq> ph \<longrightarrow> phase_status_of (maybe_transition_drain ph p) q = phase_status_of p q)"
proof -
  obtain c where c: "phase_status_of p ph = Some c" "c \<in> {Active, Draining}" "drain_target p ph c = Drained"
      "ph \<in> set (drained_pending (maybe_transition_drain ph p))"
    using dr dr'
    by (auto simp: maybe_transition_drain_def Let_def simp del: update_new split: option.splits if_splits)
  have dt: "queued_count p ph = 0" "in_flight p ph = 0" "\<not> phase_has_live_affine_prereq p ph"
      "get_count (blocked_per_phase p) ph = 0 \<or> live_blocked_count p ph = 0"
    using c(2,3) by (auto simp: drain_target_def Let_def split: if_splits)
  have "doomed_task p ph x" if "(x, t) \<in> set (blocked p)" "phase_id t = ph" for x t
    using dt(4)
  proof
    assume "get_count (blocked_per_phase p) ph = 0"
    then have "blocked_count p ph = 0" using pool_wfD(4) [OF wf] by (simp add: counts_wf_def)
    then show ?thesis using that by (auto simp: blocked_count_def filter_empty_conv)
  next
    assume "live_blocked_count p ph = 0"
    then show ?thesis
      using that unfolding live_blocked_count_doomed [OF pool_wfD(3) [OF wf]] by (auto simp: filter_empty_conv)
  qed
  moreover have "phase_status_of (maybe_transition_drain ph p) q = phase_status_of p q" if "q \<noteq> ph" for q
    using that by (rule_tac maybe_transition_drain_frame [of ph p]) simp
  ultimately show ?thesis using c dt by auto
qed

theorem drain_transition_safe_witness:
  "phase_status_of (maybe_transition_drain ''p'' sample_pool) ''p'' = Some Drained \<and> in_flight sample_pool ''p'' = 0"
proof -
  have "phase_status_of (maybe_transition_drain ''p'' sample_pool) ''p'' = Some Drained"
    "phase_status_of sample_pool ''p'' \<noteq> Some Drained"
    by code_simp+
  then show ?thesis using drain_transition_safe [OF sample_pool_wf] by blast
qed

text \<open>
  finishing a phase opens exactly the phases that waited for it. After \<open>mark_phase_done\<close> the phase
  is done, a blocked phase has become active exactly when all its predecessors are done now, and
  every other phase keeps its state.
\<close>

theorem mark_phase_done_activates:
  "phase_status_of (mark_phase_done ph p) q =
     (let p' = p\<lparr>phase_state := AList.update ph Done (phase_state p)\<rparr> in
      if q = ph then Some Done
      else if phase_status_of p q = Some Blocked \<and> predecessors_done p' q then Some Active
      else phase_status_of p q)"
proof -
  let ?p = "p\<lparr>phase_state := AList.update ph Done (phase_state p)\<rparr>"
  have "predecessors_done (drop_affine_items ph ?p) q = predecessors_done ?p q"
    by (simp add: predecessors_done_def drop_affine_items_def del: update_new split: option.split)
  moreover have "phase_state (drop_affine_items ph ?p) = phase_state ?p"
    by (simp add: drop_affine_items_def)
  ultimately show ?thesis
    by (simp add: mark_phase_done_def activate_status(1) Let_def del: update_new)
qed

end
