(* ===== verification/Pool_Dispatch.thy ===== *)
theory Pool_Dispatch
  imports Pool_Phase
begin

text \<open>
  Dispatch: \<open>pending_pool/dispatch.rs\<close>, \<open>pending_pool/view.rs\<close> and the reservation gate of
  \<open>pending_pool/reservation.rs\<close>. A worker either pops the next item (\<open>pop_for_worker\<close>) or gets a
  view of what it may take, selects one and takes it (\<open>view_for_worker\<close>, \<open>select\<close>,
  \<open>take_selected\<close>); both end in \<open>take_at_if_ready\<close>.
\<close>

section \<open>Eligibility\<close>

definition has_affine_dep :: "('i, 'j) pending_pool \<Rightarrow> ('i, 'j) task_info \<Rightarrow> bool" where
  "has_affine_dep p t \<longleftrightarrow>
     (if affine_prereq_ids p = {} then False
      else list_ex (\<lambda>d. dep_task_id d \<in> affine_prereq_ids p) (task_depends_on t))"

definition dispatch_eligible :: "('i, 'j) pending_pool \<Rightarrow> ('i, 'j) task_info \<Rightarrow> bool" where
  "dispatch_eligible p t \<longleftrightarrow> is_worker_assignable (kind t) \<and> \<not> has_affine_dep p t"

definition first_eligible_index :: "('i, 'j) pending_pool \<Rightarrow> ('i, 'j) bucket \<Rightarrow> nat option" where
  "first_eligible_index p b = position (dispatch_eligible p) (items b)"

section \<open>Reservations\<close>

definition admits :: "task_reservation \<Rightarrow> string \<Rightarrow> phase_id \<times> task_id \<Rightarrow> bool" where
  "admits r member key \<longleftrightarrow>
     (if \<not> active r then True
      else case map_of (holder r) key of Some h \<Rightarrow> h = member | None \<Rightarrow> True)"

definition note_taken :: "phase_id \<times> task_id \<Rightarrow> task_reservation \<Rightarrow> task_reservation" where
  "note_taken key r =
     (if \<not> active r then r
      else let h = AList.delete key (holder r) in
        r\<lparr>holder := h, active := (if h = [] then False else active r)\<rparr>)"

definition open_reservation ::
  "((phase_id \<times> task_id) \<times> string) list \<Rightarrow> ('i, 'j) pending_pool \<Rightarrow> ('i, 'j) pending_pool" where
  "open_reservation plan p =
     (let h = fold (\<lambda>(k, m) al. AList.update k m al) plan [] in
      p\<lparr>reservation := \<lparr>holder = h, active = (h \<noteq> [])\<rparr>\<rparr>)"

definition reservation_admits :: "('i, 'j) pending_pool \<Rightarrow> string \<Rightarrow> ('i, 'j) task_info \<Rightarrow> bool" where
  "reservation_admits p member t = admits (reservation p) member (ident t)"

definition move_reserved :: "string list \<Rightarrow> nat \<times> (phase_id \<times> task_id) \<Rightarrow>
    ((phase_id \<times> task_id) \<times> string) list \<Rightarrow> ((phase_id \<times> task_id) \<times> string) list" where
  "move_reserved fallbacks ik h =
     (let (i, key) = ik in
      if fallbacks = [] then AList.delete key h
      else AList.update key (fallbacks ! (i mod length fallbacks)) h)"

definition redistribute_member :: "string \<Rightarrow> string list \<Rightarrow> ('i, 'j) pending_pool \<Rightarrow> ('i, 'j) pending_pool" where
  "redistribute_member member fallbacks p =
     (let r = reservation p in
      if \<not> active r then p
      else
        let queued_keys = set (map ident (queued p));
            to_move = filter (\<lambda>k. map_of (holder r) k = Some member) (map ident (queued p));
            h1 = fold (move_reserved fallbacks) (enumerate 0 to_move) (holder r);
            h2 = filter (\<lambda>(k, m). m \<noteq> member \<or> k \<in> queued_keys) h1
        in p\<lparr>reservation := \<lparr>holder = h2, active = (if h2 = [] then False else active r)\<rparr>\<rparr>)"

section \<open>Taking an item\<close>

definition clear_pins :: "bucket_key \<Rightarrow> worker_id list \<Rightarrow> (worker_id \<rightharpoonup> bucket_key option) \<Rightarrow>
    worker_id \<rightharpoonup> bucket_key option" where
  "clear_pins key ws wa =
     fold (\<lambda>w wa. if wa w = Some (Some key) then wa(w \<mapsto> None) else wa) ws wa"

text \<open>\<open>None\<close> is the panic of \<open>expect\<close> on a missing bucket or an index out of range.\<close>

definition take_at :: "bucket_key \<Rightarrow> nat \<Rightarrow> worker_id \<Rightarrow> ('i, 'j) pending_pool \<Rightarrow>
    (('i, 'j) task_info \<times> ('i, 'j) pending_pool) option" where
  "take_at key index w p =
     (case map_of (buckets p) key of
        None \<Rightarrow> None
      | Some b \<Rightarrow>
          if index \<ge> length (items b) then None
          else
            let t = items b ! index;
                rest = remove_nth index (items b);
                affine = snd (snd key) \<noteq> no_affinity;
                pins = (if affine \<and> w \<notin> set (pinned_workers b) then pinned_workers b @ [w]
                        else pinned_workers b);
                wa = (if affine then (worker_affinity p)(w \<mapsto> Some key)
                      else if worker_affinity p w = None then (worker_affinity p)(w \<mapsto> None)
                      else worker_affinity p);
                p1 = p\<lparr>reservation := note_taken (ident t) (reservation p),
                       in_flight_per_phase := inc_count (fst key) (in_flight_per_phase p)\<rparr>
            in Some (t,
              if rest = [] then
                maybe_transition_drain (fst key)
                  (p1\<lparr>buckets := AList.map_entry key (\<lambda>b. b\<lparr>items := rest, pinned_workers := []\<rparr>) (buckets p),
                      worker_affinity := clear_pins key pins wa\<rparr>)
              else
                p1\<lparr>buckets := AList.map_entry key (\<lambda>b. b\<lparr>items := rest, pinned_workers := pins\<rparr>) (buckets p),
                   worker_affinity := wa\<rparr>))"

text \<open>
  The outer \<open>None\<close> is a panic, the inner one the code's \<open>None\<close>: there was nothing at the index, or
  the item there was not ready and has been moved back to the blocked side.
\<close>

definition take_at_if_ready :: "bucket_key \<Rightarrow> nat \<Rightarrow> worker_id \<Rightarrow> ('i, 'j) pending_pool \<Rightarrow>
    (('i, 'j) task_info option \<times> ('i, 'j) pending_pool) option" where
  "take_at_if_ready key index w p =
     (case map_of (buckets p) key of
        None \<Rightarrow> Some (None, p)
      | Some b \<Rightarrow>
          if index \<ge> length (items b) then Some (None, p)
          else let t = items b ! index in
            if unresolved_deps p t = [] then
              (case take_at key index w p of
                 None \<Rightarrow> None
               | Some (t', q) \<Rightarrow> Some (Some t', q))
            else
              Some (None, commit_item t
                (p\<lparr>buckets := AList.map_entry key
                     (\<lambda>b. b\<lparr>items := remove_nth index (items b)\<rparr>) (buckets p)\<rparr>)))"

section \<open>Choosing a bucket\<close>

definition phase_active_or_draining :: "('i, 'j) pending_pool \<Rightarrow> phase_id \<Rightarrow> bool" where
  "phase_active_or_draining p ph \<longleftrightarrow> phase_status_of p ph \<in> {Some Active, Some Draining}"

definition phase_active :: "('i, 'j) pending_pool \<Rightarrow> phase_id \<Rightarrow> bool" where
  "phase_active p ph \<longleftrightarrow> phase_status_of p ph = Some Active"

definition choose_bucket_for :: "('i, 'j) pending_pool \<Rightarrow> worker_id \<Rightarrow> bucket_key option" where
  "choose_bucket_for p w =
     (case (case worker_affinity p w of
              Some (Some key) \<Rightarrow>
                if phase_active_or_draining p (fst key) then
                  (case map_of (buckets p) key of
                     Some b \<Rightarrow> if first_eligible_index p b \<noteq> None then Some key else None
                   | None \<Rightarrow> None)
                else None
            | _ \<Rightarrow> None) of
        Some key \<Rightarrow> Some key
      | None \<Rightarrow>
     (case find (\<lambda>(key, b). first_eligible_index p b \<noteq> None \<and> snd (snd key) \<noteq> no_affinity \<and>
                           phase_active p (fst key) \<and> pinned_workers b = []) (buckets p) of
        Some (key, _) \<Rightarrow> Some key
      | None \<Rightarrow>
     (case find (\<lambda>(key, b). first_eligible_index p b \<noteq> None \<and> snd (snd key) = no_affinity \<and>
                           phase_active p (fst key)) (buckets p) of
        Some (key, _) \<Rightarrow> Some key
      | None \<Rightarrow>
          map_option fst
            (find (\<lambda>(key, b). first_eligible_index p b \<noteq> None \<and> phase_active p (fst key)) (buckets p)))))"

definition pop_for_worker :: "worker_id \<Rightarrow> ('i, 'j) pending_pool \<Rightarrow>
    (('i, 'j) task_info option \<times> ('i, 'j) pending_pool) option" where
  "pop_for_worker w p =
     (case choose_bucket_for p w of
        None \<Rightarrow> Some (None, p)
      | Some key \<Rightarrow>
     (case map_of (buckets p) key of
        None \<Rightarrow> Some (None, p)
      | Some b \<Rightarrow>
     (case first_eligible_index p b of
        None \<Rightarrow> Some (None, p)
      | Some index \<Rightarrow> take_at_if_ready key index w p)))"

section \<open>The worker view (\<open>view.rs\<close>)\<close>

record ('i, 'j) worker_view =
  view_items :: "('i, 'j) task_info list"
  view_locators :: "(bucket_key \<times> nat) list"
  view_worker :: worker_id

record view_selection =
  sel_bucket_key :: bucket_key
  sel_item_idx :: nat
  sel_worker :: worker_id

type_synonym ('i, 'j) paired = "('i, 'j) task_info \<times> bucket_key \<times> nat"

text \<open>\<open>None\<close> is the panic on an index out of range.\<close>

definition view_select :: "('i, 'j) worker_view \<Rightarrow> nat \<Rightarrow> view_selection option" where
  "view_select v i =
     (if i < length (view_locators v)
      then Some \<lparr>sel_bucket_key = fst (view_locators v ! i), sel_item_idx = snd (view_locators v ! i),
                 sel_worker = view_worker v\<rparr>
      else None)"

definition view_filter :: "(('i, 'j) task_info \<Rightarrow> bool) \<Rightarrow> ('i, 'j) worker_view \<Rightarrow> ('i, 'j) worker_view" where
  "view_filter pred v =
     (let kept = filter (\<lambda>(t, _). pred t) (zip (view_items v) (view_locators v)) in
      v\<lparr>view_items := map fst kept, view_locators := map snd kept\<rparr>)"

definition view_sort_by_key :: "(('i, 'j) task_info \<Rightarrow> 'k::linorder) \<Rightarrow> ('i, 'j) worker_view \<Rightarrow> ('i, 'j) worker_view" where
  "view_sort_by_key f v =
     (let paired = sort_key (\<lambda>(t, _). f t) (zip (view_items v) (view_locators v)) in
      v\<lparr>view_items := map fst paired, view_locators := map snd paired\<rparr>)"

text \<open>\<open>std::cmp::Ordering\<close>, ordered \<open>Less < Equal < Greater\<close>.\<close>

datatype ordering = Less | Equal | Greater

fun ordering_rank :: "ordering \<Rightarrow> nat" where
  "ordering_rank Less = 0"
| "ordering_rank Equal = 1"
| "ordering_rank Greater = 2"

definition collect_bucket :: "('i, 'j) pending_pool \<Rightarrow> bucket_key \<Rightarrow> ('i, 'j) bucket \<Rightarrow> ('i, 'j) paired list" where
  "collect_bucket p key b =
     map (\<lambda>(idx, t). (t, key, idx)) (filter (\<lambda>(_, t). dispatch_eligible p t) (enumerate 0 (items b)))"

definition scan_one :: "('i, 'j) pending_pool \<Rightarrow> (bucket_key \<Rightarrow> ('i, 'j) bucket \<Rightarrow> bool) \<Rightarrow>
    bucket_key \<times> ('i, 'j) bucket \<Rightarrow> bucket_key set \<times> ('i, 'j) paired list \<Rightarrow>
    bucket_key set \<times> ('i, 'j) paired list" where
  "scan_one p cond kb s =
     (if fst kb \<in> fst s \<or> items (snd kb) = [] \<or> \<not> cond (fst kb) (snd kb) then s
      else (insert (fst kb) (fst s), snd s @ collect_bucket p (fst kb) (snd kb)))"

definition scan_buckets :: "('i, 'j) pending_pool \<Rightarrow> (bucket_key \<Rightarrow> ('i, 'j) bucket \<Rightarrow> bool) \<Rightarrow>
    bucket_key set \<Rightarrow> bucket_key set \<times> ('i, 'j) paired list" where
  "scan_buckets p cond emitted = fold (scan_one p cond) (buckets p) (emitted, [])"

definition own_chunk :: "('i, 'j) pending_pool \<Rightarrow> worker_id \<Rightarrow> bucket_key set \<times> ('i, 'j) paired list" where
  "own_chunk p w =
     (case worker_affinity p w of
        Some (Some key) \<Rightarrow>
          if phase_active_or_draining p (fst key) then
            (case map_of (buckets p) key of
               Some b \<Rightarrow> if items b \<noteq> [] then ({key}, collect_bucket p key b) else ({}, [])
             | None \<Rightarrow> ({}, []))
          else ({}, [])
      | _ \<Rightarrow> ({}, []))"

definition view_chunks :: "('i, 'j) pending_pool \<Rightarrow> worker_id \<Rightarrow> ('i, 'j) paired list list" where
  "view_chunks p w =
     (let (e0, c0) = own_chunk p w;
          (e1, c1) = scan_buckets p (\<lambda>key b. snd (snd key) \<noteq> no_affinity \<and> phase_active p (fst key) \<and>
                                             pinned_workers b = []) e0;
          (e2, c2) = scan_buckets p (\<lambda>key b. snd (snd key) = no_affinity \<and> phase_active p (fst key)) e1;
          (e3, c3) = scan_buckets p (\<lambda>key b. phase_active p (fst key)) e2
      in [c0, c1, c2, c3])"

definition view_for_worker :: "worker_id \<Rightarrow> (('i, 'j) task_info \<Rightarrow> ordering) option \<Rightarrow>
    ('i, 'j) pending_pool \<Rightarrow> ('i, 'j) worker_view" where
  "view_for_worker w preference p =
     (let chunks = (case preference of
            Some pred \<Rightarrow> map (sort_key (\<lambda>(t, _). ordering_rank (pred t))) (view_chunks p w)
          | None \<Rightarrow> view_chunks p w);
          paired = concat chunks
      in \<lparr>view_items = map fst paired, view_locators = map snd paired, view_worker = w\<rparr>)"

definition take_selected :: "view_selection \<Rightarrow> ('i, 'j) pending_pool \<Rightarrow>
    (('i, 'j) task_info option \<times> ('i, 'j) pending_pool) option" where
  "take_selected s p = take_at_if_ready (sel_bucket_key s) (sel_item_idx s) (sel_worker s) p"

section \<open>Taking keeps the invariant and moves one item\<close>

lemma take_bucket_item:
  assumes "buckets_wf bs" "map_of bs key = Some b" "index < length (items b)"
    and "\<And>b. items (f b) = remove_nth index (items b)"
  shows "add_mset (items b ! index) (mset (bucket_items (AList.map_entry key f bs))) = mset (bucket_items bs)"
    and "buckets_wf (AList.map_entry key f bs)"
proof -
  have "mset (bucket_items (AList.map_entry key f bs)) + mset (items b) =
      mset (bucket_items bs) + mset (items (f b))"
    using assms(1,2) by (intro mset_bucket_items_map_entry) (simp_all add: bt_sorted_distinct)
  then have "mset (bucket_items (AList.map_entry key f bs)) + add_mset (items b ! index) (mset (items (f b))) =
      mset (bucket_items bs) + mset (items (f b))"
    using assms(3,4) mset_remove_nth [of index "items b"] by simp
  then show "add_mset (items b ! index) (mset (bucket_items (AList.map_entry key f bs))) = mset (bucket_items bs)"
    by simp
  show "buckets_wf (AList.map_entry key f bs)"
    using assms(1,4) by (intro buckets_wf_map_entry) (auto simp: set_remove_nth_subset dest: subsetD [OF set_remove_nth_subset])
qed

lemma bucket_lookup:
  assumes "buckets_wf bs" "map_of bs key = Some b" "index < length (items b)"
  shows "bucket_key (items b ! index) = key" "items b ! index \<in> set (bucket_items bs)"
  using nth_mem [OF assms(3)] map_of_SomeD [OF assms(2)] buckets_wfD [OF assms(1)]
  unfolding bucket_items_mem by blast+

lemma ids_wf_remove:
  assumes "ids_wf p" "blocked q = blocked p" "add_mset t (mset (queued q)) = mset (queued p)"
  shows "ids_wf q" "task_id t \<notin> live_ids q"
proof -
  have "mset (queued_ids p) = add_mset (task_id t) (mset (queued_ids q))"
    by (metis assms(3) image_mset_add_mset mset_map)
  then have "distinct (queued_ids p @ keys (blocked p)) \<longleftrightarrow>
      distinct ((task_id t # queued_ids q) @ keys (blocked q))"
    using assms(2) by (intro mset_eq_imp_distinct_iff) simp
  then show "ids_wf q" "task_id t \<notin> live_ids q"
    using assms(1) by (auto simp: ids_wf_def)
qed

definition takes :: "('i, 'j) task_info \<Rightarrow> ('i, 'j) pending_pool \<Rightarrow> ('i, 'j) pending_pool \<Rightarrow> bool" where
  "takes t p q \<longleftrightarrow>
     add_mset t (mset (queued q)) = mset (queued p) \<and> blocked q = blocked p \<and>
     (\<forall>ph. in_flight q ph = in_flight p ph + (if ph = phase_id t then 1 else 0)) \<and>
     completed_tasks q = completed_tasks p \<and> failed_tasks q = failed_tasks p \<and>
     soft_failed q = soft_failed p"

lemma takes_transition [simp]: "takes t p q \<Longrightarrow> takes t p (maybe_transition_drain ph q)"
  by (simp add: takes_def in_flight_def)

lemma take_at_spec:
  assumes wf: "pool_wf p" and b: "map_of (buckets p) key = Some b" and i: "index < length (items b)"
  obtains q where "take_at key index w p = Some (items b ! index, q)" "takes (items b ! index) p q" "pool_wf q"
proof -
  let ?t = "items b ! index"
  let ?f = "\<lambda>pins b'. b'\<lparr>items := remove_nth index (items b), pinned_workers := pins\<rparr>"
  let ?q = "\<lambda>pins wa r. p\<lparr>reservation := r,
      in_flight_per_phase := inc_count (fst key) (in_flight_per_phase p),
      buckets := AList.map_entry key (?f pins) (buckets p), worker_affinity := wa\<rparr>"
  note bw = pool_wfD(1) [OF wf]
  have key: "phase_id ?t = fst key"
    using bucket_lookup(1) [OF bw b i] by (metis bucket_key_def fst_conv)
  have core: "takes ?t p (?q pins wa r)" "pool_wf (?q pins wa r)" for pins wa r
  proof -
    have eq: "AList.map_entry key (?f pins) (buckets p)
        = AList.map_entry key (\<lambda>b'. b'\<lparr>items := remove_nth index (items b'), pinned_workers := pins\<rparr>) (buckets p)"
      by (rule map_entry_cong [OF b]) simp
    note tb = take_bucket_item [OF bw b i, of "\<lambda>b'. b'\<lparr>items := remove_nth index (items b'), pinned_workers := pins\<rparr>"]
    have m: "add_mset ?t (mset (queued (?q pins wa r))) = mset (queued p)"
      and w: "buckets_wf (buckets (?q pins wa r))"
      using tb by (simp_all add: eq)
    have "ids_wf (?q pins wa r)" using ids_wf_remove(1) [OF pool_wfD(5) [OF wf] _ m] by simp
    then show "pool_wf (?q pins wa r)"
      using pool_wf_keys [OF wf] w by (intro pool_wf_frame [OF wf]) (auto simp: inc_count_def)
    show "takes ?t p (?q pins wa r)" using m key by (simp add: takes_def in_flight_def get_count_inc)
  qed
  have "\<exists>q. take_at key index w p = Some (?t, q) \<and> takes ?t p q \<and> pool_wf q"
    using b i core
    by (cases "remove_nth index (items b) = []") (simp_all add: take_at_def Let_def)
  then show thesis using that by blast
qed

text \<open>
  The three outcomes of \<open>take_at_if_ready\<close>: nothing there, the item taken, the item evicted because a
  prerequisite of it is not resolved any more.
\<close>

lemma take_at_if_ready_cases [case_names absent taken evicted]:
  assumes wf: "pool_wf p"
  obtains (absent) "take_at_if_ready key index w p = Some (None, p)"
      "\<And>b. map_of (buckets p) key = Some b \<Longrightarrow> length (items b) \<le> index"
  | (taken) b q where "map_of (buckets p) key = Some b" "index < length (items b)"
      "take_at_if_ready key index w p = Some (Some (items b ! index), q)"
      "unresolved_deps p (items b ! index) = []" "takes (items b ! index) p q" "pool_wf q"
  | (evicted) b p' where "map_of (buckets p) key = Some b" "index < length (items b)"
      "take_at_if_ready key index w p = Some (None, commit_item (items b ! index) p')"
      "unresolved_deps p (items b ! index) \<noteq> []"
      "add_mset (items b ! index) (mset (queued p')) = mset (queued p)" "p' = p\<lparr>buckets := buckets p'\<rparr>"
      "pool_wf p'" "task_id (items b ! index) \<notin> live_ids p'"
proof (cases "\<exists>b. map_of (buckets p) key = Some b \<and> index < length (items b)")
  case False
  then show thesis
    by (intro absent) (auto simp: take_at_if_ready_def not_less split: option.split)
next
  case True
  then obtain b where b: "map_of (buckets p) key = Some b" "index < length (items b)" by blast
  let ?t = "items b ! index"
  show thesis
  proof (cases "unresolved_deps p ?t = []")
    case True
    obtain q where "take_at key index w p = Some (?t, q)" "takes ?t p q" "pool_wf q"
      by (rule take_at_spec [OF wf b])
    with True b show thesis by (intro taken [of b q]) (simp_all add: take_at_if_ready_def)
  next
    case False
    let ?p = "p\<lparr>buckets := AList.map_entry key (\<lambda>b. b\<lparr>items := remove_nth index (items b)\<rparr>) (buckets p)\<rparr>"
    note tb = take_bucket_item [OF pool_wfD(1) [OF wf] b, of "\<lambda>b. b\<lparr>items := remove_nth index (items b)\<rparr>"]
    have m: "add_mset ?t (mset (queued ?p)) = mset (queued p)" using tb(1) by simp
    note ids = ids_wf_remove [OF pool_wfD(5) [OF wf] _ m]
    have "pool_wf ?p"
      using pool_wf_keys [OF wf] tb(2) ids(1) by (intro pool_wf_frame [OF wf]) simp_all
    with False b m ids(2) show thesis
      by (intro evicted [of b ?p]) (simp_all add: take_at_if_ready_def)
  qed
qed

lemma take_at_if_ready_wf:
  assumes "pool_wf p" "take_at_if_ready key index w p = Some (r, q)"
  shows "pool_wf q"
  using assms(1)
proof (cases rule: take_at_if_ready_cases [where key = key and index = index and w = w])
  case (evicted b p')
  then show ?thesis using assms(2) commit_item_wf by auto
qed (use assms in auto)

section \<open>Which buckets a worker may take from\<close>

declare split_paired_All [simp del] split_paired_Ex [simp del]

text \<open>
  A worker may take from any bucket of an active phase, and from the bucket it is pinned to while
  that one's phase is active or draining.
\<close>

definition may_take_from :: "('i, 'j) pending_pool \<Rightarrow> worker_id \<Rightarrow> bucket_key \<Rightarrow> bool" where
  "may_take_from p w key \<longleftrightarrow>
     phase_active p (fst key) \<or>
     worker_affinity p w = Some (Some key) \<and> phase_active_or_draining p (fst key)"

lemma may_take_from_active_or_draining: "may_take_from p w key \<Longrightarrow> phase_active_or_draining p (fst key)"
  by (auto simp: may_take_from_def phase_active_def phase_active_or_draining_def)

lemma first_eligible_None:
  "first_eligible_index p b = None \<longleftrightarrow> (\<forall>t \<in> set (items b). \<not> dispatch_eligible p t)"
  by (simp add: first_eligible_index_def position_None)

lemma choose_bucket_sound:
  assumes "distinct (keys (buckets p))" "choose_bucket_for p w = Some key"
  shows "\<exists>b. map_of (buckets p) key = Some b \<and> first_eligible_index p b \<noteq> None \<and> may_take_from p w key"
  using assms
  by (auto simp: choose_bucket_for_def may_take_from_def
      split: option.splits if_splits dest!: find_SomeD)

lemma choose_bucket_complete:
  assumes "choose_bucket_for p w = None" "(key, b) \<in> set (buckets p)" "distinct (keys (buckets p))"
    "may_take_from p w key"
  shows "first_eligible_index p b = None"
proof (cases "phase_active p (fst key)")
  case True
  have "find (\<lambda>(key, b). first_eligible_index p b \<noteq> None \<and> phase_active p (fst key)) (buckets p) = None"
    using assms(1) by (simp add: choose_bucket_for_def split: option.splits prod.splits)
  then have "\<forall>x \<in> set (buckets p). \<not> (first_eligible_index p (snd x) \<noteq> None \<and> phase_active p (fst (fst x)))"
    by (simp add: find_eq_None_iff case_prod_unfold)
  with True assms(2) show ?thesis by fastforce
next
  case False
  with assms(4) have w: "worker_affinity p w = Some (Some key)" "phase_active_or_draining p (fst key)"
    by (auto simp: may_take_from_def)
  moreover have "map_of (buckets p) key = Some b" using assms(2,3) by simp
  ultimately show ?thesis
    using assms(1) by (simp add: choose_bucket_for_def split: option.splits if_splits)
qed

section \<open>What the view contains\<close>

lemma collect_bucket_mem:
  "(t, k, i) \<in> set (collect_bucket p key b) \<longleftrightarrow>
     k = key \<and> i < length (items b) \<and> items b ! i = t \<and> dispatch_eligible p t"
proof -
  have "(t, k, i) \<in> set (collect_bucket p key b) \<longleftrightarrow>
      k = key \<and> (i, t) \<in> set (enumerate 0 (items b)) \<and> dispatch_eligible p t"
    by (auto simp: collect_bucket_def)
  then show ?thesis by (auto simp: in_set_enumerate_eq)
qed

lemma distinct_collect_bucket [simp]: "distinct (map snd (collect_bucket p key b))"
proof -
  have "map snd (map snd (collect_bucket p key b)) =
      map fst (filter (\<lambda>(_, t). dispatch_eligible p t) (enumerate 0 (items b)))"
    by (simp add: collect_bucket_def case_prod_unfold)
  moreover have "distinct (map fst (filter (\<lambda>(_, t). dispatch_eligible p t) (enumerate 0 (items b))))"
    by (rule distinct_map_filter) simp
  ultimately show ?thesis by (metis distinct_map)
qed

lemma scan_fold:
  assumes "distinct (keys bs)"
  shows "fst (fold (scan_one p cond) bs (e, s)) =
      e \<union> {k. \<exists>b. (k, b) \<in> set bs \<and> items b \<noteq> [] \<and> cond k b} \<and>
    set (snd (fold (scan_one p cond) bs (e, s))) =
      set s \<union> {x. \<exists>k b. (k, b) \<in> set bs \<and> k \<notin> e \<and> cond k b \<and> x \<in> set (collect_bucket p k b)}"
  using assms
proof (induction bs arbitrary: e s)
  case (Cons kb bs)
  obtain k b where kb: "kb = (k, b)" by (cases kb) blast
  have emp: "collect_bucket p k b = []" if "items b = []" using that by (simp add: collect_bucket_def)
  have fresh: "(k, b') \<notin> set bs" for b' using Cons.prems kb by force
  have d: "distinct (keys bs)" using Cons.prems by simp
  show ?case
  proof (cases "k \<in> e \<or> items b = [] \<or> \<not> cond k b")
    case True
    then have "scan_one p cond kb (e, s) = (e, s)" by (simp add: scan_one_def kb)
    with True show ?thesis using Cons.IH [OF d, of e s] emp by (fastforce simp: kb)
  next
    case False
    then have st: "scan_one p cond kb (e, s) = (insert k e, s @ collect_bucket p k b)"
      by (simp add: scan_one_def kb)
    note IH = Cons.IH [OF d, of "insert k e" "s @ collect_bucket p k b"]
    have "fst (fold (scan_one p cond) (kb # bs) (e, s)) =
        insert k e \<union> {k. \<exists>b. (k, b) \<in> set bs \<and> items b \<noteq> [] \<and> cond k b}"
      using IH by (simp add: st)
    moreover have "set (snd (fold (scan_one p cond) (kb # bs) (e, s))) = set s \<union> set (collect_bucket p k b) \<union>
        {x. \<exists>k' b. (k', b) \<in> set bs \<and> k' \<notin> e \<and> cond k' b \<and> x \<in> set (collect_bucket p k' b)}"
      using IH fresh by (auto simp: st)
    ultimately show ?thesis using False by (auto simp: kb)
  qed
qed simp

lemma scan_buckets_spec:
  assumes "distinct (keys (buckets p))"
  shows "k \<in> fst (scan_buckets p cond e) \<longleftrightarrow>
      k \<in> e \<or> (\<exists>b. (k, b) \<in> set (buckets p) \<and> items b \<noteq> [] \<and> cond k b)"
    and "x \<in> set (snd (scan_buckets p cond e)) \<longleftrightarrow>
      (\<exists>k b. (k, b) \<in> set (buckets p) \<and> k \<notin> e \<and> cond k b \<and> x \<in> set (collect_bucket p k b))"
  using scan_fold [OF assms, of p cond e "[]"] by (auto simp: scan_buckets_def)

lemma scan_distinct:
  assumes "distinct (map snd s)" "\<And>x. x \<in> set s \<Longrightarrow> fst (snd x) \<in> e"
  shows "distinct (map snd (snd (fold (scan_one p cond) bs (e, s))))"
  using assms
proof (induction bs arbitrary: e s)
  case (Cons kb bs)
  obtain k b where kb: "kb = (k, b)" by (cases kb)
  show ?case
  proof (cases "k \<in> e \<or> items b = [] \<or> \<not> cond k b")
    case True
    then show ?thesis using Cons by (auto simp: scan_one_def kb)
  next
    case False
    have mem: "fst (snd x) = k" if "x \<in> set (collect_bucket p k b)" for x
      using that collect_bucket_mem [of "fst x" "fst (snd x)" "snd (snd x)" p k b] by simp
    have "distinct (map snd (s @ collect_bucket p k b))"
      using Cons.prems False mem by (auto simp: image_iff) metis
    moreover have "fst (snd x) \<in> insert k e" if "x \<in> set (s @ collect_bucket p k b)" for x
      using that mem [of x] Cons.prems(2) [of x] by (metis Un_iff insertCI set_append)
    ultimately have "distinct (map snd (snd (fold (scan_one p cond) bs (insert k e, s @ collect_bucket p k b))))"
      by (rule Cons.IH)
    moreover have "scan_one p cond kb (e, s) = (insert k e, s @ collect_bucket p k b)"
      using False by (simp add: scan_one_def kb)
    ultimately show ?thesis by simp
  qed
qed simp

lemma own_chunk_spec:
  "(e, c) = own_chunk p w \<Longrightarrow>
     (e = {} \<and> c = []) \<or>
     (\<exists>key b. worker_affinity p w = Some (Some key) \<and> phase_active_or_draining p (fst key) \<and>
        map_of (buckets p) key = Some b \<and> e = {key} \<and> c = collect_bucket p key b)"
  by (auto simp: own_chunk_def split: option.splits if_splits)

lemma own_chunk_complete:
  assumes "(e, c) = own_chunk p w" "worker_affinity p w = Some (Some key)"
    "phase_active_or_draining p (fst key)" "map_of (buckets p) key = Some b"
  shows "set c = set (collect_bucket p key b)" "e \<subseteq> {key}"
  using assms by (auto simp: own_chunk_def collect_bucket_def split: if_splits)

lemma view_chunks_mem:
  assumes d: "distinct (keys (buckets p))"
  shows "x \<in> set (concat (view_chunks p w)) \<longleftrightarrow>
    (\<exists>k b. (k, b) \<in> set (buckets p) \<and> may_take_from p w k \<and> x \<in> set (collect_bucket p k b))"
    (is "_ \<longleftrightarrow> ?rhs")
proof -
  let ?B = "set (buckets p)"
  let ?c1 = "\<lambda>key b. snd (snd key) \<noteq> no_affinity \<and> phase_active p (fst key) \<and> pinned_workers b = []"
  let ?c2 = "\<lambda>key (b :: ('a, 'b) bucket). snd (snd key) = no_affinity \<and> phase_active p (fst key)"
  let ?c3 = "\<lambda>key (b :: ('a, 'b) bucket). phase_active p (fst key)"
  obtain e0 c0 where c0: "own_chunk p w = (e0, c0)" by fastforce
  define e1 where "e1 = fst (scan_buckets p ?c1 e0)"
  define e2 where "e2 = fst (scan_buckets p ?c2 e1)"
  have uniq: "b = b'" if "(k, b) \<in> ?B" "(k, b') \<in> ?B" for k b b'
    using that d by (metis eq_key_imp_eq_value)
  have ne: "items b \<noteq> []" if "x \<in> set (collect_bucket p k b)" for k b
    using that by (auto simp: collect_bucket_def)
  have lhs: "x \<in> set (concat (view_chunks p w)) \<longleftrightarrow> x \<in> set c0 \<or> x \<in> set (snd (scan_buckets p ?c1 e0)) \<or>
      x \<in> set (snd (scan_buckets p ?c2 e1)) \<or> x \<in> set (snd (scan_buckets p ?c3 e2))"
    by (simp add: view_chunks_def c0 case_prod_unfold Let_def e1_def e2_def)
  show ?thesis
  proof
    assume "x \<in> set (concat (view_chunks p w))"
    moreover have ?rhs if "x \<in> set c0"
      using that own_chunk_spec [OF c0 [symmetric]] by (auto simp: may_take_from_def dest: map_of_SomeD)
    ultimately show ?rhs unfolding lhs scan_buckets_spec(2) [OF d] may_take_from_def by blast
  next
    assume ?rhs
    then obtain k b where kb: "(k, b) \<in> ?B" "may_take_from p w k" "x \<in> set (collect_bucket p k b)" by blast
    show "x \<in> set (concat (view_chunks p w))"
    proof (cases "k \<in> e0 \<or> \<not> phase_active p (fst k)")
      case True
      then have "worker_affinity p w = Some (Some k)" "phase_active_or_draining p (fst k)"
        using own_chunk_spec [OF c0 [symmetric]] kb(2) by (auto simp: may_take_from_def)
      then have "x \<in> set c0"
        using own_chunk_complete(1) [OF c0 [symmetric]] kb(1,3) d by simp
      then show ?thesis unfolding lhs by blast
    next
      case False
      then have a: "k \<notin> e0" "phase_active p (fst k)" by auto
      have 1: "?c1 k b" if "k \<in> e1"
        using that a uniq kb(1) unfolding e1_def scan_buckets_spec(1) [OF d] by blast
      have 2: "?c2 k b" if "k \<in> e2" "k \<notin> e1"
        using that uniq kb(1) unfolding e2_def scan_buckets_spec(1) [OF d] by blast
      show ?thesis
        unfolding lhs scan_buckets_spec(2) [OF d] using a kb(1,3) 1 2 by blast
    qed
  qed
qed

lemma distinct_append_by:
  "distinct (map f xs) \<Longrightarrow> distinct (map f ys) \<Longrightarrow> (\<And>x y. x \<in> set xs \<Longrightarrow> y \<in> set ys \<Longrightarrow> f x \<noteq> f y) \<Longrightarrow>
   distinct (map f (xs @ ys))"
  by auto

lemma view_chunks_distinct:
  assumes d: "distinct (keys (buckets p))"
  shows "distinct (map snd (concat (view_chunks p w)))"
proof -
  let ?c1 = "\<lambda>key b. snd (snd key) \<noteq> no_affinity \<and> phase_active p (fst key) \<and> pinned_workers b = []"
  let ?c2 = "\<lambda>key (b :: ('a, 'b) bucket). snd (snd key) = no_affinity \<and> phase_active p (fst key)"
  let ?c3 = "\<lambda>key (b :: ('a, 'b) bucket). phase_active p (fst key)"
  obtain e0 c0 where c0: "own_chunk p w = (e0, c0)" by fastforce
  define e1 where "e1 = fst (scan_buckets p ?c1 e0)"
  define e2 where "e2 = fst (scan_buckets p ?c2 e1)"
  have key: "fst (snd x) = k" "items b \<noteq> []" if "x \<in> set (collect_bucket p k b)" for x k b
    using that collect_bucket_mem [of "fst x" "fst (snd x)" "snd (snd x)" p k b] by auto
  have scan: "distinct (map snd (snd (scan_buckets p c e)))" for c e
    using scan_distinct [of "[]" e p c "buckets p"] by (simp add: scan_buckets_def)
  have scan2: "fst (snd x) \<notin> e \<and> fst (snd x) \<in> fst (scan_buckets p c e)"
    if x: "x \<in> set (snd (scan_buckets p c e))" for c e x
  proof -
    from x obtain k b where kb: "(k, b) \<in> set (buckets p)" "k \<notin> e" "c k b" "x \<in> set (collect_bucket p k b)"
      unfolding scan_buckets_spec(2) [OF d] by blast
    then show ?thesis unfolding key(1) [OF kb(4)] scan_buckets_spec(1) [OF d] using key(2) by blast
  qed
  have own: "distinct (map snd c0)" "x \<in> set c0 \<Longrightarrow> fst (snd x) \<in> e0" for x
    using own_chunk_spec [OF c0 [symmetric]] by (auto, metis key(1))
  define c1 where "c1 = snd (scan_buckets p ?c1 e0)"
  define c2 where "c2 = snd (scan_buckets p ?c2 e1)"
  define c3 where "c3 = snd (scan_buckets p ?c3 e2)"
  have sub: "e0 \<subseteq> e1" "e1 \<subseteq> e2"
    unfolding e1_def e2_def by (auto simp: scan_buckets_spec [OF d])
  have k1: "fst (snd x) \<in> e1" "fst (snd x) \<notin> e0" if "x \<in> set c1" for x
    using scan2 that unfolding c1_def e1_def by blast+
  have k2: "fst (snd x) \<in> e2" "fst (snd x) \<notin> e1" if "x \<in> set c2" for x
    using scan2 that unfolding c2_def e2_def by blast+
  have k3: "fst (snd x) \<notin> e2" if "x \<in> set c3" for x
    using scan2 that unfolding c3_def by blast
  have dj: "snd x \<noteq> snd y" if "x \<in> set c0" "y \<in> set (c1 @ c2 @ c3)" for x y
  proof -
    have "fst (snd y) \<notin> e0" using that(2) k1(2) [of y] k2(2) [of y] k3 [of y] sub by auto
    then show ?thesis using own(2) [OF that(1)] by metis
  qed
  have dj1: "snd x \<noteq> snd y" if "x \<in> set c1" "y \<in> set (c2 @ c3)" for x y
  proof -
    have "fst (snd y) \<notin> e1" using that(2) k2(2) [of y] k3 [of y] sub by auto
    then show ?thesis using k1(1) [OF that(1)] by metis
  qed
  have dj2: "snd x \<noteq> snd y" if "x \<in> set c2" "y \<in> set c3" for x y
    using k2(1) [OF that(1)] that(2) k3 by metis
  have "distinct (map snd (c0 @ c1 @ c2 @ c3))"
    by (intro distinct_append_by own(1) dj dj1 dj2) (simp_all add: c1_def c2_def c3_def scan)
  then show ?thesis by (simp add: view_chunks_def c0 case_prod_unfold Let_def e1_def e2_def c1_def c2_def c3_def)
qed

lemma mset_view:
  "mset (zip (view_items (view_for_worker w pref p)) (view_locators (view_for_worker w pref p)))
     = mset (concat (view_chunks p w))"
proof -
  have "mset (concat (map (sort_key f) xss)) = mset (concat xss)" for f :: "('a, 'b) paired \<Rightarrow> nat" and xss
    by (induction xss) auto
  then show ?thesis
    by (cases pref) (simp_all add: view_for_worker_def Let_def zip_map_fst_snd)
qed

section \<open>Properties\<close>

lemma dispatch_eligible_deps:
  "dispatch_eligible p t \<Longrightarrow> unresolved_deps p t = [] \<Longrightarrow> kind t = Work \<and> set (dep_ids t) \<subseteq> completed_tasks p"
  using set_unresolved_deps [of p t]
  by (auto simp: dispatch_eligible_def has_affine_dep_def is_worker_assignable_def list_ex_iff split: if_splits)

lemma live_after_take: "takes t p q \<Longrightarrow> live_tasks p = add_mset t (live_tasks q)"
proof -
  assume "takes t p q"
  then have "mset (queued p) = add_mset t (mset (queued q))" "blocked q = blocked p"
    by (simp_all add: takes_def)
  then show ?thesis by simp
qed

text \<open>
  C6: dispatch is safe. An item \<open>pop_for_worker\<close> hands out was queued, is a \<open>Work\<close> task of a phase that is
  active or draining, and every one of its prerequisites has completed. Exactly that item leaves
  the pool, the in-flight count of its phase and of no other grows by one, and the pool invariant is
  kept.
\<close>

theorem pop_dispatch_safe:
  assumes wf: "pool_wf p" and pop: "pop_for_worker w p = Some (Some t, q)"
  shows "t \<in> set (queued p) \<and> kind t = Work \<and> set (dep_ids t) \<subseteq> completed_tasks p \<and>
    phase_status_of p (phase_id t) \<in> {Some Active, Some Draining} \<and>
    live_tasks p = add_mset t (live_tasks q) \<and>
    (\<forall>ph. in_flight q ph = in_flight p ph + (if ph = phase_id t then 1 else 0)) \<and> pool_wf q"
proof -
  note bw = pool_wfD(1) [OF wf]
  have d: "distinct (keys (buckets p))" using bw by (simp add: bt_sorted_distinct)
  obtain key b index where k: "choose_bucket_for p w = Some key" "map_of (buckets p) key = Some b"
      "first_eligible_index p b = Some index" "take_at_if_ready key index w p = Some (Some t, q)"
    using pop by (auto simp: pop_for_worker_def split: option.splits)
  then have may: "may_take_from p w key" using choose_bucket_sound [OF d k(1)] by simp
  have i: "index < length (items b)" "dispatch_eligible p (items b ! index)"
    using k(3) by (auto simp: first_eligible_index_def dest: position_Some)
  show ?thesis
    using wf
  proof (cases rule: take_at_if_ready_cases [where key = key and index = index and w = w])
    case (taken b' q')
    with k have t: "t = items b ! index" "takes t p q" "pool_wf q" "unresolved_deps p t = []" by auto
    have "phase_id t = fst key"
      using bucket_lookup(1) [OF bw k(2) i(1)] t(1) by (metis bucket_key_def fst_conv)
    then have "phase_status_of p (phase_id t) \<in> {Some Active, Some Draining}"
      using may_take_from_active_or_draining [OF may] by (simp add: phase_active_or_draining_def)
    moreover have "kind t = Work \<and> set (dep_ids t) \<subseteq> completed_tasks p"
      using dispatch_eligible_deps [OF _ t(4)] i(2) t(1) by blast
    moreover have "\<forall>ph. in_flight q ph = in_flight p ph + (if ph = phase_id t then 1 else 0)"
      using t(2) unfolding takes_def by blast
    ultimately show ?thesis
      using t(1,3) bucket_lookup(2) [OF bw k(2) i(1)] live_after_take [OF t(2)] by blast
  qed (use k(4) in auto)
qed

definition ready_pool :: "(unit, unit) pending_pool" where
  "ready_pool = commit_item (sample_task ''p'' ''a'' []) sample_pool"

lemma ready_pool_wf: "pool_wf ready_pool"
  unfolding ready_pool_def by (rule commit_item_wf [OF sample_pool_wf]) (simp add: sample_pool_def initial_pool_def)

lemma ready_pool_pop: "map_option fst (pop_for_worker 7 ready_pool) = Some (Some (sample_task ''p'' ''a'' []))"
  by code_simp

theorem pop_dispatch_safe_witness:
  "\<exists>q. pop_for_worker 7 ready_pool = Some (Some (sample_task ''p'' ''a'' []), q) \<and>
     live_tasks ready_pool = add_mset (sample_task ''p'' ''a'' []) (live_tasks q) \<and> pool_wf q"
proof -
  obtain q where "pop_for_worker 7 ready_pool = Some (Some (sample_task ''p'' ''a'' []), q)"
    using ready_pool_pop by auto
  with pop_dispatch_safe [OF ready_pool_wf this] show ?thesis by blast
qed

lemma pop_for_worker_cases:
  assumes wf: "pool_wf p"
  obtains (item) t q where "pop_for_worker w p = Some (Some t, q)"
  | (idle) "pop_for_worker w p = Some (None, p)"
      "\<forall>t \<in> set (queued p). may_take_from p w (bucket_key t) \<longrightarrow> \<not> dispatch_eligible p t"
  | (evicted) t p' where "pop_for_worker w p = Some (None, commit_item t p')"
      "t \<in> set (queued p)" "unresolved_deps p t \<noteq> []" "mset (queued p) = add_mset t (mset (queued p'))"
proof -
  note bw = pool_wfD(1) [OF wf]
  have d: "distinct (keys (buckets p))" using bw by (simp add: bt_sorted_distinct)
  show thesis
  proof (cases "choose_bucket_for p w")
    case None
    have "\<not> dispatch_eligible p t" if t: "t \<in> set (queued p)" and may: "may_take_from p w (bucket_key t)" for t
    proof -
      from t obtain k b where kb: "(k, b) \<in> set (buckets p)" "t \<in> set (items b)"
        unfolding bucket_items_mem by blast
      have "k = bucket_key t" using buckets_wfD [OF bw kb] by simp
      then have "first_eligible_index p b = None"
        using choose_bucket_complete [OF None kb(1) d] may by simp
      then show ?thesis using kb(2) by (simp add: first_eligible_None)
    qed
    with None show thesis by (intro idle) (simp_all add: pop_for_worker_def)
  next
    case (Some key)
    then obtain b index where b: "map_of (buckets p) key = Some b" "first_eligible_index p b = Some index"
      using choose_bucket_sound [OF d Some] by blast
    have pop: "pop_for_worker w p = take_at_if_ready key index w p"
      using Some b by (simp add: pop_for_worker_def)
    have i: "index < length (items b)" using b(2) by (auto simp: first_eligible_index_def dest: position_Some)
    show thesis
      using wf
    proof (cases rule: take_at_if_ready_cases [where key = key and index = index and w = w])
      case absent
      then show thesis using b i by fastforce
    next
      case taken
      then show thesis using item pop by metis
    next
      case (evicted b' p')
      have "items b' ! index \<in> set (queued p)" using bucket_lookup(2) [OF bw evicted(1,2)] .
      then show thesis
        using evicted pop by (intro that(3) [of "items b' ! index" p']) simp_all
    qed
  qed
qed



text \<open>
  the view is exact. The positions a worker is shown are distinct; an item is shown at a position
  exactly when it sits there in its bucket, is eligible, and the worker may take from that bucket.
  The preference order only permutes the view.
\<close>

theorem view_exact:
  assumes wf: "pool_wf p" and v: "v = view_for_worker w pref p"
  shows "length (view_items v) = length (view_locators v) \<and> distinct (view_locators v) \<and>
    ((t, key, i) \<in> set (zip (view_items v) (view_locators v)) \<longleftrightarrow>
     (\<exists>b. map_of (buckets p) key = Some b \<and> i < length (items b) \<and> items b ! i = t \<and>
        dispatch_eligible p t \<and> may_take_from p w key))"
proof -
  have d: "distinct (keys (buckets p))" using pool_wfD(1) [OF wf] by (simp add: bt_sorted_distinct)
  have len: "length (view_items v) = length (view_locators v)"
    by (simp add: v view_for_worker_def Let_def)
  have "mset (view_locators v) = image_mset snd (mset (zip (view_items v) (view_locators v)))"
    using len by (metis map_snd_zip mset_map)
  also have "\<dots> = mset (map snd (concat (view_chunks p w)))"
    unfolding v mset_view by simp
  finally have "distinct (view_locators v)"
    using view_chunks_distinct [OF d] mset_eq_imp_distinct_iff by blast
  moreover have z: "set (zip (view_items v) (view_locators v)) = set (concat (view_chunks p w))"
    using mset_view [of w pref p] unfolding v by (metis set_mset_mset)
  have "(t, key, i) \<in> set (zip (view_items v) (view_locators v)) \<longleftrightarrow>
     (\<exists>b. (key, b) \<in> set (buckets p) \<and> i < length (items b) \<and> items b ! i = t \<and>
        dispatch_eligible p t \<and> may_take_from p w key)"
    unfolding z view_chunks_mem [OF d] collect_bucket_mem by blast
  ultimately show ?thesis using len d by simp
qed

theorem view_exact_witness:
  "(sample_task ''p'' ''a'' [], (''p'', ''t'', ''''), 0) \<in>
     set (zip (view_items (view_for_worker 7 None ready_pool)) (view_locators (view_for_worker 7 None ready_pool)))"
proof -
  have "map_option items (map_of (buckets ready_pool) (''p'', ''t'', '''')) = Some [sample_task ''p'' ''a'' []]"
    "dispatch_eligible ready_pool (sample_task ''p'' ''a'' [])"
    "may_take_from ready_pool 7 (''p'', ''t'', '''')"
    by code_simp+
  then show ?thesis
    using view_exact [OF ready_pool_wf refl, where t = "sample_task ''p'' ''a'' []" and
        key = "(''p'', ''t'', '''')" and i = 0 and w = 7 and pref = None]
    by auto
qed

lemma view_take:
  assumes wf: "pool_wf p" and v: "v = view_for_worker w pref p" and n: "n < length (view_items v)"
  shows "\<exists>s q. view_select v n = Some s \<and>
    take_selected s p =
      Some (if unresolved_deps p (view_items v ! n) = [] then Some (view_items v ! n) else None, q) \<and> pool_wf q \<and>
    dispatch_eligible p (view_items v ! n) \<and> may_take_from p w (bucket_key (view_items v ! n)) \<and>
    (unresolved_deps p (view_items v ! n) = [] \<longrightarrow> takes (view_items v ! n) p q)"
proof -
  have len: "length (view_items v) = length (view_locators v)"
    by (simp add: v view_for_worker_def Let_def)
  obtain key i where l: "view_locators v ! n = (key, i)" by (cases "view_locators v ! n") blast
  have "(view_items v ! n, key, i) \<in> set (zip (view_items v) (view_locators v))"
    using n len l by (auto simp: set_zip)
  then have "(view_items v ! n, key, i) \<in> set (concat (view_chunks p w))"
    using mset_view [of w pref p] unfolding v by (metis set_mset_mset)
  then obtain b where b: "map_of (buckets p) key = Some b" "i < length (items b)" "items b ! i = view_items v ! n"
      "dispatch_eligible p (view_items v ! n)" "may_take_from p w key"
    using pool_wfD(1) [OF wf] by (subst (asm) view_chunks_mem) (auto simp: bt_sorted_distinct collect_bucket_mem)
  have "bucket_key (view_items v ! n) = key"
    using buckets_wfD [OF pool_wfD(1) [OF wf] map_of_SomeD [OF b(1)], of "view_items v ! n"] b(2,3) nth_mem by metis
  with b(4,5) have e: "dispatch_eligible p (view_items v ! n)" "may_take_from p w (bucket_key (view_items v ! n))" by simp_all
  have sel: "view_select v n = Some \<lparr>sel_bucket_key = key, sel_item_idx = i, sel_worker = view_worker v\<rparr>"
    using n len l by (simp add: view_select_def)
  show ?thesis
    using wf
  proof (cases rule: take_at_if_ready_cases [where key = key and index = i and w = "view_worker v"])
    case absent
    then show ?thesis using b by fastforce
  next
    case taken
    then show ?thesis using sel b e by (auto simp: take_selected_def)
  next
    case (evicted b' p')
    then show ?thesis using sel b e commit_item_wf by (auto simp: take_selected_def)
  qed
qed

text \<open>
  what a worker sees is what it gets. Selecting the \<open>n\<close>-th item of a fresh view and taking it
  yields that very item when its prerequisites are resolved, and otherwise nothing; it never
  panics.
\<close>

theorem view_select_take:
  assumes wf: "pool_wf p" and v: "v = view_for_worker w pref p" and n: "n < length (view_items v)"
  shows "\<exists>s q. view_select v n = Some s \<and>
    take_selected s p =
      Some (if unresolved_deps p (view_items v ! n) = [] then Some (view_items v ! n) else None, q) \<and> pool_wf q"
  using view_take [OF assms] by blast

theorem view_select_take_witness:
  "\<exists>q. take_selected \<lparr>sel_bucket_key = (''p'', ''t'', ''''), sel_item_idx = 0, sel_worker = 7\<rparr> ready_pool =
     Some (Some (sample_task ''p'' ''a'' []), q)"
proof -
  let ?v = "view_for_worker 7 None ready_pool"
  have *: "view_items ?v = [sample_task ''p'' ''a'' []]"
    "view_select ?v 0 = Some \<lparr>sel_bucket_key = (''p'', ''t'', ''''), sel_item_idx = 0, sel_worker = 7\<rparr>"
    "unresolved_deps ready_pool (sample_task ''p'' ''a'' []) = []"
    by code_simp+
  with view_select_take [OF ready_pool_wf refl, of 0 7 None] show ?thesis by auto
qed

end
