(* ===== verification/Pool_Lifecycle.thy ===== *)
theory Pool_Lifecycle
  imports Pool_Dispatch
begin

text \<open>
  The lifecycle of an item after dispatch, \<open>pending_pool/lifecycle.rs\<close>: completion with the release of
  dependents, permanent failure with its cascade, retryable failure, requeue, reinjection, worker
  release and the reconciliation of blocked items.
\<close>

section \<open>Completion\<close>

definition resolve_one :: "task_id \<Rightarrow> task_id \<Rightarrow> ('i, 'j) pending_pool \<Rightarrow> ('i, 'j) pending_pool" where
  "resolve_one tid dep_id p =
     (case task_deps p dep_id of
        None \<Rightarrow> p
      | Some deps \<Rightarrow>
          let remaining = deps - {tid} in
          if remaining \<noteq> {} then p\<lparr>task_deps := (task_deps p)(dep_id \<mapsto> remaining)\<rparr>
          else
            let p1 = p\<lparr>task_deps := (task_deps p)(dep_id := None)\<rparr> in
            case map_of (blocked p1) dep_id of
              None \<Rightarrow> p1
            | Some t \<Rightarrow>
                p1\<lparr>blocked := AList.delete dep_id (blocked p1),
                   blocked_per_phase := dec_count (phase_id t) (blocked_per_phase p1),
                   buckets := push_front_item t (buckets p1),
                   phase_state :=
                     (if phase_status_of p1 (phase_id t) = Some Draining
                      then AList.update (phase_id t) Active (phase_state p1) else phase_state p1),
                   drained_pending := filter (\<lambda>q. q \<noteq> phase_id t) (drained_pending p1)\<rparr>)"

definition resolve_completed_dependents :: "task_id \<Rightarrow> ('i, 'j) pending_pool \<Rightarrow> ('i, 'j) pending_pool" where
  "resolve_completed_dependents tid p =
     (let dependents = (lookup_list (dependents_of p) tid) in
      fold (resolve_one tid) dependents
        (p\<lparr>completed_tasks := insert tid (completed_tasks p),
           dependents_of := AList.delete tid (dependents_of p)\<rparr>))"

definition on_item_finished :: "phase_id \<Rightarrow> task_id option \<Rightarrow> ('i, 'j) pending_pool \<Rightarrow> ('i, 'j) pending_pool" where
  "on_item_finished ph otid p =
     (let p1 = p\<lparr>in_flight_per_phase := dec_count ph (in_flight_per_phase p)\<rparr>;
          p2 = (case otid of
                  Some tid \<Rightarrow>
                    resolve_completed_dependents tid
                      (p1\<lparr>in_flight_tasks := in_flight_tasks p1 - {tid}\<rparr>)
                | None \<Rightarrow> p1)
      in maybe_transition_drain ph p2)"

definition note_affine_terminal :: "phase_id \<Rightarrow> task_id \<Rightarrow> ('i, 'j) pending_pool \<Rightarrow> ('i, 'j) pending_pool" where
  "note_affine_terminal ph tid p =
     maybe_transition_drain ph (p\<lparr>completed_tasks := insert tid (completed_tasks p)\<rparr>)"

definition note_affine_failed :: "phase_id \<Rightarrow> task_id \<Rightarrow> ('i, 'j) pending_pool \<Rightarrow> ('i, 'j) pending_pool" where
  "note_affine_failed ph tid p =
     maybe_transition_drain ph (p\<lparr>failed_tasks := insert tid (failed_tasks p)\<rparr>)"

definition affine_import_terminal :: "('i, 'j) pending_pool \<Rightarrow> task_id \<Rightarrow> bool" where
  "affine_import_terminal p tid \<longleftrightarrow> tid \<in> completed_tasks p \<or> tid \<in> failed_tasks p"

section \<open>Permanent failure\<close>

text \<open>The set \<open>affected_phases\<close> is a list without repeats, in insertion order.\<close>

definition add_phase :: "phase_id \<Rightarrow> phase_id list \<Rightarrow> phase_id list" where
  "add_phase ph phs = (if ph \<in> set phs then phs else phs @ [ph])"

record ('i, 'j) cascade_state =
  cs_pool :: "('i, 'j) pending_pool"
  affected_phases :: "phase_id list"
  cascaded :: "('i, 'j) task_info list"
  frontier :: "task_id list"

definition cascade_one :: "task_id \<Rightarrow> ('i, 'j) cascade_state \<Rightarrow> ('i, 'j) cascade_state" where
  "cascade_one dep_id s =
     (let p = cs_pool s in
      if dep_id \<in> failed_tasks p then s
      else
        let p1 = p\<lparr>failed_tasks := insert dep_id (failed_tasks p),
                   soft_failed := AList.delete dep_id (soft_failed p),
                   task_deps := (task_deps p)(dep_id := None)\<rparr>;
            s1 = (case map_of (blocked p1) dep_id of
                    Some t \<Rightarrow>
                      s\<lparr>cs_pool := p1\<lparr>blocked := AList.delete dep_id (blocked p1),
                                     blocked_per_phase := dec_count (phase_id t) (blocked_per_phase p1)\<rparr>,
                        affected_phases := add_phase (phase_id t) (affected_phases s),
                        cascaded := cascaded s @ [t]\<rparr>
                  | None \<Rightarrow> s\<lparr>cs_pool := p1\<rparr>)
        in s1\<lparr>frontier := frontier s1 @ [dep_id]\<rparr>)"

definition dependents_size :: "('i, 'j) pending_pool \<Rightarrow> nat" where
  "dependents_size p = sum_list (map (\<lambda>(_, l). length l) (dependents_of p))"

lemma cascade_one_measure:
  "dependents_of (cs_pool (cascade_one d s)) = dependents_of (cs_pool s) \<and>
   length (frontier (cascade_one d s)) \<le> Suc (length (frontier s))"
  by (simp add: cascade_one_def Let_def split: option.split)

lemma cascade_fold_measure:
  "dependents_of (cs_pool (fold cascade_one ds s)) = dependents_of (cs_pool s) \<and>
   length (frontier (fold cascade_one ds s)) \<le> length ds + length (frontier s)"
proof (induction ds arbitrary: s)
  case (Cons d ds)
  from Cons [of "cascade_one d s"] cascade_one_measure [of d s] show ?case by simp
qed simp

lemma dependents_delete:
  "sum_list (map (\<lambda>(_, l). length l) (AList.delete k m)) +
     length (lookup_list m k) \<le> sum_list (map (\<lambda>(_, l). length l) m)"
proof (induction m)
  case (Cons a m)
  have "sum_list (map (\<lambda>(_, l). length l) (AList.delete k m)) \<le> sum_list (map (\<lambda>(_, l). length l) m)"
    using Cons by simp
  with Cons show ?case by (cases a) (auto simp: lookup_list_def)
qed (simp add: lookup_list_def)

function cascade_loop :: "('i, 'j) cascade_state \<Rightarrow> ('i, 'j) cascade_state" where
  "cascade_loop s =
     (case frontier s of
        [] \<Rightarrow> s
      | failed_id # rest \<Rightarrow>
          let p = cs_pool s;
              dependents = lookup_list (dependents_of p) failed_id
          in cascade_loop
               (fold cascade_one dependents
                  (s\<lparr>cs_pool := p\<lparr>dependents_of := AList.delete failed_id (dependents_of p)\<rparr>,
                     frontier := rest\<rparr>)))"
  by pat_completeness auto
termination
proof (relation "measure (\<lambda>s. dependents_size (cs_pool s) + length (frontier s))")
  fix s :: "('i, 'j) cascade_state" and failed_id rest p dependents
  assume *: "frontier s = failed_id # rest" "p = cs_pool s"
    "dependents = lookup_list (dependents_of p) failed_id"
  let ?s = "s\<lparr>cs_pool := p\<lparr>dependents_of := AList.delete failed_id (dependents_of p)\<rparr>, frontier := rest\<rparr>"
  show "(fold cascade_one dependents ?s, s)
      \<in> measure (\<lambda>s. dependents_size (cs_pool s) + length (frontier s))"
    using cascade_fold_measure [of dependents ?s] dependents_delete [of failed_id "dependents_of p"] *
    by (simp add: dependents_size_def)
qed simp

declare cascade_loop.simps [simp del]

definition cascade_fail_dependents_of :: "task_id \<Rightarrow> phase_id list \<Rightarrow> ('i, 'j) pending_pool \<Rightarrow>
    ('i, 'j) task_info list \<times> phase_id list \<times> ('i, 'j) pending_pool" where
  "cascade_fail_dependents_of tid phs p =
     (let s = cascade_loop \<lparr>cs_pool = p, affected_phases = phs, cascaded = [], frontier = [tid]\<rparr>
      in (cascaded s, affected_phases s, cs_pool s))"

definition on_item_failed_permanent :: "phase_id \<Rightarrow> task_id \<Rightarrow> ('i, 'j) pending_pool \<Rightarrow>
    ('i, 'j) task_info list \<times> ('i, 'j) pending_pool" where
  "on_item_failed_permanent ph tid p =
     (let p1 = p\<lparr>in_flight_per_phase := dec_count ph (in_flight_per_phase p),
                 in_flight_tasks := in_flight_tasks p - {tid},
                 soft_failed := AList.delete tid (soft_failed p),
                 failed_tasks := insert tid (failed_tasks p)\<rparr>;
          (casc, phs, p2) = cascade_fail_dependents_of tid [ph] p1
      in (casc, fold maybe_transition_drain phs p2))"

section \<open>Retryable failure\<close>

definition on_item_failed_pending_retry :: "phase_id \<Rightarrow> task_id \<Rightarrow> ('i, 'j) pending_pool \<Rightarrow> ('i, 'j) pending_pool" where
  "on_item_failed_pending_retry ph tid p =
     (let p1 = p\<lparr>in_flight_per_phase := dec_count ph (in_flight_per_phase p),
                 in_flight_tasks := in_flight_tasks p - {tid}\<rparr>;
          p2 = (if tid \<notin> failed_tasks p1
                then p1\<lparr>soft_failed := AList.update tid ph (soft_failed p1)\<rparr> else p1)
      in maybe_transition_drain ph p2)"

definition finalize_one :: "task_id \<Rightarrow>
    (task_id \<times> ('i, 'j) task_info list) list \<times> phase_id list \<times> ('i, 'j) pending_pool \<Rightarrow>
    (task_id \<times> ('i, 'j) task_info list) list \<times> phase_id list \<times> ('i, 'j) pending_pool" where
  "finalize_one tid s =
     (let (out, phs, p) = s;
          (casc, phs', p') = cascade_fail_dependents_of tid phs
             (p\<lparr>soft_failed := AList.delete tid (soft_failed p),
                failed_tasks := insert tid (failed_tasks p)\<rparr>)
      in (out @ [(tid, casc)], phs', p'))"

definition finalize_soft_failures :: "phase_id \<Rightarrow> ('i, 'j) pending_pool \<Rightarrow>
    (task_id \<times> ('i, 'j) task_info list) list \<times> ('i, 'j) pending_pool" where
  "finalize_soft_failures ph p =
     (let roots = map fst (filter (\<lambda>(_, q). q = ph) (soft_failed p)) in
      if roots = [] then ([], p)
      else let (out, phs, p') = fold finalize_one roots ([], [], p)
           in (out, fold maybe_transition_drain phs p'))"

section \<open>Returning items to the queue\<close>

definition mark_in_flight :: "phase_id \<Rightarrow> ('i, 'j) pending_pool \<Rightarrow> ('i, 'j) pending_pool" where
  "mark_in_flight ph p = p\<lparr>in_flight_per_phase := inc_count ph (in_flight_per_phase p)\<rparr>"

definition push_to_queue_head :: "('i, 'j) task_info \<Rightarrow> ('i, 'j) pending_pool \<Rightarrow> ('i, 'j) pending_pool" where
  "push_to_queue_head t p =
     p\<lparr>buckets := push_front_item t (buckets p),
       phase_state := (if phase_status_of p (phase_id t) = Some Draining
                       then AList.update (phase_id t) Active (phase_state p) else phase_state p)\<rparr>"

definition requeue :: "('i, 'j) task_info \<Rightarrow> ('i, 'j) pending_pool \<Rightarrow> ('i, 'j) pending_pool" where
  "requeue t p =
     p\<lparr>in_flight_per_phase := dec_count (phase_id t) (in_flight_per_phase p),
       buckets := push_front_item t (buckets p),
       phase_state := (if phase_status_of p (phase_id t) = Some Draining
                       then AList.update (phase_id t) Active (phase_state p) else phase_state p)\<rparr>"

text \<open>\<open>take_first_match\<close> of \<open>queries.rs\<close>: bucket order, only phases that dispatch.\<close>

definition take_first_match :: "(('i, 'j) task_info \<Rightarrow> bool) \<Rightarrow> ('i, 'j) pending_pool \<Rightarrow>
    ('i, 'j) task_info option \<times> ('i, 'j) pending_pool" where
  "take_first_match pred p =
     (case find (\<lambda>(key, b). phase_active_or_draining p (fst key) \<and> position pred (items b) \<noteq> None) (buckets p) of
        None \<Rightarrow> (None, p)
      | Some (key, b) \<Rightarrow>
          (case position pred (items b) of
             None \<Rightarrow> (None, p)
           | Some idx \<Rightarrow>
               let rest = remove_nth idx (items b) in
               (Some (items b ! idx),
                if rest = [] then
                  p\<lparr>buckets := AList.map_entry key (\<lambda>b. b\<lparr>items := rest, pinned_workers := []\<rparr>) (buckets p),
                    worker_affinity := clear_pins key (pinned_workers b) (worker_affinity p)\<rparr>
                else p\<lparr>buckets := AList.map_entry key (\<lambda>b. b\<lparr>items := rest\<rparr>) (buckets p)\<rparr>)))"

text \<open>The loop over the unresolved prerequisites of a removed item that drops it from the reverse index.\<close>

definition remove_dependent :: "task_id \<Rightarrow> task_id set \<Rightarrow> (task_id \<times> task_id list) list \<Rightarrow>
    (task_id \<times> task_id list) list" where
  "remove_dependent tid deps m =
     concat (map (\<lambda>(d, l).
       if d \<in> deps then
         (let rev = filter (\<lambda>x. x \<noteq> tid) l in if rev = [] then [] else [(d, rev)])
       else [(d, l)]) m)"

definition remove_blocked :: "task_id \<Rightarrow> ('i, 'j) pending_pool \<Rightarrow> ('i, 'j) task_info option \<times> ('i, 'j) pending_pool" where
  "remove_blocked tid p =
     (case map_of (blocked p) tid of
        None \<Rightarrow> (None, p)
      | Some t \<Rightarrow>
          (Some t,
           p\<lparr>blocked := AList.delete tid (blocked p),
             blocked_per_phase := dec_count (phase_id t) (blocked_per_phase p),
             task_deps := (task_deps p)(tid := None),
             dependents_of := (case task_deps p tid of
                 Some deps \<Rightarrow> remove_dependent tid deps (dependents_of p)
               | None \<Rightarrow> dependents_of p)\<rparr>))"

definition extract_live_dependent :: "task_id \<Rightarrow> ('i, 'j) pending_pool \<Rightarrow>
    ('i, 'j) task_info option \<times> ('i, 'j) pending_pool" where
  "extract_live_dependent dep_id p =
     (case take_first_match (\<lambda>t. task_id t = dep_id) p of
        (Some t, p') \<Rightarrow> (Some t, p')
      | (None, p') \<Rightarrow> remove_blocked dep_id p')"

definition reroute_one :: "task_id \<Rightarrow> phase_id list \<times> ('i, 'j) pending_pool \<Rightarrow> phase_id list \<times> ('i, 'j) pending_pool" where
  "reroute_one dep_id s =
     (let (phs, p) = s in
      case extract_live_dependent dep_id p of
        (Some t, p') \<Rightarrow> (add_phase (phase_id t) phs, commit_item t p')
      | (None, p') \<Rightarrow> (phs, p'))"

definition reblock_dependents_on_uncompleted :: "task_id \<Rightarrow> ('i, 'j) pending_pool \<Rightarrow> ('i, 'j) pending_pool" where
  "reblock_dependents_on_uncompleted tid p =
     (if tid \<in> affine_prereq_ids p then p
      else if tid \<notin> completed_tasks p then p
      else
        let p1 = p\<lparr>completed_tasks := completed_tasks p - {tid}\<rparr>;
            reroute_ids = map task_id (filter (\<lambda>t. tid \<in> set (dep_ids t)) (queued p1 @ map snd (blocked p1)))
        in if reroute_ids = [] then p1
           else let (phs, p2) = fold reroute_one reroute_ids ([], p1)
                in fold maybe_transition_drain phs p2)"

definition reinject :: "('i, 'j) task_info \<Rightarrow> ('i, 'j) pending_pool \<Rightarrow> ('i, 'j) pending_pool" where
  "reinject t p =
     (let p1 = p\<lparr>soft_failed := AList.delete (task_id t) (soft_failed p),
                 dormant_tasks := dormant_tasks p - {task_id t}\<rparr>;
          p2 = reblock_dependents_on_uncompleted (task_id t) p1;
          p3 = p2\<lparr>buckets := push_back_item t (buckets p2)\<rparr>
      in if phase_status_of p3 (phase_id t) \<in> {Some Draining, Some Drained, Some Done}
         then p3\<lparr>phase_state := AList.update (phase_id t) Active (phase_state p3),
                 drained_pending := filter (\<lambda>q. q \<noteq> phase_id t) (drained_pending p3)\<rparr>
         else p3)"

section \<open>Draining, workers, orphans\<close>

definition drain_queued :: "('i, 'j) pending_pool \<Rightarrow> ('i, 'j) task_info list \<times> ('i, 'j) pending_pool" where
  "drain_queued p = (queued p, p\<lparr>buckets := map (\<lambda>(k, b). (k, b\<lparr>items := []\<rparr>)) (buckets p)\<rparr>)"

definition release_worker :: "worker_id \<Rightarrow> ('i, 'j) pending_pool \<Rightarrow> ('i, 'j) pending_pool" where
  "release_worker w p =
     (let unpin = (\<lambda>b. b\<lparr>pinned_workers := filter (\<lambda>x. x \<noteq> w) (pinned_workers b)\<rparr>);
          p1 = p\<lparr>worker_affinity := (worker_affinity p)(w := None)\<rparr>
      in case worker_affinity p w of
           Some (Some key) \<Rightarrow> p1\<lparr>buckets := AList.map_entry key unpin (buckets p1)\<rparr>
         | _ \<Rightarrow> p1\<lparr>buckets := map (\<lambda>(k, b). (k, unpin b)) (buckets p1)\<rparr>)"

definition orphaned_ids :: "(task_id \<Rightarrow> bool) \<Rightarrow> ('i, 'j) pending_pool \<Rightarrow> task_id list" where
  "orphaned_ids dep_alive p =
     filter (\<lambda>tid. case task_deps p tid of
         Some deps \<Rightarrow> \<exists>d \<in> deps. d \<notin> completed_tasks p \<and> \<not> dep_alive d
       | None \<Rightarrow> False) (keys (blocked p))"

definition reconcile_one :: "task_id \<Rightarrow> ('i, 'j) task_info list \<times> ('i, 'j) pending_pool \<Rightarrow>
    ('i, 'j) task_info list \<times> ('i, 'j) pending_pool" where
  "reconcile_one tid s =
     (let (out, p) = s in
      case remove_blocked tid p of
        (Some t, p') \<Rightarrow> (out @ [t], p')
      | (None, p') \<Rightarrow> (out, p'))"

definition reconcile_blocked :: "(task_id \<Rightarrow> bool) \<Rightarrow> ('i, 'j) pending_pool \<Rightarrow>
    ('i, 'j) task_info list \<times> ('i, 'j) pending_pool" where
  "reconcile_blocked dep_alive p = fold reconcile_one (orphaned_ids dep_alive p) ([], p)"

section \<open>Removing a blocked task\<close>

lemma filter_delete_count:
  assumes "distinct (keys al)" "map_of al k = Some t"
  shows "length (filter (\<lambda>(_, t). P t) (AList.delete k al)) = length (filter (\<lambda>(_, t). P t) al) - (if P t then 1 else 0)"
  using assms
proof (induction al)
  case (Cons a al)
  obtain k' t' where a: "a = (k', t')" by (cases a)
  show ?case
  proof (cases "k' = k")
    case True
    with Cons.prems a have "t' = t" "k \<notin> fst ` set al" by auto
    then have "AList.delete k al = al" by (simp add: delete_id)
    with True \<open>t' = t\<close> show ?thesis by (simp add: a)
  next
    case False
    with Cons a have "map_of al k = Some t" by simp
    moreover from this have "P t \<Longrightarrow> 0 < length (filter (\<lambda>(_, t). P t) al)"
      by (auto simp: filter_empty_conv dest: map_of_SomeD)
    ultimately show ?thesis using Cons False a by (auto simp: Suc_diff_le)
  qed
qed simp

lemma counts_wf_delete:
  assumes "counts_wf p" "distinct (keys (blocked p))" "map_of (blocked p) tid = Some t"
    and "blocked q = AList.delete tid (blocked p)"
      "blocked_per_phase q = dec_count (phase_id t) (blocked_per_phase p)"
  shows "counts_wf q"
  using assms filter_delete_count [OF assms(2,3), of "\<lambda>t. phase_id t = _"]
  by (auto simp: counts_wf_def blocked_count_def get_count_dec)

text \<open>
  While the dependents of \<open>tid\<close> are being visited, those not yet visited (\<open>X\<close>) may miss their entry in
  the reverse index under \<open>tid\<close>, which has been removed.
\<close>

definition deps_wf_upto :: "task_id \<Rightarrow> task_id set \<Rightarrow> ('i, 'j) pending_pool \<Rightarrow> bool" where
  "deps_wf_upto tid X p \<longleftrightarrow>
     (\<forall>x t. (x, t) \<in> set (blocked p) \<longrightarrow> task_id t = x \<and>
        (\<exists>D. task_deps p x = Some D \<and> D \<noteq> {} \<and>
           D \<subseteq> set (dep_ids t) \<and> set (dep_ids t) \<subseteq> completed_tasks p \<union> affine_prereq_ids p \<union> D)) \<and>
     (\<forall>x D d. task_deps p x = Some D \<longrightarrow> x \<in> fst ` set (blocked p) \<and>
        (d \<in> D \<longrightarrow> x \<in> failed_tasks p \<or> d = tid \<and> x \<in> X \<or>
           (\<exists>l. map_of (dependents_of p) d = Some l \<and> x \<in> set l)))"

definition pool_wf_upto :: "task_id \<Rightarrow> task_id set \<Rightarrow> ('i, 'j) pending_pool \<Rightarrow> bool" where
  "pool_wf_upto tid X p \<longleftrightarrow>
     buckets_wf (buckets p) \<and> keys_wf p \<and> deps_wf_upto tid X p \<and> counts_wf p \<and> ids_wf p"

lemma pool_wf_upto_empty: "pool_wf_upto tid {} p \<longleftrightarrow> pool_wf p"
  by (simp add: pool_wf_upto_def pool_wf_def deps_wf_upto_def deps_wf_def)

lemma deps_wf_uptoI:
  assumes "\<And>x t. (x, t) \<in> set (blocked p) \<Longrightarrow> task_id t = x"
    and "\<And>x t. (x, t) \<in> set (blocked p) \<Longrightarrow> \<exists>D. task_deps p x = Some D \<and> D \<noteq> {} \<and>
        D \<subseteq> set (dep_ids t) \<and> set (dep_ids t) \<subseteq> completed_tasks p \<union> affine_prereq_ids p \<union> D"
    and "\<And>x D. task_deps p x = Some D \<Longrightarrow> x \<in> fst ` set (blocked p)"
    and "\<And>x D d. task_deps p x = Some D \<Longrightarrow> d \<in> D \<Longrightarrow> x \<notin> failed_tasks p \<Longrightarrow> \<not> (d = tid \<and> x \<in> X) \<Longrightarrow>
        \<exists>l. map_of (dependents_of p) d = Some l \<and> x \<in> set l"
  shows "deps_wf_upto tid X p"
  unfolding deps_wf_upto_def using assms by blast

lemma deps_wf_uptoD:
  assumes "deps_wf_upto tid X p"
  shows "(x, t) \<in> set (blocked p) \<Longrightarrow> task_id t = x"
    and "(x, t) \<in> set (blocked p) \<Longrightarrow> \<exists>D. task_deps p x = Some D \<and> D \<noteq> {} \<and>
        D \<subseteq> set (dep_ids t) \<and> set (dep_ids t) \<subseteq> completed_tasks p \<union> affine_prereq_ids p \<union> D"
    and "task_deps p x = Some D \<Longrightarrow> x \<in> fst ` set (blocked p)"
    and "task_deps p x = Some D \<Longrightarrow> d \<in> D \<Longrightarrow> x \<notin> failed_tasks p \<Longrightarrow> \<not> (d = tid \<and> x \<in> X) \<Longrightarrow>
        \<exists>l. map_of (dependents_of p) d = Some l \<and> x \<in> set l"
  using assms unfolding deps_wf_upto_def by blast+

lemma pool_wf_upto_deps: "pool_wf_upto tid X p \<Longrightarrow> deps_wf_upto tid X p"
  by (simp add: pool_wf_upto_def)

lemma deps_wf_upto_shrink:
  assumes wf: "deps_wf_upto tid (insert x X) p"
    and x: "\<And>D. task_deps p x = Some D \<Longrightarrow> x \<in> failed_tasks p"
  shows "deps_wf_upto tid X p"
proof (rule deps_wf_uptoI)
  fix y D d
  assume *: "task_deps p y = Some D" "d \<in> D" "y \<notin> failed_tasks p" "\<not> (d = tid \<and> y \<in> X)"
  then have "y \<noteq> x" using x by blast
  then show "\<exists>l. map_of (dependents_of p) d = Some l \<and> y \<in> set l"
    using deps_wf_uptoD(4) [OF wf *(1-3)] *(4) by blast
qed (use deps_wf_uptoD [OF wf] in blast)+

lemma delete_mem: "(x, t) \<in> set (AList.delete k al) \<longleftrightarrow> x \<noteq> k \<and> (x, t) \<in> set al"
  by (induction al) auto

text \<open>Dropping the visited dependent \<open>x\<close> from the blocked side altogether.\<close>

lemma deps_wf_upto_delete:
  assumes wf: "deps_wf_upto tid (insert x X) p"
    and "blocked q = AList.delete x (blocked p)" "task_deps q = (task_deps p)(x := None)"
      "dependents_of q = dependents_of p" "completed_tasks p \<subseteq> completed_tasks q"
      "affine_prereq_ids q = affine_prereq_ids p" "failed_tasks p \<subseteq> failed_tasks q"
  shows "deps_wf_upto tid X q"
proof (rule deps_wf_uptoI)
  note D = deps_wf_uptoD [OF wf]
  fix y t assume "(y, t) \<in> set (blocked q)"
  then have y: "(y, t) \<in> set (blocked p)" "y \<noteq> x" by (simp_all add: assms(2) delete_mem)
  show "task_id t = y" using D(1) y by blast
  show "\<exists>D. task_deps q y = Some D \<and> D \<noteq> {} \<and>
      D \<subseteq> set (dep_ids t) \<and> set (dep_ids t) \<subseteq> completed_tasks q \<union> affine_prereq_ids q \<union> D"
    using D(2) [OF y(1)] y(2) assms(3,5,6) by fastforce
next
  note D = deps_wf_uptoD [OF wf]
  fix y E d assume "task_deps q y = Some E"
  then have y: "task_deps p y = Some E" "y \<noteq> x" by (auto simp: assms(3) split: if_splits)
  show "y \<in> fst ` set (blocked q)" using D(3) [OF y(1)] y(2) by (simp add: assms(2))
  assume "d \<in> E" "y \<notin> failed_tasks q" "\<not> (d = tid \<and> y \<in> X)"
  then show "\<exists>l. map_of (dependents_of q) d = Some l \<and> y \<in> set l"
    using D(4) [OF y(1)] y(2) assms(4,7) by auto
qed

lemma ids_wf_delete:
  assumes "ids_wf p" "blocked q = AList.delete x (blocked p)" "mset (queued q) \<subseteq># mset (queued p)"
  shows "ids_wf q"
proof -
  have "keys (AList.delete x (blocked p)) = filter (\<lambda>y. y \<noteq> x) (keys (blocked p))"
    by (simp add: delete_keys removeAll_filter_not_eq)
      (metis filter_cong)
  then have "mset (keys (blocked q)) \<subseteq># mset (keys (blocked p))"
    unfolding assms(2) by (simp add: multiset_filter_subset)
  moreover have "mset (queued_ids q) \<subseteq># mset (queued_ids p)"
    using image_mset_subseteq_mono [OF assms(3), of task_id] by simp
  ultimately have "mset (queued_ids q @ keys (blocked q)) \<subseteq># mset (queued_ids p @ keys (blocked p))"
    unfolding mset_append by (rule subset_mset.add_mono [rotated])
  then show ?thesis using assms(1) unfolding ids_wf_def by (rule distinct_subseteq_mset)
qed

lemma mset_blocked_delete:
  assumes "distinct (keys al)" "map_of al x = Some t"
  shows "mset al = add_mset (x, t) (mset (AList.delete x al))"
  using assms
proof (induction al)
  case (Cons a al)
  obtain k' t' where a: "a = (k', t')" by (cases a)
  show ?case
  proof (cases "k' = x")
    case True
    with Cons.prems a have "t' = t" "x \<notin> fst ` set al" by auto
    then show ?thesis using True a by (simp add: delete_id)
  qed (use Cons a in auto)
qed simp

lemma ids_wf_unblock:
  assumes "ids_wf p" "map_of (blocked p) x = Some t" "task_id t = x"
    and "blocked q = AList.delete x (blocked p)" "mset (queued q) = add_mset t (mset (queued p))"
  shows "ids_wf q"
proof -
  have "distinct (keys (blocked p))" using assms(1) by (simp add: ids_wf_def)
  then have "mset (keys (blocked p)) = add_mset x (mset (keys (blocked q)))"
    using mset_blocked_delete [OF _ assms(2)] assms(4) by (metis fst_conv image_mset_add_mset mset_map)
  moreover have "mset (queued_ids q) = add_mset x (mset (queued_ids p))"
    using assms(3,5) by (metis image_mset_add_mset mset_map)
  ultimately have "mset (queued_ids q @ keys (blocked q)) = mset (queued_ids p @ keys (blocked p))"
    by simp
  then show ?thesis using assms(1) unfolding ids_wf_def by (metis mset_eq_imp_distinct_iff)
qed

section \<open>Completion releases exactly the tasks that waited for nothing else\<close>

definition released :: "task_id \<Rightarrow> task_id \<Rightarrow> ('i, 'j) pending_pool \<Rightarrow> bool" where
  "released tid x p \<longleftrightarrow> (\<exists>D. task_deps p x = Some D \<and> D - {tid} = {})"

lemma resolve_one_cases [case_names absent waits frees]:
  assumes wf: "pool_wf_upto tid X p"
  obtains (absent) "task_deps p x = None" "resolve_one tid x p = p"
  | (waits) D where "task_deps p x = Some D" "D - {tid} \<noteq> {}"
      "resolve_one tid x p = p\<lparr>task_deps := (task_deps p)(x \<mapsto> D - {tid})\<rparr>"
  | (frees) t st dp where "released tid x p" "map_of (blocked p) x = Some t" "task_id t = x"
      "resolve_one tid x p = p\<lparr>task_deps := (task_deps p)(x := None), blocked := AList.delete x (blocked p),
         blocked_per_phase := dec_count (phase_id t) (blocked_per_phase p),
         buckets := push_front_item t (buckets p), phase_state := st, drained_pending := dp\<rparr>"
      "distinct (keys (phase_state p)) \<Longrightarrow> distinct (keys st)"
proof (cases "task_deps p x")
  case None
  then show thesis by (intro absent) (simp_all add: resolve_one_def)
next
  case (Some D)
  note U = deps_wf_uptoD [of tid X p]
  have dwf: "deps_wf_upto tid X p" using wf by (simp add: pool_wf_upto_def)
  show thesis
  proof (cases "D - {tid} = {}")
    case False
    then show thesis using Some by (intro waits) (simp_all add: resolve_one_def)
  next
    case True
    have "distinct (keys (blocked p))" using wf by (simp add: pool_wf_upto_def ids_wf_def)
    moreover have "x \<in> fst ` set (blocked p)" using U(3) [OF dwf Some] .
    ultimately obtain t where t: "map_of (blocked p) x = Some t"
      by (metis domD dom_map_of_conv_image_fst)
    then have "task_id t = x" using U(1) [OF dwf] by (meson map_of_SomeD)
    then show thesis using True Some t
      by (intro frees [where t = t and st = "if phase_status_of p (phase_id t) = Some Draining
            then AList.update (phase_id t) Active (phase_state p) else phase_state p"
            and dp = "filter (\<lambda>q. q \<noteq> phase_id t) (drained_pending p)"])
        (simp_all add: resolve_one_def released_def del: update_new)
  qed
qed

lemma resolve_one_wf:
  assumes wf: "pool_wf_upto tid (insert x X) p" and c: "tid \<in> completed_tasks p"
  shows "pool_wf_upto tid X (resolve_one tid x p)"
  using wf
proof (cases rule: resolve_one_cases [where x = x])
  case absent
  then have "deps_wf_upto tid X p"
    using deps_wf_upto_shrink [OF pool_wf_upto_deps [OF wf]] by simp
  then show ?thesis using wf absent by (simp add: pool_wf_upto_def)
next
  case (waits D)
  note U = deps_wf_uptoD [of tid "insert x X" p]
  have dwf: "deps_wf_upto tid (insert x X) p" using wf by (simp add: pool_wf_upto_def)
  have "deps_wf_upto tid X (resolve_one tid x p)"
  proof (rule deps_wf_uptoI)
    fix y t assume "(y, t) \<in> set (blocked (resolve_one tid x p))"
    then have y: "(y, t) \<in> set (blocked p)" by (simp add: waits)
    show "task_id t = y" using U(1) [OF dwf y] .
    show "\<exists>D. task_deps (resolve_one tid x p) y = Some D \<and> D \<noteq> {} \<and> D \<subseteq> set (dep_ids t) \<and>
        set (dep_ids t) \<subseteq> completed_tasks (resolve_one tid x p) \<union> affine_prereq_ids (resolve_one tid x p) \<union> D"
      using U(2) [OF dwf y] waits c by (cases "y = x") auto
  next
    fix y E d assume y: "task_deps (resolve_one tid x p) y = Some E"
    then obtain E' where E: "task_deps p y = Some E'" "E \<subseteq> E'" "y = x \<longrightarrow> tid \<notin> E"
      using waits by (cases "y = x") auto
    show "y \<in> fst ` set (blocked (resolve_one tid x p))"
      using U(3) [OF dwf E(1)] by (simp add: waits)
    assume "d \<in> E" "y \<notin> failed_tasks (resolve_one tid x p)" "\<not> (d = tid \<and> y \<in> X)"
    then show "\<exists>l. map_of (dependents_of (resolve_one tid x p)) d = Some l \<and> y \<in> set l"
      using U(4) [OF dwf E(1), of d] E(2,3) by (auto simp: waits)
  qed
  then show ?thesis
    using wf by (simp add: waits pool_wf_upto_def keys_wf_def counts_wf_def blocked_count_def ids_wf_def)
next
  case (frees t st dp)
  let ?q = "resolve_one tid x p"
  have "deps_wf_upto tid X ?q"
    by (rule deps_wf_upto_delete [where p = p and x = x])
      (use wf in \<open>simp_all add: frees pool_wf_upto_def\<close>)
  moreover have "counts_wf ?q"
    by (rule counts_wf_delete [where p = p and tid = x and t = t])
      (use wf frees in \<open>simp_all add: pool_wf_upto_def ids_wf_def\<close>)
  moreover have "ids_wf ?q"
    by (rule ids_wf_unblock [where p = p and x = x and t = t])
      (use wf frees(2,3) in \<open>simp_all add: pool_wf_upto_def frees(4)\<close>)
  moreover have "keys_wf ?q" using wf frees(5) by (simp add: frees(4) pool_wf_upto_def keys_wf_def distinct_keys_dec)
  ultimately show ?thesis using wf by (simp add: pool_wf_upto_def frees(4))
qed

lemma resolve_fold:
  assumes "pool_wf_upto tid (set ds \<union> X) p" "tid \<in> completed_tasks p"
  shows "pool_wf_upto tid X (fold (resolve_one tid) ds p) \<and>
    (\<forall>x. task_deps (fold (resolve_one tid) ds p) x =
       (if x \<in> set ds then (case task_deps p x of None \<Rightarrow> None
          | Some D \<Rightarrow> if D - {tid} = {} then None else Some (D - {tid})) else task_deps p x)) \<and>
    set (blocked (fold (resolve_one tid) ds p)) = {(x, t) \<in> set (blocked p). \<not> (x \<in> set ds \<and> released tid x p)} \<and>
    set (queued (fold (resolve_one tid) ds p)) =
      set (queued p) \<union> {t. \<exists>x \<in> set ds. released tid x p \<and> (x, t) \<in> set (blocked p)} \<and>
    live_tasks (fold (resolve_one tid) ds p) = live_tasks p"
  using assms
proof (induction ds arbitrary: p)
  case (Cons x ds)
  let ?p = "resolve_one tid x p"
  have wf: "pool_wf_upto tid (insert x (set ds \<union> X)) p" using Cons.prems(1) by simp
  have "tid \<in> completed_tasks ?p"
    using wf Cons.prems(2) by (cases rule: resolve_one_cases [where x = x]) auto
  note IH = Cons.IH [OF resolve_one_wf [OF wf Cons.prems(2)] this]
  have db: "distinct (keys (blocked p))" using wf by (simp add: pool_wf_upto_def ids_wf_def)
  show ?case
    using wf
  proof (cases rule: resolve_one_cases [where x = x])
    case absent
    then show ?thesis using IH by (auto simp: released_def)
  next
    case (waits D)
    then have r: "released tid y ?p \<longleftrightarrow> released tid y p" "\<not> released tid x p" for y by (auto simp: released_def)
    have td: "task_deps ?p = (task_deps p)(x \<mapsto> D - {tid})" "blocked ?p = blocked p" "buckets ?p = buckets p"
      by (simp_all add: waits)
    show ?thesis using IH waits(1,2) r(2) by (auto simp: r(1) td)
  next
    case (frees t st dp)
    have r: "released tid y ?p \<longleftrightarrow> released tid y p \<and> y \<noteq> x" for y by (auto simp: released_def frees)
    have m: "mset (blocked p) = add_mset (x, t) (mset (blocked ?p))"
      using mset_blocked_delete [OF db frees(2)] by (simp add: frees)
    have "mset (queued ?p) = add_mset t (mset (queued p))"
      using wf by (simp add: frees pool_wf_upto_def)
    moreover from m have "mset (map snd (blocked p)) = add_mset t (mset (map snd (blocked ?p)))" by simp
    ultimately have live: "live_tasks ?p = live_tasks p" and q: "set (queued ?p) = insert t (set (queued p))"
      by (simp, metis set_mset_add_mset_insert set_mset_mset)
    have b: "set (blocked ?p) = set (blocked p) - {x} \<times> UNIV" "(x, u) \<in> set (blocked p) \<longleftrightarrow> u = t" for u
      using frees(2) db by (auto simp: frees(4) delete_mem dest: eq_key_imp_eq_value)
    have td: "task_deps ?p = (task_deps p)(x := None)" by (simp add: frees)
    have tdx: "(case task_deps p x of None \<Rightarrow> None | Some D \<Rightarrow> if D - {tid} = {} then None else Some (D - {tid})) = None"
      using frees(1) by (auto simp: released_def)
    have "set (blocked (fold (resolve_one tid) (x # ds) p)) =
        {(y, u) \<in> set (blocked p). \<not> (y \<in> set (x # ds) \<and> released tid y p)}"
      using IH frees(1) unfolding b(1) by (auto simp: r)
    moreover have "set (queued (fold (resolve_one tid) (x # ds) p)) =
        set (queued p) \<union> {u. \<exists>y \<in> set (x # ds). released tid y p \<and> (y, u) \<in> set (blocked p)}"
      using IH frees(1) b(2) unfolding q b(1) by (auto simp: r)
    moreover have "task_deps (fold (resolve_one tid) (x # ds) p) y =
        (if y \<in> set (x # ds) then (case task_deps p y of None \<Rightarrow> None
          | Some D \<Rightarrow> if D - {tid} = {} then None else Some (D - {tid})) else task_deps p y)" for y
      using IH tdx by (cases "y = x") (simp_all add: td)
    ultimately show ?thesis using IH live by simp
  qed
qed simp

lemma pool_wf_upto_start:
  assumes wf: "pool_wf p"
    and "blocked q = blocked p" "task_deps q = task_deps p" "buckets q = buckets p"
      "dependents_of q = AList.delete tid (dependents_of p)" "blocked_per_phase q = blocked_per_phase p"
      "completed_tasks p \<subseteq> completed_tasks q" "affine_prereq_ids q = affine_prereq_ids p"
      "failed_tasks p \<subseteq> failed_tasks q" "phase_state q = phase_state p"
      "distinct (keys (in_flight_per_phase q))" "distinct (keys (soft_failed q))"
  shows "pool_wf_upto tid (set (lookup_list (dependents_of p) tid)) q"
proof -
  let ?X = "set (lookup_list (dependents_of p) tid)"
  note D = deps_wfD [OF pool_wfD(3) [OF wf]]
  have "deps_wf_upto tid ?X q"
  proof (rule deps_wf_uptoI)
    fix y t assume y: "(y, t) \<in> set (blocked q)"
    show "task_id t = y" using D(1) y assms(2) by simp
    show "\<exists>D. task_deps q y = Some D \<and> D \<noteq> {} \<and> D \<subseteq> set (dep_ids t) \<and>
        set (dep_ids t) \<subseteq> completed_tasks q \<union> affine_prereq_ids q \<union> D"
      using D(2) [of y t] y assms(2,3,7,8) by fastforce
  next
    fix y E d assume y: "task_deps q y = Some E"
    show "y \<in> fst ` set (blocked q)" using D(3) y assms(2,3) by simp
    assume "d \<in> E" "y \<notin> failed_tasks q" "\<not> (d = tid \<and> y \<in> ?X)"
    then show "\<exists>l. map_of (dependents_of q) d = Some l \<and> y \<in> set l"
      using D(4) [of y E d] y assms(3,5,9) by (cases "d = tid") (auto simp: lookup_list_mem)
  qed
  then show ?thesis
    using wf assms by (simp add: pool_wf_upto_def pool_wf_def keys_wf_def counts_wf_def blocked_count_def ids_wf_def)
qed

lemma resolve_spec:
  assumes wf: "pool_wf p"
  shows "pool_wf (resolve_completed_dependents tid p)"
    and "live_tasks (resolve_completed_dependents tid p) = live_tasks p"
    and "(x, t) \<in> set (blocked p) \<Longrightarrow> x \<notin> failed_tasks p \<Longrightarrow>
      (if task_deps p x = Some {tid}
       then x \<notin> fst ` set (blocked (resolve_completed_dependents tid p)) \<and> t \<in> set (queued (resolve_completed_dependents tid p))
       else (x, t) \<in> set (blocked (resolve_completed_dependents tid p)) \<and>
         task_deps (resolve_completed_dependents tid p) x = map_option (\<lambda>D. D - {tid}) (task_deps p x))"
    and "set (queued (resolve_completed_dependents tid p)) \<subseteq>
      set (queued p) \<union> {t. \<exists>x. task_deps p x = Some {tid} \<and> (x, t) \<in> set (blocked p)}"
proof -
  let ?ds = "lookup_list (dependents_of p) tid"
  let ?p = "p\<lparr>completed_tasks := insert tid (completed_tasks p), dependents_of := AList.delete tid (dependents_of p)\<rparr>"
  let ?q = "resolve_completed_dependents tid p"
  have q: "?q = fold (resolve_one tid) ?ds ?p" by (simp add: resolve_completed_dependents_def)
  have "pool_wf_upto tid (set ?ds) ?p"
    by (rule pool_wf_upto_start [OF wf]) (use pool_wf_keys [OF wf] in auto)
  then have "pool_wf_upto tid (set ?ds \<union> {}) ?p" by simp
  moreover have "tid \<in> completed_tasks ?p" by simp
  ultimately have RF: "pool_wf_upto tid (set ?ds \<union> {}) ?p" "tid \<in> completed_tasks ?p" .
  have F: "pool_wf ?q"
      "\<And>x. task_deps ?q x = (if x \<in> set ?ds then (case task_deps p x of None \<Rightarrow> None
          | Some D \<Rightarrow> if D - {tid} = {} then None else Some (D - {tid})) else task_deps p x)"
      "set (blocked ?q) = {(x, t) \<in> set (blocked p). \<not> (x \<in> set ?ds \<and> released tid x ?p)}"
      "set (queued ?q) = set (queued p) \<union> {t. \<exists>x \<in> set ?ds. released tid x ?p \<and> (x, t) \<in> set (blocked p)}"
      "live_tasks ?q = live_tasks p"
    using resolve_fold [OF RF] unfolding pool_wf_upto_empty q by simp_all
  show "pool_wf ?q" "live_tasks ?q = live_tasks p" using F(1,5) by auto
  have D: "\<exists>D. task_deps p x = Some D \<and> D \<noteq> {} \<and> (tid \<in> D \<longrightarrow> x \<in> failed_tasks p \<or> x \<in> set ?ds)"
    if xt: "(x, t) \<in> set (blocked p)" for x t
  proof -
    obtain E where E: "task_deps p x = Some E" "E \<noteq> {}"
      using deps_wfD(2) [OF pool_wfD(3) [OF wf] xt] by blast
    with deps_wfD(4) [OF pool_wfD(3) [OF wf] E(1), of tid] show ?thesis
      unfolding lookup_list_mem by blast
  qed
  have rel: "released tid x ?p \<longleftrightarrow> task_deps p x = Some {tid}" if "(x, t) \<in> set (blocked p)" for x t
    using D [OF that] by (auto simp: released_def)
  show "set (queued ?q) \<subseteq> set (queued p) \<union> {t. \<exists>x. task_deps p x = Some {tid} \<and> (x, t) \<in> set (blocked p)}"
    unfolding F(4) using rel by blast
  show "if task_deps p x = Some {tid} then x \<notin> fst ` set (blocked ?q) \<and> t \<in> set (queued ?q)
       else (x, t) \<in> set (blocked ?q) \<and> task_deps ?q x = map_option (\<lambda>D. D - {tid}) (task_deps p x)"
    if x: "(x, t) \<in> set (blocked p)" "x \<notin> failed_tasks p"
  proof (cases "task_deps p x = Some {tid}")
    case True
    then have "x \<in> set ?ds" using D [OF x(1)] x(2) by auto
    then show ?thesis using True x(1) rel unfolding F(3,4) by (auto simp del: split_paired_Ex)
  next
    case False
    obtain E where E: "task_deps p x = Some E" "tid \<in> E \<longrightarrow> x \<in> set ?ds" "E \<noteq> {}" using D [OF x(1)] x(2) by auto
    then have "E - {tid} \<noteq> {}" using False by auto
    then have "task_deps ?q x = Some (E - {tid})"
      using E unfolding F(2) by (auto simp del: split_paired_Ex)
    then show ?thesis using False E(1) x(1) rel [OF x(1)] unfolding F(3) by simp
  qed
qed

lemma resolve_frame:
  "completed_tasks (resolve_completed_dependents tid p) = insert tid (completed_tasks p) \<and>
   failed_tasks (resolve_completed_dependents tid p) = failed_tasks p \<and>
   in_flight_per_phase (resolve_completed_dependents tid p) = in_flight_per_phase p \<and>
   soft_failed (resolve_completed_dependents tid p) = soft_failed p"
proof -
  have "completed_tasks (fold (resolve_one tid) ds p) = completed_tasks p \<and>
      failed_tasks (fold (resolve_one tid) ds p) = failed_tasks p \<and>
      in_flight_per_phase (fold (resolve_one tid) ds p) = in_flight_per_phase p \<and>
      soft_failed (fold (resolve_one tid) ds p) = soft_failed p" for ds and p :: "('a, 'b) pending_pool"
  proof (induction ds arbitrary: p)
    case (Cons x ds)
    have "completed_tasks (resolve_one tid x p) = completed_tasks p \<and>
        failed_tasks (resolve_one tid x p) = failed_tasks p \<and>
        in_flight_per_phase (resolve_one tid x p) = in_flight_per_phase p \<and>
        soft_failed (resolve_one tid x p) = soft_failed p"
      by (simp add: resolve_one_def Let_def split: option.split)
    with Cons [of "resolve_one tid x p"] show ?case by simp
  qed simp
  then show ?thesis by (simp add: resolve_completed_dependents_def)
qed

lemma on_item_finished_wf: "pool_wf p \<Longrightarrow> pool_wf (on_item_finished ph otid p)"
proof -
  assume wf: "pool_wf p"
  let ?p = "p\<lparr>in_flight_per_phase := dec_count ph (in_flight_per_phase p)\<rparr>"
  have "pool_wf (?p\<lparr>in_flight_tasks := S\<rparr>)" "pool_wf ?p" for S
    using pool_wfD [OF wf] pool_wf_keys [OF wf]
    by (intro pool_wf_frame [OF wf]; simp add: ids_wf_def distinct_keys_dec)+
  then show ?thesis
    by (simp add: on_item_finished_def Let_def resolve_spec(1) split: option.split)
qed

section \<open>Properties\<close>

text \<open>
  C22: a completion releases exactly the tasks that waited for nothing else. After
  \<open>on_item_finished\<close> of a task, the phase's in-flight count is one lower, the task is completed, no task
  is lost or invented, and a blocked task that has not failed is queued if the finished task was its
  only unresolved prerequisite and otherwise stays blocked on the rest of its prerequisites; nothing
  else enters the queues.
\<close>

theorem completion_releases:
  assumes wf: "pool_wf p"
  shows "let q = on_item_finished ph (Some tid) p in
    in_flight q ph = in_flight p ph - 1 \<and> completed_tasks q = insert tid (completed_tasks p) \<and>
    live_tasks q = live_tasks p \<and>
    (\<forall>(x, t) \<in> set (blocked p). x \<notin> failed_tasks p \<longrightarrow>
      (if task_deps p x = Some {tid} then x \<notin> fst ` set (blocked q) \<and> t \<in> set (queued q)
       else (x, t) \<in> set (blocked q) \<and> task_deps q x = map_option (\<lambda>D. D - {tid}) (task_deps p x))) \<and>
    set (queued q) \<subseteq> set (queued p) \<union> {t. \<exists>x. task_deps p x = Some {tid} \<and> (x, t) \<in> set (blocked p)}"
proof -
  let ?p = "p\<lparr>in_flight_per_phase := dec_count ph (in_flight_per_phase p), in_flight_tasks := in_flight_tasks p - {tid}\<rparr>"
  let ?q = "resolve_completed_dependents tid ?p"
  have wfp: "pool_wf ?p"
    using pool_wfD [OF wf] pool_wf_keys [OF wf]
    by (intro pool_wf_frame [OF wf]) (simp_all add: ids_wf_def distinct_keys_dec)
  note R = resolve_spec [OF wfp, where tid = tid, simplified] resolve_frame [where tid = tid and p = ?p, simplified]
  have q: "on_item_finished ph (Some tid) p = maybe_transition_drain ph ?q"
    by (simp add: on_item_finished_def)
  have "in_flight ?q ph = in_flight p ph - 1"
    using R(5) pool_wf_keys [OF wf] by (simp add: in_flight_def get_count_dec)
  moreover have "\<forall>(x, t) \<in> set (blocked p). x \<notin> failed_tasks p \<longrightarrow>
      (if task_deps p x = Some {tid} then x \<notin> fst ` set (blocked ?q) \<and> t \<in> set (queued ?q)
       else (x, t) \<in> set (blocked ?q) \<and> task_deps ?q x = map_option (\<lambda>D. D - {tid}) (task_deps p x))"
    using R(3) by fastforce
  moreover have F: "queued (maybe_transition_drain ph ?q) = queued ?q" "blocked (maybe_transition_drain ph ?q) = blocked ?q"
      "task_deps (maybe_transition_drain ph ?q) = task_deps ?q"
      "in_flight (maybe_transition_drain ph ?q) ph = in_flight ?q ph"
      "completed_tasks (maybe_transition_drain ph ?q) = insert tid (completed_tasks p)"
      "live_tasks (maybe_transition_drain ph ?q) = live_tasks p"
    using R(2,5) by (simp_all add: in_flight_def)
  ultimately show ?thesis unfolding q Let_def F using R(4) by (intro conjI)
qed

theorem completion_releases_witness:
  "task_deps blocked_pool ''b'' = Some {''a''} \<and>
   sample_task ''p'' ''b'' [''a''] \<in> set (queued (on_item_finished ''p'' (Some ''a'') blocked_pool))"
proof -
  have "task_deps blocked_pool ''b'' = Some {''a''}" "map fst (blocked blocked_pool) = [''b'']"
    "failed_tasks blocked_pool = {}" "map_of (blocked blocked_pool) ''b'' = Some (sample_task ''p'' ''b'' [''a''])"
    by code_simp+
  then have f: "task_deps blocked_pool ''b'' = Some {''a''}" "(''b'', sample_task ''p'' ''b'' [''a'']) \<in> set (blocked blocked_pool)"
    "''b'' \<notin> failed_tasks blocked_pool"
    by (auto dest: map_of_SomeD)
  show ?thesis
    using completion_releases [OF blocked_pool_wf, of "''p''" "''a''"] f unfolding Let_def by (smt (verit) case_prodD)
qed

end
