(* ===== verification/Pool_Cascade.thy ===== *)
theory Pool_Cascade
  imports Pool_Lifecycle
begin

text \<open>
  The failure cascade of \<open>lifecycle.rs\<close> computes the transitive dependents of a failed task: the loop
  fails exactly the tasks reachable through the reverse index without passing a task that had
  already failed, and hands back exactly those of them that were blocked.
\<close>

section \<open>One dependent\<close>

lemma cascade_one_cases [case_names old gone drop]:
  assumes wf: "pool_wf_upto tid X (cs_pool s)"
  obtains (old) "x \<in> failed_tasks (cs_pool s)" "cascade_one x s = s"
  | (gone) "x \<notin> failed_tasks (cs_pool s)" "x \<notin> fst ` set (blocked (cs_pool s))" "task_deps (cs_pool s) x = None"
      "cascade_one x s = s\<lparr>cs_pool := (cs_pool s)\<lparr>failed_tasks := insert x (failed_tasks (cs_pool s)),
          soft_failed := AList.delete x (soft_failed (cs_pool s)), task_deps := (task_deps (cs_pool s))(x := None)\<rparr>,
          frontier := frontier s @ [x]\<rparr>"
  | (drop) t where "x \<notin> failed_tasks (cs_pool s)" "map_of (blocked (cs_pool s)) x = Some t"
      "cascade_one x s = s\<lparr>cs_pool := (cs_pool s)\<lparr>failed_tasks := insert x (failed_tasks (cs_pool s)),
          soft_failed := AList.delete x (soft_failed (cs_pool s)), task_deps := (task_deps (cs_pool s))(x := None),
          blocked := AList.delete x (blocked (cs_pool s)),
          blocked_per_phase := dec_count (phase_id t) (blocked_per_phase (cs_pool s))\<rparr>,
          affected_phases := add_phase (phase_id t) (affected_phases s), cascaded := cascaded s @ [t],
          frontier := frontier s @ [x]\<rparr>"
proof (cases "x \<in> failed_tasks (cs_pool s)")
  case True
  then show thesis by (intro old) (simp_all add: cascade_one_def Let_def)
next
  case False
  show thesis
  proof (cases "map_of (blocked (cs_pool s)) x")
    case None
    then have n: "x \<notin> fst ` set (blocked (cs_pool s))" by (simp add: map_of_eq_None_iff)
    have "deps_wf_upto tid X (cs_pool s)" using wf by (simp add: pool_wf_upto_def)
    then have "task_deps (cs_pool s) x = None"
      using n deps_wf_uptoD(3) by (cases "task_deps (cs_pool s) x") blast+
    with False None n show thesis by (intro gone) (simp_all add: cascade_one_def Let_def)
  next
    case (Some t)
    with False show thesis by (intro drop) (simp_all add: cascade_one_def Let_def)
  qed
qed

lemma cascade_one_wf:
  assumes wf: "pool_wf_upto tid (insert x X) (cs_pool s)"
  shows "pool_wf_upto tid X (cs_pool (cascade_one x s))"
  using wf
proof (cases rule: cascade_one_cases [where x = x])
  case old
  then have "deps_wf_upto tid X (cs_pool s)"
    using deps_wf_upto_shrink [OF pool_wf_upto_deps [OF wf]] by simp
  then show ?thesis using wf old by (simp add: pool_wf_upto_def)
next
  case gone
  have "deps_wf_upto tid X (cs_pool (cascade_one x s))"
    by (rule deps_wf_upto_delete [where p = "cs_pool s" and x = x])
      (use wf gone in \<open>auto simp: pool_wf_upto_def delete_id\<close>)
  then show ?thesis
    using wf by (auto simp: gone(4) pool_wf_upto_def keys_wf_def counts_wf_def blocked_count_def ids_wf_def)
next
  case (drop t)
  let ?q = "cs_pool (cascade_one x s)"
  have "deps_wf_upto tid X ?q"
    by (rule deps_wf_upto_delete [where p = "cs_pool s" and x = x])
      (use wf in \<open>auto simp: drop(3) pool_wf_upto_def\<close>)
  moreover have "counts_wf ?q"
    by (rule counts_wf_delete [where p = "cs_pool s" and tid = x and t = t])
      (use wf drop(2) in \<open>simp_all add: drop(3) pool_wf_upto_def ids_wf_def\<close>)
  moreover have "ids_wf ?q"
    by (rule ids_wf_delete [where p = "cs_pool s" and x = x])
      (use wf in \<open>simp_all add: drop(3) pool_wf_upto_def\<close>)
  moreover have "keys_wf ?q" using wf by (simp add: drop(3) pool_wf_upto_def keys_wf_def distinct_keys_dec)
  ultimately show ?thesis using wf by (simp add: pool_wf_upto_def drop(3))
qed

lemma cascade_one_frame:
  "buckets (cs_pool (cascade_one x s)) = buckets (cs_pool s) \<and>
   dependents_of (cs_pool (cascade_one x s)) = dependents_of (cs_pool s) \<and>
   completed_tasks (cs_pool (cascade_one x s)) = completed_tasks (cs_pool s) \<and>
   phase_state (cs_pool (cascade_one x s)) = phase_state (cs_pool s) \<and>
   in_flight_per_phase (cs_pool (cascade_one x s)) = in_flight_per_phase (cs_pool s) \<and>
   failed_tasks (cs_pool (cascade_one x s)) = insert x (failed_tasks (cs_pool s))"
  by (auto simp: cascade_one_def Let_def split: option.split)

lemma cascade_fold_frame:
  "buckets (cs_pool (fold cascade_one ds s)) = buckets (cs_pool s) \<and>
   dependents_of (cs_pool (fold cascade_one ds s)) = dependents_of (cs_pool s) \<and>
   completed_tasks (cs_pool (fold cascade_one ds s)) = completed_tasks (cs_pool s) \<and>
   phase_state (cs_pool (fold cascade_one ds s)) = phase_state (cs_pool s) \<and>
   in_flight_per_phase (cs_pool (fold cascade_one ds s)) = in_flight_per_phase (cs_pool s) \<and>
   failed_tasks (cs_pool (fold cascade_one ds s)) = failed_tasks (cs_pool s) \<union> set ds"
proof (induction ds arbitrary: s)
  case (Cons x ds)
  from Cons [of "cascade_one x s"] cascade_one_frame [of x s] show ?case by simp
qed simp

lemma cascade_fold_spec:
  assumes "pool_wf_upto tid (set ds \<union> X) (cs_pool s)"
  shows "pool_wf_upto tid X (cs_pool (fold cascade_one ds s)) \<and>
    set (frontier (fold cascade_one ds s)) = set (frontier s) \<union> (set ds - failed_tasks (cs_pool s)) \<and>
    set (blocked (cs_pool (fold cascade_one ds s))) =
      {(x, t) \<in> set (blocked (cs_pool s)). x \<notin> set ds - failed_tasks (cs_pool s)} \<and>
    mset (map snd (blocked (cs_pool (fold cascade_one ds s)))) + mset (cascaded (fold cascade_one ds s)) =
      mset (map snd (blocked (cs_pool s))) + mset (cascaded s)"
  using assms
proof (induction ds arbitrary: s)
  case (Cons x ds)
  have wf: "pool_wf_upto tid (insert x (set ds \<union> X)) (cs_pool s)" using Cons.prems by simp
  note IH = Cons.IH [OF cascade_one_wf [OF wf]]
  note fr = cascade_one_frame [of x s]
  have db: "distinct (keys (blocked (cs_pool s)))" using wf by (simp add: pool_wf_upto_def ids_wf_def)
  show ?case
    using wf
  proof (cases rule: cascade_one_cases [where x = x])
    case old
    then show ?thesis using IH by auto
  next
    case gone
    then have nb: "(x, t) \<notin> set (blocked (cs_pool s))" for t by force
    have st: "blocked (cs_pool (cascade_one x s)) = blocked (cs_pool s)"
      "frontier (cascade_one x s) = frontier s @ [x]" "cascaded (cascade_one x s) = cascaded s"
      by (simp_all add: gone(4))
    show ?thesis using IH gone(1) nb fr by (auto simp: st)
  next
    case (drop t)
    have st: "blocked (cs_pool (cascade_one x s)) = AList.delete x (blocked (cs_pool s))"
      "frontier (cascade_one x s) = frontier s @ [x]" "cascaded (cascade_one x s) = cascaded s @ [t]"
      by (simp_all add: drop(3))
    have "mset (map snd (blocked (cs_pool s))) = add_mset t (mset (map snd (AList.delete x (blocked (cs_pool s)))))"
      using mset_blocked_delete [OF db drop(2)] by simp
    then show ?thesis using IH drop(1) fr by (auto simp: st delete_mem)
  qed
qed simp

section \<open>The loop\<close>

inductive cascade_reach :: "('i, 'j) pending_pool \<Rightarrow> task_id \<Rightarrow> task_id \<Rightarrow> bool"
  for p :: "('i, 'j) pending_pool" and tid :: task_id where
  direct: "x \<in> set (lookup_list (dependents_of p) tid) \<Longrightarrow> x \<notin> failed_tasks p \<Longrightarrow> cascade_reach p tid x"
| further: "cascade_reach p tid y \<Longrightarrow> x \<in> set (lookup_list (dependents_of p) y) \<Longrightarrow> x \<notin> failed_tasks p \<Longrightarrow>
    cascade_reach p tid x"

definition newly_failed :: "('i, 'j) pending_pool \<Rightarrow> ('i, 'j) cascade_state \<Rightarrow> task_id set" where
  "newly_failed p0 s = failed_tasks (cs_pool s) - failed_tasks p0"

definition cascade_inv :: "('i, 'j) pending_pool \<Rightarrow> task_id \<Rightarrow> ('i, 'j) cascade_state \<Rightarrow> bool" where
  "cascade_inv p0 tid s \<longleftrightarrow>
     pool_wf (cs_pool s) \<and> failed_tasks p0 \<subseteq> failed_tasks (cs_pool s) \<and>
     (\<forall>x \<in> newly_failed p0 s. cascade_reach p0 tid x) \<and>
     set (frontier s) \<subseteq> insert tid (newly_failed p0 s) \<and>
     (\<forall>n. lookup_list (dependents_of (cs_pool s)) n = lookup_list (dependents_of p0) n \<or>
        set (lookup_list (dependents_of p0) n) \<subseteq> failed_tasks (cs_pool s) \<and>
        lookup_list (dependents_of (cs_pool s)) n = []) \<and>
     (\<forall>n \<in> insert tid (newly_failed p0 s). n \<in> set (frontier s) \<or>
        set (lookup_list (dependents_of p0) n) \<subseteq> failed_tasks (cs_pool s)) \<and>
     set (blocked (cs_pool s)) = {(x, t) \<in> set (blocked p0). x \<notin> newly_failed p0 s} \<and>
     mset (map snd (blocked (cs_pool s))) + mset (cascaded s) = mset (map snd (blocked p0)) \<and>
     buckets (cs_pool s) = buckets p0 \<and> completed_tasks (cs_pool s) = completed_tasks p0 \<and>
     phase_state (cs_pool s) = phase_state p0 \<and> in_flight_per_phase (cs_pool s) = in_flight_per_phase p0"

lemma cascade_inv_step:
  assumes inv: "cascade_inv p0 tid s" and f: "frontier s = n # rest" and tid: "tid \<in> failed_tasks p0"
  shows "cascade_inv p0 tid (fold cascade_one (lookup_list (dependents_of (cs_pool s)) n)
      (s\<lparr>cs_pool := (cs_pool s)\<lparr>dependents_of := AList.delete n (dependents_of (cs_pool s))\<rparr>, frontier := rest\<rparr>))"
    (is "cascade_inv p0 tid ?s'")
proof -
  let ?p = "cs_pool s"
  let ?ds = "lookup_list (dependents_of ?p) n"
  let ?s1 = "s\<lparr>cs_pool := ?p\<lparr>dependents_of := AList.delete n (dependents_of ?p)\<rparr>, frontier := rest\<rparr>"
  note I = inv [unfolded cascade_inv_def]
  have wf: "pool_wf ?p" using I by blast
  have "pool_wf_upto n (set ?ds) (cs_pool ?s1)"
    by (rule pool_wf_upto_start [OF wf]) (use pool_wf_keys [OF wf] in auto)
  then have wf1: "pool_wf_upto n (set ?ds \<union> {}) (cs_pool ?s1)" by simp
  note S = cascade_fold_spec [OF wf1, unfolded pool_wf_upto_empty]
  note FR = cascade_fold_frame [of ?ds ?s1]
  have ds: "set ?ds \<subseteq> set (lookup_list (dependents_of p0) n)"
    "set (lookup_list (dependents_of p0) n) \<subseteq> failed_tasks ?p \<union> set ?ds"
    using I by (metis empty_subsetI list.set(1) order_refl, metis Un_upper2 le_supI1)
  have fl: "failed_tasks (cs_pool ?s') = failed_tasks ?p \<union> set ?ds" using FR by simp
  have nf: "newly_failed p0 ?s' = newly_failed p0 s \<union> (set ?ds - failed_tasks ?p)"
    using I unfolding newly_failed_def fl by blast
  have n: "n \<in> insert tid (newly_failed p0 s)" using I f by auto
  have reach: "cascade_reach p0 tid x" if "x \<in> set ?ds - failed_tasks ?p" for x
  proof -
    have "x \<in> set (lookup_list (dependents_of p0) n)" "x \<notin> failed_tasks p0" using that ds(1) I by auto
    then show ?thesis using n I by (metis cascade_reach.intros insertE)
  qed
  have lk: "lookup_list (dependents_of (cs_pool ?s')) m =
      (if m = n then [] else lookup_list (dependents_of ?p) m)" for m
    using FR by (simp add: lookup_list_def)
  have A: "lookup_list (dependents_of (cs_pool ?s')) m = lookup_list (dependents_of p0) m \<or>
      set (lookup_list (dependents_of p0) m) \<subseteq> failed_tasks (cs_pool ?s') \<and>
      lookup_list (dependents_of (cs_pool ?s')) m = []" for m
  proof (cases "m = n")
    case True
    then show ?thesis using ds(2) unfolding lk fl by simp
  next
    case False
    have "lookup_list (dependents_of ?p) m = lookup_list (dependents_of p0) m \<or>
        set (lookup_list (dependents_of p0) m) \<subseteq> failed_tasks ?p \<and> lookup_list (dependents_of ?p) m = []"
      using I by blast
    then show ?thesis using False unfolding lk fl by auto
  qed
  have fr: "set (frontier ?s') = set rest \<union> (set ?ds - failed_tasks ?p)" using S by simp
  have B: "m \<in> set (frontier ?s') \<or> set (lookup_list (dependents_of p0) m) \<subseteq> failed_tasks (cs_pool ?s')"
    if "m \<in> insert tid (newly_failed p0 ?s')" for m
    using that I ds(2) unfolding nf fl fr f by (cases "m = n") auto
  have "set (blocked (cs_pool ?s')) = {(x, t) \<in> set (blocked p0). x \<notin> newly_failed p0 ?s'}"
    using S I unfolding nf by auto
  moreover have "set (frontier ?s') \<subseteq> insert tid (newly_failed p0 ?s')"
    using I f unfolding nf fr by auto
  moreover have "\<forall>x \<in> newly_failed p0 ?s'. cascade_reach p0 tid x" using I reach unfolding nf by blast
  moreover have "failed_tasks p0 \<subseteq> failed_tasks (cs_pool ?s')" using I unfolding fl by blast
  ultimately show ?thesis
    unfolding cascade_inv_def using A B S FR I by simp
qed

lemma cascade_loop_inv:
  "cascade_inv p0 tid s \<Longrightarrow> tid \<in> failed_tasks p0 \<Longrightarrow>
   cascade_inv p0 tid (cascade_loop s) \<and> frontier (cascade_loop s) = []"
proof (induction s rule: cascade_loop.induct)
  case (1 s)
  show ?case
  proof (cases "frontier s")
    case Nil
    then show ?thesis using "1.prems" by (subst (1 2) cascade_loop.simps) simp
  next
    case (Cons n rest)
    note "1.IH" [OF Cons refl refl cascade_inv_step [OF "1.prems"(1) Cons "1.prems"(2)] "1.prems"(2)]
    then show ?thesis using Cons by (subst (1 2) cascade_loop.simps) (simp add: Let_def)
  qed
qed

lemma cascade_correct:
  assumes wf: "pool_wf p" and tid: "tid \<in> failed_tasks p"
    and r: "cascade_fail_dependents_of tid phs p = (casc, phs', q)"
  shows "pool_wf q" "failed_tasks q = failed_tasks p \<union> {x. cascade_reach p tid x}"
    "set (blocked q) = {(x, t) \<in> set (blocked p). \<not> cascade_reach p tid x}"
    "mset (map snd (blocked p)) = mset (map snd (blocked q)) + mset casc"
    "buckets q = buckets p" "completed_tasks q = completed_tasks p" "phase_state q = phase_state p"
    "in_flight_per_phase q = in_flight_per_phase p"
proof -
  let ?s = "\<lparr>cs_pool = p, affected_phases = phs, cascaded = [], frontier = [tid]\<rparr>"
  let ?r = "cascade_loop ?s"
  have "cascade_inv p tid ?s" using wf tid by (simp add: cascade_inv_def newly_failed_def)
  from cascade_loop_inv [OF this tid] have I: "cascade_inv p tid ?r" "frontier ?r = []" by auto
  have q: "q = cs_pool ?r" "casc = cascaded ?r"
    using r by (auto simp: cascade_fail_dependents_of_def Let_def)
  have cl: "set (lookup_list (dependents_of p) m) \<subseteq> failed_tasks q" if "m \<in> insert tid (newly_failed p ?r)" for m
  proof -
    have "m \<in> set (frontier ?r) \<or> set (lookup_list (dependents_of p) m) \<subseteq> failed_tasks (cs_pool ?r)"
      using I(1) that unfolding cascade_inv_def by blast
    then show ?thesis using I(2) by (simp add: q)
  qed
  have "x \<in> newly_failed p ?r" if "cascade_reach p tid x" for x
    using that by induction (use cl in \<open>auto simp: newly_failed_def q\<close>)
  then have nf: "newly_failed p ?r = {x. cascade_reach p tid x}"
    using I unfolding cascade_inv_def by blast
  have "failed_tasks p \<subseteq> failed_tasks q" using I unfolding cascade_inv_def q by blast
  then show "failed_tasks q = failed_tasks p \<union> {x. cascade_reach p tid x}"
    using nf unfolding newly_failed_def q by blast
  show "pool_wf q" "set (blocked q) = {(x, t) \<in> set (blocked p). \<not> cascade_reach p tid x}"
    "mset (map snd (blocked p)) = mset (map snd (blocked q)) + mset casc"
    "buckets q = buckets p" "completed_tasks q = completed_tasks p" "phase_state q = phase_state p"
    "in_flight_per_phase q = in_flight_per_phase p"
    using I unfolding cascade_inv_def nf q by simp_all
qed

end
