(* ===== verification/Pool_Requeue.thy ===== *)
theory Pool_Requeue
  imports Pool_Cascade
begin

text \<open>
  The operations that put items back or take them out again (\<open>requeue\<close>, \<open>push_to_queue_head\<close>,
  \<open>reinject\<close>, \<open>drain_queued\<close>, \<open>release_worker\<close>, \<open>reconcile_blocked\<close>) keep the pool invariant, and
  reinjecting a completed task makes its dependents wait again.
\<close>

section \<open>Pushing an item\<close>

lemma push_front_wf:
  assumes wf: "pool_wf p" and new: "task_id t \<notin> live_ids p"
    and "distinct (keys st)" "distinct (keys fl)"
  shows "pool_wf (p\<lparr>in_flight_per_phase := fl, buckets := push_front_item t (buckets p), phase_state := st\<rparr>)"
proof -
  let ?q = "p\<lparr>in_flight_per_phase := fl, buckets := push_front_item t (buckets p), phase_state := st\<rparr>"
  have "mset (queued_ids ?q) = add_mset (task_id t) (mset (queued_ids p))"
    using pool_wfD(1) [OF wf] by simp
  then have "distinct (queued_ids ?q @ keys (blocked p)) \<longleftrightarrow> distinct ((task_id t # queued_ids p) @ keys (blocked p))"
    by (intro mset_eq_imp_distinct_iff) simp
  then have "ids_wf ?q" using pool_wfD(5) [OF wf] new by (simp add: ids_wf_def)
  then show ?thesis
    using pool_wfD(1) [OF wf] pool_wf_keys [OF wf] assms(3,4) by (intro pool_wf_frame [OF wf]) simp_all
qed

lemma push_back_wf:
  assumes wf: "pool_wf p" and new: "task_id t \<notin> live_ids p"
  shows "pool_wf (p\<lparr>buckets := push_back_item t (buckets p)\<rparr>)"
proof -
  let ?q = "p\<lparr>buckets := push_back_item t (buckets p)\<rparr>"
  have "mset (queued_ids ?q) = add_mset (task_id t) (mset (queued_ids p))"
    using pool_wfD(1) [OF wf] by simp
  then have "distinct (queued_ids ?q @ keys (blocked p)) \<longleftrightarrow> distinct ((task_id t # queued_ids p) @ keys (blocked p))"
    by (intro mset_eq_imp_distinct_iff) simp
  then have "ids_wf ?q" using pool_wfD(5) [OF wf] new by (simp add: ids_wf_def)
  then show ?thesis
    using pool_wfD(1) [OF wf] pool_wf_keys [OF wf] by (intro pool_wf_frame [OF wf]) simp_all
qed

lemma requeue_wf:
  assumes wf: "pool_wf p" and new: "task_id t \<notin> live_ids p"
  shows "pool_wf (requeue t p)"
  unfolding requeue_def
  using push_front_wf [OF wf new] pool_wf_keys [OF wf] by (auto simp: distinct_keys_dec simp del: update_new)

lemma push_to_queue_head_wf:
  assumes wf: "pool_wf p" and new: "task_id t \<notin> live_ids p"
  shows "pool_wf (push_to_queue_head t p)"
proof -
  let ?st = "if phase_status_of p (phase_id t) = Some Draining
      then AList.update (phase_id t) Active (phase_state p) else phase_state p"
  have "distinct (keys ?st)" using pool_wf_keys [OF wf] by (simp del: update_new)
  then show ?thesis
    using push_front_wf [OF wf new _ pool_wf_keys(2) [OF wf], of ?st] by (simp add: push_to_queue_head_def)
qed

section \<open>Taking an item out\<close>

lemma take_first_match_cases [case_names none some]:
  assumes bw: "buckets_wf (buckets p)"
  obtains (none) "take_first_match pred p = (None, p)"
      "\<And>t. t \<in> set (queued p) \<Longrightarrow> pred t \<Longrightarrow> \<not> phase_active_or_draining p (phase_id t)"
  | (some) t bs wa where
      "take_first_match pred p = (Some t, p\<lparr>buckets := bs, worker_affinity := wa\<rparr>)"
      "pred t" "t \<in> set (queued p)" "buckets_wf bs" "add_mset t (mset (bucket_items bs)) = mset (queued p)"
proof -
  let ?P = "\<lambda>(key, b). phase_active_or_draining p (fst key) \<and> position pred (items b) \<noteq> None"
  show thesis
  proof (cases "find ?P (buckets p)")
    case None
    have "\<not> phase_active_or_draining p (phase_id t)" if t: "t \<in> set (queued p)" "pred t" for t
    proof -
      from t(1) obtain k b where kb: "(k, b) \<in> set (buckets p)" "t \<in> set (items b)"
        unfolding bucket_items_mem by blast
      have "phase_id t = fst k" using buckets_wfD [OF bw kb] by (metis bucket_key_def fst_conv)
      moreover have "position pred (items b) \<noteq> None" using kb(2) t(2) by (auto simp: position_None)
      moreover have "\<not> ?P (k, b)" using None kb(1) by (simp only: find_eq_None_iff) blast
      ultimately show ?thesis by simp
    qed
    with None show thesis by (intro none) (simp_all add: take_first_match_def)
  next
    case (Some kb)
    obtain key b where kb: "kb = (key, b)" by (cases kb) blast
    then have m: "(key, b) \<in> set (buckets p)" "position pred (items b) \<noteq> None"
      using find_SomeD [OF Some] by auto
    then obtain idx where idx: "position pred (items b) = Some idx" by blast
    then have i: "idx < length (items b)" "pred (items b ! idx)" using position_Some by auto
    have b: "map_of (buckets p) key = Some b"
      using m(1) bw by (simp add: bt_sorted_distinct)
    let ?f = "\<lambda>b'. b'\<lparr>items := remove_nth idx (items b')\<rparr>"
    let ?g = "\<lambda>b'. b'\<lparr>items := remove_nth idx (items b'), pinned_workers := []\<rparr>"
    note tf = take_bucket_item [OF bw b i(1), of ?f] take_bucket_item [OF bw b i(1), of ?g]
    have eq: "AList.map_entry key (\<lambda>b'. b'\<lparr>items := remove_nth idx (items b)\<rparr>) (buckets p) = AList.map_entry key ?f (buckets p)"
      "AList.map_entry key (\<lambda>b'. b'\<lparr>items := remove_nth idx (items b), pinned_workers := []\<rparr>) (buckets p) = AList.map_entry key ?g (buckets p)"
      by (rule map_entry_cong [OF b], simp)+
    have t: "items b ! idx \<in> set (queued p)" using bucket_lookup(2) [OF bw b i(1)] .
    show thesis
    proof (cases "remove_nth idx (items b) = []")
      case True
      have "take_first_match pred p = (Some (items b ! idx), p\<lparr>buckets := AList.map_entry key ?g (buckets p),
          worker_affinity := clear_pins key (pinned_workers b) (worker_affinity p)\<rparr>)"
        unfolding eq(2) [symmetric] using Some kb idx True by (simp add: take_first_match_def)
      then show thesis using i(2) t tf(3,4) by (intro some) simp_all
    next
      case False
      have "take_first_match pred p = (Some (items b ! idx), p\<lparr>buckets := AList.map_entry key ?f (buckets p),
          worker_affinity := worker_affinity p\<rparr>)"
        unfolding eq(1) [symmetric] using Some kb idx False by (simp add: take_first_match_def Let_def)
      then show thesis using i(2) t tf(1,2) by (intro some [where wa = "worker_affinity p"]) simp_all
    qed
  qed
qed

lemma remove_dependent_Cons:
  "remove_dependent tid deps ((k, l) # m) =
     (if k \<in> deps then (if filter (\<lambda>x. x \<noteq> tid) l = [] then [] else [(k, filter (\<lambda>x. x \<noteq> tid) l)]) else [(k, l)])
     @ remove_dependent tid deps m"
  by (simp add: remove_dependent_def Let_def)

lemma remove_dependent_lookup:
  "distinct (keys m) \<Longrightarrow>
   map_of (remove_dependent tid deps m) d =
     (case map_of m d of None \<Rightarrow> None
      | Some l \<Rightarrow> if d \<in> deps then (if filter (\<lambda>x. x \<noteq> tid) l = [] then None else Some (filter (\<lambda>x. x \<noteq> tid) l)) else Some l)"
proof (induction m)
  case (Cons a m)
  obtain k l where a: "a = (k, l)" by (cases a)
  have "map_of m k = None" using Cons.prems a by (simp add: map_of_eq_None_iff)
  then show ?case using Cons a by (auto simp: remove_dependent_Cons map_add_def split: option.split)
qed (simp add: remove_dependent_def)

lemma keys_remove_dependent: "fst ` set (remove_dependent tid deps m) \<subseteq> fst ` set m"
proof (induction m)
  case (Cons a m)
  then show ?case by (cases a) (auto simp: remove_dependent_Cons)
qed (simp add: remove_dependent_def)

lemma distinct_remove_dependent [simp]: "distinct (keys m) \<Longrightarrow> distinct (keys (remove_dependent tid deps m))"
proof (induction m)
  case (Cons a m)
  have "fst a \<notin> fst ` set (remove_dependent tid deps m)"
    using Cons.prems keys_remove_dependent [of tid deps m] by auto
  with Cons show ?case by (cases a) (auto simp: remove_dependent_Cons)
qed (simp add: remove_dependent_def)

lemma remove_blocked_cases [case_names none some]:
  assumes wf: "pool_wf p"
  obtains (none) "remove_blocked tid p = (None, p)" "tid \<notin> fst ` set (blocked p)"
  | (some) t q where "remove_blocked tid p = (Some t, q)" "pool_wf q" "task_id t = tid"
      "(tid, t) \<in> set (blocked p)" "blocked q = AList.delete tid (blocked p)"
      "buckets q = buckets p" "task_deps q = (task_deps p)(tid := None)"
      "completed_tasks q = completed_tasks p" "failed_tasks q = failed_tasks p"
      "in_flight_per_phase q = in_flight_per_phase p" "phase_state q = phase_state p"
proof (cases "map_of (blocked p) tid")
  case None
  then have "tid \<notin> fst ` set (blocked p)" by (simp add: map_of_eq_None_iff)
  with None show thesis by (intro none) (simp_all add: remove_blocked_def)
next
  case (Some t)
  note D = deps_wfD [OF pool_wfD(3) [OF wf]]
  have mem: "(tid, t) \<in> set (blocked p)" using Some by (rule map_of_SomeD)
  obtain E where E: "task_deps p tid = Some E" using D(2) [OF mem] by blast
  define q where "q = p\<lparr>blocked := AList.delete tid (blocked p),
      blocked_per_phase := dec_count (phase_id t) (blocked_per_phase p),
      task_deps := (task_deps p)(tid := None), dependents_of := remove_dependent tid E (dependents_of p)\<rparr>"
  have "deps_wf q"
  proof (rule deps_wfI)
    fix x u assume x: "(x, u) \<in> set (blocked q)"
    show "task_id u = x" using x D(1) by (simp add: q_def delete_mem)
    show "\<exists>D. task_deps q x = Some D \<and> D \<noteq> {} \<and> D \<subseteq> set (dep_ids u) \<and>
        set (dep_ids u) \<subseteq> completed_tasks q \<union> affine_prereq_ids q \<union> D"
      using x D(2) [of x u] by (simp add: q_def delete_mem)
  next
    fix x F d assume x: "task_deps q x = Some F"
    then have x': "task_deps p x = Some F" "x \<noteq> tid" by (auto simp: q_def split: if_splits)
    show "x \<in> fst ` set (blocked q)" using D(3) [OF x'(1)] x'(2) by (simp add: q_def)
    assume "d \<in> F" "x \<notin> failed_tasks q"
    then obtain l where l: "map_of (dependents_of p) d = Some l" "x \<in> set l"
      using D(4) [OF x'(1)] by (auto simp: q_def)
    then have "x \<in> set (filter (\<lambda>y. y \<noteq> tid) l)" using x'(2) by simp
    then show "\<exists>l. map_of (dependents_of q) d = Some l \<and> x \<in> set l"
      using l pool_wf_keys(3) [OF wf]
      by (cases "filter (\<lambda>y. y \<noteq> tid) l") (auto simp: q_def remove_dependent_lookup)
  qed
  moreover have "counts_wf q"
    by (rule counts_wf_delete [where p = p and tid = tid and t = t])
      (use wf Some in \<open>simp_all add: q_def pool_wf_def ids_wf_def\<close>)
  moreover have "ids_wf q"
    by (rule ids_wf_delete [where p = p and x = tid]) (use wf in \<open>simp_all add: q_def pool_wf_def\<close>)
  moreover have "keys_wf q" using wf by (simp add: q_def pool_wf_def keys_wf_def distinct_keys_dec)
  ultimately have "pool_wf q" using wf by (simp add: pool_wf_def) (simp add: q_def)
  moreover have "remove_blocked tid p = (Some t, q)" by (simp add: remove_blocked_def Some E q_def)
  ultimately show thesis using D(1) [OF mem] mem by (intro some [of t q]) (simp_all add: q_def)
qed

section \<open>Reconciling blocked tasks\<close>

lemma reconcile_fold:
  assumes "pool_wf p" "distinct ids" "set ids \<subseteq> fst ` set (blocked p)"
  shows "pool_wf (snd (fold reconcile_one ids (out, p))) \<and>
    set (blocked (snd (fold reconcile_one ids (out, p)))) = {(x, t) \<in> set (blocked p). x \<notin> set ids} \<and>
    mset (fst (fold reconcile_one ids (out, p))) + mset (map snd (blocked (snd (fold reconcile_one ids (out, p))))) =
      mset out + mset (map snd (blocked p)) \<and>
    buckets (snd (fold reconcile_one ids (out, p))) = buckets p"
  using assms
proof (induction ids arbitrary: p out)
  case (Cons tid ids)
  show ?case
    using Cons.prems(1)
  proof (cases rule: remove_blocked_cases [where tid = tid])
    case none
    then show ?thesis using Cons.prems(3) by simp
  next
    case (some t q)
    have st: "reconcile_one tid (out, p) = (out @ [t], q)" by (simp add: reconcile_one_def some(1))
    have "mset (blocked p) = add_mset (tid, t) (mset (blocked q))"
      unfolding some(5) using pool_wf_keys(6) [OF Cons.prems(1)] some(4)
      by (intro mset_blocked_delete) simp_all
    moreover have "set ids \<subseteq> fst ` set (blocked q)"
      using Cons.prems(2,3) by (auto simp: some(5))
    moreover have "set (blocked q) = {(x, u) \<in> set (blocked p). x \<noteq> tid}"
      by (auto simp: some(5) delete_mem)
    ultimately show ?thesis
      using Cons.IH [OF some(2), of "out @ [t]"] Cons.prems(2) some(6) by (auto simp: st)
  qed
qed auto

section \<open>Reinjecting a task\<close>

lemma queue_removal_wf:
  assumes wf: "pool_wf p" and "buckets_wf bs" and m: "add_mset t (mset (bucket_items bs)) = mset (queued p)"
  shows "pool_wf (p\<lparr>buckets := bs, worker_affinity := wa\<rparr>)"
    "task_id t \<notin> live_ids (p\<lparr>buckets := bs, worker_affinity := wa\<rparr>)"
proof -
  let ?q = "p\<lparr>buckets := bs, worker_affinity := wa\<rparr>"
  have ids: "ids_wf ?q" "task_id t \<notin> live_ids ?q"
    using ids_wf_remove [OF pool_wfD(5) [OF wf], of ?q t] m by simp_all
  then show "pool_wf ?q"
    using pool_wf_keys [OF wf] assms(2) by (intro pool_wf_frame [OF wf]) simp_all
  show "task_id t \<notin> live_ids ?q" using ids(2) .
qed

text \<open>
  While dependents of the un-completed task \<open>tid\<close> are rerouted (\<open>ids\<close> are still to come): the pool is
  well-formed as far as \<open>tid\<close> counts as completed, the dependents already visited wait for \<open>tid\<close>, and
  those left in a queue belong to phases that do not dispatch.
\<close>

definition reroute_inv :: "task_id \<Rightarrow> task_id list \<Rightarrow> ('i, 'j) task_info multiset \<Rightarrow> ('i, 'j) pending_pool \<Rightarrow> bool" where
  "reroute_inv tid ids L p \<longleftrightarrow>
     pool_wf (p\<lparr>completed_tasks := insert tid (completed_tasks p)\<rparr>) \<and>
     tid \<notin> completed_tasks p \<and> tid \<notin> affine_prereq_ids p \<and> distinct ids \<and> live_tasks p \<subseteq># L \<and>
     (\<forall>(x, t) \<in> set (blocked p). x \<in> set ids \<longrightarrow> tid \<in> set (dep_ids t)) \<and>
     (\<forall>t \<in> set (queued p). task_id t \<in> set ids \<longrightarrow> tid \<in> set (dep_ids t)) \<and>
     (\<forall>(x, t) \<in> set (blocked p). tid \<in> set (dep_ids t) \<longrightarrow> x \<notin> set ids \<longrightarrow>
        (\<exists>D. task_deps p x = Some D \<and> tid \<in> D)) \<and>
     (\<forall>t \<in> set (queued p). tid \<in> set (dep_ids t) \<longrightarrow> task_id t \<notin> set ids \<longrightarrow>
        \<not> phase_active_or_draining p (phase_id t))"

lemma reroute_commit:
  assumes wf: "pool_wf (p\<lparr>completed_tasks := insert tid (completed_tasks p)\<rparr>)"
    and tid: "tid \<notin> completed_tasks p" "tid \<notin> affine_prereq_ids p" "tid \<in> set (dep_ids t)"
    and new: "task_id t \<notin> live_ids p" and L: "add_mset t (live_tasks p) \<subseteq># L"
    and ids: "distinct ids" "task_id t \<notin> set ids"
    and b: "\<forall>(x, t) \<in> set (blocked p). x \<in> set ids \<longrightarrow> tid \<in> set (dep_ids t)"
    and q: "\<forall>t \<in> set (queued p). task_id t \<in> set ids \<longrightarrow> tid \<in> set (dep_ids t)"
    and bw: "\<forall>(x, t) \<in> set (blocked p). tid \<in> set (dep_ids t) \<longrightarrow> x \<notin> set ids \<longrightarrow>
        (\<exists>D. task_deps p x = Some D \<and> tid \<in> D)"
    and qw: "\<forall>t \<in> set (queued p). tid \<in> set (dep_ids t) \<longrightarrow> task_id t \<notin> set ids \<longrightarrow>
        \<not> phase_active_or_draining p (phase_id t)"
  shows "reroute_inv tid ids L (commit_item t p)"
proof -
  let ?q = "commit_item t p"
  have fr: "completed_tasks ?q = completed_tasks p" "affine_prereq_ids ?q = affine_prereq_ids p"
    "phase_active_or_draining ?q = phase_active_or_draining p"
    using commit_item_frame [of t p] by (simp_all add: phase_active_or_draining_def fun_eq_iff)
  have wf': "pool_wf (?q\<lparr>completed_tasks := insert tid (completed_tasks ?q)\<rparr>)"
    using commit_item_wf_weak [OF wf _ new] fr(1) by auto
  have "live_tasks ?q \<subseteq># add_mset t (live_tasks p)"
    using commit_item_live(1) [OF _ new] pool_wfD(1) [OF wf] by simp
  then have L: "live_tasks ?q \<subseteq># L" using L by (rule subset_mset.order_trans)
  show ?thesis
  proof (cases rule: commit_item_cases [of t p])
    case (failed d)
    have "blocked ?q = blocked p" "buckets ?q = buckets p" "task_deps ?q = task_deps p"
      by (simp_all add: failed)
    then show ?thesis using wf' fr tid L ids b q bw qw unfolding reroute_inv_def by simp
  next
    case ready
    then show ?thesis using tid by blast
  next
    case wait
    have st: "blocked ?q = blocked p @ [(task_id t, t)]" "buckets ?q = buckets p"
        "task_deps ?q = (task_deps p)(task_id t \<mapsto> set (unresolved_deps p t))"
      using new by (simp_all add: wait)
    have "tid \<in> set (unresolved_deps p t)" using tid by (simp add: set_unresolved_deps)
    moreover have "x \<noteq> task_id t" if "(x, u) \<in> set (blocked p)" for x u using new that by force
    ultimately show ?thesis
      using wf' fr tid L ids b q bw qw unfolding reroute_inv_def st by (auto split: prod.splits) 
  qed
qed

lemma remove_blocked_completed:
  "remove_blocked tid (p\<lparr>completed_tasks := C\<rparr>) =
     (fst (remove_blocked tid p), (snd (remove_blocked tid p))\<lparr>completed_tasks := C\<rparr>)"
  by (simp add: remove_blocked_def split: option.split)

lemma reroute_step:
  assumes inv: "reroute_inv tid (x # ids) L p"
  shows "reroute_inv tid ids L (snd (reroute_one x (phs, p)))"
proof -
  let ?C = "insert tid (completed_tasks p)"
  note I = inv [unfolded reroute_inv_def]
  have wf: "pool_wf (p\<lparr>completed_tasks := ?C\<rparr>)" using I by blast
  have iw: "ids_wf p" using pool_wfD(5) [OF wf] by (simp add: ids_wf_def)
  have bw: "buckets_wf (buckets p)" using pool_wfD(1) [OF wf] by simp
  have dj: "task_id t \<noteq> y" if "t \<in> set (queued p)" "(y, u) \<in> set (blocked p)" for t y u
    using iw that by (force simp: ids_wf_def)
  have x: "x \<notin> set ids" "distinct ids" using I by auto
  show ?thesis
    using bw
  proof (cases rule: take_first_match_cases [where pred = "\<lambda>t. task_id t = x"])
    case (some t bs wa)
    let ?p = "p\<lparr>buckets := bs, worker_affinity := wa\<rparr>"
    have sub: "set (queued ?p) \<subseteq> set (queued p)"
      using arg_cong [OF some(5), of set_mset] by auto
    note Q = queue_removal_wf [OF wf some(4), of t wa]
    have wf': "pool_wf (?p\<lparr>completed_tasks := insert tid (completed_tasks ?p)\<rparr>)"
    proof -
      have eq: "?p\<lparr>completed_tasks := insert tid (completed_tasks ?p)\<rparr> =
          p\<lparr>completed_tasks := ?C\<rparr>\<lparr>buckets := bs, worker_affinity := wa\<rparr>"
        by (cases p) simp
      show ?thesis unfolding eq using Q(1) some(5) by simp
    qed
    have new: "task_id t \<notin> live_ids ?p" using Q(2) some(5) by simp
    have "reroute_inv tid ids L (commit_item t ?p)"
    proof (rule reroute_commit [OF wf'])
      have "add_mset t (live_tasks ?p) = live_tasks p" using some(5) by simp
      moreover have "live_tasks p \<subseteq># L" using I by blast
      ultimately show "add_mset t (live_tasks ?p) \<subseteq># L" by metis
      show "tid \<in> set (dep_ids t)" using I some(2,3) by simp
      show "\<forall>(y, u) \<in> set (blocked ?p). tid \<in> set (dep_ids u) \<longrightarrow> y \<notin> set ids \<longrightarrow>
          (\<exists>D. task_deps ?p y = Some D \<and> tid \<in> D)"
      proof (intro ballI, clarify)
        fix y u assume y: "(y, u) \<in> set (blocked ?p)" "tid \<in> set (dep_ids u)" "y \<notin> set ids"
        then have "y \<noteq> x" using dj [OF some(3)] some(2) by auto
        then show "\<exists>D. task_deps ?p y = Some D \<and> tid \<in> D" using I y by fastforce
      qed
      show "\<forall>u \<in> set (queued ?p). tid \<in> set (dep_ids u) \<longrightarrow> task_id u \<notin> set ids \<longrightarrow>
          \<not> phase_active_or_draining ?p (phase_id u)"
      proof (intro ballI impI)
        fix u assume u: "u \<in> set (queued ?p)" "tid \<in> set (dep_ids u)" "task_id u \<notin> set ids"
        have "task_id u \<noteq> x" using new some(2) u(1) by (metis UnI1 image_eqI)
        moreover have "u \<in> set (queued p)" using sub u(1) by blast
        ultimately have "\<not> phase_active_or_draining p (phase_id u)" using I u(2,3) by simp
        then show "\<not> phase_active_or_draining ?p (phase_id u)" by (simp add: phase_active_or_draining_def)
      qed
    qed (use I new x some(2) sub in auto)
    then show ?thesis using some(1) by (simp add: reroute_one_def extract_live_dependent_def)
  next
    case none
    show ?thesis
      using wf
    proof (cases rule: remove_blocked_cases [where tid = x])
      case nb: none
      then have "remove_blocked x p = (None, p)" by (simp add: remove_blocked_def map_of_eq_None_iff [THEN iffD2])
      then have "snd (reroute_one x (phs, p)) = p"
        using none(1) by (simp add: reroute_one_def extract_live_dependent_def)
      moreover have "(x, u) \<notin> set (blocked p)" for u using nb(2) by force
      ultimately show ?thesis using I none(2) unfolding reroute_inv_def by auto
    next
      case (some t Q)
      obtain q where q: "remove_blocked x p = (Some t, q)" "Q = q\<lparr>completed_tasks := ?C\<rparr>"
        using some(1) remove_blocked_completed [where tid = x and p = p and C = ?C] by (metis fst_conv prod.collapse snd_conv)
      have qf: "blocked q = AList.delete x (blocked p)" "buckets q = buckets p"
          "task_deps q = (task_deps p)(x := None)" "completed_tasks q = completed_tasks p"
          "affine_prereq_ids q = affine_prereq_ids p" "phase_state q = phase_state p"
        using q(1) by (auto simp: remove_blocked_def split: option.splits)
      have mem: "(x, t) \<in> set (blocked p)" "task_id t = x" using some(3,4) by auto
      have "reroute_inv tid ids L (commit_item t q)"
      proof (rule reroute_commit)
        show "pool_wf (q\<lparr>completed_tasks := insert tid (completed_tasks q)\<rparr>)"
          using some(2) q(2) qf(4) by simp
        show "tid \<in> set (dep_ids t)" using I mem by auto
        show "task_id t \<notin> live_ids q" using dj mem by (fastforce simp: qf delete_mem)
        have "distinct (keys (blocked p))" using iw by (simp add: ids_wf_def)
        then have "mset (blocked p) = add_mset (x, t) (mset (blocked q))"
          unfolding qf(1) using mem(1) by (intro mset_blocked_delete) simp_all
        then have "live_tasks p = add_mset t (live_tasks q)" by (simp add: qf(2))
        moreover have "live_tasks p \<subseteq># L" using I by blast
        ultimately show "add_mset t (live_tasks q) \<subseteq># L" by metis
        show "\<forall>u \<in> set (queued q). tid \<in> set (dep_ids u) \<longrightarrow> task_id u \<notin> set ids \<longrightarrow>
            \<not> phase_active_or_draining q (phase_id u)"
          using I none(2) by (auto simp: qf phase_active_or_draining_def)
        show "\<forall>(y, u) \<in> set (blocked q). tid \<in> set (dep_ids u) \<longrightarrow> y \<notin> set ids \<longrightarrow>
            (\<exists>D. task_deps q y = Some D \<and> tid \<in> D)"
        proof (intro ballI, clarify)
          fix y u assume y: "(y, u) \<in> set (blocked q)" "tid \<in> set (dep_ids u)" "y \<notin> set ids"
          then have "(y, u) \<in> set (blocked p)" "y \<noteq> x" by (auto simp: qf delete_mem)
          then show "\<exists>D. task_deps q y = Some D \<and> tid \<in> D" using I y(2,3) unfolding qf(3) by fastforce
        qed
      qed (use I x mem(2) in \<open>auto simp: qf delete_mem\<close>)
      then show ?thesis using none(1) q(1) by (simp add: reroute_one_def extract_live_dependent_def)
    qed
  qed
qed

lemma reroute_fold:
  "reroute_inv tid ids L p \<Longrightarrow> reroute_inv tid [] L (snd (fold reroute_one ids (phs, p)))"
proof (induction ids arbitrary: phs p)
  case (Cons x ids)
  obtain phs' p' where r: "reroute_one x (phs, p) = (phs', p')" by fastforce
  then show ?case using Cons.IH [of p' phs'] reroute_step [OF Cons.prems, of phs] by simp
qed simp

lemma reroute_done:
  assumes "reroute_inv tid [] L p"
  shows "pool_wf p" "live_tasks p \<subseteq># L"
    "(x, t) \<in> set (blocked p) \<Longrightarrow> tid \<in> set (dep_ids t) \<Longrightarrow> \<exists>D. task_deps p x = Some D \<and> tid \<in> D"
    "t \<in> set (queued p) \<Longrightarrow> tid \<in> set (dep_ids t) \<Longrightarrow> \<not> phase_active_or_draining p (phase_id t)"
proof -
  note I = assms [unfolded reroute_inv_def]
  show bw: "\<exists>D. task_deps p x = Some D \<and> tid \<in> D" if "(x, t) \<in> set (blocked p)" "tid \<in> set (dep_ids t)" for x t
    using I that by auto
  show "t \<in> set (queued p) \<Longrightarrow> tid \<in> set (dep_ids t) \<Longrightarrow> \<not> phase_active_or_draining p (phase_id t)"
    and "live_tasks p \<subseteq># L"
    using I by auto
  have wf: "pool_wf (p\<lparr>completed_tasks := insert tid (completed_tasks p)\<rparr>)" using I by blast
  note D = deps_wfD [OF pool_wfD(3) [OF wf], simplified]
  have "deps_wf p"
  proof (rule deps_wfI)
    fix x t assume x: "(x, t) \<in> set (blocked p)"
    show "\<exists>D. task_deps p x = Some D \<and> D \<noteq> {} \<and> D \<subseteq> set (dep_ids t) \<and>
        set (dep_ids t) \<subseteq> completed_tasks p \<union> affine_prereq_ids p \<union> D"
    proof -
      obtain E where E: "task_deps p x = Some E" "E \<noteq> {}" "E \<subseteq> set (dep_ids t)"
          "set (dep_ids t) \<subseteq> insert tid (completed_tasks p) \<union> affine_prereq_ids p \<union> E"
        using deps_wfD(2) [OF pool_wfD(3) [OF wf], of x t] x by auto
      moreover have "tid \<in> E" if "tid \<in> set (dep_ids t)" using bw [OF x that] E(1) by simp
      ultimately show ?thesis by (intro exI [of _ E]) blast
    qed
  qed (use D in auto)
  then show "pool_wf p"
    using wf by (simp add: pool_wf_def keys_wf_def counts_wf_def blocked_count_def ids_wf_def)
qed

lemma reroute_fold_frame:
  "phase_state (snd (fold reroute_one ids (phs, p))) = phase_state p \<and>
   in_flight_per_phase (snd (fold reroute_one ids (phs, p))) = in_flight_per_phase p"
proof (induction ids arbitrary: phs p)
  case (Cons x ids)
  have "phase_state (snd (reroute_one x (phs, p))) = phase_state p \<and>
      in_flight_per_phase (snd (reroute_one x (phs, p))) = in_flight_per_phase p"
    by (auto simp: reroute_one_def extract_live_dependent_def remove_blocked_def take_first_match_def Let_def
        split: option.splits prod.splits if_splits)
  then show ?case using Cons [of "fst (reroute_one x (phs, p))" "snd (reroute_one x (phs, p))"] by simp
qed simp

lemma reblock_start:
  assumes wf: "pool_wf p" and tid: "tid \<in> completed_tasks p" "tid \<notin> affine_prereq_ids p"
  shows "reroute_inv tid (map task_id (filter (\<lambda>t. tid \<in> set (dep_ids t)) (queued p @ map snd (blocked p)))) (live_tasks p)
    (p\<lparr>completed_tasks := completed_tasks p - {tid}\<rparr>)"
proof -
  let ?all = "queued p @ map snd (blocked p)"
  let ?ids = "map task_id (filter (\<lambda>t. tid \<in> set (dep_ids t)) ?all)"
  note D = deps_wfD [OF pool_wfD(3) [OF wf]]
  have keys: "map (\<lambda>x. task_id (snd x)) (blocked p) = keys (blocked p)" using D(1) by (auto intro!: map_cong)
  have d: "distinct (map task_id ?all)"
    using pool_wfD(5) [OF wf] unfolding ids_wf_def map_append map_map comp_def keys .
  have inj: "u = t" if "u \<in> set ?all" "t \<in> set ?all" "task_id u = task_id t" for u t
    using d that by (metis distinct_map inj_onD)
  have mem: "tid \<in> set (dep_ids t)" if "t \<in> set ?all" "task_id t \<in> set ?ids" for t
  proof -
    have "task_id t \<in> task_id ` {u \<in> set ?all. tid \<in> set (dep_ids u)}"
      using that(2) by (simp only: set_map set_filter)
    then obtain u where "u \<in> set ?all" "tid \<in> set (dep_ids u)" "task_id u = task_id t" by force
    then show ?thesis using inj [of u t] that(1) by blast
  qed
  have ids: "task_id t \<in> set ?ids" if "t \<in> set ?all" "tid \<in> set (dep_ids t)" for t
    using that by auto
  have b: "t \<in> set ?all \<and> task_id t = x" if "(x, t) \<in> set (blocked p)" for x t
    using that D(1) by force
  have "p\<lparr>completed_tasks := insert tid (completed_tasks p - {tid})\<rparr> = p" using tid(1) by (simp add: insert_absorb)
  then have "pool_wf (p\<lparr>completed_tasks := insert tid (completed_tasks p - {tid})\<rparr>)" using wf by simp
  moreover have "distinct ?ids" using d by (rule distinct_map_filter)
  moreover have "\<forall>(x, t) \<in> set (blocked p). x \<in> set ?ids \<longrightarrow> tid \<in> set (dep_ids t)"
    using b mem by blast
  moreover have "\<forall>(x, t) \<in> set (blocked p). tid \<in> set (dep_ids t) \<longrightarrow> x \<notin> set ?ids \<longrightarrow>
      (\<exists>D. task_deps p x = Some D \<and> tid \<in> D)"
    using b ids by blast
  moreover have "\<forall>t \<in> set (queued p). task_id t \<in> set ?ids \<longrightarrow> tid \<in> set (dep_ids t)"
    "\<forall>t \<in> set (queued p). tid \<in> set (dep_ids t) \<longrightarrow> task_id t \<notin> set ?ids \<longrightarrow>
      \<not> phase_active_or_draining (p\<lparr>completed_tasks := completed_tasks p - {tid}\<rparr>) (phase_id t)"
    using mem ids by (metis UnI1 set_append)+
  moreover define ids where "ids = ?ids"
  ultimately show ?thesis
    using tid(2) unfolding ids_def [symmetric] reroute_inv_def by simp
qed

lemma reblock_eq:
  assumes "tid \<in> completed_tasks p" "tid \<notin> affine_prereq_ids p"
    and r: "fold reroute_one (map task_id (filter (\<lambda>t. tid \<in> set (dep_ids t)) (queued p @ map snd (blocked p))))
       ([], p\<lparr>completed_tasks := completed_tasks p - {tid}\<rparr>) = (phs, q)"
  shows "reblock_dependents_on_uncompleted tid p = fold maybe_transition_drain phs q"
  using assms by (auto simp: reblock_dependents_on_uncompleted_def Let_def)

lemma reblock_spec:
  assumes wf: "pool_wf p"
  shows "pool_wf (reblock_dependents_on_uncompleted tid p) \<and>
    live_tasks (reblock_dependents_on_uncompleted tid p) \<subseteq># live_tasks p \<and>
    (tid \<in> completed_tasks p \<longrightarrow> tid \<notin> affine_prereq_ids p \<longrightarrow>
      (\<forall>t \<in> set (queued (reblock_dependents_on_uncompleted tid p)). tid \<in> set (dep_ids t) \<longrightarrow>
         \<not> phase_active_or_draining p (phase_id t)))"
proof (cases "tid \<in> completed_tasks p \<and> tid \<notin> affine_prereq_ids p")
  case True
  let ?ids = "map task_id (filter (\<lambda>t. tid \<in> set (dep_ids t)) (queued p @ map snd (blocked p)))"
  let ?p = "p\<lparr>completed_tasks := completed_tasks p - {tid}\<rparr>"
  obtain phs q where r: "fold reroute_one ?ids ([], ?p) = (phs, q)" by fastforce
  have inv: "reroute_inv tid [] (live_tasks p) q"
    using reroute_fold [OF reblock_start [OF wf]] True r by (metis snd_conv)
  have "phase_state q = phase_state p" using reroute_fold_frame [of ?ids "[]" ?p] r by simp
  then have ph: "phase_active_or_draining q = phase_active_or_draining p"
    by (simp add: phase_active_or_draining_def fun_eq_iff)
  have eq: "reblock_dependents_on_uncompleted tid p = fold maybe_transition_drain phs q"
    using reblock_eq [OF _ _ r] True by blast
  show ?thesis unfolding eq using reroute_done [OF inv] by (simp add: ph)
next
  case False
  then show ?thesis using wf by (auto simp: reblock_dependents_on_uncompleted_def)
qed

lemma reblock_in_flight:
  "in_flight_per_phase (reblock_dependents_on_uncompleted tid p) = in_flight_per_phase p"
proof (cases "tid \<in> completed_tasks p \<and> tid \<notin> affine_prereq_ids p")
  case True
  let ?ids = "map task_id (filter (\<lambda>t. tid \<in> set (dep_ids t)) (queued p @ map snd (blocked p)))"
  obtain phs q where r: "fold reroute_one ?ids ([], p\<lparr>completed_tasks := completed_tasks p - {tid}\<rparr>) = (phs, q)"
    by fastforce
  then show ?thesis
    using reblock_eq [OF _ _ r] True
      reroute_fold_frame [of ?ids "[]" "p\<lparr>completed_tasks := completed_tasks p - {tid}\<rparr>"] by simp
qed (auto simp: reblock_dependents_on_uncompleted_def)

lemma reinject_wf:
  assumes wf: "pool_wf p" and new: "task_id t \<notin> live_ids p"
  shows "pool_wf (reinject t p)" "live_tasks (reinject t p) \<subseteq># add_mset t (live_tasks p)"
    "in_flight_per_phase (reinject t p) = in_flight_per_phase p"
proof -
  let ?p1 = "p\<lparr>soft_failed := AList.delete (task_id t) (soft_failed p), dormant_tasks := dormant_tasks p - {task_id t}\<rparr>"
  let ?p2 = "reblock_dependents_on_uncompleted (task_id t) ?p1"
  let ?p3 = "?p2\<lparr>buckets := push_back_item t (buckets ?p2)\<rparr>"
  have wf1: "pool_wf ?p1"
    using pool_wfD [OF wf] pool_wf_keys [OF wf] by (intro pool_wf_frame [OF wf]) (auto simp: ids_wf_def)
  have wf2: "pool_wf ?p2" and sub: "live_tasks ?p2 \<subseteq># live_tasks p"
    using reblock_spec [OF wf1, of "task_id t"] by simp_all
  have "live_ids ?p2 \<subseteq> live_ids p"
    unfolding live_ids_tasks(1) [OF pool_wfD(3) [OF wf]] live_ids_tasks(1) [OF pool_wfD(3) [OF wf2]]
    by (intro image_mono set_mset_mono sub)
  then have "task_id t \<notin> live_ids ?p2" using new by blast
  then have wf3: "pool_wf ?p3" using push_back_wf reblock_spec [OF wf1] by blast
  have "pool_wf (?p3\<lparr>phase_state := AList.update (phase_id t) Active (phase_state ?p3), drained_pending := dp\<rparr>)" for dp
    using pool_wfD [OF wf3] pool_wf_keys [OF wf3]
    by (intro pool_wf_frame [OF wf3]) (simp_all add: ids_wf_def del: update_new)
  then show "pool_wf (reinject t p)" using wf3 unfolding reinject_def Let_def by (simp split: if_split)
  have "mset (bucket_items (push_back_item t (buckets ?p2))) = add_mset t (mset (queued ?p2))"
    using pool_wfD(1) [OF wf2] by simp
  then have "live_tasks (reinject t p) = add_mset t (live_tasks ?p2)"
    unfolding reinject_def Let_def by simp
  then show "live_tasks (reinject t p) \<subseteq># add_mset t (live_tasks p)" using sub by simp
  have "in_flight_per_phase ?p2 = in_flight_per_phase p"
    using reblock_in_flight [of "task_id t" ?p1] by simp
  then show "in_flight_per_phase (reinject t p) = in_flight_per_phase p"
    unfolding reinject_def Let_def by simp
qed

end
