(* ===== verification/Pool_Machine.thy ===== *)
theory Pool_Machine
  imports Pool_Requeue
begin

text \<open>
  The pool as a state machine. A state is a pool together with the items that callers have taken and
  not yet reported back (the list \<open>F\<close>, which the pool itself does not keep); a step is one call of the
  pool's interface, with the caller's part of the contract as its guard. Every reachable state
  satisfies the pool invariant, counts the in-flight items of every phase exactly, and has every
  task in one place only.
\<close>

section \<open>Invariant preservation of the remaining operations\<close>

lemma on_item_failed_permanent_spec:
  assumes wf: "pool_wf p" and r: "on_item_failed_permanent ph tid p = (casc, q)"
  shows "pool_wf q" "live_tasks p = live_tasks q + mset casc"
    "in_flight_per_phase q = dec_count ph (in_flight_per_phase p)"
    "failed_tasks q = insert tid (failed_tasks p) \<union>
       {x. cascade_reach (p\<lparr>failed_tasks := insert tid (failed_tasks p)\<rparr>) tid x}"
    "set (blocked q) = {(x, t) \<in> set (blocked p). \<not> cascade_reach (p\<lparr>failed_tasks := insert tid (failed_tasks p)\<rparr>) tid x}"
    "mset (map snd (blocked p)) = mset (map snd (blocked q)) + mset casc"
proof -
  let ?p1 = "p\<lparr>in_flight_per_phase := dec_count ph (in_flight_per_phase p),
      in_flight_tasks := in_flight_tasks p - {tid}, soft_failed := AList.delete tid (soft_failed p),
      failed_tasks := insert tid (failed_tasks p)\<rparr>"
  let ?p0 = "p\<lparr>failed_tasks := insert tid (failed_tasks p)\<rparr>"
  have wf1: "pool_wf ?p1"
    using pool_wfD [OF wf] pool_wf_keys [OF wf]
    by (intro pool_wf_frame [OF wf]) (auto simp: ids_wf_def distinct_keys_dec)
  obtain phs p2 where c: "cascade_fail_dependents_of tid [ph] ?p1 = (casc, phs, p2)"
    and q: "q = fold maybe_transition_drain phs p2"
    using r by (auto simp: on_item_failed_permanent_def Let_def split: prod.splits)
  note C = cascade_correct [OF wf1 _ c]
  have reach: "cascade_reach ?p1 tid = cascade_reach ?p0 tid"
  proof (intro ext iffI)
    show "cascade_reach ?p0 tid x" if "cascade_reach ?p1 tid x" for x
      using that by induction (auto intro: cascade_reach.intros)
    show "cascade_reach ?p1 tid x" if "cascade_reach ?p0 tid x" for x
      using that by induction (auto intro: cascade_reach.intros)
  qed
  have "buckets p2 = buckets p" using C(5) by simp
  moreover have b: "mset (map snd (blocked p)) = mset (map snd (blocked p2)) + mset casc" using C(4) by simp
  ultimately show "live_tasks p = live_tasks q + mset casc" unfolding q by (simp add: add.assoc)
  show "mset (map snd (blocked p)) = mset (map snd (blocked q)) + mset casc" using b unfolding q by simp
  show "pool_wf q" "in_flight_per_phase q = dec_count ph (in_flight_per_phase p)"
    unfolding q using C(1,8) by simp_all
  show "failed_tasks q = insert tid (failed_tasks p) \<union> {x. cascade_reach ?p0 tid x}"
    "set (blocked q) = {(x, t) \<in> set (blocked p). \<not> cascade_reach ?p0 tid x}"
    unfolding q using C(2,3) by (simp_all add: reach)
qed

lemma on_item_failed_pending_retry_wf: "pool_wf p \<Longrightarrow> pool_wf (on_item_failed_pending_retry ph tid p)"
proof -
  assume wf: "pool_wf p"
  have "pool_wf (p\<lparr>in_flight_per_phase := dec_count ph (in_flight_per_phase p), in_flight_tasks := S, soft_failed := sf\<rparr>)"
    if "distinct (keys sf)" for S sf
    using pool_wfD [OF wf] pool_wf_keys [OF wf] that
    by (intro pool_wf_frame [OF wf]) (auto simp: ids_wf_def distinct_keys_dec)
  from this [of "AList.update tid ph (soft_failed p)"] this [of "soft_failed p"] pool_wf_keys [OF wf]
  show ?thesis
    by (simp add: on_item_failed_pending_retry_def Let_def del: update_new)
qed

lemma finalize_fold:
  assumes "pool_wf p" "fold finalize_one roots (out, phs, p) = (out', phs', q)"
  shows "pool_wf q \<and> in_flight_per_phase q = in_flight_per_phase p \<and> buckets q = buckets p \<and>
    mset (map snd (blocked p)) + mset (concat (map snd out)) =
      mset (map snd (blocked q)) + mset (concat (map snd out')) \<and>
    map fst out' = map fst out @ roots \<and> failed_tasks p \<union> set roots \<subseteq> failed_tasks q"
  using assms
proof (induction roots arbitrary: out phs p)
  case (Cons tid roots)
  let ?p = "p\<lparr>soft_failed := AList.delete tid (soft_failed p), failed_tasks := insert tid (failed_tasks p)\<rparr>"
  obtain casc phs1 p1 where c: "cascade_fail_dependents_of tid phs ?p = (casc, phs1, p1)" by (metis surj_pair)
  have wf: "pool_wf ?p"
    using pool_wfD [OF Cons.prems(1)] pool_wf_keys [OF Cons.prems(1)]
    by (intro pool_wf_frame [OF Cons.prems(1)]) (auto simp: ids_wf_def)
  note C = cascade_correct [OF wf _ c, simplified]
  have st: "finalize_one tid (out, phs, p) = (out @ [(tid, casc)], phs1, p1)"
    by (simp add: finalize_one_def c)
  have "fold finalize_one roots (out @ [(tid, casc)], phs1, p1) = (out', phs', q)"
    using Cons.prems(2) st by simp
  from Cons.IH [OF C(1) this] show ?case using C(2,4,5,8) by (auto simp: ac_simps)
qed simp

lemma finalize_soft_failures_spec:
  assumes wf: "pool_wf p" and r: "finalize_soft_failures ph p = (out, q)"
  shows "pool_wf q" "in_flight_per_phase q = in_flight_per_phase p"
    "live_tasks p = live_tasks q + mset (concat (map snd out))"
    "map fst out = map fst (filter (\<lambda>(_, r). r = ph) (soft_failed p))"
proof -
  let ?roots = "map fst (filter (\<lambda>(_, r). r = ph) (soft_failed p))"
  have "pool_wf q \<and> in_flight_per_phase q = in_flight_per_phase p \<and>
    live_tasks p = live_tasks q + mset (concat (map snd out)) \<and> map fst out = ?roots"
  proof (cases "?roots = []")
    case True
    then have "out = []" "q = p" using r by (simp_all add: finalize_soft_failures_def Let_def)
    then show ?thesis using wf True by simp
  next
    case False
    obtain out' phs' p' where f: "fold finalize_one ?roots ([], [], p) = (out', phs', p')" by (metis surj_pair)
    then have q: "q = fold maybe_transition_drain phs' p'" "out = out'"
      using r False by (simp_all add: finalize_soft_failures_def Let_def)
    show ?thesis using finalize_fold [OF wf f] unfolding q by (simp add: add.assoc)
  qed
  then show "pool_wf q" "in_flight_per_phase q = in_flight_per_phase p"
    "live_tasks p = live_tasks q + mset (concat (map snd out))" "map fst out = ?roots" by blast+
qed

lemma drain_queued_wf: "pool_wf p \<Longrightarrow> pool_wf (snd (drain_queued p))"
proof -
  assume wf: "pool_wf p"
  let ?q = "snd (drain_queued p)"
  have "bucket_items (map (\<lambda>(k, b). (k, b\<lparr>items := []\<rparr>)) bs) = []" for bs :: "(bucket_key \<times> ('a, 'b) bucket) list"
    by (induction bs) auto
  then have "queued ?q = []" by (simp add: drain_queued_def)
  then have "ids_wf ?q" using pool_wfD(5) [OF wf] by (simp add: ids_wf_def) (simp add: drain_queued_def)
  then show ?thesis
    using pool_wfD(1) [OF wf] pool_wf_keys [OF wf]
    by (intro pool_wf_frame [OF wf]) (auto simp: drain_queued_def intro: buckets_wf_map)
qed

lemma release_worker_wf:
  assumes wf: "pool_wf p"
  shows "pool_wf (release_worker w p)" "queued (release_worker w p) = queued p"
    "blocked (release_worker w p) = blocked p" "in_flight_per_phase (release_worker w p) = in_flight_per_phase p"
proof -
  let ?u = "\<lambda>b :: ('a, 'b) bucket. b\<lparr>pinned_workers := filter (\<lambda>x. x \<noteq> w) (pinned_workers b)\<rparr>"
  have e: "bucket_items (AList.map_entry k ?u bs) = bucket_items bs" for k bs
    by (induction bs) auto
  have a: "bucket_items (map (\<lambda>(k, b). (k, ?u b)) bs) = bucket_items bs" for bs
    by (induction bs) auto
  show q: "queued (release_worker w p) = queued p"
    by (simp add: release_worker_def Let_def e a split: option.split)
  show b: "blocked (release_worker w p) = blocked p" "in_flight_per_phase (release_worker w p) = in_flight_per_phase p"
    by (simp_all add: release_worker_def Let_def split: option.split)
  have "buckets_wf (buckets (release_worker w p))"
    using pool_wfD(1) [OF wf]
    by (auto simp: release_worker_def Let_def intro: buckets_wf_map buckets_wf_map_entry split: option.split)
  moreover have "ids_wf (release_worker w p)" using pool_wfD(5) [OF wf] by (simp add: ids_wf_def q b)
  ultimately show "pool_wf (release_worker w p)"
    using pool_wf_keys [OF wf]
    by (intro pool_wf_frame [OF wf]) (auto simp: release_worker_def Let_def split: option.splits)
qed

lemma reconcile_fold_frame:
  "in_flight_per_phase (snd (fold reconcile_one ids (out, p))) = in_flight_per_phase p"
proof (induction ids arbitrary: out p)
  case (Cons x ids)
  obtain out1 p1 where r: "reconcile_one x (out, p) = (out1, p1)" by fastforce
  then have "in_flight_per_phase p1 = in_flight_per_phase p"
    by (auto simp: reconcile_one_def remove_blocked_def split: option.splits prod.splits)
  with Cons [of out1 p1] r show ?case by simp
qed simp

lemma reconcile_blocked_spec:
  assumes wf: "pool_wf p" and r: "reconcile_blocked alive p = (out, q)"
  shows "pool_wf q" "live_tasks p = live_tasks q + mset out" "in_flight_per_phase q = in_flight_per_phase p"
    "set (blocked q) = {(x, t) \<in> set (blocked p). \<not> (\<exists>D. task_deps p x = Some D \<and>
        (\<exists>d \<in> D. d \<notin> completed_tasks p \<and> \<not> alive d))}"
proof -
  let ?ids = "orphaned_ids alive p"
  have o: "x \<in> set ?ids \<longleftrightarrow> x \<in> fst ` set (blocked p) \<and>
      (\<exists>D. task_deps p x = Some D \<and> (\<exists>d \<in> D. d \<notin> completed_tasks p \<and> \<not> alive d))" for x
    by (auto simp: orphaned_ids_def split: option.splits)
  have "distinct ?ids" using pool_wf_keys(6) [OF wf] by (simp add: orphaned_ids_def)
  moreover have "set ?ids \<subseteq> fst ` set (blocked p)" using o by blast
  ultimately have F: "pool_wf q" "set (blocked q) = {(x, t) \<in> set (blocked p). x \<notin> set ?ids}"
      "mset out + mset (map snd (blocked q)) = mset (map snd (blocked p))" "buckets q = buckets p"
    using reconcile_fold [OF wf, of ?ids "[]"] r by (simp_all add: reconcile_blocked_def)
  show "pool_wf q" using F(1) .
  show "live_tasks p = live_tasks q + mset out" using F(3,4) by (simp add: ac_simps)
  show "in_flight_per_phase q = in_flight_per_phase p"
    using reconcile_fold_frame [of ?ids "[]" p] r by (simp add: reconcile_blocked_def)
  have key: "x \<in> fst ` set (blocked p)" if "(x, t) \<in> set (blocked p)" for x t using that by force
  show "set (blocked q) = {(x, t) \<in> set (blocked p). \<not> (\<exists>D. task_deps p x = Some D \<and>
        (\<exists>d \<in> D. d \<notin> completed_tasks p \<and> \<not> alive d))}"
    unfolding F(2) o using key by blast
qed

section \<open>The state machine\<close>

text \<open>
  \<open>take_match\<close> is the path that pulls a particular item out of the queue (\<open>take_first_match\<close>) and
  counts it in flight itself (\<open>mark_in_flight\<close>).
\<close>

inductive pool_step :: "('i, 'j) pending_pool \<times> ('i, 'j) task_info list \<Rightarrow>
    ('i, 'j) pending_pool \<times> ('i, 'j) task_info list \<Rightarrow> bool" where
  step_extend: "pool_extend its p = Some (Inr q) \<Longrightarrow> distinct (map task_id its) \<Longrightarrow>
    task_id ` set its \<inter> task_id ` set F = {} \<Longrightarrow> pool_step (p, F) (q, F)"
| step_pop: "pop_for_worker w p = Some (r, q) \<Longrightarrow> pool_step (p, F) (q, (case r of Some t \<Rightarrow> [t] | None \<Rightarrow> []) @ F)"
| step_take: "take_selected s p = Some (r, q) \<Longrightarrow> pool_step (p, F) (q, (case r of Some t \<Rightarrow> [t] | None \<Rightarrow> []) @ F)"
| step_take_match: "take_first_match pred p = (Some t, q) \<Longrightarrow>
    pool_step (p, F) (mark_in_flight (phase_id t) q, t # F)"
| step_finished: "t \<in> set F \<Longrightarrow>
    pool_step (p, F) (on_item_finished (phase_id t) (Some (task_id t)) p, remove1 t F)"
| step_failed: "t \<in> set F \<Longrightarrow> on_item_failed_permanent (phase_id t) (task_id t) p = (casc, q) \<Longrightarrow>
    pool_step (p, F) (q, remove1 t F)"
| step_failed_retry: "t \<in> set F \<Longrightarrow>
    pool_step (p, F) (on_item_failed_pending_retry (phase_id t) (task_id t) p, remove1 t F)"
| step_requeue: "t \<in> set F \<Longrightarrow> pool_step (p, F) (requeue t p, remove1 t F)"
| step_finalize: "finalize_soft_failures ph p = (out, q) \<Longrightarrow> pool_step (p, F) (q, F)"
| step_reinject: "task_id t \<notin> live_ids p \<union> task_id ` set F \<Longrightarrow> pool_step (p, F) (reinject t p, F)"
| step_push_head: "task_id t \<notin> live_ids p \<union> task_id ` set F \<Longrightarrow> pool_step (p, F) (push_to_queue_head t p, F)"
| step_drain_queued: "pool_step (p, F) (snd (drain_queued p), F)"
| step_release: "pool_step (p, F) (release_worker w p, F)"
| step_reconcile: "reconcile_blocked alive p = (out, q) \<Longrightarrow> pool_step (p, F) (q, F)"
| step_affine_terminal: "pool_step (p, F) (note_affine_terminal ph tid p, F)"
| step_affine_failed: "pool_step (p, F) (note_affine_failed ph tid p, F)"
| step_phase_done: "pool_step (p, F) (mark_phase_done ph p, F)"
| step_drain_empty: "pool_step (p, F) (drain_empty_active_phases p, F)"
| step_poll: "pool_step (p, F) (snd (poll_drain_transitions p), F)"
| step_resurface: "pool_step (p, F) (snd (resurface_drained_pending p), F)"
| step_reserve: "pool_step (p, F) (open_reservation plan p, F)"
| step_redistribute: "pool_step (p, F) (redistribute_member m fb p, F)"

definition machine_inv :: "('i, 'j) pending_pool \<Rightarrow> ('i, 'j) task_info list \<Rightarrow> bool" where
  "machine_inv p F \<longleftrightarrow>
     pool_wf p \<and> distinct (map task_id F @ queued_ids p @ keys (blocked p)) \<and>
     (\<forall>ph. in_flight p ph = length (filter (\<lambda>t. phase_id t = ph) F))"

lemma machine_keep:
  assumes inv: "machine_inv p F" and wf: "pool_wf q"
    and sub: "mset G + live_tasks q \<subseteq># mset F + live_tasks p + mset new"
    and new: "distinct (map task_id new)" "task_id ` set new \<inter> (task_id ` set F \<union> live_ids p) = {}"
    and fl: "\<And>ph. in_flight q ph = length (filter (\<lambda>t. phase_id t = ph) G)"
  shows "machine_inv q G"
proof -
  have wfp: "pool_wf p" using inv by (simp add: machine_inv_def)
  note k = live_ids_tasks(2) [OF pool_wfD(3)]
  have "image_mset task_id (mset G + live_tasks q) \<subseteq># image_mset task_id (mset F + live_tasks p + mset new)"
    using sub by (rule image_mset_subseteq_mono)
  then have "mset (map task_id G @ queued_ids q @ keys (blocked q)) \<subseteq>#
      mset (map task_id F @ (queued_ids p @ keys (blocked p)) @ map task_id new)"
    using k [OF wf] k [OF wfp] by (simp add: add.assoc)
  moreover have "distinct (map task_id F @ (queued_ids p @ keys (blocked p)) @ map task_id new)"
    using inv new by (auto simp: machine_inv_def)
  ultimately have "distinct (map task_id G @ queued_ids q @ keys (blocked q))"
    by (rule distinct_subseteq_mset)
  then show ?thesis using wf fl by (simp add: machine_inv_def)
qed

lemma machine_same:
  assumes "machine_inv p F" "pool_wf q" "live_tasks q \<subseteq># live_tasks p"
    and "in_flight_per_phase q = in_flight_per_phase p"
  shows "machine_inv q F"
proof (rule machine_keep [where new = "[]", OF assms(1,2)])
  show "mset F + live_tasks q \<subseteq># mset F + live_tasks p + mset []"
    using assms(3) by (simp only: mset.simps add_0_right subset_mset.add_left_mono)
qed (use assms(1,4) in \<open>auto simp: machine_inv_def in_flight_def\<close>)

lemma machine_leave:
  assumes inv: "machine_inv p F" and t: "t \<in> set F" and wf: "pool_wf q"
    and sub: "live_tasks q \<subseteq># add_mset t (live_tasks p)"
    and fl: "in_flight_per_phase q = dec_count (phase_id t) (in_flight_per_phase p)"
  shows "machine_inv q (remove1 t F)"
proof (rule machine_keep [where new = "[]", OF inv wf])
  have "mset (remove1 t F) + live_tasks q \<subseteq># mset (remove1 t F) + add_mset t (live_tasks p)"
    using sub by (rule subset_mset.add_left_mono)
  also have "\<dots> = add_mset t (mset (remove1 t F)) + live_tasks p" by simp
  also have "add_mset t (mset (remove1 t F)) = mset F" using t by simp
  finally show "mset (remove1 t F) + live_tasks q \<subseteq># mset F + live_tasks p + mset []" by simp
  fix ph
  have "length (filter (\<lambda>u. phase_id u = ph) (remove1 t F)) =
      length (filter (\<lambda>u. phase_id u = ph) F) - (if phase_id t = ph then 1 else 0)"
    using t by (simp add: filter_remove1 length_remove1)
  then show "in_flight q ph = length (filter (\<lambda>u. phase_id u = ph) (remove1 t F))"
    using inv by (auto simp: machine_inv_def in_flight_def fl get_count_dec)
qed simp_all

lemma machine_enter:
  assumes inv: "machine_inv p F" and wf: "pool_wf q" and sub: "add_mset t (live_tasks q) \<subseteq># live_tasks p"
    and fl: "\<And>ph. in_flight q ph = in_flight p ph + (if ph = phase_id t then 1 else 0)"
  shows "machine_inv q (t # F)"
proof (rule machine_keep [where new = "[]", OF inv wf])
  show "mset (t # F) + live_tasks q \<subseteq># mset F + live_tasks p + mset []"
    using subset_mset.add_left_mono [OF sub, of "mset F"] by simp
qed (use inv fl in \<open>auto simp: machine_inv_def\<close>)

lemma machine_take_if_ready:
  assumes inv: "machine_inv p F" and r: "take_at_if_ready key i w p = Some (r, q)"
  shows "machine_inv q ((case r of Some t \<Rightarrow> [t] | None \<Rightarrow> []) @ F)"
proof -
  have wf: "pool_wf p" using inv by (simp add: machine_inv_def)
  show ?thesis
    using wf
  proof (cases rule: take_at_if_ready_cases [where key = key and index = i and w = w])
    case absent
    then show ?thesis using r inv by auto
  next
    case (taken b q')
    then have q: "r = Some (items b ! i)" "q' = q" using r by auto
    have "live_tasks p = add_mset (items b ! i) (live_tasks q)" using live_after_take [OF taken(5)] q by simp
    moreover have "in_flight q ph = in_flight p ph + (if ph = phase_id (items b ! i) then 1 else 0)" for ph
      using taken(5) q unfolding takes_def by blast
    ultimately have "machine_inv q (items b ! i # F)"
      using taken(6) q by (intro machine_enter [OF inv]) simp_all
    then show ?thesis using q by simp
  next
    case (evicted b p')
    then have q: "r = None" "q = commit_item (items b ! i) p'" using r by auto
    have "live_tasks p = add_mset (items b ! i) (live_tasks p')"
    proof -
      have "blocked p' = blocked p" by (subst evicted(6)) simp
      then show ?thesis using evicted(5) [symmetric] by simp
    qed
    moreover have "live_tasks q \<subseteq># add_mset (items b ! i) (live_tasks p')"
      unfolding q commit_item_live(1) [OF pool_wfD(1) [OF evicted(7)] evicted(8)] by simp
    moreover have "in_flight_per_phase q = in_flight_per_phase p"
      unfolding q commit_item_fields by (subst evicted(6)) simp
    ultimately have "machine_inv q F"
      using commit_item_wf [OF evicted(7,8)] q by (intro machine_same [OF inv]) simp_all
    then show ?thesis using q by simp
  qed
qed

lemma machine_pop:
  assumes inv: "machine_inv p F" and r: "pop_for_worker w p = Some (r, q)"
  shows "machine_inv q ((case r of Some t \<Rightarrow> [t] | None \<Rightarrow> []) @ F)"
proof -
  have "(r = None \<and> q = p) \<or> (\<exists>key i. take_at_if_ready key i w p = Some (r, q))"
    using r by (auto simp: pop_for_worker_def split: option.splits)
  then show ?thesis
  proof (elim disjE exE)
    assume "r = None \<and> q = p"
    then show ?thesis using inv by simp
  qed (rule machine_take_if_ready [OF inv])
qed

lemma machine_extend:
  assumes inv: "machine_inv p F" and e: "pool_extend its p = Some (Inr q)"
    and d: "distinct (map task_id its)" "task_id ` set its \<inter> task_id ` set F = {}"
  shows "machine_inv q F"
proof -
  have wf: "pool_wf p" using inv by (simp add: machine_inv_def)
  have ok: "batch_ok p its" "q = fold commit_item its p"
    using e pool_extend_Inr_iff [OF pool_wfD(3) [OF wf]] by auto
  then have fresh: "\<forall>t \<in> set its. task_id t \<notin> live_ids p \<and> task_id t \<notin> failed_tasks p"
    by (auto simp: batch_ok_def collect_known_task_ids_def)
  note C = commit_items_live [OF wf d(1) fresh]
  show ?thesis
  proof (rule machine_keep [OF inv])
    show "pool_wf q" using C ok(2) by simp
    have "live_tasks q \<subseteq># live_tasks p + mset its"
      unfolding ok(2) using C by (metis multiset_filter_subset mset_filter subset_mset.add_left_mono)
    then show "mset F + live_tasks q \<subseteq># mset F + live_tasks p + mset its"
      by (metis add.assoc subset_mset.add_left_mono)
    show "task_id ` set its \<inter> (task_id ` set F \<union> live_ids p) = {}" using d(2) fresh by blast
    have "in_flight_per_phase (fold commit_item xs p') = in_flight_per_phase p'" for xs and p' :: "('a, 'b) pending_pool"
      by (induction xs arbitrary: p') simp_all
    then show "in_flight q ph = length (filter (\<lambda>t. phase_id t = ph) F)" for ph
      using inv ok(2) by (simp add: machine_inv_def in_flight_def)
  qed (rule d(1))
qed

lemma machine_push:
  assumes inv: "machine_inv p F" and new: "task_id t \<notin> live_ids p \<union> task_id ` set F" and wf: "pool_wf q"
    and sub: "live_tasks q \<subseteq># add_mset t (live_tasks p)" and fl: "in_flight_per_phase q = in_flight_per_phase p"
  shows "machine_inv q F"
proof (rule machine_keep [where new = "[t]", OF inv wf])
  show "mset F + live_tasks q \<subseteq># mset F + live_tasks p + mset [t]"
    using subset_mset.add_left_mono [OF sub, of "mset F"] by simp
qed (use new inv fl in \<open>auto simp: machine_inv_def in_flight_def\<close>)

lemma machine_take_match:
  assumes inv: "machine_inv p F" and r: "take_first_match pred p = (Some t, q)"
  shows "machine_inv (mark_in_flight (phase_id t) q) (t # F)"
proof -
  have wf: "pool_wf p" using inv by (simp add: machine_inv_def)
  show ?thesis
    using pool_wfD(1) [OF wf]
  proof (cases rule: take_first_match_cases [where pred = pred])
    case none
    then show ?thesis using r by simp
  next
    case (some t' bs wa)
    then have t: "t' = t" "q = p\<lparr>buckets := bs, worker_affinity := wa\<rparr>" using r by auto
    have wfq: "pool_wf q" unfolding t(2) by (rule queue_removal_wf(1) [OF wf some(4,5)])
    have "pool_wf (mark_in_flight (phase_id t) q)"
      using pool_wfD [OF wfq] pool_wf_keys [OF wfq]
      by (intro pool_wf_frame [OF wfq]) (auto simp: mark_in_flight_def ids_wf_def inc_count_def)
    moreover have "add_mset t (live_tasks (mark_in_flight (phase_id t) q)) = live_tasks p"
      using some(5) t by (simp add: mark_in_flight_def)
    ultimately show ?thesis
      by (intro machine_enter [OF inv]) (simp_all add: mark_in_flight_def in_flight_def get_count_inc t(2))
  qed
qed

lemma mark_phase_done_live:
  assumes wf: "pool_wf p"
  shows "live_tasks (mark_phase_done ph p) \<subseteq># live_tasks p"
    "in_flight_per_phase (mark_phase_done ph p) = in_flight_per_phase p"
proof -
  let ?p = "drop_affine_items ph (p\<lparr>phase_state := AList.update ph Done (phase_state p)\<rparr>)"
  obtain st where st: "fst (activate_phases_with_all_deps_done ?p) = ?p\<lparr>phase_state := st\<rparr>"
    using activate_frame [of ?p] by blast
  have "mset (queued ?p) \<subseteq># mset (queued p)"
    unfolding drop_affine_items_def by (simp add: mset_filter_buckets)
  moreover have "blocked ?p = blocked p" "in_flight_per_phase ?p = in_flight_per_phase p"
    by (simp_all add: drop_affine_items_def)
  ultimately show "live_tasks (mark_phase_done ph p) \<subseteq># live_tasks p"
    "in_flight_per_phase (mark_phase_done ph p) = in_flight_per_phase p"
    unfolding mark_phase_done_def st by simp_all
qed

lemma pool_wf_static:
  assumes wf: "pool_wf p"
  shows "pool_wf (p\<lparr>drained_pending := dp\<rparr>)" "pool_wf (p\<lparr>reservation := r\<rparr>)"
    "pool_wf (p\<lparr>completed_tasks := insert tid (completed_tasks p)\<rparr>)"
    "pool_wf (p\<lparr>failed_tasks := insert tid (failed_tasks p)\<rparr>)"
  using pool_wfD [OF wf] pool_wf_keys [OF wf]
  by (intro pool_wf_frame [OF wf]; force simp: ids_wf_def)+

lemma on_item_finished_live:
  assumes wf: "pool_wf p"
  shows "live_tasks (on_item_finished ph (Some tid) p) = live_tasks p"
    "in_flight_per_phase (on_item_finished ph (Some tid) p) = dec_count ph (in_flight_per_phase p)"
proof -
  let ?p = "p\<lparr>in_flight_per_phase := dec_count ph (in_flight_per_phase p), in_flight_tasks := in_flight_tasks p - {tid}\<rparr>"
  have wf1: "pool_wf ?p"
    using pool_wfD [OF wf] pool_wf_keys [OF wf]
    by (intro pool_wf_frame [OF wf]) (simp_all add: ids_wf_def distinct_keys_dec)
  show "live_tasks (on_item_finished ph (Some tid) p) = live_tasks p"
    using resolve_spec(2) [OF wf1, of tid] by (simp add: on_item_finished_def Let_def)
  show "in_flight_per_phase (on_item_finished ph (Some tid) p) = dec_count ph (in_flight_per_phase p)"
    using resolve_frame [of tid ?p] by (simp add: on_item_finished_def Let_def)
qed

lemma pool_step_inv: "pool_step s s' \<Longrightarrow> machine_inv (fst s) (snd s) \<Longrightarrow> machine_inv (fst s') (snd s')"
proof (induction rule: pool_step.induct)
  case (step_extend its p q F)
  then show ?case using machine_extend by simp
next
  case (step_pop w p r q F)
  then show ?case using machine_pop by simp
next
  case (step_take s p r q F)
  then show ?case using machine_take_if_ready by (simp add: take_selected_def)
next
  case (step_take_match pred p t q F)
  then show ?case using machine_take_match by simp
next
  case (step_finished t F p)
  have inv: "machine_inv p F" using step_finished by simp
  then have wf: "pool_wf p" by (simp add: machine_inv_def)
  note L = on_item_finished_live [OF wf, of "phase_id t" "task_id t"]
  have "live_tasks (on_item_finished (phase_id t) (Some (task_id t)) p) \<subseteq># add_mset t (live_tasks p)"
    unfolding L(1) by simp
  then show ?case
    using machine_leave [OF inv step_finished(1) on_item_finished_wf [OF wf] _ L(2)] by simp
next
  case (step_failed t F p casc q)
  have inv: "machine_inv p F" using step_failed by simp
  then have wf: "pool_wf p" by (simp add: machine_inv_def)
  note S = on_item_failed_permanent_spec [OF wf step_failed(2)]
  have "live_tasks q \<subseteq># add_mset t (live_tasks p)" unfolding S(2) by simp
  then show ?case using machine_leave [OF inv step_failed(1) S(1) _ S(3)] by simp
next
  case (step_failed_retry t F p)
  have inv: "machine_inv p F" using step_failed_retry by simp
  then have wf: "pool_wf p" by (simp add: machine_inv_def)
  show ?case
    using machine_leave [OF inv step_failed_retry(1) on_item_failed_pending_retry_wf [OF wf]]
    by (simp add: on_item_failed_pending_retry_def Let_def)
next
  case (step_requeue t F p)
  have inv: "machine_inv p F" using step_requeue by simp
  then have wf: "pool_wf p" by (simp add: machine_inv_def)
  have "task_id t \<notin> live_ids p" using inv step_requeue(1) by (auto simp: machine_inv_def)
  moreover have "live_tasks (requeue t p) = add_mset t (live_tasks p)"
    using pool_wfD(1) [OF wf] by (simp add: requeue_def)
  ultimately show ?case
    using machine_leave [OF inv step_requeue(1) requeue_wf [OF wf]] by (simp add: requeue_def)
next
  case (step_finalize ph p out q F)
  have inv: "machine_inv p F" using step_finalize by simp
  then have wf: "pool_wf p" by (simp add: machine_inv_def)
  note S = finalize_soft_failures_spec [OF wf step_finalize(1)]
  have "live_tasks q \<subseteq># live_tasks p" unfolding S(3) by simp
  then show ?case using machine_same [OF inv S(1) _ S(2)] by simp
next
  case (step_reinject t p F)
  have inv: "machine_inv p F" using step_reinject by simp
  then have wf: "pool_wf p" by (simp add: machine_inv_def)
  have "task_id t \<notin> live_ids p" using step_reinject(1) by blast
  from reinject_wf [OF wf this] show ?case using machine_push [OF inv step_reinject(1)] by simp
next
  case (step_push_head t p F)
  have inv: "machine_inv p F" using step_push_head by simp
  then have wf: "pool_wf p" by (simp add: machine_inv_def)
  have "task_id t \<notin> live_ids p" using step_push_head(1) by blast
  from push_to_queue_head_wf [OF wf this] show ?case
    using machine_push [OF inv step_push_head(1)] pool_wfD(1) [OF wf] by (simp add: push_to_queue_head_def)
next
  case (step_drain_queued p F)
  then have wf: "pool_wf p" by (simp add: machine_inv_def)
  have "bucket_items (map (\<lambda>(k, b). (k, b\<lparr>items := []\<rparr>)) bs) = []" for bs :: "(bucket_key \<times> ('a, 'b) bucket) list"
    by (induction bs) auto
  then have "live_tasks (snd (drain_queued p)) \<subseteq># live_tasks p"
    by (simp add: drain_queued_def)
  then show ?case using step_drain_queued machine_same [OF _ drain_queued_wf [OF wf]] by (simp add: drain_queued_def)
next
  case (step_release p F w)
  then have wf: "pool_wf p" by (simp add: machine_inv_def)
  note R = release_worker_wf [OF wf, of w]
  show ?case using step_release machine_same [OF _ R(1)] by (simp add: R(2-4))
next
  case (step_reconcile alive p out q F)
  have inv: "machine_inv p F" using step_reconcile by simp
  then have wf: "pool_wf p" by (simp add: machine_inv_def)
  note S = reconcile_blocked_spec [OF wf step_reconcile(1)]
  have "live_tasks q \<subseteq># live_tasks p" unfolding S(2) by simp
  then show ?case using machine_same [OF inv S(1) _ S(3)] by simp
next
  case (step_affine_terminal p F ph tid)
  then have wf: "pool_wf p" by (simp add: machine_inv_def)
  have "pool_wf (note_affine_terminal ph tid p)" using pool_wf_static(3) [OF wf] by (simp add: note_affine_terminal_def)
  from machine_same [OF _ this] show ?case using step_affine_terminal by (simp add: note_affine_terminal_def)
next
  case (step_affine_failed p F ph tid)
  then have wf: "pool_wf p" by (simp add: machine_inv_def)
  have "pool_wf (note_affine_failed ph tid p)" using pool_wf_static(4) [OF wf] by (simp add: note_affine_failed_def)
  from machine_same [OF _ this] show ?case using step_affine_failed by (simp add: note_affine_failed_def)
next
  case (step_phase_done p F ph)
  then have wf: "pool_wf p" by (simp add: machine_inv_def)
  show ?case using step_phase_done machine_same [OF _ mark_phase_done_wf [OF wf] mark_phase_done_live [OF wf]] by simp
next
  case (step_drain_empty p F)
  then have wf: "pool_wf p" by (simp add: machine_inv_def)
  then have "pool_wf (drain_empty_active_phases p)" by (simp add: drain_empty_active_phases_def)
  from machine_same [OF _ this] show ?case using step_drain_empty by (simp add: drain_empty_active_phases_def)
next
  case (step_poll p F)
  then have wf: "pool_wf p" by (simp add: machine_inv_def)
  show ?case using step_poll machine_same [OF _ pool_wf_static(1) [OF wf]] by (simp add: poll_drain_transitions_def)
next
  case (step_resurface p F)
  then have wf: "pool_wf p" by (simp add: machine_inv_def)
  show ?case using step_resurface machine_same [OF _ pool_wf_static(1) [OF wf]]
    by (simp add: resurface_drained_pending_def Let_def)
next
  case (step_reserve p F plan)
  then have wf: "pool_wf p" by (simp add: machine_inv_def)
  show ?case using step_reserve machine_same [OF _ pool_wf_static(2) [OF wf]] by (simp add: open_reservation_def Let_def)
next
  case (step_redistribute p F m fb)
  then have wf: "pool_wf p" by (simp add: machine_inv_def)
  show ?case using step_redistribute machine_same [OF _ pool_wf_static(2) [OF wf]]
    by (simp add: redistribute_member_def Let_def)
qed

section \<open>Properties\<close>

lemma pool_steps_inv: "pool_step\<^sup>*\<^sup>* s s' \<Longrightarrow> machine_inv (fst s) (snd s) \<Longrightarrow> machine_inv (fst s') (snd s')"
  by (induction rule: rtranclp_induct) (auto dest: pool_step_inv)

lemma machine_inv_initial: "distinct phase_set \<Longrightarrow> machine_inv (initial_pool phase_set deps) []"
  using pool_wf_initial [of phase_set deps]
  by (auto simp: machine_inv_def initial_pool_def in_flight_def get_count_def split: option.split dest: map_of_SomeD)



text \<open>
  C21: a permanent failure fails exactly the tasks that depend on it. On a well-formed pool
  \<open>on_item_failed_permanent\<close> adds to the failed set the task and the tasks reachable from it through
  the reverse dependency index without passing one that had already failed; the tasks it returns
  are precisely the blocked ones among them, each once, every other task stays where it was, and no
  task that is still blocked and has not failed waits for a newly failed one.
\<close>

theorem cascade_exact:
  assumes wf: "pool_wf p" and r: "on_item_failed_permanent ph tid p = (casc, q)"
  shows "let R = {x. cascade_reach (p\<lparr>failed_tasks := insert tid (failed_tasks p)\<rparr>) tid x} in
    failed_tasks q = insert tid (failed_tasks p) \<union> R \<and>
    set (blocked q) = {(x, t) \<in> set (blocked p). x \<notin> R} \<and>
    live_tasks p = live_tasks q + mset casc \<and> distinct (map task_id casc) \<and>
    set casc = {t. \<exists>x \<in> R. (x, t) \<in> set (blocked p)} \<and>
    (\<forall>x D. x \<in> fst ` set (blocked q) - failed_tasks q \<longrightarrow> task_deps p x = Some D \<longrightarrow> D \<inter> (insert tid R) = {})"
proof -
  let ?R = "cascade_reach (p\<lparr>failed_tasks := insert tid (failed_tasks p)\<rparr>) tid"
  note S = on_item_failed_permanent_spec [OF wf r]
  have k: "task_id t = x" if "(x, t) \<in> set (blocked p)" for x t
    using deps_wfD(1) [OF pool_wfD(3) [OF wf] that] by simp
  have dl: "distinct (map task_id (map snd (blocked p)))"
    using live_ids_tasks(3) [OF pool_wfD(3) [OF wf]] pool_wf_keys(6) [OF wf] by (simp only: map_map)
  have m: "mset (map snd (blocked p)) = mset (map snd (blocked q) @ casc)" using S(6) by simp
  then have "mset (map task_id (map snd (blocked p))) = mset (map task_id (map snd (blocked q) @ casc))"
    by (metis mset_map)
  then have d: "distinct (map task_id (map snd (blocked q) @ casc))" using dl mset_eq_imp_distinct_iff by blast
  then have "distinct (map snd (blocked q) @ casc)" by (simp only: distinct_map)
  moreover have "set (map snd (blocked p)) = set (map snd (blocked q) @ casc)" using m by (rule mset_eq_setD)
  ultimately have "set casc = snd ` set (blocked p) - snd ` set (blocked q)" by auto
  also have "\<dots> = {t. \<exists>x \<in> {x. ?R x}. (x, t) \<in> set (blocked p)}"
  proof (intro set_eqI iffI)
    fix t assume "t \<in> snd ` set (blocked p) - snd ` set (blocked q)"
    then obtain x where x: "(x, t) \<in> set (blocked p)" "(x, t) \<notin> set (blocked q)" by force
    then show "t \<in> {t. \<exists>x \<in> {x. ?R x}. (x, t) \<in> set (blocked p)}" unfolding S(5) by blast
  next
    fix t assume "t \<in> {t. \<exists>x \<in> {x. ?R x}. (x, t) \<in> set (blocked p)}"
    then obtain x where x: "?R x" "(x, t) \<in> set (blocked p)" by blast
    moreover have "(y, t) \<notin> set (blocked q)" for y using k x unfolding S(5) by blast
    ultimately show "t \<in> snd ` set (blocked p) - snd ` set (blocked q)" by force
  qed
  finally have c: "set casc = {t. \<exists>x \<in> {x. ?R x}. (x, t) \<in> set (blocked p)}" .
  have "D \<inter> insert tid {x. ?R x} = {}"
    if x: "x \<notin> failed_tasks q" and D: "task_deps p x = Some D" for x D
  proof -
    have x': "x \<notin> insert tid (failed_tasks p)" "\<not> ?R x" using x S(4) by auto
    have dd: "x \<in> set (lookup_list (dependents_of p) d)" if "d \<in> D" for d
      using deps_wfD(4) [OF pool_wfD(3) [OF wf] D that] x'(1) by (auto simp: lookup_list_mem)
    have "\<not> ?R d" "d \<noteq> tid" if "d \<in> D" for d
      using dd [OF that] x' cascade_reach.direct [where p = "p\<lparr>failed_tasks := insert tid (failed_tasks p)\<rparr>" and x = x and tid = tid]
        cascade_reach.further [where p = "p\<lparr>failed_tasks := insert tid (failed_tasks p)\<rparr>" and x = x and y = d and tid = tid]
      by auto
    then show ?thesis by blast
  qed
  then have "\<forall>x D. x \<in> fst ` set (blocked q) - failed_tasks q \<longrightarrow> task_deps p x = Some D \<longrightarrow>
      D \<inter> insert tid {x. ?R x} = {}" by blast
  moreover have "distinct (map task_id casc)" using d by simp
  ultimately show ?thesis using S(2,4,5) c unfolding Let_def by (intro conjI) simp_all
qed

theorem cascade_exact_witness:
  "map_option task_id (List.find (\<lambda>t. True) (fst (on_item_failed_permanent ''p'' ''a'' blocked_pool))) = Some ''b'' \<and>
   cascade_reach (blocked_pool\<lparr>failed_tasks := insert ''a'' (failed_tasks blocked_pool)\<rparr>) ''a'' ''b''"
proof -
  obtain casc q where r: "on_item_failed_permanent ''p'' ''a'' blocked_pool = (casc, q)" by fastforce
  have e: "map task_id (fst (on_item_failed_permanent ''p'' ''a'' blocked_pool)) = [''b'']"
    "map fst (blocked blocked_pool) = [''b'']" "task_id (snd (hd (blocked blocked_pool))) = ''b''" by code_simp+
  then obtain t where t: "casc = [t]" "task_id t = ''b''" using r by (cases casc) auto
  have "t \<in> {t. \<exists>x \<in> {x. cascade_reach (blocked_pool\<lparr>failed_tasks := insert ''a'' (failed_tasks blocked_pool)\<rparr>) ''a'' x}.
      (x, t) \<in> set (blocked blocked_pool)}"
    using cascade_exact [OF blocked_pool_wf r] t unfolding Let_def by (metis list.set_intros(1))
  then show ?thesis using e t r by (auto simp: image_iff)
qed

text \<open>
  reviving a completed task makes its queued dependents wait again. After \<open>reinject\<close> of a task that
  is not live, the task is queued in a phase that dispatches unless that phase is still blocked, the
  pool is well formed, and, if the task had completed, every queued task that names it as a
  prerequisite is in a phase that does not dispatch.
\<close>

theorem reinject_reblocks:
  assumes wf: "pool_wf p" and new: "task_id t \<notin> live_ids p"
  shows "let q = reinject t p in
    pool_wf q \<and> t \<in> set (queued q) \<and> live_tasks q \<subseteq># add_mset t (live_tasks p) \<and>
    (task_id t \<in> completed_tasks p \<longrightarrow> task_id t \<notin> affine_prereq_ids p \<longrightarrow> task_id t \<notin> set (dep_ids t) \<longrightarrow>
      (\<forall>u \<in> set (queued q). task_id t \<in> set (dep_ids u) \<longrightarrow> \<not> phase_active_or_draining p (phase_id u)))"
proof -
  let ?p1 = "p\<lparr>soft_failed := AList.delete (task_id t) (soft_failed p), dormant_tasks := dormant_tasks p - {task_id t}\<rparr>"
  let ?p2 = "reblock_dependents_on_uncompleted (task_id t) ?p1"
  have wf1: "pool_wf ?p1"
    using pool_wfD [OF wf] pool_wf_keys [OF wf] by (intro pool_wf_frame [OF wf]) (auto simp: ids_wf_def)
  note R = reblock_spec [OF wf1, of "task_id t", simplified]
  have "buckets (reinject t p) = push_back_item t (buckets ?p2)"
    unfolding reinject_def Let_def by simp
  then have "mset (queued (reinject t p)) = add_mset t (mset (queued ?p2))"
    using pool_wfD(1) [OF conjunct1 [OF R]] by simp
  then have "set (queued (reinject t p)) = insert t (set (queued ?p2))"
    by (metis set_mset_mset set_mset_add_mset_insert)
  moreover have "phase_active_or_draining ?p1 = phase_active_or_draining p"
    by (simp add: phase_active_or_draining_def fun_eq_iff)
  ultimately show ?thesis using reinject_wf [OF wf new] R unfolding Let_def by auto
qed

theorem reinject_reblocks_witness:
  "pool_wf (reinject (sample_task ''p'' ''a'' []) blocked_pool) \<and>
   live_tasks (reinject (sample_task ''p'' ''a'' []) blocked_pool) \<subseteq># add_mset (sample_task ''p'' ''a'' []) (live_tasks blocked_pool)"
proof -
  have "task_id (sample_task ''p'' ''a'' [] :: (unit, unit) task_info) \<notin> live_ids blocked_pool" by code_simp
  then show ?thesis using reinject_reblocks [OF blocked_pool_wf] unfolding Let_def by blast
qed

text \<open>
  a sweep removes exactly the tasks whose prerequisites are gone. \<open>reconcile_blocked\<close> takes out of
  the blocked map the tasks with an unresolved prerequisite that is neither completed nor alive, hands
  each of them back once, and leaves queues and counters of a well-formed pool intact.
\<close>

theorem reconcile_exact:
  assumes "pool_wf p" "reconcile_blocked alive p = (out, q)"
  shows "pool_wf q \<and> live_tasks p = live_tasks q + mset out \<and> in_flight_per_phase q = in_flight_per_phase p \<and>
    set (blocked q) = {(x, t) \<in> set (blocked p). \<not> (\<exists>D. task_deps p x = Some D \<and>
        (\<exists>d \<in> D. d \<notin> completed_tasks p \<and> \<not> alive d))}"
  by (intro conjI reconcile_blocked_spec [OF assms])

theorem reconcile_exact_witness:
  "blocked (snd (reconcile_blocked (\<lambda>_. False) blocked_pool)) = []"
proof -
  have b: "map fst (blocked blocked_pool) = [''b'']" "task_deps blocked_pool ''b'' = Some {''a''}"
    "''a'' \<notin> completed_tasks blocked_pool" by code_simp+
  then have "x = ''b''" if "(x, t) \<in> set (blocked blocked_pool)" for x t
    using that by (cases "blocked blocked_pool") auto
  then have "{(x, t) \<in> set (blocked blocked_pool). \<not> (\<exists>D. task_deps blocked_pool x = Some D \<and>
      (\<exists>d \<in> D. d \<notin> completed_tasks blocked_pool \<and> \<not> (\<lambda>_. False) d))} = {}"
    using b(2,3) by auto
  then have "set (blocked (snd (reconcile_blocked (\<lambda>_. False) blocked_pool))) = {}"
    using reconcile_exact [OF blocked_pool_wf prod.collapse [symmetric], of "\<lambda>_. False"] by (metis (no_types, lifting))
  then show ?thesis by simp
qed

text \<open>
  ending the retries of a phase fails its soft-failed tasks in order. \<open>finalize_soft_failures\<close>
  returns one entry for every task that soft-failed in the phase, with the dependents its failure
  cascades to; together with what stays live these are all the live tasks, so every dependent is
  reported exactly once and none is lost.
\<close>

theorem finalize_conserves:
  assumes "pool_wf p" "finalize_soft_failures ph p = (out, q)"
  shows "pool_wf q \<and> in_flight_per_phase q = in_flight_per_phase p \<and>
    live_tasks p = live_tasks q + mset (concat (map snd out)) \<and>
    map fst out = map fst (filter (\<lambda>(_, r). r = ph) (soft_failed p))"
  by (intro conjI finalize_soft_failures_spec [OF assms])

theorem finalize_conserves_witness:
  "let p = on_item_failed_pending_retry ''p'' ''a'' blocked_pool in
   map fst (fst (finalize_soft_failures ''p'' p)) = [''a''] \<and>
   live_tasks p = live_tasks (snd (finalize_soft_failures ''p'' p)) +
     mset (concat (map snd (fst (finalize_soft_failures ''p'' p))))"
proof -
  let ?p = "on_item_failed_pending_retry ''p'' ''a'' blocked_pool"
  have "map fst (filter (\<lambda>(_, r). r = ''p'') (soft_failed ?p)) = [''a'']" by code_simp
  then show ?thesis
    using finalize_conserves [OF on_item_failed_pending_retry_wf [OF blocked_pool_wf] prod.collapse [symmetric],
        where ph = "''p''"] unfolding Let_def by metis
qed

end
