(* ===== verification/Pool_Identity.thy ===== *)
theory Pool_Identity
  imports Pool_Machine
begin

text \<open>
  Where the pool's records fall short of its documented identity. The documentation of the pool
  identifies a task by its phase and id, says that dispatch records a task as in flight, and says
  that a rejected batch is answered with a walk of its cycle; the theorems of this theory state what
  the code does in these three places.
\<close>

text \<open>
  dispatch does not record the dispatched task. The documentation of \<open>in_flight_tasks\<close> names
  \<open>take_at\<close> as a write site; the code leaves the set as it was, so a task that \<open>pop_for_worker\<close> handed
  out of a well-formed pool, and whose id is in none of the other records, is unknown to the
  duplicate check and to the prerequisite check of \<open>extend\<close> while it runs.
\<close>

theorem dispatch_forgets_task:
  assumes wf: "pool_wf p" and pop: "pop_for_worker w p = Some (Some t, q)"
    and fresh: "task_id t \<notin> completed_tasks p \<union> failed_tasks p \<union> set (keys (soft_failed p)) \<union>
      dormant_tasks p \<union> in_flight_tasks p"
  shows "in_flight_tasks q = in_flight_tasks p \<and> task_id t \<notin> collect_known_task_ids q"
proof -
  have same: "in_flight_tasks q = in_flight_tasks p \<and> completed_tasks q = completed_tasks p \<and>
      failed_tasks q = failed_tasks p \<and> soft_failed q = soft_failed p \<and> dormant_tasks q = dormant_tasks p"
    using pop by (auto simp: pop_for_worker_def take_at_if_ready_def take_at_def Let_def split: option.splits if_splits)
  obtain key i where tk: "take_at_if_ready key i w p = Some (Some t, q)"
    using pop by (auto simp: pop_for_worker_def split: option.splits)
  have "takes t p q"
    using wf by (cases rule: take_at_if_ready_cases [where key = key and index = i and w = w]) (use tk in auto)
  then have "add_mset t (mset (queued q)) = mset (queued p)" and "blocked q = blocked p" by (simp_all add: takes_def)
  moreover from this(1) have "mset (queued_ids p) = add_mset (task_id t) (mset (queued_ids q))"
    by (metis image_mset_add_mset mset_map)
  ultimately have "mset (queued_ids p @ keys (blocked p)) = mset (task_id t # queued_ids q @ keys (blocked q))" by simp
  then have "distinct (task_id t # queued_ids q @ keys (blocked q))"
    using pool_wfD(5) [OF wf] mset_eq_imp_distinct_iff unfolding ids_wf_def by blast
  then show ?thesis using same fresh by (auto simp: collect_known_task_ids_def)
qed

theorem dispatch_forgets_task_witness:
  "\<exists>q. pop_for_worker 7 ready_pool = Some (Some (sample_task ''p'' ''a'' []), q) \<and>
     ''a'' \<notin> collect_known_task_ids q"
proof -
  obtain q where "pop_for_worker 7 ready_pool = Some (Some (sample_task ''p'' ''a'' []), q)"
    using ready_pool_pop by auto
  moreover have "''a'' \<notin> completed_tasks ready_pool \<union> failed_tasks ready_pool \<union> set (keys (soft_failed ready_pool)) \<union>
      dormant_tasks ready_pool \<union> in_flight_tasks ready_pool" by code_simp
  moreover have "task_id (sample_task ''p'' ''a'' []) = ''a''" by (simp add: sample_task_def)
  ultimately show ?thesis using dispatch_forgets_task [OF ready_pool_wf] by metis
qed

definition two_phase_pool :: "(unit, unit) pending_pool" where
  "two_phase_pool = initial_pool [''p'', ''q''] []"

definition two_phase_batch :: "(unit, unit) task_info list" where
  "two_phase_batch = [sample_task ''p'' ''a'' [], sample_task ''q'' ''b'' [],
     sample_task ''p'' ''x'' [''a''], sample_task ''q'' ''x'' [''b'']]"

text \<open>
  two blocked tasks with one id in two phases are confused. The documentation of \<open>extend\<close> calls
  the same id in two phases two distinct tasks, and the batch check accepts such a batch, but the
  blocked map is keyed by the bare id: from a batch with a task \<open>x\<close> of phase \<open>p\<close> and a task \<open>x\<close> of phase
  \<open>q\<close>, both waiting, only the second is kept, while phase \<open>p\<close> is still counted as having a blocked task.
\<close>

theorem same_id_overwritten:
  "\<exists>p. pool_extend two_phase_batch two_phase_pool = Some (Inr p) \<and>
     map (\<lambda>(x, t). (x, phase_id t)) (blocked p) = [(''x'', ''q'')] \<and>
     get_count (blocked_per_phase p) ''p'' = 1 \<and> get_count (blocked_per_phase p) ''q'' = 1"
proof -
  have "map_option (map_sum id (\<lambda>p. (map (\<lambda>(x, t). (x, phase_id t)) (blocked p),
      get_count (blocked_per_phase p) ''p'', get_count (blocked_per_phase p) ''q'')))
      (pool_extend two_phase_batch two_phase_pool) = Some (Inr ([(''x'', ''q'')], 1, 1))"
    by code_simp
  then obtain r where r: "pool_extend two_phase_batch two_phase_pool = Some r" "map_sum id (\<lambda>p. (map (\<lambda>(x, t). (x, phase_id t)) (blocked p),
      get_count (blocked_per_phase p) ''p'', get_count (blocked_per_phase p) ''q'')) r = Inr ([(''x'', ''q'')], 1, 1)"
    by auto
  then show ?thesis by (cases r) auto
qed

text \<open>
  the reported cycle need not be one. For a batch in which \<open>z1\<close> and \<open>z2\<close> wait for each other and \<open>a\<close>
  waits for \<open>z1\<close>, the error of \<open>extend\<close>, documented as a walk of the offending cycle, names only \<open>a\<close>,
  which is on no cycle.
\<close>

theorem cycle_report_downstream:
  "map_option (map_sum id (\<lambda>_. ())) (pool_extend
     [sample_task ''p'' ''a'' [''z1''], sample_task ''p'' ''z1'' [''z2''], sample_task ''p'' ''z2'' [''z1'']] sample_pool) =
   Some (Inl (TaskDepCycle [''a'']))"
  by code_simp

end
