(* ===== verification/Pool_Queries.thy ===== *)
theory Pool_Queries
  imports Pool_Identity
begin

text \<open>
  The read side of the pool (\<open>queries.rs\<close>): sizes and completion, the filters that rewrite queued
  items in place, the counters the primary consults before it asks for more work, and the rank that
  orders setup tasks by the work that waits for them (\<open>DispatchRank\<close> of \<open>types.rs\<close>).
\<close>

section \<open>Sizes and completion\<close>

definition pool_len :: "('i, 'j) pending_pool \<Rightarrow> nat" where
  "pool_len p =
     sum_list (map (\<lambda>(_, b). length (items b)) (buckets p)) + sum_list (map snd (in_flight_per_phase p)) +
     length (blocked p)"

definition pool_is_empty :: "('i, 'j) pending_pool \<Rightarrow> bool" where
  "pool_is_empty p \<longleftrightarrow> pool_len p = 0"

definition is_run_complete :: "('i, 'j) pending_pool \<Rightarrow> bool" where
  "is_run_complete p \<longleftrightarrow>
     (if \<not> pool_is_empty p then False
      else \<not> list_ex (\<lambda>(_, s). s = Active \<or> s = Draining) (phase_state p))"

definition blocked_len :: "('i, 'j) pending_pool \<Rightarrow> nat" where
  "blocked_len p = length (blocked p)"

section \<open>Rewriting queued items\<close>

definition pool_retain :: "(('i, 'j) task_info \<Rightarrow> bool) \<Rightarrow> ('i, 'j) pending_pool \<Rightarrow> ('i, 'j) pending_pool" where
  "pool_retain pred p = p\<lparr>buckets := map (\<lambda>(k, b). (k, b\<lparr>items := filter pred (items b)\<rparr>)) (buckets p)\<rparr>"

fun update_first :: "('a \<Rightarrow> bool) \<Rightarrow> ('a \<Rightarrow> 'a) \<Rightarrow> 'a list \<Rightarrow> 'a list option" where
  "update_first pred upd [] = None"
| "update_first pred upd (x # xs) =
     (if pred x then Some (upd x # xs) else map_option (Cons x) (update_first pred upd xs))"

fun update_first_bucket :: "(('i, 'j) task_info \<Rightarrow> bool) \<Rightarrow> (('i, 'j) task_info \<Rightarrow> ('i, 'j) task_info) \<Rightarrow>
    (bucket_key \<times> ('i, 'j) bucket) list \<Rightarrow> (bucket_key \<times> ('i, 'j) bucket) list option" where
  "update_first_bucket pred upd [] = None"
| "update_first_bucket pred upd ((k, b) # bs) =
     (case update_first pred upd (items b) of
        Some its \<Rightarrow> Some ((k, b\<lparr>items := its\<rparr>) # bs)
      | None \<Rightarrow> map_option (Cons (k, b)) (update_first_bucket pred upd bs))"

definition update_first_match_in_place :: "(('i, 'j) task_info \<Rightarrow> bool) \<Rightarrow>
    (('i, 'j) task_info \<Rightarrow> ('i, 'j) task_info) \<Rightarrow> ('i, 'j) pending_pool \<Rightarrow> bool \<times> ('i, 'j) pending_pool" where
  "update_first_match_in_place pred upd p =
     (case update_first_bucket pred upd (buckets p) of
        Some bs \<Rightarrow> (True, p\<lparr>buckets := bs\<rparr>)
      | None \<Rightarrow>
          (case update_first (\<lambda>(_, t). pred t) (\<lambda>(k, t). (k, upd t)) (blocked p) of
             Some bl \<Rightarrow> (True, p\<lparr>blocked := bl\<rparr>)
           | None \<Rightarrow> (False, p)))"

section \<open>Counters\<close>

definition active_phases :: "('i, 'j) pending_pool \<Rightarrow> phase_id list" where
  "active_phases p = map fst (filter (\<lambda>(_, s). s = Active) (phase_state p))"

definition has_queued_dispatchable :: "('i, 'j) pending_pool \<Rightarrow> bool" where
  "has_queued_dispatchable p \<longleftrightarrow>
     list_ex (\<lambda>(key, b). items b \<noteq> [] \<and> fst key \<in> set (active_phases p)) (buckets p)"

text \<open>
  The counting loop returns early: \<open>None\<close> is its \<open>return false\<close>, \<open>Some counted\<close> a loop that ran to its end.
\<close>

fun count_ready :: "('i, 'j) pending_pool \<Rightarrow> nat \<Rightarrow> ('i, 'j) task_info list \<Rightarrow> nat \<Rightarrow> nat option" where
  "count_ready p threshold [] counted = Some counted"
| "count_ready p threshold (t # ts) counted =
     (if \<not> dispatch_eligible p t then count_ready p threshold ts counted
      else if counted + 1 \<ge> threshold then None
      else count_ready p threshold ts (counted + 1))"

fun count_ready_buckets :: "('i, 'j) pending_pool \<Rightarrow> nat \<Rightarrow> (bucket_key \<times> ('i, 'j) bucket) list \<Rightarrow> nat \<Rightarrow> nat option" where
  "count_ready_buckets p threshold [] counted = Some counted"
| "count_ready_buckets p threshold ((key, b) # bs) counted =
     (if fst key \<notin> set (active_phases p) then count_ready_buckets p threshold bs counted
      else
        (case count_ready p threshold (items b) counted of
           None \<Rightarrow> None
         | Some counted' \<Rightarrow> count_ready_buckets p threshold bs counted'))"

definition ready_dispatchable_below :: "nat \<Rightarrow> ('i, 'j) pending_pool \<Rightarrow> bool" where
  "ready_dispatchable_below threshold p \<longleftrightarrow>
     (if threshold = 0 then False
      else
        (case count_ready_buckets p threshold (buckets p) 0 of
           None \<Rightarrow> False
         | Some counted \<Rightarrow> counted < threshold))"

definition is_blocked_task_dead_ended :: "('i, 'j) pending_pool \<Rightarrow> task_id \<Rightarrow> bool" where
  "is_blocked_task_dead_ended p blocked_id \<longleftrightarrow>
     (case task_deps p blocked_id of
        Some deps \<Rightarrow> \<exists>d \<in> deps. is_dead_ended p d
      | None \<Rightarrow> False)"

definition has_live_blocked :: "('i, 'j) pending_pool \<Rightarrow> bool" where
  "has_live_blocked p \<longleftrightarrow> list_ex (\<lambda>tid. \<not> is_blocked_task_dead_ended p tid) (keys (blocked p))"

definition is_ready_prerequisite_of_live_blocked :: "task_id \<Rightarrow> ('i, 'j) pending_pool \<Rightarrow> bool" where
  "is_ready_prerequisite_of_live_blocked tid p \<longleftrightarrow>
     (case map_of (dependents_of p) tid of
        None \<Rightarrow> False
      | Some dependents \<Rightarrow>
          list_ex (\<lambda>dep_id. map_of (blocked p) dep_id \<noteq> None \<and> \<not> is_blocked_task_dead_ended p dep_id) dependents)"

section \<open>The dispatch rank\<close>

datatype dispatch_rank = DispatchRank (phase_tier: nat) (class_tier: nat) (neg_dependent_count: int)

text \<open>The derived order of the struct is lexicographic in the order of its fields.\<close>

instantiation dispatch_rank :: linorder
begin

definition less_eq_dispatch_rank :: "dispatch_rank \<Rightarrow> dispatch_rank \<Rightarrow> bool" where
  "less_eq_dispatch_rank a b \<longleftrightarrow>
     (phase_tier a, class_tier a, neg_dependent_count a) \<le> (phase_tier b, class_tier b, neg_dependent_count b)"

definition less_dispatch_rank :: "dispatch_rank \<Rightarrow> dispatch_rank \<Rightarrow> bool" where
  "less_dispatch_rank a b \<longleftrightarrow>
     (phase_tier a, class_tier a, neg_dependent_count a) < (phase_tier b, class_tier b, neg_dependent_count b)"

instance
proof
  fix a b c :: dispatch_rank
  show "a < b \<longleftrightarrow> a \<le> b \<and> \<not> b \<le> a"
    unfolding less_dispatch_rank_def less_eq_dispatch_rank_def by (rule less_le_not_le)
  show "a \<le> a" by (simp add: less_eq_dispatch_rank_def)
  show "a \<le> b \<Longrightarrow> b \<le> c \<Longrightarrow> a \<le> c" unfolding less_eq_dispatch_rank_def by (rule order_trans)
  show "a \<le> b \<Longrightarrow> b \<le> a \<Longrightarrow> a = b"
    unfolding less_eq_dispatch_rank_def by (cases a; cases b) (auto dest: antisym)
  show "a \<le> b \<or> b \<le> a" unfolding less_eq_dispatch_rank_def by (rule linear)
qed

end

definition task_by_id :: "('i, 'j) pending_pool \<Rightarrow> task_id \<Rightarrow> ('i, 'j) task_info option" where
  "task_by_id p tid =
     (case map_of (blocked p) tid of
        Some t \<Rightarrow> Some t
      | None \<Rightarrow> find (\<lambda>t. task_id t = tid) (queued p))"

definition work_task_rank :: "('i, 'j) pending_pool \<Rightarrow> ('i, 'j) task_info \<Rightarrow> dispatch_rank" where
  "work_task_rank p t =
     DispatchRank
       (case phase_status_of p (phase_id t) of Some Active \<Rightarrow> 0 | Some Draining \<Rightarrow> 1 | _ \<Rightarrow> 2)
       (if affinity_key t = no_affinity then 1 else 0)
       (-1)"

text \<open>
  The walk keeps the work leaves found so far, the visited ids and a stack, whose top is the head of
  the list here and the end of the vector in the code.
\<close>

record ('i, 'j) rank_walk =
  work_leaves :: "('i, 'j) task_info list"
  visited :: "task_id set"
  stack :: "task_id list"

definition rank_visit :: "('i, 'j) pending_pool \<Rightarrow> task_id \<Rightarrow> ('i, 'j) rank_walk \<Rightarrow> ('i, 'j) rank_walk" where
  "rank_visit p dependent_id s =
     (if dependent_id \<in> visited s then s
      else
        let s1 = s\<lparr>visited := insert dependent_id (visited s)\<rparr> in
        case task_by_id p dependent_id of
          Some t \<Rightarrow>
            if is_worker_assignable (kind t) then s1\<lparr>work_leaves := work_leaves s1 @ [t]\<rparr>
            else s1\<lparr>stack := dependent_id # stack s1\<rparr>
        | None \<Rightarrow> s1)"

definition unvisited :: "('i, 'j) pending_pool \<Rightarrow> ('i, 'j) rank_walk \<Rightarrow> task_id set" where
  "unvisited p s = set (concat (map snd (dependents_of p))) - visited s"

lemma rank_visit_measure:
  assumes "x \<in> set (concat (map snd (dependents_of p)))"
  shows "card (unvisited p (rank_visit p x s)) + length (stack (rank_visit p x s)) \<le> card (unvisited p s) + length (stack s)"
proof (cases "x \<in> visited s")
  case False
  then have "unvisited p (rank_visit p x s) = unvisited p s - {x}" "x \<in> unvisited p s"
    using assms by (auto simp: unvisited_def rank_visit_def Let_def split: option.splits if_splits)
  then have "card (unvisited p s) = Suc (card (unvisited p (rank_visit p x s)))"
    by (metis List.finite_set card.remove finite_Diff unvisited_def)
  then show ?thesis by (simp add: rank_visit_def Let_def False split: option.split)
qed (simp add: rank_visit_def)

lemma rank_fold_measure:
  assumes "set ds \<subseteq> set (concat (map snd (dependents_of p)))"
  shows "card (unvisited p (fold (rank_visit p) ds s)) + length (stack (fold (rank_visit p) ds s)) \<le>
    card (unvisited p s) + length (stack s)"
  using assms
proof (induction ds arbitrary: s)
  case (Cons x ds)
  then have "card (unvisited p (fold (rank_visit p) ds (rank_visit p x s))) +
      length (stack (fold (rank_visit p) ds (rank_visit p x s))) \<le>
    card (unvisited p (rank_visit p x s)) + length (stack (rank_visit p x s))" by simp
  also have "\<dots> \<le> card (unvisited p s) + length (stack s)" by (rule rank_visit_measure) (use Cons.prems in simp)
  finally show ?case by simp
qed simp

lemma lookup_list_dependents: "set (lookup_list m x) \<subseteq> set (concat (map snd m))"
  by (force simp: lookup_list_mem dest!: map_of_SomeD)

function rank_loop :: "('i, 'j) pending_pool \<Rightarrow> ('i, 'j) rank_walk \<Rightarrow> ('i, 'j) rank_walk" where
  "rank_loop p s =
     (case stack s of
        [] \<Rightarrow> s
      | dep_owner_id # rest \<Rightarrow>
          rank_loop p (fold (rank_visit p) (lookup_list (dependents_of p) dep_owner_id) (s\<lparr>stack := rest\<rparr>)))"
  by pat_completeness auto
termination
proof (relation "measure (\<lambda>(p, s). card (unvisited p s) + length (stack s))")
  fix p :: "('i, 'j) pending_pool" and s :: "('i, 'j) rank_walk" and n rest
  assume s: "stack s = n # rest"
  let ?s' = "fold (rank_visit p) (lookup_list (dependents_of p) n) (s\<lparr>stack := rest\<rparr>)"
  have "card (unvisited p ?s') + length (stack ?s') \<le>
      card (unvisited p (s\<lparr>stack := rest\<rparr>)) + length (stack (s\<lparr>stack := rest\<rparr>))"
    by (rule rank_fold_measure [OF lookup_list_dependents])
  also have "\<dots> < card (unvisited p s) + length (stack s)" using s by (simp add: unvisited_def)
  finally show "((p, ?s'), (p, s)) \<in> measure (\<lambda>(p, s). card (unvisited p s) + length (stack s))" by simp
qed simp

declare rank_loop.simps [simp del]

definition dependent_dispatch_rank :: "task_id \<Rightarrow> ('i, 'j) pending_pool \<Rightarrow> dispatch_rank option" where
  "dependent_dispatch_rank setup_task_id p =
     (let leaves = work_leaves (rank_loop p \<lparr>work_leaves = [], visited = {}, stack = [setup_task_id]\<rparr>) in
      case map (work_task_rank p) leaves of
        [] \<Rightarrow> None
      | r # rs \<Rightarrow>
          let best = fold min rs r in
          Some (DispatchRank (phase_tier best) (class_tier best) (- int (length leaves))))"

section \<open>Sizes are exact\<close>

lemma sum_bucket_lengths: "sum_list (map (\<lambda>(_, b). length (items b)) bs) = length (bucket_items bs)"
  by (induction bs) auto

lemma length_filter_partition:
  "distinct ks \<Longrightarrow> f ` set xs \<subseteq> set ks \<Longrightarrow> sum_list (map (\<lambda>k. length (filter (\<lambda>x. f x = k) xs)) ks) = length xs"
proof (induction xs)
  case (Cons x xs)
  have "sum_list (map (\<lambda>k. length (filter (\<lambda>y. f y = k) (x # xs))) ks) =
      sum_list (map (\<lambda>k. (if k = f x then 1 else 0) + length (filter (\<lambda>y. f y = k) xs)) ks)"
    by (rule arg_cong [where f = sum_list], rule map_cong) auto
  also have "\<dots> = (\<Sum>k\<leftarrow>ks. if k = f x then 1 else 0) + sum_list (map (\<lambda>k. length (filter (\<lambda>y. f y = k) xs)) ks)"
    by (rule sum_list_addf)
  also have "(\<Sum>k\<leftarrow>ks. if k = f x then 1 else (0 :: nat)) = 1"
    using Cons.prems by (simp add: sum_list_distinct_conv_sum_set sum.delta)
  finally show ?case using Cons by simp
qed simp

lemma in_flight_total:
  assumes inv: "machine_inv p F"
  shows "sum_list (map snd (in_flight_per_phase p)) = length F"
proof -
  let ?m = "in_flight_per_phase p"
  have d: "distinct (keys ?m)" using pool_wf_keys inv by (auto simp: machine_inv_def)
  have fl: "in_flight p ph = length (filter (\<lambda>t. phase_id t = ph) F)" for ph
    using inv by (simp add: machine_inv_def)
  have v: "in_flight p ph = n" if "(ph, n) \<in> set ?m" for ph n
    using d that by (simp add: in_flight_def get_count_def)
  have "phase_id t \<in> set (keys ?m)" if "t \<in> set F" for t
  proof (rule ccontr)
    assume "phase_id t \<notin> set (keys ?m)"
    then have "map_of ?m (phase_id t) = None" by (simp add: map_of_eq_None_iff)
    then have "in_flight p (phase_id t) = 0" by (simp add: in_flight_def get_count_def)
    then show False using fl [of "phase_id t"] that by (auto simp: filter_empty_conv)
  qed
  then have "sum_list (map (\<lambda>k. length (filter (\<lambda>t. phase_id t = k) F)) (keys ?m)) = length F"
    by (intro length_filter_partition [OF d]) blast
  moreover have "map snd ?m = map (\<lambda>k. length (filter (\<lambda>t. phase_id t = k) F)) (keys ?m)"
    using v fl by (auto simp: comp_def)
  ultimately show ?thesis by (simp only:)
qed

text \<open>
  the pool's size is the number of unfinished tasks. In every state that satisfies the machine
  invariant, with \<open>F\<close> the items that workers hold, \<open>len\<close> counts each live task and each held item once,
  and \<open>is_run_complete\<close> holds exactly when nothing is queued, blocked or held and no phase is active
  or draining.
\<close>

theorem run_complete_exact:
  assumes "machine_inv p F"
  shows "pool_len p = size (live_tasks p) + length F \<and>
    (is_run_complete p \<longleftrightarrow> live_tasks p = {#} \<and> F = [] \<and>
       (\<forall>(ph, s) \<in> set (phase_state p). s \<noteq> Active \<and> s \<noteq> Draining))"
proof -
  have l: "pool_len p = size (live_tasks p) + length F"
    using in_flight_total [OF assms] by (simp add: pool_len_def sum_bucket_lengths)
  then have "pool_is_empty p \<longleftrightarrow> live_tasks p = {#} \<and> F = []" by (auto simp: pool_is_empty_def)
  then show ?thesis using l unfolding is_run_complete_def list_ex_iff by auto
qed

theorem run_complete_exact_witness: "pool_len blocked_pool = 1 \<and> \<not> is_run_complete blocked_pool"
proof -
  have "\<forall>ph. in_flight blocked_pool ph = 0" by (simp add: blocked_pool_def sample_pool_def initial_pool_def in_flight_def get_count_def)
  then have "machine_inv blocked_pool []"
    using blocked_pool_wf pool_wfD(5) [OF blocked_pool_wf] by (simp add: machine_inv_def ids_wf_def)
  moreover have "pool_len blocked_pool = 1" by code_simp
  ultimately show ?thesis using run_complete_exact by (metis add_is_0 list.size(3) size_empty zero_neq_one)
qed

section \<open>Rewriting in place\<close>

lemma update_first_None: "update_first pred upd xs = None \<longleftrightarrow> (\<forall>x \<in> set xs. \<not> pred x)"
  by (induction xs) auto

lemma update_first_Some:
  "update_first pred upd xs = Some ys \<Longrightarrow>
   \<exists>us x vs. xs = us @ x # vs \<and> ys = us @ upd x # vs \<and> pred x \<and> (\<forall>u \<in> set us. \<not> pred u)"
proof (induction xs arbitrary: ys)
  case (Cons a xs)
  show ?case
  proof (cases "pred a")
    case True
    then show ?thesis using Cons.prems by (intro exI [of _ "[]"]) auto
  next
    case False
    then obtain zs where "update_first pred upd xs = Some zs" "ys = a # zs" using Cons.prems by auto
    then show ?thesis using Cons.IH [of zs] False by (metis append_Cons set_ConsD)
  qed
qed simp

lemma update_first_bucket_None: "update_first_bucket pred upd bs = None \<longleftrightarrow> (\<forall>t \<in> set (bucket_items bs). \<not> pred t)"
proof (induction bs)
  case (Cons kb bs)
  obtain k b where kb: "kb = (k, b)" by fastforce
  show ?case
    using Cons update_first_None [of pred upd "items b"] by (cases "update_first pred upd (items b)") (auto simp: kb)
qed simp

lemma update_first_bucket_Some:
  "update_first_bucket pred upd bs = Some bs' \<Longrightarrow>
   \<exists>us t vs. bucket_items bs = us @ t # vs \<and> bucket_items bs' = us @ upd t # vs \<and> pred t \<and>
     (\<forall>u \<in> set us. \<not> pred u) \<and> keys bs' = keys bs \<and>
     (\<forall>(k, b) \<in> set bs'. \<forall>u \<in> set (items b). u = upd t \<and> (\<exists>b0. (k, b0) \<in> set bs \<and> t \<in> set (items b0)) \<or>
        (\<exists>b0. (k, b0) \<in> set bs \<and> u \<in> set (items b0)))"
proof (induction bs arbitrary: bs')
  case (Cons kb bs)
  obtain k b where kb: "kb = (k, b)" by fastforce
  show ?case
  proof (cases "update_first pred upd (items b)")
    case None
    then have no: "\<forall>u \<in> set (items b). \<not> pred u" by (simp add: update_first_None)
    obtain cs where c: "update_first_bucket pred upd bs = Some cs" "bs' = (k, b) # cs"
      using Cons.prems None kb by auto
    obtain us t vs where i: "bucket_items bs = us @ t # vs" "bucket_items cs = us @ upd t # vs" "pred t"
      "\<forall>u \<in> set us. \<not> pred u" "keys cs = keys bs"
      "\<forall>(k, b) \<in> set cs. \<forall>u \<in> set (items b). u = upd t \<and> (\<exists>b0. (k, b0) \<in> set bs \<and> t \<in> set (items b0)) \<or>
        (\<exists>b0. (k, b0) \<in> set bs \<and> u \<in> set (items b0))"
      using Cons.IH [OF c(1)] by blast
    show ?thesis
      by (rule exI [of _ "items b @ us"], rule exI [of _ t], rule exI [of _ vs])
        (use i no in \<open>auto simp: c kb; blast\<close>)
  next
    case (Some its)
    then obtain us t vs where i: "items b = us @ t # vs" "its = us @ upd t # vs" "pred t" "\<forall>u \<in> set us. \<not> pred u"
      using update_first_Some by blast
    have b': "bs' = (k, b\<lparr>items := its\<rparr>) # bs" using Cons.prems Some kb by simp
    show ?thesis
      by (rule exI [of _ us], rule exI [of _ t], rule exI [of _ "vs @ bucket_items bs"])
        (use i in \<open>auto simp: b' kb\<close>)
  qed
qed simp

text \<open>
  an in-place update changes one task. If the update keeps a task's id, bucket and prerequisites,
  \<open>update_first_match_in_place\<close> keeps a well-formed pool well formed; it returns true exactly when a
  queued or blocked task matches, in which case exactly one matching task is replaced by its updated
  version, and otherwise leaves the pool alone.
\<close>

theorem update_in_place_exact:
  assumes wf: "pool_wf p" and r: "update_first_match_in_place pred upd p = (found, q)"
    and keep: "\<And>t. task_id (upd t) = task_id t \<and> bucket_key (upd t) = bucket_key t \<and> dep_ids (upd t) = dep_ids t"
  shows "pool_wf q \<and> (found \<longleftrightarrow> (\<exists>t \<in># live_tasks p. pred t)) \<and> (\<not> found \<longrightarrow> q = p) \<and>
    (found \<longrightarrow> (\<exists>t. pred t \<and> live_tasks p = add_mset t (live_tasks p - {#t#}) \<and>
       live_tasks q = add_mset (upd t) (live_tasks p - {#t#})))"
proof (cases "update_first_bucket pred upd (buckets p)")
  case (Some bs)
  then have q: "q = p\<lparr>buckets := bs\<rparr>" "found" using r by (simp_all add: update_first_match_in_place_def)
  obtain us t vs where u: "queued p = us @ t # vs" "bucket_items bs = us @ upd t # vs" "pred t" "keys bs = keys (buckets p)"
    "\<forall>(k, b) \<in> set bs. \<forall>u \<in> set (items b). u = upd t \<and> (\<exists>b0. (k, b0) \<in> set (buckets p) \<and> t \<in> set (items b0)) \<or>
        (\<exists>b0. (k, b0) \<in> set (buckets p) \<and> u \<in> set (items b0))"
    using update_first_bucket_Some [OF Some] by blast
  have "bucket_key u = k" if kb: "(k, b) \<in> set bs" "u \<in> set (items b)" for k b u
  proof -
    obtain b0 where b0: "(k, b0) \<in> set (buckets p)" "u = upd t \<and> t \<in> set (items b0) \<or> u \<in> set (items b0)"
      using u(5) kb by blast
    then show ?thesis using keep [of t] buckets_wfD [OF pool_wfD(1) [OF wf] b0(1)] by auto
  qed
  moreover have "bt_sorted bs" using pool_wfD(1) [OF wf] u(4) by (simp add: buckets_wf_def)
  ultimately have "buckets_wf bs" by (auto simp: buckets_wf_def)
  moreover have "queued_ids q = queued_ids p" using u keep by (simp add: q)
  then have "ids_wf q" using pool_wfD(5) [OF wf] by (simp add: ids_wf_def) (simp add: q)
  ultimately have "pool_wf q" using pool_wf_keys [OF wf] by (intro pool_wf_frame [OF wf]) (simp_all add: q)
  moreover have "live_tasks p = add_mset t (live_tasks p - {#t#})" "live_tasks q = add_mset (upd t) (live_tasks p - {#t#})"
    using u by (simp_all add: q)
  ultimately show ?thesis using q(2) u by auto
next
  case None
  then have no: "\<forall>t \<in> set (queued p). \<not> pred t" by (simp add: update_first_bucket_None)
  let ?u = "update_first (\<lambda>(_, t). pred t) (\<lambda>(k, t). (k, upd t)) (blocked p)"
  show ?thesis
  proof (cases ?u)
    case N: None
    then have "q = p" "\<not> found" using r None by (simp_all add: update_first_match_in_place_def)
    moreover have "\<forall>t \<in> set (map snd (blocked p)). \<not> pred t" using N by (auto simp: update_first_None)
    ultimately show ?thesis using wf no by auto
  next
    case (Some bl)
    then have q: "q = p\<lparr>blocked := bl\<rparr>" "found" using r None by (simp_all add: update_first_match_in_place_def)
    from update_first_Some [OF Some] obtain us k t vs where
      u: "blocked p = us @ (k, t) # vs" "bl = us @ (k, upd t) # vs" "pred t"
      by auto
    have ph: "phase_id (upd t) = phase_id t" using keep [of t] by (simp add: bucket_key_def)
    have "blocked_count q = blocked_count p" using u ph by (auto simp: blocked_count_def q)
    then have "counts_wf q" using pool_wfD(4) [OF wf] by (simp add: counts_wf_def) (simp add: q)
    moreover have "ids_wf q" using pool_wfD(5) [OF wf] u by (simp add: ids_wf_def q)
    moreover have "deps_wf q"
    proof (rule deps_wfI)
      fix x v assume "(x, v) \<in> set (blocked q)"
      then obtain v0 where v0: "(x, v0) \<in> set (blocked p)" "task_id v = task_id v0" "dep_ids v = dep_ids v0"
        using u keep [of t] by (auto simp: q)
      then show "task_id v = x" "\<exists>D. task_deps q x = Some D \<and> D \<noteq> {} \<and> D \<subseteq> set (dep_ids v) \<and>
          set (dep_ids v) \<subseteq> completed_tasks q \<union> affine_prereq_ids q \<union> D"
        using deps_wfD(1,2) [OF pool_wfD(3) [OF wf] v0(1)] unfolding v0(2,3) by (simp_all add: q)
    next
      fix x D d assume D: "task_deps q x = Some D"
      have "fst ` set (blocked q) = fst ` set (blocked p)" using u by (simp add: q)
      then show "x \<in> fst ` set (blocked q)" using deps_wfD(3) [OF pool_wfD(3) [OF wf]] D by (simp add: q)
      assume "d \<in> D" "x \<notin> failed_tasks q"
      then show "\<exists>l. map_of (dependents_of q) d = Some l \<and> x \<in> set l"
        using deps_wfD(4) [OF pool_wfD(3) [OF wf], of x D d] D by (simp add: q)
    qed
    moreover have "keys_wf q" "buckets_wf (buckets q)" using pool_wfD(1,2) [OF wf] by (simp_all add: keys_wf_def q)
    ultimately have "pool_wf q" by (intro pool_wfI)
    moreover have "live_tasks p = add_mset t (live_tasks p - {#t#})" "live_tasks q = add_mset (upd t) (live_tasks p - {#t#})"
      using u by (simp_all add: q)
    ultimately show ?thesis using q(2) u by auto
  qed
qed

theorem update_in_place_exact_witness:
  "let q = snd (update_first_match_in_place (\<lambda>t. task_id t = ''b'') (\<lambda>t. t\<lparr>task_size := 9\<rparr>) blocked_pool) in
   pool_wf q \<and> (\<exists>t. task_id t = ''b'' \<and> live_tasks q = add_mset (t\<lparr>task_size := 9\<rparr>) (live_tasks blocked_pool - {#t#}))"
proof -
  let ?r = "update_first_match_in_place (\<lambda>t. task_id t = ''b'') (\<lambda>t. t\<lparr>task_size := 9\<rparr>) blocked_pool"
  have "fst ?r" by code_simp
  moreover have "task_id (t\<lparr>task_size := 9\<rparr>) = task_id t \<and> bucket_key (t\<lparr>task_size := 9\<rparr>) = bucket_key t \<and>
      dep_ids (t\<lparr>task_size := 9\<rparr>) = dep_ids t" for t :: "(unit, unit) task_info"
    by (simp add: bucket_key_def affinity_key_def)
  ultimately show ?thesis
    using update_in_place_exact [OF blocked_pool_wf prod.collapse [symmetric],
        where pred = "\<lambda>t. task_id t = ''b''" and upd = "\<lambda>t. t\<lparr>task_size := 9\<rparr>"]
    unfolding Let_def by metis
qed

section \<open>Counting ready work\<close>

lemma count_ready_eq:
  "c < th \<Longrightarrow> count_ready p th ts c =
     (let n = c + length (filter (dispatch_eligible p) ts) in if n < th then Some n else None)"
  by (induction ts arbitrary: c) (auto simp: Let_def)

definition ready_items :: "('i, 'j) pending_pool \<Rightarrow> (bucket_key \<times> ('i, 'j) bucket) list \<Rightarrow> ('i, 'j) task_info list" where
  "ready_items p bs =
     concat (map (\<lambda>(key, b). if fst key \<in> set (active_phases p) then filter (dispatch_eligible p) (items b) else []) bs)"

lemma count_ready_buckets_eq:
  "c < th \<Longrightarrow> count_ready_buckets p th bs c =
     (let n = c + length (ready_items p bs) in if n < th then Some n else None)"
proof (induction bs arbitrary: c)
  case (Cons kb bs)
  obtain key b where kb: "kb = (key, b)" by fastforce
  show ?case
    using Cons.IH [of c] Cons.IH [of "c + length (filter (dispatch_eligible p) (items b))"] Cons.prems
    by (auto simp: kb ready_items_def count_ready_eq Let_def)
qed (simp add: ready_items_def)

lemma ready_items_eq:
  assumes "\<forall>(k, b) \<in> set bs. \<forall>t \<in> set (items b). bucket_key t = k"
  shows "ready_items p bs = filter (\<lambda>t. phase_id t \<in> set (active_phases p) \<and> dispatch_eligible p t) (bucket_items bs)"
  using assms
proof (induction bs)
  case (Cons kb bs)
  obtain key b where kb: "kb = (key, b)" by fastforce
  have "\<forall>t \<in> set (items b). phase_id t = fst key" using Cons.prems by (auto simp: kb bucket_key_def)
  then have "(if fst key \<in> set (active_phases p) then filter (dispatch_eligible p) (items b) else []) =
      filter (\<lambda>t. phase_id t \<in> set (active_phases p) \<and> dispatch_eligible p t) (items b)"
    by (auto simp: filter_empty_conv intro!: filter_cong)
  then show ?case using Cons by (simp add: kb ready_items_def)
qed (simp add: ready_items_def)

lemma active_phases_mem: "distinct (keys (phase_state p)) \<Longrightarrow> ph \<in> set (active_phases p) \<longleftrightarrow> phase_active p ph"
  by (force simp: active_phases_def phase_active_def)

text \<open>
  the early exit of \<open>ready_dispatchable_below\<close> is sound. On a well-formed pool the loop that stops at
  the threshold answers whether the number of queued tasks of active phases that are eligible for
  dispatch is below the threshold.
\<close>

theorem ready_below_exact:
  assumes "pool_wf p"
  shows "ready_dispatchable_below th p \<longleftrightarrow>
    length (filter (\<lambda>t. phase_active p (phase_id t) \<and> dispatch_eligible p t) (queued p)) < th"
proof -
  have "ready_items p (buckets p) = filter (\<lambda>t. phase_active p (phase_id t) \<and> dispatch_eligible p t) (queued p)"
    using ready_items_eq [of "buckets p" p] pool_wfD(1) [OF assms]
    by (simp add: buckets_wf_def active_phases_mem [OF pool_wf_keys(1) [OF assms]])
  then show ?thesis by (auto simp: ready_dispatchable_below_def count_ready_buckets_eq Let_def)
qed

theorem ready_below_exact_witness:
  "length (filter (\<lambda>t. phase_active ready_pool (phase_id t) \<and> dispatch_eligible ready_pool t) (queued ready_pool)) < 2"
proof -
  have "ready_dispatchable_below 2 ready_pool" by code_simp
  then show ?thesis using ready_below_exact [OF ready_pool_wf] by blast
qed

section \<open>The walk behind the rank\<close>

text \<open>The dependents a setup task reaches through tasks that are not dispatched to workers.\<close>

inductive setup_reach :: "('i, 'j) pending_pool \<Rightarrow> task_id \<Rightarrow> task_id \<Rightarrow> bool" for p :: "('i, 'j) pending_pool" and tid where
  direct: "x \<in> set (lookup_list (dependents_of p) tid) \<Longrightarrow> setup_reach p tid x"
| through: "setup_reach p tid y \<Longrightarrow> task_by_id p y = Some t \<Longrightarrow> \<not> is_worker_assignable (kind t) \<Longrightarrow>
    x \<in> set (lookup_list (dependents_of p) y) \<Longrightarrow> setup_reach p tid x"

definition is_relay :: "('i, 'j) pending_pool \<Rightarrow> task_id \<Rightarrow> bool" where
  "is_relay p x \<longleftrightarrow> (\<exists>t. task_by_id p x = Some t \<and> \<not> is_worker_assignable (kind t))"

definition leaf_task :: "('i, 'j) pending_pool \<Rightarrow> task_id \<Rightarrow> ('i, 'j) task_info option" where
  "leaf_task p x = (case task_by_id p x of Some t \<Rightarrow> if is_worker_assignable (kind t) then Some t else None | None \<Rightarrow> None)"

definition leaves_ok :: "('i, 'j) pending_pool \<Rightarrow> ('i, 'j) rank_walk \<Rightarrow> bool" where
  "leaves_ok p s \<longleftrightarrow> (\<exists>ids. distinct ids \<and> set ids = {x \<in> visited s. leaf_task p x \<noteq> None} \<and>
     work_leaves s = map (\<lambda>x. the (leaf_task p x)) ids)"

text \<open>
  What the walk keeps: the leaves are those of the visited ids, every visited id is reachable, and a
  visited relay, like the start, is either still on the stack or has all its dependents visited.
\<close>

definition rank_inv :: "('i, 'j) pending_pool \<Rightarrow> task_id \<Rightarrow> task_id option \<Rightarrow> ('i, 'j) rank_walk \<Rightarrow> bool" where
  "rank_inv p tid cur s \<longleftrightarrow>
     leaves_ok p s \<and> (\<forall>x \<in> visited s. setup_reach p tid x) \<and>
     set (stack s) \<subseteq> insert tid {x \<in> visited s. is_relay p x} \<and>
     (\<forall>x. x = tid \<or> x \<in> visited s \<and> is_relay p x \<longrightarrow>
        x \<in> set (stack s) \<or> cur = Some x \<or> set (lookup_list (dependents_of p) x) \<subseteq> visited s)"

lemma rank_visit_inv:
  assumes inv: "rank_inv p tid (Some n) s" and x: "setup_reach p tid x"
  shows "rank_inv p tid (Some n) (rank_visit p x s) \<and> visited (rank_visit p x s) = insert x (visited s)"
proof (cases "x \<in> visited s")
  case True
  then show ?thesis using inv by (auto simp: rank_visit_def)
next
  case False
  obtain ids where ids: "distinct ids" "set ids = {x \<in> visited s. leaf_task p x \<noteq> None}"
      "work_leaves s = map (\<lambda>x. the (leaf_task p x)) ids"
    using inv by (auto simp: rank_inv_def leaves_ok_def)
  let ?s = "rank_visit p x s"
  have v: "visited ?s = insert x (visited s)"
    using False by (auto simp: rank_visit_def Let_def split: option.split)
  have st: "stack ?s = (if is_relay p x then x # stack s else stack s)"
    "work_leaves ?s = work_leaves s @ (case leaf_task p x of Some t \<Rightarrow> [t] | None \<Rightarrow> [])"
    using False by (auto simp: rank_visit_def is_relay_def leaf_task_def Let_def split: option.split)
  have "leaves_ok p ?s"
    unfolding leaves_ok_def v st
    by (rule exI [of _ "ids @ (if leaf_task p x = None then [] else [x])"])
      (use ids False in \<open>auto split: option.splits\<close>)
  moreover have "\<forall>y \<in> visited ?s. setup_reach p tid y" using inv x by (auto simp: rank_inv_def v)
  moreover have "set (stack ?s) \<subseteq> insert tid {y \<in> visited ?s. is_relay p y}"
    using inv by (auto simp: rank_inv_def v st)
  moreover have "\<forall>y. y = tid \<or> y \<in> visited ?s \<and> is_relay p y \<longrightarrow>
        y \<in> set (stack ?s) \<or> Some n = Some y \<or> set (lookup_list (dependents_of p) y) \<subseteq> visited ?s"
    using inv by (auto simp: rank_inv_def v st)
  ultimately show ?thesis using v by (simp add: rank_inv_def)
qed

lemma rank_fold_inv:
  assumes "rank_inv p tid (Some n) s" "\<forall>x \<in> set ds. setup_reach p tid x"
  shows "rank_inv p tid (Some n) (fold (rank_visit p) ds s) \<and> visited (fold (rank_visit p) ds s) = set ds \<union> visited s"
  using assms
proof (induction ds arbitrary: s)
  case (Cons x ds)
  then have "rank_inv p tid (Some n) (rank_visit p x s)" "visited (rank_visit p x s) = insert x (visited s)"
    using rank_visit_inv [OF Cons.prems(1), of x] by simp_all
  then show ?case using Cons.IH [of "rank_visit p x s"] Cons.prems by auto
qed simp

lemma rank_loop_inv: "rank_inv p tid None s \<Longrightarrow> rank_inv p tid None (rank_loop p s) \<and> stack (rank_loop p s) = []"
proof (induction p s rule: rank_loop.induct)
  case (1 p s)
  show ?case
  proof (cases "stack s")
    case Nil
    then show ?thesis using "1.prems" by (simp add: rank_loop.simps)
  next
    case (Cons n rest)
    let ?ds = "lookup_list (dependents_of p) n"
    let ?s = "fold (rank_visit p) ?ds (s\<lparr>stack := rest\<rparr>)"
    have "rank_inv p tid (Some n) (s\<lparr>stack := rest\<rparr>)"
      using "1.prems" Cons by (auto simp: rank_inv_def leaves_ok_def)
    moreover have "\<forall>x \<in> set ?ds. setup_reach p tid x"
      using "1.prems" Cons by (auto simp: rank_inv_def is_relay_def intro: setup_reach.intros)
    ultimately have "rank_inv p tid (Some n) ?s" "set ?ds \<subseteq> visited ?s"
      using rank_fold_inv [of p tid n "s\<lparr>stack := rest\<rparr>" ?ds] by auto
    then have "rank_inv p tid None ?s" by (simp add: rank_inv_def) blast
    then show ?thesis using "1.IH" [OF Cons] Cons by (subst (1 2) rank_loop.simps) simp
  qed
qed

lemma rank_loop_leaves:
  "\<exists>ids. distinct ids \<and> set ids = {x. setup_reach p tid x \<and> leaf_task p x \<noteq> None} \<and>
     work_leaves (rank_loop p \<lparr>work_leaves = [], visited = {}, stack = [tid]\<rparr>) = map (\<lambda>x. the (leaf_task p x)) ids"
proof -
  let ?s = "\<lparr>work_leaves = [], visited = {}, stack = [tid]\<rparr>"
  have "rank_inv p tid None ?s" by (simp add: rank_inv_def leaves_ok_def)
  then have I: "rank_inv p tid None (rank_loop p ?s)" "stack (rank_loop p ?s) = []" using rank_loop_inv by blast+
  have "x \<in> visited (rank_loop p ?s)" if "setup_reach p tid x" for x
    using that by induction (use I in \<open>auto simp: rank_inv_def is_relay_def\<close>)
  then have "visited (rank_loop p ?s) = {x. setup_reach p tid x}" using I(1) by (auto simp: rank_inv_def)
  then show ?thesis using I(1) by (auto simp: rank_inv_def leaves_ok_def)
qed

lemma fold_min_le: "fold min rs r \<le> r \<and> (\<forall>x \<in> set rs. fold min rs r \<le> x) \<and> fold min rs r \<in> insert r (set rs)"
  for r :: "'a :: linorder"
proof (induction rs arbitrary: r)
  case (Cons a rs)
  from Cons [of "min a r"] show ?case by (auto simp: min_def split: if_splits)
qed simp

text \<open>
  the rank of a setup task is that of the best work behind it. \<open>dependent_dispatch_rank\<close> finds, for a
  task, the worker tasks reachable through its dependents by way of tasks that workers do not run; it
  is none when there are none, and otherwise its tiers are those of a least rank among them and its
  last component is minus their number.
\<close>

theorem rank_is_best:
  "let L = {x. setup_reach p tid x \<and> leaf_task p x \<noteq> None} in
   case dependent_dispatch_rank tid p of
     None \<Rightarrow> L = {}
   | Some r \<Rightarrow> finite L \<and> neg_dependent_count r = - int (card L) \<and>
       (\<exists>x \<in> L. phase_tier r = phase_tier (work_task_rank p (the (leaf_task p x))) \<and>
          class_tier r = class_tier (work_task_rank p (the (leaf_task p x))) \<and>
          (\<forall>y \<in> L. work_task_rank p (the (leaf_task p x)) \<le> work_task_rank p (the (leaf_task p y))))"
proof -
  let ?lv = "work_leaves (rank_loop p \<lparr>work_leaves = [], visited = {}, stack = [tid]\<rparr>)"
  let ?rk = "\<lambda>x. work_task_rank p (the (leaf_task p x))"
  obtain ids where ids: "distinct ids" "set ids = {x. setup_reach p tid x \<and> leaf_task p x \<noteq> None}"
      "?lv = map (\<lambda>x. the (leaf_task p x)) ids"
    using rank_loop_leaves by blast
  have rk: "map (work_task_rank p) ?lv = map ?rk ids" using ids(3) by simp
  show ?thesis
  proof (cases ids)
    case Nil
    then show ?thesis using ids by (simp add: dependent_dispatch_rank_def rk)
  next
    case (Cons i js)
    let ?b = "fold min (map ?rk js) (?rk i)"
    have d: "dependent_dispatch_rank tid p = Some (DispatchRank (phase_tier ?b) (class_tier ?b) (- int (length ids)))"
      using ids(3) Cons by (simp add: dependent_dispatch_rank_def rk Let_def comp_def)
    have "length ids = card (set ids)" using ids(1) by (simp add: distinct_card)
    moreover obtain x where "x \<in> set ids" "?b = ?rk x"
      using fold_min_le [of "map ?rk js" "?rk i"] Cons by auto
    moreover have "\<forall>y \<in> set ids. ?b \<le> ?rk y" using fold_min_le [of "map ?rk js" "?rk i"] Cons by auto
    ultimately show ?thesis unfolding Let_def d ids(2) [symmetric] by auto
  qed
qed

theorem rank_is_best_witness:
  "dependent_dispatch_rank ''a'' blocked_pool = Some (DispatchRank 0 1 (-1)) \<and>
   card {x. setup_reach blocked_pool ''a'' x \<and> leaf_task blocked_pool x \<noteq> None} = 1"
proof -
  have "dependent_dispatch_rank ''a'' blocked_pool = Some (DispatchRank 0 1 (-1))" by code_simp
  then show ?thesis using rank_is_best [of blocked_pool "''a''"] by (simp add: Let_def)
qed

end
