(* ===== verification/Scheduler.thy ===== *)
theory Scheduler
  imports Pool_Machine
begin

text \<open>
  Resource maps (\<open>dynrunner-core/src/types/resource.rs\<close>), the scheduler interface
  (\<open>dynrunner-scheduler-api/src/lib.rs\<close>) and the resource-stealing scheduler
  (\<open>dynrunner-scheduler/src/lib.rs\<close>). The trait \<open>Scheduler\<close> is the locale \<open>scheduler_iface\<close>, which states
  what the primary relies on when it applies a decision to the pool; the resource-stealing scheduler
  is its interpretation. Amounts are natural numbers: sums of byte counts are far below the 64-bit
  bound, so the wrap-around of \<open>u64\<close> is not written out.
\<close>

section \<open>Resource maps\<close>

type_synonym resource_kind = string
type_synonym resource_map = "(resource_kind \<times> nat) list"

definition rm_get :: "resource_map \<Rightarrow> resource_kind \<Rightarrow> nat" where
  "rm_get m k = (case map_of m k of Some v \<Rightarrow> v | None \<Rightarrow> 0)"

definition rm_insert :: "resource_kind \<Rightarrow> nat \<Rightarrow> resource_map \<Rightarrow> resource_map" where
  "rm_insert k v m = bt_alter k (\<lambda>_. v) m"

definition rm_contains_key :: "resource_map \<Rightarrow> resource_kind \<Rightarrow> bool" where
  "rm_contains_key m k \<longleftrightarrow> map_of m k \<noteq> None"

definition rm_add :: "resource_map \<Rightarrow> resource_map \<Rightarrow> resource_map" where
  "rm_add m other = fold (\<lambda>(k, a). bt_alter k (\<lambda>e. (case e of Some v \<Rightarrow> v | None \<Rightarrow> 0) + a)) other m"

definition rm_sub :: "resource_map \<Rightarrow> resource_map \<Rightarrow> resource_map" where
  "rm_sub m other = fold (\<lambda>(k, a). bt_alter k (\<lambda>e. (case e of Some v \<Rightarrow> v | None \<Rightarrow> 0) - a)) other m"

lemma rm_get_alter:
  "bt_sorted m \<Longrightarrow> rm_get (bt_alter k f m) j = (if j = k then f (map_of m k) else rm_get m j)"
  by (simp add: rm_get_def)

lemma rm_fold:
  assumes "bt_sorted m" "distinct (keys other)"
  shows "bt_sorted (fold (\<lambda>(k, a). bt_alter k (\<lambda>e. g (case e of Some v \<Rightarrow> v | None \<Rightarrow> 0) a)) other m) \<and>
    rm_get (fold (\<lambda>(k, a). bt_alter k (\<lambda>e. g (case e of Some v \<Rightarrow> v | None \<Rightarrow> 0) a)) other m) j =
      (case map_of other j of Some a \<Rightarrow> g (rm_get m j) a | None \<Rightarrow> rm_get m j)"
  using assms
proof (induction other arbitrary: m)
  case (Cons ka other)
  obtain k a where ka: "ka = (k, a)" by fastforce
  have k: "map_of other k = None" using Cons.prems ka by (simp add: map_of_eq_None_iff)
  show ?case
    using Cons.IH [of "bt_alter k (\<lambda>e. g (case e of Some v \<Rightarrow> v | None \<Rightarrow> 0) a) m"] Cons.prems k
    by (auto simp: ka rm_get_alter rm_get_def split: option.splits)
qed simp

lemma rm_get_add: "bt_sorted m \<Longrightarrow> bt_sorted n \<Longrightarrow> rm_get (rm_add m n) k = rm_get m k + rm_get n k"
  using rm_fold [of m n "(+)" k] by (auto simp: rm_add_def rm_get_def bt_sorted_distinct split: option.splits)

lemma rm_get_sub: "bt_sorted m \<Longrightarrow> bt_sorted n \<Longrightarrow> rm_get (rm_sub m n) k = rm_get m k - rm_get n k"
  using rm_fold [of m n "(-)" k] by (auto simp: rm_sub_def rm_get_def bt_sorted_distinct split: option.splits)

lemma rm_sorted:
  assumes "bt_sorted m" "bt_sorted n"
  shows "bt_sorted (rm_add m n)" "bt_sorted (rm_sub m n)"
  using rm_fold [OF assms(1) bt_sorted_distinct [OF assms(2)], of "(+)"]
    rm_fold [OF assms(1) bt_sorted_distinct [OF assms(2)], of "(-)"]
  by (simp_all add: rm_add_def rm_sub_def)

section \<open>The scheduler interface\<close>

record ('i, 'j) worker_budget_info =
  budget_worker_id :: worker_id
  reserved_budgets :: resource_map
  actual_usage :: resource_map
  actual_swap_bytes :: nat
  is_idle :: bool
  is_opportunistic :: bool
  has_initial_assignment :: bool
  current_task :: "('i, 'j) task_info option"
  estimated_usage :: resource_map

datatype assignment_decision =
    Assign worker_id nat resource_map bool
  | NoFit
  | NoPendingTasks

datatype kill_reason =
    NoFaultMemoryStealing
  | NoFaultUnderBudget
  | OomOverBudget
  | OomLastResort
  | NoFaultSwapPreempt

definition is_no_fault :: "kill_reason \<Rightarrow> bool" where
  "is_no_fault r \<longleftrightarrow> r = NoFaultMemoryStealing \<or> r = NoFaultUnderBudget \<or> r = NoFaultSwapPreempt"

fun kill_reason_as_str :: "kill_reason \<Rightarrow> string" where
  "kill_reason_as_str NoFaultMemoryStealing = ''no_fault_memory_stealing''"
| "kill_reason_as_str NoFaultUnderBudget = ''no_fault_under_budget''"
| "kill_reason_as_str OomOverBudget = ''oom_over_budget''"
| "kill_reason_as_str OomLastResort = ''oom_last_resort''"
| "kill_reason_as_str NoFaultSwapPreempt = ''no_fault_swap_preempt''"

datatype resource_pressure_decision = Kill worker_id kill_reason | NoAction

text \<open>
  What the managers rely on: an assignment names the asking worker, a position of the list of pending
  tasks it was given and the estimate of the task there, and a kill names a worker that runs a task.
\<close>

locale scheduler_iface =
  fixes assign_init :: "('i, 'j) worker_budget_info \<Rightarrow> ('i, 'j) task_info list \<Rightarrow> resource_map \<Rightarrow> resource_map \<Rightarrow>
      (('i, 'j) task_info \<Rightarrow> resource_map) \<Rightarrow> assignment_decision"
    and assign_norm :: "('i, 'j) worker_budget_info \<Rightarrow> ('i, 'j) worker_budget_info list \<Rightarrow> ('i, 'j) task_info list \<Rightarrow>
      resource_map \<Rightarrow> (('i, 'j) task_info \<Rightarrow> resource_map) \<Rightarrow> assignment_decision"
    and pressure :: "('i, 'j) worker_budget_info list \<Rightarrow> resource_map \<Rightarrow> bool \<Rightarrow> resource_pressure_decision"
  assumes init_in_range: "assign_init w pending tot mx est = Assign wid i u opp \<Longrightarrow>
      wid = budget_worker_id w \<and> i < length pending \<and> u = est (pending ! i)"
    and norm_in_range: "assign_norm w ws pending mx est = Assign wid i u opp \<Longrightarrow>
      wid = budget_worker_id w \<and> i < length pending \<and> u = est (pending ! i)"
    and kill_runs: "pressure ws mx ph = Kill wid r \<Longrightarrow> \<exists>w \<in> set ws. budget_worker_id w = wid \<and> current_task w \<noteq> None"
begin

text \<open>
  The dispatch step of the primary: ask for a decision on the worker's view, turn the position into
  a selection and take it from the pool the view was made of.
\<close>

lemma norm_take:
  assumes wf: "pool_wf p" and v: "v = view_for_worker wk pref p"
    and d: "assign_norm w ws (view_items v) mx est = Assign wid i u opp"
  shows "\<exists>s r q. view_select v i = Some s \<and> take_selected s p = Some (r, q) \<and> pool_wf q \<and>
    (\<forall>t. r = Some t \<longrightarrow> t = view_items v ! i \<and> u = est t \<and> kind t = Work \<and> set (dep_ids t) \<subseteq> completed_tasks p \<and> takes t p q)"
proof -
  have i: "i < length (view_items v)" "u = est (view_items v ! i)" using norm_in_range [OF d] by auto
  show ?thesis using view_take [OF wf v i(1)] dispatch_eligible_deps i(2) by fastforce
qed

lemma init_take:
  assumes wf: "pool_wf p" and v: "v = view_for_worker wk pref p"
    and d: "assign_init w (view_items v) tot mx est = Assign wid i u opp"
  shows "\<exists>s r q. view_select v i = Some s \<and> take_selected s p = Some (r, q) \<and> pool_wf q \<and>
    (\<forall>t. r = Some t \<longrightarrow> t = view_items v ! i \<and> u = est t \<and> kind t = Work \<and> set (dep_ids t) \<subseteq> completed_tasks p \<and> takes t p q)"
proof -
  have i: "i < length (view_items v)" "u = est (view_items v ! i)" using init_in_range [OF d] by auto
  show ?thesis using view_take [OF wf v i(1)] dispatch_eligible_deps i(2) by fastforce
qed

end

section \<open>Floating point\<close>

text \<open>
  The temporary budgets divide a byte count by a configured factor in \<open>f64\<close>. Only non-negative values
  occur; a finite one is a mantissa and a binary exponent. Conversions and division round the exact
  quotient to 53 significant bits, ties to even, and the conversion back truncates and saturates.
\<close>

datatype f64 = F64 nat int | Infinite

fun bit_length :: "nat \<Rightarrow> nat" where
  "bit_length n = (if n = 0 then 0 else Suc (bit_length (n div 2)))"

declare bit_length.simps [simp del]

definition round_half_even :: "nat \<Rightarrow> nat \<Rightarrow> nat" where
  "round_half_even n d =
     (let q = n div d; r = n mod d in
      if 2 * r < d then q else if 2 * r > d then q + 1 else if even q then q else q + 1)"

definition f64_of_ratio :: "nat \<Rightarrow> nat \<Rightarrow> f64" where
  "f64_of_ratio n d =
     (let e0 = int (bit_length n) - int (bit_length d) - 53;
          big = (if e0 \<ge> 0 then n \<ge> d * 2 ^ (53 + nat e0) else n * 2 ^ nat (- e0) \<ge> d * 2 ^ 53);
          e = (if big then e0 + 1 else e0)
      in F64 (if e \<ge> 0 then round_half_even n (d * 2 ^ nat e) else round_half_even (n * 2 ^ nat (- e)) d) e)"

definition f64_of_nat :: "nat \<Rightarrow> f64" where
  "f64_of_nat n = f64_of_ratio n 1"

text \<open>Division; \<open>None\<close> is the quotient that is not a number.\<close>

fun f64_div :: "f64 \<Rightarrow> f64 \<Rightarrow> f64 option" where
  "f64_div (F64 m e) (F64 n f) =
     (if n = 0 then (if m = 0 then None else Some Infinite)
      else case f64_of_ratio m n of F64 q g \<Rightarrow> Some (F64 q (g + e - f)) | Infinite \<Rightarrow> Some Infinite)"
| "f64_div (F64 m e) Infinite = Some (F64 0 0)"
| "f64_div Infinite (F64 n f) = Some Infinite"
| "f64_div Infinite Infinite = None"

definition u64_max :: nat where
  "u64_max = 18446744073709551615"

fun f64_to_u64 :: "f64 option \<Rightarrow> nat" where
  "f64_to_u64 None = 0"
| "f64_to_u64 (Some Infinite) = u64_max"
| "f64_to_u64 (Some (F64 m e)) = min u64_max (if e \<ge> 0 then m * 2 ^ nat e else m div 2 ^ nat (- e))"

section \<open>The resource-stealing scheduler\<close>

record stealing_scheduler =
  s_resource_kind :: resource_kind
  base_overhead :: nat
  pressure_threshold :: nat
  cgroup_safety_margin :: nat
  swap_pressure_threshold :: nat
  temp_factors :: "f64 list"

definition for_kind :: "resource_kind \<Rightarrow> nat \<Rightarrow> nat \<Rightarrow> stealing_scheduler" where
  "for_kind k overhead threshold =
     \<lparr>s_resource_kind = k, base_overhead = overhead, pressure_threshold = threshold,
      cgroup_safety_margin = 1024 * 1024 * 1024, swap_pressure_threshold = 64 * 1024 * 1024,
      temp_factors = [F64 3 (-1), F64 2 0, F64 3 0, F64 4 0]\<rparr>"

definition memory_scheduler :: stealing_scheduler where
  "memory_scheduler = for_kind ''memory'' (150 * 1024 * 1024) (500 * 1024 * 1024)"

definition s_get :: "stealing_scheduler \<Rightarrow> resource_map \<Rightarrow> nat" where
  "s_get s m = rm_get m (s_resource_kind s)"

definition singleton :: "stealing_scheduler \<Rightarrow> nat \<Rightarrow> resource_map" where
  "singleton s v = [(s_resource_kind s, v)]"

definition temp_factor_for :: "stealing_scheduler \<Rightarrow> nat \<Rightarrow> f64" where
  "temp_factor_for s idle_rank =
     (if temp_factors s = [] then Infinite
      else temp_factors s ! min idle_rank (length (temp_factors s) - 1))"

definition initial_budget :: "stealing_scheduler \<Rightarrow> nat \<Rightarrow> resource_map \<Rightarrow> resource_map" where
  "initial_budget s worker_index max_resources =
     (let mx = s_get s max_resources in
      singleton s
        (if worker_index = 0 then mx
         else if worker_index = 1 then mx div 2 + base_overhead s
         else if worker_index = 2 then mx div 4 + base_overhead s
         else mx div (worker_index + 2) + base_overhead s))"

definition assign_initial :: "stealing_scheduler \<Rightarrow> ('i, 'j) worker_budget_info \<Rightarrow> ('i, 'j) task_info list \<Rightarrow>
    resource_map \<Rightarrow> resource_map \<Rightarrow> (('i, 'j) task_info \<Rightarrow> resource_map) \<Rightarrow> assignment_decision" where
  "assign_initial s w pending total_assigned max_resources estimate =
     (if has_initial_assignment w then NoFit
      else if pending = [] then NoPendingTasks
      else
        let budget = s_get s (reserved_budgets w); assigned = s_get s total_assigned; mx = s_get s max_resources in
        case position (\<lambda>t. \<not> s_get s (estimate t) > budget) pending of
          None \<Rightarrow> NoFit
        | Some i \<Rightarrow>
            Assign (budget_worker_id w) i (estimate (pending ! i))
              (assigned + s_get s (estimate (pending ! i)) > mx))"

definition effective_budget :: "stealing_scheduler \<Rightarrow> ('i, 'j) worker_budget_info \<Rightarrow> nat \<Rightarrow> nat \<Rightarrow> nat" where
  "effective_budget s w idle_rank available =
     (let worker_budget = s_get s (reserved_budgets w) in
      if is_opportunistic w
      then min worker_budget (f64_to_u64 (f64_div (f64_of_nat available) (temp_factor_for s idle_rank)))
      else worker_budget)"

definition assign_normal :: "stealing_scheduler \<Rightarrow> ('i, 'j) worker_budget_info \<Rightarrow> ('i, 'j) worker_budget_info list \<Rightarrow>
    ('i, 'j) task_info list \<Rightarrow> resource_map \<Rightarrow> (('i, 'j) task_info \<Rightarrow> resource_map) \<Rightarrow> assignment_decision" where
  "assign_normal s w all_workers pending max_resources estimate =
     (if pending = [] then NoPendingTasks
      else
        let available = s_get s max_resources - sum_list (map (\<lambda>w. s_get s (actual_usage w)) all_workers);
            idle_workers = sort_key (\<lambda>w. s_get s (reserved_budgets w))
              (filter (\<lambda>w. is_idle w \<and> current_task w = None) all_workers)
        in case position (\<lambda>v. budget_worker_id v = budget_worker_id w) idle_workers of
             None \<Rightarrow> NoFit
           | Some idx \<Rightarrow>
               (case position (\<lambda>t. s_get s (estimate t) \<le> effective_budget s w idx available) pending of
                  None \<Rightarrow> NoFit
                | Some i \<Rightarrow> Assign (budget_worker_id w) i (estimate (pending ! i)) False))"

text \<open>\<open>max_by_key\<close> returns the last of several maxima, \<open>min_by_key\<close> the first of several minima.\<close>

definition max_by_key :: "('a \<Rightarrow> nat) \<Rightarrow> 'a list \<Rightarrow> 'a option" where
  "max_by_key f xs = fold (\<lambda>x acc. case acc of None \<Rightarrow> Some x | Some y \<Rightarrow> if f x \<ge> f y then Some x else Some y) xs None"

definition min_by_key :: "('a \<Rightarrow> nat) \<Rightarrow> 'a list \<Rightarrow> 'a option" where
  "min_by_key f xs = fold (\<lambda>x acc. case acc of None \<Rightarrow> Some x | Some y \<Rightarrow> if f x < f y then Some x else Some y) xs None"

definition swap_victim :: "stealing_scheduler \<Rightarrow> ('i, 'j) worker_budget_info list \<Rightarrow> ('i, 'j) worker_budget_info option" where
  "swap_victim s workers =
     (let active = filter (\<lambda>w. current_task w \<noteq> None) workers in
      if length active > 1 \<and> sum_list (map actual_swap_bytes workers) > swap_pressure_threshold s then
        (case max_by_key actual_swap_bytes active of
           Some victim \<Rightarrow> if actual_swap_bytes victim > 0 then Some victim else None
         | None \<Rightarrow> None)
      else None)"

definition check_resource_pressure :: "stealing_scheduler \<Rightarrow> ('i, 'j) worker_budget_info list \<Rightarrow> resource_map \<Rightarrow>
    bool \<Rightarrow> resource_pressure_decision" where
  "check_resource_pressure s workers max_resources in_pressure_phase =
     (case swap_victim s workers of
        Some victim \<Rightarrow> Kill (budget_worker_id victim) NoFaultSwapPreempt
      | None \<Rightarrow>
     (if \<not> in_pressure_phase then NoAction
      else
        let usage = sum_list (map (\<lambda>w. s_get s (actual_usage w)) workers);
            num_workers = length workers
        in
        if num_workers = 0 then NoAction
        else
          let effective_max = s_get s max_resources - cgroup_safety_margin s;
              threshold = min (pressure_threshold s) (effective_max div num_workers);
              opp = filter (\<lambda>w. is_opportunistic w \<and> current_task w \<noteq> None) workers;
              active = filter (\<lambda>w. current_task w \<noteq> None) workers
          in
          if usage > effective_max - threshold \<and> opp \<noteq> [] then
            Kill (budget_worker_id (sort_key (\<lambda>w. s_get s (estimated_usage w)) opp ! (length opp div 2)))
              NoFaultMemoryStealing
          else if usage > effective_max then
            (case min_by_key (\<lambda>w. s_get s (estimated_usage w)) active of
               None \<Rightarrow> NoAction
             | Some smallest \<Rightarrow>
                 Kill (budget_worker_id smallest)
                   (if s_get s (actual_usage smallest) < s_get s (reserved_budgets smallest) then NoFaultUnderBudget
                    else if length active = 1 then OomLastResort
                    else OomOverBudget))
          else NoAction))"

section \<open>The scheduler keeps the interface's contract\<close>

lemma max_by_key_spec:
  "case max_by_key f xs of None \<Rightarrow> xs = [] | Some m \<Rightarrow> m \<in> set xs \<and> (\<forall>x \<in> set xs. f x \<le> f m)"
proof -
  have "case fold (\<lambda>x acc. case acc of None \<Rightarrow> Some x | Some y \<Rightarrow> if f x \<ge> f y then Some x else Some y) ys (Some m) of
      None \<Rightarrow> False | Some n \<Rightarrow> n \<in> insert m (set ys) \<and> f m \<le> f n \<and> (\<forall>x \<in> set ys. f x \<le> f n)" for m ys
  proof (induction ys arbitrary: m)
    case (Cons x ys)
    show ?case using Cons [of x] Cons [of m] by (auto split: option.splits)
  qed simp
  note f = this
  show ?thesis
  proof (cases xs)
    case (Cons a ys)
    then show ?thesis using f [of a ys] by (simp add: max_by_key_def split: option.splits)
  qed (simp add: max_by_key_def)
qed

lemma min_by_key_spec:
  "case min_by_key f xs of None \<Rightarrow> xs = [] | Some m \<Rightarrow> m \<in> set xs \<and> (\<forall>x \<in> set xs. f m \<le> f x)"
proof -
  have "case fold (\<lambda>x acc. case acc of None \<Rightarrow> Some x | Some y \<Rightarrow> if f x < f y then Some x else Some y) ys (Some m) of
      None \<Rightarrow> False | Some n \<Rightarrow> n \<in> insert m (set ys) \<and> f n \<le> f m \<and> (\<forall>x \<in> set ys. f n \<le> f x)" for m ys
  proof (induction ys arbitrary: m)
    case (Cons x ys)
    show ?case using Cons [of x] Cons [of m] by (auto split: option.splits)
  qed simp
  note f = this
  show ?thesis
  proof (cases xs)
    case (Cons a ys)
    then show ?thesis using f [of a ys] by (simp add: min_by_key_def split: option.splits)
  qed (simp add: min_by_key_def)
qed

lemma swap_victim_spec:
  assumes "swap_victim s ws = Some v"
  shows "v \<in> set ws" "current_task v \<noteq> None" "actual_swap_bytes v > 0"
    "\<forall>w \<in> set ws. current_task w \<noteq> None \<longrightarrow> actual_swap_bytes w \<le> actual_swap_bytes v"
    "length (filter (\<lambda>w. current_task w \<noteq> None) ws) > 1"
    "sum_list (map actual_swap_bytes ws) > swap_pressure_threshold s"
proof -
  let ?a = "filter (\<lambda>w. current_task w \<noteq> None) ws"
  have m: "max_by_key actual_swap_bytes ?a = Some v" "actual_swap_bytes v > 0" "length ?a > 1"
      "sum_list (map actual_swap_bytes ws) > swap_pressure_threshold s"
    using assms by (auto simp: swap_victim_def Let_def split: option.splits if_splits)
  then show "v \<in> set ws" "current_task v \<noteq> None" "actual_swap_bytes v > 0"
    "\<forall>w \<in> set ws. current_task w \<noteq> None \<longrightarrow> actual_swap_bytes w \<le> actual_swap_bytes v"
    "length ?a > 1" "sum_list (map actual_swap_bytes ws) > swap_pressure_threshold s"
    using max_by_key_spec [where f = actual_swap_bytes and xs = ?a] by auto
qed

lemma median_mem: "xs \<noteq> [] \<Longrightarrow> sort_key f xs ! (length xs div 2) \<in> set xs"
  using nth_mem [of "length xs div 2" "sort_key f xs"] by simp

lemma kill_cases [case_names swap steal over]:
  assumes "check_resource_pressure s ws mx ph = Kill wid r"
  obtains (swap) v where "swap_victim s ws = Some v" "wid = budget_worker_id v" "r = NoFaultSwapPreempt"
  | (steal) v where "ph" "v \<in> set ws" "current_task v \<noteq> None" "is_opportunistic v" "wid = budget_worker_id v"
      "r = NoFaultMemoryStealing"
  | (over) v where "ph" "v \<in> set ws" "current_task v \<noteq> None" "wid = budget_worker_id v"
      "\<forall>w \<in> set ws. current_task w \<noteq> None \<longrightarrow> s_get s (estimated_usage v) \<le> s_get s (estimated_usage w)"
      "sum_list (map (\<lambda>w. s_get s (actual_usage w)) ws) > s_get s mx - cgroup_safety_margin s"
      "r = (if s_get s (actual_usage v) < s_get s (reserved_budgets v) then NoFaultUnderBudget
            else if length (filter (\<lambda>w. current_task w \<noteq> None) ws) = 1 then OomLastResort else OomOverBudget)"
proof (cases "swap_victim s ws")
  case (Some v)
  then show thesis using assms by (intro swap) (auto simp: check_resource_pressure_def)
next
  case None
  let ?f = "\<lambda>w. s_get s (estimated_usage w)"
  let ?opp = "filter (\<lambda>w. is_opportunistic w \<and> current_task w \<noteq> None) ws"
  let ?a = "filter (\<lambda>w. current_task w \<noteq> None) ws"
  have ph: "ph" using assms None by (auto simp: check_resource_pressure_def split: if_splits)
  consider "?opp \<noteq> []" "r = NoFaultMemoryStealing" "wid = budget_worker_id (sort_key ?f ?opp ! (length ?opp div 2))"
    | v where "min_by_key ?f ?a = Some v" "wid = budget_worker_id v"
      "sum_list (map (\<lambda>w. s_get s (actual_usage w)) ws) > s_get s mx - cgroup_safety_margin s"
      "r = (if s_get s (actual_usage v) < s_get s (reserved_budgets v) then NoFaultUnderBudget
            else if length ?a = 1 then OomLastResort else OomOverBudget)"
    using assms None unfolding check_resource_pressure_def Let_def
    by (auto split: if_splits option.splits)
  then show thesis
  proof cases
    case 1
    then show thesis using median_mem [OF 1(1), of ?f] ph by (intro steal) auto
  next
    case (2 v)
    then show thesis using min_by_key_spec [where f = ?f and xs = ?a] ph by (intro over) auto
  qed
qed

lemma kill_running: "check_resource_pressure s ws mx ph = Kill wid r \<Longrightarrow>
    \<exists>w \<in> set ws. budget_worker_id w = wid \<and> current_task w \<noteq> None"
proof (erule kill_cases)
  fix v assume "swap_victim s ws = Some v" "wid = budget_worker_id v"
  then show ?thesis using swap_victim_spec(1,2) by metis
qed blast+

interpretation stealing: scheduler_iface "assign_initial s" "assign_normal s" "check_resource_pressure s"
  for s :: stealing_scheduler
proof
  fix w :: "('i, 'j) worker_budget_info" and ws pending tot mx est wid i u opp
  show "assign_initial s w pending tot mx est = Assign wid i u opp \<Longrightarrow>
      wid = budget_worker_id w \<and> i < length pending \<and> u = est (pending ! i)"
    by (auto simp: assign_initial_def Let_def split: if_splits option.splits dest: position_Some)
  show "assign_normal s w ws pending mx est = Assign wid i u opp \<Longrightarrow>
      wid = budget_worker_id w \<and> i < length pending \<and> u = est (pending ! i)"
    by (auto simp: assign_normal_def Let_def split: if_splits option.splits dest: position_Some)
next
  fix ws :: "('i, 'j) worker_budget_info list" and mx ph wid r
  show "check_resource_pressure s ws mx ph = Kill wid r \<Longrightarrow>
      \<exists>w \<in> set ws. budget_worker_id w = wid \<and> current_task w \<noteq> None"
    by (rule kill_running)
qed

section \<open>Properties\<close>

text \<open>
  C34: applying a scheduling decision to the pool is safe. When \<open>assign_normal\<close> assigns a position of a
  worker's view of a well-formed pool, selecting and taking that position never panics and keeps the
  pool well formed; an item that comes out is the item at the position, a \<open>Work\<close> task whose
  prerequisites have all completed, and the recorded usage is its estimate.
\<close>

theorem assignment_take_safe:
  assumes "pool_wf p" "v = view_for_worker wk pref p"
    and "assign_normal s w ws (view_items v) mx est = Assign wid i u opp"
  shows "\<exists>sel r q. view_select v i = Some sel \<and> take_selected sel p = Some (r, q) \<and> pool_wf q \<and>
    (\<forall>t. r = Some t \<longrightarrow> t = view_items v ! i \<and> u = est t \<and> kind t = Work \<and> set (dep_ids t) \<subseteq> completed_tasks p \<and>
       live_tasks p = add_mset t (live_tasks q))"
proof -
  have "\<exists>sel r q. view_select v i = Some sel \<and> take_selected sel p = Some (r, q) \<and> pool_wf q \<and>
      (\<forall>t. r = Some t \<longrightarrow> t = view_items v ! i \<and> u = est t \<and> kind t = Work \<and> set (dep_ids t) \<subseteq> completed_tasks p \<and> takes t p q)"
    using assms by (rule stealing.norm_take)
  then show ?thesis by (meson live_after_take)
qed

definition sample_scheduler :: stealing_scheduler where
  "sample_scheduler = \<lparr>s_resource_kind = ''memory'', base_overhead = 1, pressure_threshold = 3,
     cgroup_safety_margin = 2, swap_pressure_threshold = 4, temp_factors = [F64 3 (-1), F64 2 0]\<rparr>"

definition sample_worker :: "(unit, unit) worker_budget_info" where
  "sample_worker = \<lparr>budget_worker_id = 7, reserved_budgets = [(''memory'', 10)], actual_usage = [],
     actual_swap_bytes = 0, is_idle = True, is_opportunistic = False, has_initial_assignment = False,
     current_task = None, estimated_usage = []\<rparr>"

theorem assignment_take_safe_witness:
  "\<exists>sel q. view_select (view_for_worker 7 None ready_pool) 0 = Some sel \<and>
     take_selected sel ready_pool = Some (Some (sample_task ''p'' ''a'' []), q) \<and>
     live_tasks ready_pool = add_mset (sample_task ''p'' ''a'' []) (live_tasks q)"
proof -
  let ?v = "view_for_worker 7 None ready_pool"
  have d: "assign_normal sample_scheduler sample_worker [sample_worker] (view_items ?v) [] (\<lambda>_. [(''memory'', 5)]) =
      Assign 7 0 [(''memory'', 5)] False" by code_simp
  have t: "map_option (\<lambda>sel. map_option fst (take_selected sel ready_pool)) (view_select ?v 0) =
      Some (Some (Some (sample_task ''p'' ''a'' [])))" by code_simp
  then show ?thesis using assignment_take_safe [OF ready_pool_wf refl d] by auto
qed

text \<open>
  the first task that fits is chosen. \<open>assign_normal\<close> assigns position \<open>i\<close> exactly when the worker is
  idle, the estimate of the task at \<open>i\<close> is within its effective budget and no earlier task's is; the
  effective budget never exceeds the reserved one.
\<close>

theorem first_fit:
  assumes "budget_worker_id w \<in> budget_worker_id ` {v \<in> set ws. is_idle v \<and> current_task v = None}"
  shows "\<exists>b \<le> s_get s (reserved_budgets w). (\<not> is_opportunistic w \<longrightarrow> b = s_get s (reserved_budgets w)) \<and>
    (\<forall>i. (\<exists>u opp. assign_normal s w ws pending mx est = Assign (budget_worker_id w) i u opp) \<longleftrightarrow>
       i < length pending \<and> s_get s (est (pending ! i)) \<le> b \<and> (\<forall>j < i. s_get s (est (pending ! j)) > b))"
proof -
  let ?idle = "sort_key (\<lambda>w. s_get s (reserved_budgets w)) (filter (\<lambda>w. is_idle w \<and> current_task w = None) ws)"
  let ?av = "s_get s mx - sum_list (map (\<lambda>w. s_get s (actual_usage w)) ws)"
  obtain idx where idx: "position (\<lambda>v. budget_worker_id v = budget_worker_id w) ?idle = Some idx"
    using assms by (cases "position (\<lambda>v. budget_worker_id v = budget_worker_id w) ?idle") (auto simp: position_None)
  let ?b = "effective_budget s w idx ?av"
  have "(\<exists>u opp. assign_normal s w ws pending mx est = Assign (budget_worker_id w) i u opp) \<longleftrightarrow>
      position (\<lambda>t. s_get s (est t) \<le> ?b) pending = Some i" for i
    using idx by (auto simp: assign_normal_def Let_def split: option.splits)
  moreover have "?b \<le> s_get s (reserved_budgets w)" "\<not> is_opportunistic w \<longrightarrow> ?b = s_get s (reserved_budgets w)"
    by (simp_all add: effective_budget_def Let_def)
  ultimately show ?thesis unfolding position_iff by (intro exI [of _ ?b]) (auto simp: not_le)
qed

theorem first_fit_witness:
  "\<exists>u opp. assign_normal sample_scheduler sample_worker [sample_worker] [sample_task ''p'' ''big'' [], sample_task ''p'' ''a'' []] []
     (\<lambda>t. [(''memory'', if task_id t = ''a'' then 5 else 12)]) = Assign 7 1 u opp"
proof -
  let ?e = "\<lambda>t :: (unit, unit) task_info. [(''memory'', if task_id t = ''a'' then 5 else 12 :: nat)]"
  let ?p = "[sample_task ''p'' ''big'' [], sample_task ''p'' ''a'' []]"
  have w: "budget_worker_id sample_worker = 7" "s_get sample_scheduler (reserved_budgets sample_worker) = 10"
    "\<not> is_opportunistic sample_worker"
    "s_get sample_scheduler (?e (?p ! 0)) = 12" "s_get sample_scheduler (?e (?p ! 1)) = 5" by code_simp+
  have i: "budget_worker_id sample_worker \<in> budget_worker_id ` {v \<in> set [sample_worker]. is_idle v \<and> current_task v = None}"
    by (auto simp: sample_worker_def image_iff)
  from first_fit [OF i, of sample_scheduler ?p "[]" ?e] obtain b where b: "b = 10"
    "\<forall>i. (\<exists>u opp. assign_normal sample_scheduler sample_worker [sample_worker] ?p [] ?e = Assign 7 i u opp) \<longleftrightarrow>
       i < length ?p \<and> s_get sample_scheduler (?e (?p ! i)) \<le> b \<and> (\<forall>j < i. s_get sample_scheduler (?e (?p ! j)) > b)"
    unfolding w(1,2) using w(3) by blast
  have "\<forall>j < 1. s_get sample_scheduler (?e (?p ! j)) > b" using w(4) b(1) by simp
  then show ?thesis using b(1) spec [OF b(2), of 1] w(5) by simp
qed

text \<open>
  a kill is justified. A worker that \<open>check_resource_pressure\<close> kills runs a task. Outside the pressure
  phase the reason is swapping, which needs at least two active workers and more swap than the
  threshold, and the victim is an active worker with the most swap. A task is blamed for the kill
  (a reason that is not a no-fault one) only in the pressure phase, when the total usage exceeds the
  limit less the safety margin, the victim has the least estimate of the active workers and has
  used at least what it reserved.
\<close>

theorem kill_justified:
  assumes k: "check_resource_pressure s ws mx ph = Kill wid r"
  shows "\<exists>v \<in> set ws. budget_worker_id v = wid \<and> current_task v \<noteq> None \<and>
    (\<not> ph \<longrightarrow> r = NoFaultSwapPreempt) \<and>
    (r = NoFaultSwapPreempt \<longrightarrow> length (filter (\<lambda>w. current_task w \<noteq> None) ws) > 1 \<and>
       sum_list (map actual_swap_bytes ws) > swap_pressure_threshold s \<and>
       (\<forall>w \<in> set ws. current_task w \<noteq> None \<longrightarrow> actual_swap_bytes w \<le> actual_swap_bytes v)) \<and>
    (r = NoFaultMemoryStealing \<longrightarrow> is_opportunistic v) \<and>
    (\<not> is_no_fault r \<longrightarrow> ph \<and> s_get s (actual_usage v) \<ge> s_get s (reserved_budgets v) \<and>
       sum_list (map (\<lambda>w. s_get s (actual_usage w)) ws) > s_get s mx - cgroup_safety_margin s \<and>
       (\<forall>w \<in> set ws. current_task w \<noteq> None \<longrightarrow> s_get s (estimated_usage v) \<le> s_get s (estimated_usage w)) \<and>
       (r = OomLastResort \<longleftrightarrow> length (filter (\<lambda>w. current_task w \<noteq> None) ws) = 1))"
  using k
proof (cases rule: kill_cases)
  case (swap v)
  then show ?thesis using swap_victim_spec [OF swap(1)] by (intro bexI [of _ v]) (simp_all add: is_no_fault_def)
next
  case (steal v)
  then show ?thesis by (intro bexI [of _ v]) (simp_all add: is_no_fault_def)
next
  case (over v)
  then show ?thesis by (intro bexI [of _ v]) (simp_all add: is_no_fault_def split: if_splits)
qed

theorem kill_justified_witness:
  "\<exists>v \<in> set [sample_worker\<lparr>current_task := Some (sample_task ''p'' ''a'' []), actual_usage := [(''memory'', 20)]\<rparr>].
     s_get sample_scheduler (actual_usage v) \<ge> s_get sample_scheduler (reserved_budgets v)"
proof -
  let ?w = "sample_worker\<lparr>current_task := Some (sample_task ''p'' ''a'' []), actual_usage := [(''memory'', 20)]\<rparr>"
  have "check_resource_pressure sample_scheduler [?w] [(''memory'', 10)] True = Kill 7 OomLastResort" by code_simp
  then show ?thesis using kill_justified by (metis is_no_fault_def kill_reason.distinct)
qed

text \<open>
  the limit is enforced. In the pressure phase, when the total usage exceeds the limit less the safety margin
  and some worker runs a task, \<open>check_resource_pressure\<close> kills one.
\<close>

theorem pressure_acts:
  assumes "sum_list (map (\<lambda>w. s_get s (actual_usage w)) ws) > s_get s mx - cgroup_safety_margin s"
    and "w \<in> set ws" "current_task w \<noteq> None"
  shows "\<exists>wid r. check_resource_pressure s ws mx True = Kill wid r"
proof -
  let ?a = "filter (\<lambda>w. current_task w \<noteq> None) ws"
  have "?a \<noteq> []" "ws \<noteq> []" using assms(2,3) by (auto simp: filter_empty_conv)
  then obtain m where m: "min_by_key (\<lambda>w. s_get s (estimated_usage w)) ?a = Some m"
    using min_by_key_spec [where f = "\<lambda>w. s_get s (estimated_usage w)" and xs = ?a] by (cases "min_by_key (\<lambda>w. s_get s (estimated_usage w)) ?a") auto
  show ?thesis
    using assms(1) m \<open>ws \<noteq> []\<close> by (auto simp: check_resource_pressure_def Let_def split: option.split)
qed

theorem pressure_acts_witness:
  "\<exists>wid r. check_resource_pressure sample_scheduler
     [sample_worker\<lparr>current_task := Some (sample_task ''p'' ''a'' []), actual_usage := [(''memory'', 9)]\<rparr>] [] True = Kill wid r"
  by (rule pressure_acts [where w = "sample_worker\<lparr>current_task := Some (sample_task ''p'' ''a'' []), actual_usage := [(''memory'', 9)]\<rparr>"])
    (simp_all add: s_get_def rm_get_def sample_scheduler_def)

text \<open>
  releasing a reservation restores the totals. Adding an estimate to a resource map and subtracting
  it again, as the initial assignment does when a commit is refused, leaves the amount of every kind
  as it was.
\<close>

theorem resource_add_sub:
  assumes "bt_sorted m" "bt_sorted n"
  shows "rm_get (rm_sub (rm_add m n) n) k = rm_get m k"
  using assms by (simp add: rm_get_sub rm_get_add rm_sorted)

theorem resource_add_sub_witness: "rm_get (rm_sub (rm_add [(''a'', 1)] [(''a'', 2), (''b'', 3)]) [(''a'', 2), (''b'', 3)]) ''a'' = 1"
proof -
  have "bt_sorted [(''a'', 1 :: nat)]" "bt_sorted [(''a'', 2 :: nat), (''b'', 3)]" by code_simp+
  then show ?thesis using resource_add_sub by (simp add: rm_get_def)
qed

text \<open>
  without temporary factors an opportunistic worker gets no budget. The documentation of
  \<open>temp_factors\<close> says that with an empty vector opportunistic workers keep their reserved budget; the code divides
  by infinity, so their effective budget is 0.
\<close>

theorem no_factors_no_budget:
  assumes "temp_factors s = []" "is_opportunistic w"
  shows "effective_budget s w idle_rank available = 0"
  using assms by (simp add: effective_budget_def temp_factor_for_def f64_of_nat_def f64_of_ratio_def Let_def)

theorem no_factors_no_budget_witness:
  "effective_budget (sample_scheduler\<lparr>temp_factors := []\<rparr>) (sample_worker\<lparr>is_opportunistic := True\<rparr>) 0 100 = 0"
  by (rule no_factors_no_budget) simp_all

end
