(* ===== verification/Output_Gather.thy ===== *)
theory Output_Gather
  imports Task_Types
begin

text \<open>
  Assembling the predecessor outputs of a task at dispatch (\<open>dynrunner-core/src/output_gather.rs\<close>).
  The two closures of the code, the recorded outputs of an identity and the prerequisites of a known
  task, are function arguments. The ancestry walk follows whatever the second one returns, so it is
  a partial function, and that it returns is a theorem: it does whenever the ancestry is finite.
\<close>

section \<open>The walk\<close>

datatype result_value = Inline string | File string

type_synonym task_outputs = "(string \<times> result_value) list"
type_synonym output_lookup = "phase_id \<times> task_id \<Rightarrow> task_outputs option"
type_synonym deps_lookup = "phase_id \<times> task_id \<Rightarrow> task_dep list option"

definition insert_outputs_for :: "output_lookup \<Rightarrow> phase_id \<times> task_id \<Rightarrow> (task_id \<times> task_outputs) list \<Rightarrow>
    (task_id \<times> task_outputs) list" where
  "insert_outputs_for outputs_for n result =
     (if map_of result (snd n) \<noteq> None then result
      else bt_alter (snd n) (\<lambda>_. case outputs_for n of Some x \<Rightarrow> x | None \<Rightarrow> []) result)"

record gather_walk =
  gw_visited :: "(phase_id \<times> task_id) set"
  gw_queue :: "(phase_id \<times> task_id) list"
  gw_result :: "(task_id \<times> task_outputs) list"

definition walk_dep :: "output_lookup \<Rightarrow> task_dep \<Rightarrow> gather_walk \<Rightarrow> gather_walk" where
  "walk_dep outputs_for d s =
     (let n = dep_ident d in
      if n \<in> gw_visited s then s
      else \<lparr>gw_visited = insert n (gw_visited s), gw_queue = gw_queue s @ [n],
            gw_result = insert_outputs_for outputs_for n (gw_result s)\<rparr>)"

partial_function (option) walk_loop :: "output_lookup \<Rightarrow> deps_lookup \<Rightarrow> gather_walk \<Rightarrow> gather_walk option" where
  "walk_loop outputs_for deps_of s =
     (case gw_queue s of
        [] \<Rightarrow> Some s
      | n # rest \<Rightarrow>
          (let s1 = s\<lparr>gw_queue := rest\<rparr> in
           case deps_of n of
             None \<Rightarrow> walk_loop outputs_for deps_of s1
           | Some ds \<Rightarrow> walk_loop outputs_for deps_of (fold (walk_dep outputs_for) ds s1)))"

definition walk_ancestry :: "output_lookup \<Rightarrow> deps_lookup \<Rightarrow> phase_id \<times> task_id \<Rightarrow> (task_id \<times> task_outputs) list \<Rightarrow>
    (task_id \<times> task_outputs) list option" where
  "walk_ancestry outputs_for deps_of start result =
     map_option gw_result
       (walk_loop outputs_for deps_of \<lparr>gw_visited = {start}, gw_queue = [start], gw_result = result\<rparr>)"

primrec gather_from :: "output_lookup \<Rightarrow> deps_lookup \<Rightarrow> task_dep list \<Rightarrow> (task_id \<times> task_outputs) list \<Rightarrow>
    (task_id \<times> task_outputs) list option" where
  "gather_from outputs_for deps_of [] result = Some result"
| "gather_from outputs_for deps_of (d # ds) result =
     (let r1 = insert_outputs_for outputs_for (dep_ident d) result in
      if inherit_outputs d then
        (case walk_ancestry outputs_for deps_of (dep_ident d) r1 of
           None \<Rightarrow> None
         | Some r2 \<Rightarrow> gather_from outputs_for deps_of ds r2)
      else gather_from outputs_for deps_of ds r1)"

definition gather_predecessor_outputs :: "task_dep list \<Rightarrow> output_lookup \<Rightarrow> deps_lookup \<Rightarrow>
    (task_id \<times> task_outputs) list option" where
  "gather_predecessor_outputs task_deps outputs_for deps_of = gather_from outputs_for deps_of task_deps []"

section \<open>What is gathered\<close>

inductive ancestor :: "deps_lookup \<Rightarrow> phase_id \<times> task_id \<Rightarrow> phase_id \<times> task_id \<Rightarrow> bool" for deps_of start where
  base: "ancestor deps_of start start"
| step: "ancestor deps_of start n \<Longrightarrow> deps_of n = Some ds \<Longrightarrow> d \<in> set ds \<Longrightarrow> ancestor deps_of start (dep_ident d)"

text \<open>
  A result records a set of identities: its keys are their ids, and the value of a key is what is
  recorded for one of them.
\<close>

definition records :: "output_lookup \<Rightarrow> (phase_id \<times> task_id) set \<Rightarrow> (task_id \<times> task_outputs) list \<Rightarrow> bool" where
  "records outputs_for N r \<longleftrightarrow>
     bt_sorted r \<and> fst ` set r = snd ` N \<and>
     (\<forall>k v. map_of r k = Some v \<longrightarrow>
        (\<exists>ph. (ph, k) \<in> N \<and> v = (case outputs_for (ph, k) of Some x \<Rightarrow> x | None \<Rightarrow> [])))"

lemma records_insert:
  assumes "records f N r"
  shows "records f (insert n N) (insert_outputs_for f n r)"
proof (cases "map_of r (snd n)")
  case None
  then have e: "insert_outputs_for f n r = bt_alter (snd n) (\<lambda>_. case f n of Some x \<Rightarrow> x | None \<Rightarrow> []) r"
    by (simp add: insert_outputs_for_def)
  show ?thesis using assms unfolding records_def e
    by (cases n) (auto simp: bt_sorted_alter)
next
  case (Some v)
  then have "snd n \<in> fst ` set r" by (force dest: map_of_SomeD)
  then have "snd ` insert n N = fst ` set r" using assms by (auto simp: records_def)
  then show ?thesis using assms Some unfolding records_def by (simp add: insert_outputs_for_def) blast
qed

definition walk_inv :: "output_lookup \<Rightarrow> deps_lookup \<Rightarrow> phase_id \<times> task_id \<Rightarrow> (phase_id \<times> task_id) set \<Rightarrow>
    (phase_id \<times> task_id) option \<Rightarrow> gather_walk \<Rightarrow> bool" where
  "walk_inv f deps_of start N cur s \<longleftrightarrow>
     records f (N \<union> (gw_visited s - {start})) (gw_result s) \<and> start \<in> gw_visited s \<and>
     (\<forall>n \<in> gw_visited s. ancestor deps_of start n) \<and> set (gw_queue s) \<subseteq> gw_visited s \<and>
     (\<forall>n \<in> gw_visited s. n \<in> set (gw_queue s) \<or> cur = Some n \<or>
        (\<forall>ds d. deps_of n = Some ds \<longrightarrow> d \<in> set ds \<longrightarrow> dep_ident d \<in> gw_visited s))"

lemma walk_dep_inv:
  assumes "walk_inv f deps_of start N (Some n) s" "ancestor deps_of start (dep_ident d)"
  shows "walk_inv f deps_of start N (Some n) (walk_dep f d s) \<and>
    gw_visited (walk_dep f d s) = insert (dep_ident d) (gw_visited s)"
proof (cases "dep_ident d \<in> gw_visited s")
  case True
  then show ?thesis using assms by (auto simp: walk_dep_def Let_def)
next
  case False
  then have "dep_ident d \<noteq> start" using assms(1) by (auto simp: walk_inv_def)
  then have "N \<union> (insert (dep_ident d) (gw_visited s) - {start}) = insert (dep_ident d) (N \<union> (gw_visited s - {start}))"
    by blast
  moreover have "records f (insert (dep_ident d) (N \<union> (gw_visited s - {start}))) (insert_outputs_for f (dep_ident d) (gw_result s))"
    using assms(1) by (intro records_insert) (simp add: walk_inv_def)
  ultimately show ?thesis using False assms by (auto simp: walk_dep_def Let_def walk_inv_def)
qed

lemma walk_dep_measure:
  assumes "finite A" "dep_ident d \<in> A"
  shows "card (A - gw_visited (walk_dep f d s)) + length (gw_queue (walk_dep f d s)) \<le>
    card (A - gw_visited s) + length (gw_queue s)"
proof (cases "dep_ident d \<in> gw_visited s")
  case False
  then have "A - gw_visited s = insert (dep_ident d) (A - gw_visited (walk_dep f d s))"
    "dep_ident d \<notin> A - gw_visited (walk_dep f d s)"
    using assms(2) by (auto simp: walk_dep_def Let_def)
  then have "card (A - gw_visited s) = Suc (card (A - gw_visited (walk_dep f d s)))"
    using assms(1) by (metis card_insert_disjoint finite_Diff)
  then show ?thesis using False by (simp add: walk_dep_def Let_def)
qed (simp add: walk_dep_def)

lemma walk_fold_measure:
  assumes "finite A" "dep_ident ` set ds \<subseteq> A"
  shows "card (A - gw_visited (fold (walk_dep f) ds s)) + length (gw_queue (fold (walk_dep f) ds s)) \<le>
    card (A - gw_visited s) + length (gw_queue s)"
  using assms(2)
proof (induction ds arbitrary: s)
  case (Cons d ds)
  from Cons.IH [of "walk_dep f d s"] walk_dep_measure [OF assms(1), of d f s] Cons.prems show ?case by fastforce
qed simp

lemma walk_fold_inv:
  assumes "walk_inv f deps_of start N (Some n) s" "\<forall>d \<in> set ds. ancestor deps_of start (dep_ident d)"
  shows "walk_inv f deps_of start N (Some n) (fold (walk_dep f) ds s) \<and>
    gw_visited (fold (walk_dep f) ds s) = dep_ident ` set ds \<union> gw_visited s"
  using assms
proof (induction ds arbitrary: s)
  case (Cons d ds)
  then have "walk_inv f deps_of start N (Some n) (walk_dep f d s)"
      "gw_visited (walk_dep f d s) = insert (dep_ident d) (gw_visited s)"
    using walk_dep_inv [OF Cons.prems(1), of d] by simp_all
  then show ?case using Cons.IH [of "walk_dep f d s"] Cons.prems(2) by auto
qed simp

lemma walk_inv_done:
  assumes "walk_inv f deps_of start N (Some n) s"
    and "\<forall>es d. deps_of n = Some es \<longrightarrow> d \<in> set es \<longrightarrow> dep_ident d \<in> gw_visited s"
  shows "walk_inv f deps_of start N None s"
  using assms unfolding walk_inv_def option.inject by blast

lemma walk_loop_total:
  assumes fin: "finite {n. ancestor deps_of start n}" and inv: "walk_inv f deps_of start N None s"
  shows "\<exists>s'. walk_loop f deps_of s = Some s' \<and> walk_inv f deps_of start N None s' \<and> gw_queue s' = []"
  using inv
proof (induction "card ({n. ancestor deps_of start n} - gw_visited s) + length (gw_queue s)" arbitrary: s rule: less_induct)
  case less
  let ?A = "{n. ancestor deps_of start n}"
  show ?case
  proof (cases "gw_queue s")
    case Nil
    then show ?thesis using less.prems by (auto simp: walk_loop.simps [of f deps_of s])
  next
    case (Cons n rest)
    let ?s1 = "s\<lparr>gw_queue := rest\<rparr>"
    have n: "ancestor deps_of start n" using less.prems Cons by (auto simp: walk_inv_def)
    have inv1: "walk_inv f deps_of start N (Some n) ?s1" using less.prems Cons by (auto simp: walk_inv_def)
    define ds where "ds = (case deps_of n of Some ds \<Rightarrow> ds | None \<Rightarrow> [])"
    let ?s = "fold (walk_dep f) ds ?s1"
    have ds: "\<forall>d \<in> set ds. ancestor deps_of start (dep_ident d)"
      using n by (cases "deps_of n") (auto simp: ds_def intro: ancestor.step)
    note F = walk_fold_inv [OF inv1 ds]
    have "\<forall>es d. deps_of n = Some es \<longrightarrow> d \<in> set es \<longrightarrow> dep_ident d \<in> gw_visited ?s"
      using F unfolding ds_def by (cases "deps_of n") auto
    then have "walk_inv f deps_of start N None ?s" by (rule walk_inv_done [OF conjunct1 [OF F]])
    moreover have "card (?A - gw_visited ?s) + length (gw_queue ?s) < card (?A - gw_visited s) + length (gw_queue s)"
    proof -
      have "card (?A - gw_visited ?s) + length (gw_queue ?s) \<le> card (?A - gw_visited ?s1) + length (gw_queue ?s1)"
        by (rule walk_fold_measure [OF fin]) (use ds in blast)
      also have "\<dots> < card (?A - gw_visited s) + length (gw_queue s)" using Cons by simp
      finally show ?thesis .
    qed
    moreover have "walk_loop f deps_of s = walk_loop f deps_of ?s"
      using Cons by (subst walk_loop.simps) (auto simp: ds_def Let_def split: option.split)
    ultimately show ?thesis using less.hyps [of ?s] by simp
  qed
qed

lemma walk_ancestry_spec:
  assumes "finite {n. ancestor deps_of start n}" "records f N r" "start \<in> N"
  shows "\<exists>r'. walk_ancestry f deps_of start r = Some r' \<and> records f (N \<union> {n. ancestor deps_of start n}) r'"
proof -
  let ?s = "\<lparr>gw_visited = {start}, gw_queue = [start], gw_result = r\<rparr>"
  have "walk_inv f deps_of start N None ?s" using assms(2) by (simp add: walk_inv_def ancestor.base)
  then obtain s' where s': "walk_loop f deps_of ?s = Some s'" "walk_inv f deps_of start N None s'" "gw_queue s' = []"
    using walk_loop_total [OF assms(1)] by blast
  have "n \<in> gw_visited s'" if "ancestor deps_of start n" for n
    using that by induction (use s'(2,3) in \<open>auto simp: walk_inv_def\<close>)
  then have "gw_visited s' = {n. ancestor deps_of start n}" using s'(2) by (auto simp: walk_inv_def)
  then have "records f (N \<union> ({n. ancestor deps_of start n} - {start})) (gw_result s')"
    using s'(2) by (simp add: walk_inv_def)
  moreover have "N \<union> ({n. ancestor deps_of start n} - {start}) = N \<union> {n. ancestor deps_of start n}"
    using assms(3) by blast
  ultimately show ?thesis using s'(1) by (auto simp: walk_ancestry_def)
qed

definition gathered :: "deps_lookup \<Rightarrow> task_dep list \<Rightarrow> (phase_id \<times> task_id) set" where
  "gathered deps_of ds = (\<Union>d \<in> set ds. insert (dep_ident d) (if inherit_outputs d then {n. ancestor deps_of (dep_ident d) n} else {}))"

lemma gather_from_spec:
  assumes "\<forall>d \<in> set ds. inherit_outputs d \<longrightarrow> finite {n. ancestor deps_of (dep_ident d) n}" "records f N r"
  shows "\<exists>r'. gather_from f deps_of ds r = Some r' \<and> records f (N \<union> gathered deps_of ds) r'"
  using assms
proof (induction ds arbitrary: N r)
  case (Cons d ds)
  let ?r1 = "insert_outputs_for f (dep_ident d) r"
  have r1: "records f (insert (dep_ident d) N) ?r1" using Cons.prems(2) by (rule records_insert)
  show ?case
  proof (cases "inherit_outputs d")
    case True
    obtain r2 where r2: "walk_ancestry f deps_of (dep_ident d) ?r1 = Some r2"
        "records f (insert (dep_ident d) N \<union> {n. ancestor deps_of (dep_ident d) n}) r2"
      using walk_ancestry_spec [OF _ r1, where start = "dep_ident d" and deps_of = deps_of] Cons.prems(1) True by auto
    then show ?thesis
      using Cons.IH [OF _ r2(2)] Cons.prems(1) True by (auto simp: gathered_def Un_assoc insert_commute)
  next
    case False
    then show ?thesis using Cons.IH [OF _ r1] Cons.prems(1) by (auto simp: gathered_def Un_assoc insert_commute)
  qed
qed (simp add: gathered_def)

section \<open>Properties\<close>

text \<open>
  C37: the gathered outputs are those of the prerequisites and of the inherited ancestry. When the
  ancestry of every prerequisite that inherits is finite, \<open>gather_predecessor_outputs\<close> returns; the keys
  of its result are the ids of the direct prerequisites and of the ancestors of the inheriting ones,
  each key's value is what is recorded for an identity with that id (empty when nothing is), and
  the keys are in order.
\<close>

theorem gather_exact:
  assumes "\<forall>d \<in> set ds. inherit_outputs d \<longrightarrow> finite {n. ancestor deps_of (dep_ident d) n}"
  shows "\<exists>r. gather_predecessor_outputs ds outputs_for deps_of = Some r \<and> bt_sorted r \<and>
    fst ` set r = snd ` gathered deps_of ds \<and>
    (\<forall>k v. map_of r k = Some v \<longrightarrow>
       (\<exists>ph. (ph, k) \<in> gathered deps_of ds \<and> v = (case outputs_for (ph, k) of Some x \<Rightarrow> x | None \<Rightarrow> [])))"
proof -
  have "records outputs_for {} []" by (simp add: records_def)
  from gather_from_spec [OF assms this] show ?thesis
    by (simp add: gather_predecessor_outputs_def records_def)
qed

definition sample_dep :: "task_id \<Rightarrow> bool \<Rightarrow> task_dep" where
  "sample_dep tid inh = \<lparr>dep_task_id = tid, dep_phase_id = ''p'', inherit_outputs = inh, dep_def_id = None\<rparr>"

theorem gather_exact_witness:
  "\<exists>r. gather_predecessor_outputs [sample_dep ''b'' True] (\<lambda>_. None)
     (\<lambda>n. if snd n = ''b'' then Some [sample_dep ''a'' False] else None) = Some r \<and>
   fst ` set r = {''a'', ''b''}"
proof -
  let ?d = "\<lambda>n :: phase_id \<times> task_id. if snd n = ''b'' then Some [sample_dep ''a'' False] else None"
  let ?a = "sample_dep ''a'' False"
  have e: "dep_ident (sample_dep ''b'' True) = (''p'', ''b'')" "dep_ident ?a = (''p'', ''a'')"
    "inherit_outputs (sample_dep ''b'' True)" by (simp_all add: sample_dep_def)
  have "n \<in> {(''p'', ''a''), (''p'', ''b'')}" if "ancestor ?d (''p'', ''b'') n" for n
    using that
  proof induction
    case (step n ds d)
    then have "d = ?a" by (cases "snd n = ''b''") auto
    then show ?case using e(2) by simp
  qed simp
  moreover have "ancestor ?d (''p'', ''b'') (''p'', ''a'')"
    using ancestor.step [OF ancestor.base, of ?d "(''p'', ''b'')" "[?a]" ?a] e(2) by simp
  ultimately have a: "{n. ancestor ?d (''p'', ''b'') n} = {(''p'', ''a''), (''p'', ''b'')}"
    using ancestor.base by blast
  have "\<forall>d \<in> set [sample_dep ''b'' True]. inherit_outputs d \<longrightarrow> finite {n. ancestor ?d (dep_ident d) n}"
    unfolding list.set ball_simps e(1) a by simp
  from gather_exact [OF this] obtain r where
    r: "gather_predecessor_outputs [sample_dep ''b'' True] (\<lambda>_. None) ?d = Some r"
      "fst ` set r = snd ` gathered ?d [sample_dep ''b'' True]"
    by blast
  have "gathered ?d [sample_dep ''b'' True] = {(''p'', ''a''), (''p'', ''b'')}"
    unfolding gathered_def list.set UN_insert UN_empty e(1) a using e(3) by auto
  then show ?thesis using r by auto
qed

end
