(* ===== verification/Spawn_Validator.thy ===== *)
theory Spawn_Validator
  imports Pool_State
begin

text \<open>
  The task hash (\<open>dynrunner-core/src/task_hash.rs\<close>) and the validation of a batch of tasks spawned at
  run time (\<open>dynrunner-core/src/spawn_tasks_validator.rs\<close>). The hash function of the standard library
  does not document its algorithm: it is the argument \<open>hasher\<close>, which maps the five hashed fields to a
  64-bit number. The closures of the validator are function arguments.
\<close>

section \<open>The task hash\<close>

definition hex_digit :: "nat \<Rightarrow> char" where
  "hex_digit d = (if d < 10 then char_of (48 + d) else char_of (87 + d))"

primrec hex_pad :: "nat \<Rightarrow> nat \<Rightarrow> string" where
  "hex_pad 0 n = []"
| "hex_pad (Suc w) n = hex_pad w (n div 16) @ [hex_digit (n mod 16)]"

type_synonym 'i hash_input = "phase_id \<times> type_id \<times> task_id \<times> string \<times> 'i"

definition compute_task_hash :: "('i hash_input \<Rightarrow> nat) \<Rightarrow> ('i, 'j) task_info \<Rightarrow> string" where
  "compute_task_hash hasher t =
     hex_pad 16 (hasher (phase_id t, type_id t, task_id t, path t, task_identifier t))"

section \<open>Validation of a spawned batch\<close>

datatype spawn_error =
    DuplicateTaskHash string
  | DuplicateInBatch string
  | UnknownDependencyOf string task_id
  | BarrierViolation string phase_id

record ('i, 'j) spawn_state =
  sp_errors :: "(nat \<times> spawn_error) list"
  sp_valid :: "('i, 'j) task_info list"
  sp_seen :: "string set"

definition spawn_step :: "('i hash_input \<Rightarrow> nat) \<Rightarrow> (string \<Rightarrow> bool) \<Rightarrow> (phase_id \<times> task_id \<Rightarrow> bool) \<Rightarrow> (phase_id \<Rightarrow> bool) \<Rightarrow>
    (phase_id \<times> task_id) set \<Rightarrow> nat \<times> ('i, 'j) task_info \<Rightarrow> ('i, 'j) spawn_state \<Rightarrow> ('i, 'j) spawn_state" where
  "spawn_step hasher present known accepts batch_identities = (\<lambda>(idx, t) s.
     let h = compute_task_hash hasher t in
     if present h then s\<lparr>sp_errors := sp_errors s @ [(idx, DuplicateTaskHash h)]\<rparr>
     else if h \<in> sp_seen s then s\<lparr>sp_errors := sp_errors s @ [(idx, DuplicateInBatch h)]\<rparr>
     else
       let s1 = s\<lparr>sp_seen := insert h (sp_seen s)\<rparr> in
       case find (\<lambda>d. dep_ident d \<notin> batch_identities \<and> \<not> known (dep_ident d)) (task_depends_on t) of
         Some d \<Rightarrow> s1\<lparr>sp_errors := sp_errors s1 @ [(idx, UnknownDependencyOf h (dep_task_id d))]\<rparr>
       | None \<Rightarrow>
           if \<not> accepts (phase_id t)
           then s1\<lparr>sp_errors := sp_errors s1 @ [(idx, BarrierViolation h (phase_id t))]\<rparr>
           else s1\<lparr>sp_valid := sp_valid s1 @ [t]\<rparr>)"

definition validate_spawn_tasks :: "('i hash_input \<Rightarrow> nat) \<Rightarrow> (string \<Rightarrow> bool) \<Rightarrow> (phase_id \<times> task_id \<Rightarrow> bool) \<Rightarrow>
    (phase_id \<Rightarrow> bool) \<Rightarrow> ('i, 'j) task_info list \<Rightarrow> ('i, 'j) task_info list \<times> (nat \<times> spawn_error) list" where
  "validate_spawn_tasks hasher present known accepts tasks =
     (let s = fold (spawn_step hasher present known accepts (ident ` set tasks)) (enumerate 0 tasks)
            \<lparr>sp_errors = [], sp_valid = [], sp_seen = {}\<rparr>
      in (sp_valid s, sp_errors s))"

section \<open>Properties of the hash\<close>

lemma hex_digit_inj:
  assumes "a < 16" "b < 16"
  shows "hex_digit a = hex_digit b \<longleftrightarrow> a = b"
proof
  assume e: "hex_digit a = hex_digit b"
  have "of_char (hex_digit a) = (if a < 10 then 48 + a else 87 + a)" if "a < 16" for a
    using that by (simp add: hex_digit_def of_char_of)
  from this [OF assms(1)] this [OF assms(2)] show "a = b" unfolding e by (auto split: if_splits)
qed simp

lemma hex_pad_inj: "a < 16 ^ w \<Longrightarrow> b < 16 ^ w \<Longrightarrow> hex_pad w a = hex_pad w b \<longleftrightarrow> a = b"
proof (induction w arbitrary: a b)
  case (Suc w)
  have "a div 16 < 16 ^ w" "b div 16 < 16 ^ w" using Suc.prems by (simp_all add: less_mult_imp_div_less)
  then have "hex_pad (Suc w) a = hex_pad (Suc w) b \<longleftrightarrow> a div 16 = b div 16 \<and> a mod 16 = b mod 16"
    using Suc.IH by (simp add: hex_digit_inj)
  then show ?case by (metis div_mult_mod_eq)
qed simp

lemma length_hex_pad [simp]: "length (hex_pad w n) = w"
  by (induction w arbitrary: n) simp_all

section \<open>Properties of the validation\<close>

text \<open>The verdict on one task, given the tasks before it in the batch.\<close>

definition spawn_verdict :: "('i hash_input \<Rightarrow> nat) \<Rightarrow> (string \<Rightarrow> bool) \<Rightarrow> (phase_id \<times> task_id \<Rightarrow> bool) \<Rightarrow> (phase_id \<Rightarrow> bool) \<Rightarrow>
    (phase_id \<times> task_id) set \<Rightarrow> ('i, 'j) task_info list \<Rightarrow> ('i, 'j) task_info \<Rightarrow> spawn_error option" where
  "spawn_verdict hasher present known accepts batch earlier t =
     (let h = compute_task_hash hasher t;
          unknown = filter (\<lambda>d. dep_ident d \<notin> batch \<and> \<not> known (dep_ident d)) (task_depends_on t)
      in if present h then Some (DuplicateTaskHash h)
         else if h \<in> compute_task_hash hasher ` set earlier then Some (DuplicateInBatch h)
         else if unknown \<noteq> [] then Some (UnknownDependencyOf h (dep_task_id (hd unknown)))
         else if \<not> accepts (phase_id t) then Some (BarrierViolation h (phase_id t))
         else None)"

lemma find_filter: "find P xs = (case filter P xs of [] \<Rightarrow> None | x # _ \<Rightarrow> Some x)"
  by (induction xs) auto

lemma spawn_fold:
  fixes tasks :: "('i, 'j) task_info list" and hasher :: "'i hash_input \<Rightarrow> nat" and present known accepts B m
  assumes "m \<le> length tasks"
  defines "v \<equiv> \<lambda>i. spawn_verdict hasher present known accepts B (take i tasks) (tasks ! i)"
  shows "fold (spawn_step hasher present known accepts B) (enumerate 0 (take m tasks)) \<lparr>sp_errors = [], sp_valid = [], sp_seen = {}\<rparr> =
    \<lparr>sp_errors = map (\<lambda>i. (i, the (v i))) (filter (\<lambda>i. v i \<noteq> None) [0..<m]),
     sp_valid = map (nth tasks) (filter (\<lambda>i. v i = None) [0..<m]),
     sp_seen = {h \<in> compute_task_hash hasher ` set (take m tasks). \<not> present h}\<rparr>"
  using assms(1)
proof (induction m)
  case (Suc m)
  let ?st = "spawn_step hasher present known accepts B"
  let ?t = "tasks ! m"
  let ?h = "compute_task_hash hasher ?t"
  have tk: "take (Suc m) tasks = take m tasks @ [?t]" using Suc.prems by (simp add: take_Suc_conv_app_nth)
  then have en: "enumerate 0 (take (Suc m) tasks) = enumerate 0 (take m tasks) @ [(m, ?t)]"
    using Suc.prems by (simp add: enumerate_append_eq)
  let ?s = "\<lparr>sp_errors = map (\<lambda>i. (i, the (v i))) (filter (\<lambda>i. v i \<noteq> None) [0..<m]),
     sp_valid = map (nth tasks) (filter (\<lambda>i. v i = None) [0..<m]),
     sp_seen = {h \<in> compute_task_hash hasher ` set (take m tasks). \<not> present h}\<rparr>"
  have "fold ?st (enumerate 0 (take (Suc m) tasks)) \<lparr>sp_errors = [], sp_valid = [], sp_seen = {}\<rparr> = ?st (m, ?t) ?s"
    unfolding en using Suc by simp
  also have "\<dots> = \<lparr>sp_errors = map (\<lambda>i. (i, the (v i))) (filter (\<lambda>i. v i \<noteq> None) [0..<Suc m]),
     sp_valid = map (nth tasks) (filter (\<lambda>i. v i = None) [0..<Suc m]),
     sp_seen = {h \<in> compute_task_hash hasher ` set (take (Suc m) tasks). \<not> present h}\<rparr>"
  proof -
    let ?S = "{h \<in> compute_task_hash hasher ` set (take (Suc m) tasks). \<not> present h}"
    let ?u = "filter (\<lambda>d. dep_ident d \<notin> B \<and> \<not> known (dep_ident d)) (task_depends_on ?t)"
    note defs = spawn_step_def spawn_verdict_def v_def Let_def find_filter
    have old: "present ?h \<or> ?h \<in> compute_task_hash hasher ` set (take m tasks) \<Longrightarrow> sp_seen ?s = ?S" unfolding tk by auto
    have new: "\<not> present ?h \<Longrightarrow> insert ?h (sp_seen ?s) = ?S" unfolding tk by auto
    consider (pres) "present ?h" | (dup) "\<not> present ?h" "?h \<in> compute_task_hash hasher ` set (take m tasks)"
      | (fresh) "\<not> present ?h" "?h \<notin> compute_task_hash hasher ` set (take m tasks)" by blast
    then show ?thesis
    proof cases
      case pres
      then show ?thesis using old by (simp add: defs)
    next
      case dup
      have st: "?st (m, ?t) ?s = ?s\<lparr>sp_errors := sp_errors ?s @ [(m, DuplicateInBatch ?h)]\<rparr>"
        unfolding spawn_step_def Let_def using dup by (simp only: prod.case spawn_state.simps mem_Collect_eq simp_thms if_True if_False)
      have vm: "v m = Some (DuplicateInBatch ?h)"
        unfolding v_def spawn_verdict_def Let_def using dup by (simp only: simp_thms if_True if_False)
      show ?thesis unfolding st using old dup vm by (simp only: upt_Suc_append filter_append map_append spawn_state.simps) simp
    next
      case fresh
      then have f: "?h \<notin> sp_seen ?s" by simp
      show ?thesis
      proof (cases ?u)
        case Nil
        then show ?thesis using fresh f new by (simp add: defs)
      next
        case (Cons d us)
        then show ?thesis using fresh f new by (simp add: defs)
      qed
    qed
  qed
  finally show ?case .
qed simp

text \<open>
  the one-pass validation gives every task its own verdict. \<open>validate_spawn_tasks\<close> returns, in order,
  the tasks with no objection and one error, with its position, for each of the others, where the
  verdict on a task depends only on the batch's identities and on the tasks before it: known to the
  ledger, a repeat of an earlier hash, its first unresolvable prerequisite, or a phase that takes no
  spawned tasks, in this order.
\<close>

theorem spawn_validation_exact:
  "validate_spawn_tasks hasher present known accepts tasks =
     (let v = \<lambda>i. spawn_verdict hasher present known accepts (ident ` set tasks) (take i tasks) (tasks ! i) in
      (map (nth tasks) (filter (\<lambda>i. v i = None) [0..<length tasks]),
       map (\<lambda>i. (i, the (v i))) (filter (\<lambda>i. v i \<noteq> None) [0..<length tasks])))"
  using spawn_fold [where m = "length tasks" and tasks = tasks and B = "ident ` set tasks" and hasher = hasher
      and present = present and known = known and accepts = accepts]
  by (simp add: validate_spawn_tasks_def Let_def)

text \<open>
  two tasks get one hash only if the hash function collides. The printed hash has 16 hexadecimal
  digits and, for a 64-bit hash function, two tasks have the same printed hash exactly when the
  function maps their five hashed fields to the same number.
\<close>

theorem task_hash_collision:
  assumes "\<And>x. hasher x < 2 ^ 64"
  shows "length (compute_task_hash hasher t) = 16 \<and>
    (compute_task_hash hasher t = compute_task_hash hasher u \<longleftrightarrow>
      hasher (phase_id t, type_id t, task_id t, path t, task_identifier t) =
      hasher (phase_id u, type_id u, task_id u, path u, task_identifier u))"
proof -
  have "(2 :: nat) ^ 64 = 16 ^ 16" by simp
  then have "hasher x < 16 ^ 16" for x using assms by metis
  then show ?thesis by (simp add: compute_task_hash_def hex_pad_inj)
qed

theorem task_hash_collision_witness:
  "let h = (\<lambda>(ph, ty, tid, pa, i). if tid = ''a'' then 0 else 1) in
   compute_task_hash h (sample_task ''p'' ''a'' []) \<noteq> compute_task_hash h (sample_task ''p'' ''b'' [])"
proof -
  let ?h = "\<lambda>(ph :: phase_id, ty :: type_id, tid :: task_id, pa :: string, i :: unit). if tid = ''a'' then 0 else 1 :: nat"
  have "?h x < 2 ^ 64" for x by (simp split: prod.split)
  from task_hash_collision [of ?h, OF this, where t = "sample_task ''p'' ''a'' []" and u = "sample_task ''p'' ''b'' []"]
  show ?thesis by (simp add: sample_task_def Let_def)
qed

text \<open>
  an accepted task may wait for a rejected one. The known identities include those of the whole
  batch, rejected tasks as well: of a batch with a task \<open>a\<close> of a phase that takes no spawned tasks and a
  task \<open>b\<close> that depends on it, \<open>b\<close> is accepted although its prerequisite is neither accepted nor known.
\<close>

theorem spawn_orphan:
  "let a = sample_task ''q'' ''a'' [];
       b = (sample_task ''p'' ''b'' [])\<lparr>task_depends_on := [\<lparr>dep_task_id = ''a'', dep_phase_id = ''q'', inherit_outputs = False, dep_def_id = None\<rparr>]\<rparr>
   in map task_id (fst (validate_spawn_tasks (\<lambda>(ph, ty, tid, pa, i). if tid = ''a'' then 0 else 1) (\<lambda>_. False) (\<lambda>_. False) (\<lambda>ph. ph = ''p'') [a, b])) = [''b'']"
proof -
  let ?h = "\<lambda>(ph :: phase_id, ty :: type_id, tid :: task_id, pa :: string, i :: unit). if tid = ''a'' then 0 else 1 :: nat"
  have "compute_task_hash ?h t = compute_task_hash ?h u \<longleftrightarrow> (task_id t = ''a'' \<longleftrightarrow> task_id u = ''a'')"
    for t u :: "(unit, unit) task_info"
    by (simp add: compute_task_hash_def hex_pad_inj)
  then show ?thesis by (simp add: validate_spawn_tasks_def spawn_step_def sample_task_def Let_def)
qed

end
