(* ===== verification/Replica.thy ===== *)
theory Replica
  imports Prelude
begin

text \<open>
  The contracts of the replicated registers of the cluster ledger. A replica receives writes at
  least once and in any order; it keeps, per register, the write with the greatest key. The
  locale \<open>lww_register\<close> states what such a register promises and proves what its clients rely on:
  a redelivered write changes nothing, and replicas that received the same writes hold the same
  key whatever the order. \<open>total_register\<close> adds that equal keys mean equal values, so that the
  values agree as well. The interpretations are in the theories of the registers: secondary
  cells, the primary register, task states and resource samples.
\<close>

text \<open>What applying a mutation reports: a duplicate or outdated delivery is no error but \<open>NoOp\<close>.\<close>

datatype apply_outcome = Applied | NoOp

locale lww_register =
  fixes key :: "'a \<Rightarrow> 'k::linorder"
    and join :: "'a \<Rightarrow> 'a \<Rightarrow> 'a"
  assumes join_wins: "key x < key y \<Longrightarrow> join x y = y"
    and join_keeps: "\<not> key x < key y \<Longrightarrow> join x y = x"
begin

definition deliver :: "'a list \<Rightarrow> 'a \<Rightarrow> 'a" where
  "deliver = fold (\<lambda>y x. join x y)"

lemma key_join: "key (join x y) = max (key x) (key y)"
  using join_wins join_keeps by (cases "key x < key y") (auto simp: max_def)

lemma join_idem: "join x x = x"
  by (rule join_keeps) simp

lemma join_absorbs: "join (join x y) y = join x y"
  by (rule join_keeps) (simp add: key_join)

lemma join_assoc: "join (join x y) z = join x (join y z)"
  by (cases "key x < key y"; cases "key y < key z"; cases "key x < key z")
    (auto simp: join_wins join_keeps)

lemma key_deliver: "key (deliver ys x) = Max (insert (key x) (key ` set ys))"
proof (induction ys arbitrary: x)
  case (Cons y ys)
  have "key (deliver (y # ys) x) = key (deliver ys (join x y))"
    by (simp add: deliver_def)
  also have "\<dots> = Max (insert (max (key x) (key y)) (key ` set ys))"
    by (simp add: Cons.IH key_join)
  also have "\<dots> = Max (insert (key x) (key ` set (y # ys)))"
    by (cases "set ys = {}") (auto simp: max.assoc)
  finally show ?case .
qed (simp add: deliver_def)

lemma deliver_mem: "deliver ys x \<in> insert x (set ys)"
proof (induction ys arbitrary: x)
  case (Cons y ys)
  have "join x y \<in> {x, y}"
    using join_wins join_keeps by (cases "key x < key y") auto
  then show ?case
    using Cons.IH [of "join x y"] by (auto simp: deliver_def)
qed (simp add: deliver_def)

lemma deliver_converges: "set ys = set zs \<Longrightarrow> key (deliver ys x) = key (deliver zs x)"
  by (simp add: key_deliver)

lemma redelivery: "y \<in> set ys \<Longrightarrow> join (deliver ys x) y = deliver ys x"
  by (rule join_keeps) (auto simp: key_deliver not_less)

lemma monotone: "key x \<le> key (deliver ys x)"
  by (simp add: key_deliver)

end

locale total_register = lww_register +
  assumes key_inj: "key x = key y \<Longrightarrow> x = y"
begin

lemma join_comm: "join x y = join y x"
  by (rule key_inj) (simp add: key_join max.commute)

lemma converges: "set ys = set zs \<Longrightarrow> deliver ys x = deliver zs x"
  by (rule key_inj) (rule deliver_converges)

end

sublocale total_register \<subseteq> merged: semilattice join
  by unfold_locales (rule join_assoc, rule join_comm, rule join_idem)

end
