(* ===== verification/Def_Store.thy ===== *)
theory Def_Store
  imports Spawn_Validator
begin

text \<open>
  The replicated registry of task definitions (\<open>cluster_state/task_def_store.rs\<close>). A definition is
  filed in the slot of its id and found by its content hash; ids are minted locally or carried by
  a mutation, and the registry is meant to keep hashes and ids in bijection. A second pair of
  tables does the same for the dense ids of per-secondary cells.

  The pool of shared strings has no effect on values and is left out. Ids are natural numbers;
  \<open>TaskDefId::UNBOUND\<close> is \<open>unbound_id\<close>.
\<close>

section \<open>Definitions and routing\<close>

definition unbound_id :: nat where
  "unbound_id = 2 ^ 32 - 1"

record task_dep_ref =
  ref_def_id :: nat
  ref_inherit_outputs :: bool

record ('i, 'j) frozen_task_def =
  f_def_id :: nat
  f_affine_id :: "nat option"
  f_path :: string
  f_size :: nat
  f_identifier :: 'i
  f_phase_id :: phase_id
  f_type_id :: type_id
  f_kind :: task_kind
  f_setup_affinity :: "string option"
  f_upload_file :: "upload_file_ref option"
  f_required_files :: "upload_file_ref list option"
  f_affinity_id :: "affinity_id option"
  f_payload :: 'j
  f_task_id :: task_id
  f_task_depends_on :: "task_dep_ref list"

record task_routing =
  r_preferred_secondaries :: "string list"
  r_preferred_version :: task_version
  r_resolved_path :: "string option"

definition from_task_info :: "('i, 'j) task_info \<Rightarrow> ('i, 'j) frozen_task_def \<times> task_routing \<times> task_dep list" where
  "from_task_info t =
     (\<lparr>f_def_id = unbound_id, f_affine_id = None, f_path = path t, f_size = task_size t,
       f_identifier = task_identifier t, f_phase_id = phase_id t, f_type_id = type_id t, f_kind = kind t,
       f_setup_affinity = setup_affinity t, f_upload_file = upload_file t, f_required_files = required_files t,
       f_affinity_id = affinity_id t, f_payload = payload t, f_task_id = task_id t, f_task_depends_on = []\<rparr>,
      \<lparr>r_preferred_secondaries = preferred_secondaries t, r_preferred_version = preferred_version t,
       r_resolved_path = resolved_path t\<rparr>,
      task_depends_on t)"

definition to_task_info :: "('i, 'j) frozen_task_def \<Rightarrow> task_routing \<Rightarrow> task_dep list \<Rightarrow> ('i, 'j) task_info" where
  "to_task_info d r deps =
     \<lparr>path = f_path d, task_size = f_size d, task_identifier = f_identifier d, phase_id = f_phase_id d,
      type_id = f_type_id d, kind = f_kind d, setup_affinity = f_setup_affinity d, upload_file = f_upload_file d,
      required_files = f_required_files d, affinity_id = f_affinity_id d, payload = f_payload d,
      task_id = f_task_id d, task_depends_on = deps, preferred_secondaries = r_preferred_secondaries r,
      preferred_version = r_preferred_version r, resolved_path = r_resolved_path r\<rparr>"

section \<open>The registry\<close>

record ('i, 'j) task_def_store =
  defs :: "('i, 'j) frozen_task_def option list"
  hash_to_id :: "string \<rightharpoonup> nat"
  next_id :: nat
  identity_to_id :: "phase_id \<times> task_id \<rightharpoonup> nat"
  task_id_to_id :: "task_id \<rightharpoonup> nat"
  cell_hash_to_id :: "string \<rightharpoonup> nat"
  cell_id_reserved :: "string \<rightharpoonup> nat"
  cell_id_to_hash :: "(nat \<times> string) list"
  next_cell_id :: nat

definition empty_def_store :: "('i, 'j) task_def_store" where
  "empty_def_store = \<lparr>defs = [], hash_to_id = Map.empty, next_id = 0, identity_to_id = Map.empty,
     task_id_to_id = Map.empty, cell_hash_to_id = Map.empty, cell_id_reserved = Map.empty, cell_id_to_hash = [],
     next_cell_id = 0\<rparr>"

datatype def_bijection_error = HashRebound string nat nat | IdRebound nat

text \<open>\<open>map.entry(k).or_insert(v)\<close>\<close>

definition or_insert :: "'k \<Rightarrow> 'v \<Rightarrow> ('k \<rightharpoonup> 'v) \<Rightarrow> 'k \<rightharpoonup> 'v" where
  "or_insert k v m = (case m k of None \<Rightarrow> m(k \<mapsto> v) | Some _ \<Rightarrow> m)"

definition resolve :: "('i, 'j) task_def_store \<Rightarrow> nat \<Rightarrow> ('i, 'j) frozen_task_def option" where
  "resolve st def_id = (if def_id < length (defs st) then defs st ! def_id else None)"

definition put_slot :: "nat \<Rightarrow> ('i, 'j) frozen_task_def \<Rightarrow> ('i, 'j) task_def_store \<Rightarrow> ('i, 'j) task_def_store" where
  "put_slot def_id frozen st =
     (let grown = (if def_id \<ge> length (defs st) then defs st @ replicate (def_id + 1 - length (defs st)) None else defs st)
      in st\<lparr>identity_to_id := or_insert (f_phase_id frozen, f_task_id frozen) def_id (identity_to_id st),
            task_id_to_id := or_insert (f_task_id frozen) def_id (task_id_to_id st),
            defs := grown[def_id := Some frozen],
            next_id := max (next_id st) (def_id + 1)\<rparr>)"

definition id_for_identity :: "('i, 'j) task_def_store \<Rightarrow> phase_id \<Rightarrow> task_id \<Rightarrow> nat option" where
  "id_for_identity st ph t =
     (case identity_to_id st (ph, t) of Some i \<Rightarrow> Some i | None \<Rightarrow> task_id_to_id st t)"

definition alloc :: "('i, 'j) task_def_store \<Rightarrow> nat \<times> ('i, 'j) task_def_store" where
  "alloc st = (next_id st, st\<lparr>next_id := next_id st + 1\<rparr>)"

definition intern_reporting_placement ::
  "string \<Rightarrow> ('i, 'j) frozen_task_def \<Rightarrow> ('i, 'j) task_def_store \<Rightarrow> (nat \<times> bool) \<times> ('i, 'j) task_def_store" where
  "intern_reporting_placement hash frozen st =
     (case hash_to_id st hash of
        Some existing \<Rightarrow> ((existing, False), st)
      | None \<Rightarrow>
          let (def_id, st1) = alloc st;
              st2 = put_slot def_id frozen st1
          in ((def_id, True), st2\<lparr>hash_to_id := (hash_to_id st2)(hash \<mapsto> def_id)\<rparr>))"

definition intern :: "string \<Rightarrow> ('i, 'j) frozen_task_def \<Rightarrow> ('i, 'j) task_def_store \<Rightarrow> nat \<times> ('i, 'j) task_def_store" where
  "intern hash frozen st = (let ((def_id, _), st') = intern_reporting_placement hash frozen st in (def_id, st'))"

definition alloc_for_hash :: "string \<Rightarrow> ('i, 'j) task_def_store \<Rightarrow> nat \<times> ('i, 'j) task_def_store" where
  "alloc_for_hash hash st =
     (case hash_to_id st hash of
        Some existing \<Rightarrow> (existing, st)
      | None \<Rightarrow> let (def_id, st1) = alloc st in (def_id, st1\<lparr>hash_to_id := (hash_to_id st1)(hash \<mapsto> def_id)\<rparr>))"

definition intern_at ::
  "nat \<Rightarrow> string \<Rightarrow> ('i, 'j) frozen_task_def \<Rightarrow> ('i, 'j) task_def_store \<Rightarrow>
   (def_bijection_error + nat) \<times> ('i, 'j) task_def_store" where
  "intern_at def_id hash frozen st =
     (case hash_to_id st hash of
        Some existing \<Rightarrow>
          if existing \<noteq> def_id then (Inl (HashRebound hash existing def_id), st)
          else if resolve st existing = None
          then (Inr existing, put_slot existing (frozen\<lparr>f_def_id := existing\<rparr>) st)
          else (Inr existing, st)
      | None \<Rightarrow>
          if resolve st def_id \<noteq> None then (Inl (IdRebound def_id), st)
          else let st1 = put_slot def_id (frozen\<lparr>f_def_id := def_id\<rparr>) st
               in (Inr def_id, st1\<lparr>hash_to_id := (hash_to_id st1)(hash \<mapsto> def_id)\<rparr>))"

definition fill_dep_refs :: "nat \<Rightarrow> task_dep_ref list \<Rightarrow> ('i, 'j) task_def_store \<Rightarrow> ('i, 'j) task_def_store" where
  "fill_dep_refs def_id refs st =
     (case resolve st def_id of
        Some d \<Rightarrow> st\<lparr>defs := (defs st)[def_id := Some (d\<lparr>f_task_depends_on := refs\<rparr>)]\<rparr>
      | None \<Rightarrow> st)"

definition dep_refs_from_deps :: "('i, 'j) task_def_store \<Rightarrow> task_dep list \<Rightarrow> task_dep_ref list" where
  "dep_refs_from_deps st deps = map (\<lambda>dep.
     \<lparr>ref_def_id = (case dep_def_id dep of
          Some i \<Rightarrow> i
        | None \<Rightarrow> (case id_for_identity st (dep_phase_id dep) (dep_task_id dep) of Some i \<Rightarrow> i | None \<Rightarrow> unbound_id)),
      ref_inherit_outputs = inherit_outputs dep\<rparr>) deps"

definition resolve_dep_refs_with_fallback ::
  "('i, 'j) task_def_store \<Rightarrow> task_dep_ref list \<Rightarrow> (nat \<Rightarrow> (phase_id \<times> task_id) option) \<Rightarrow> task_dep list" where
  "resolve_dep_refs_with_fallback st refs fallback = map (\<lambda>r.
     case (case resolve st (ref_def_id r) of
             Some d \<Rightarrow> Some (f_phase_id d, f_task_id d)
           | None \<Rightarrow> fallback (ref_def_id r)) of
       Some (ph, t) \<Rightarrow> \<lparr>dep_task_id = t, dep_phase_id = ph, inherit_outputs = ref_inherit_outputs r, dep_def_id = None\<rparr>
     | None \<Rightarrow> \<lparr>dep_task_id = [], dep_phase_id = [], inherit_outputs = ref_inherit_outputs r, dep_def_id = None\<rparr>) refs"

definition kind_for_hash :: "('i, 'j) task_def_store \<Rightarrow> string \<Rightarrow> task_kind option" where
  "kind_for_hash st hash =
     (case hash_to_id st hash of None \<Rightarrow> None | Some i \<Rightarrow> map_option f_kind (resolve st i))"

definition resume_alloc_floor :: "nat \<Rightarrow> ('i, 'j) task_def_store \<Rightarrow> ('i, 'j) task_def_store" where
  "resume_alloc_floor floor_id st = st\<lparr>next_id := max (next_id st) floor_id\<rparr>"

section \<open>Cell ids\<close>

definition alloc_for_cell_hash :: "string \<Rightarrow> ('i, 'j) task_def_store \<Rightarrow> nat \<times> ('i, 'j) task_def_store" where
  "alloc_for_cell_hash hash st =
     (case cell_hash_to_id st hash of
        Some committed \<Rightarrow> (committed, st)
      | None \<Rightarrow>
     (case cell_id_reserved st hash of
        Some reserved \<Rightarrow> (reserved, st)
      | None \<Rightarrow> (next_cell_id st, st\<lparr>next_cell_id := next_cell_id st + 1,
                   cell_id_reserved := (cell_id_reserved st)(hash \<mapsto> next_cell_id st)\<rparr>)))"

definition intern_cell_at ::
  "nat \<Rightarrow> string \<Rightarrow> ('i, 'j) task_def_store \<Rightarrow> (def_bijection_error + nat) \<times> ('i, 'j) task_def_store" where
  "intern_cell_at cell_id hash st =
     (case cell_hash_to_id st hash of
        Some existing \<Rightarrow> if existing \<noteq> cell_id then (Inl (HashRebound hash existing cell_id), st) else (Inr existing, st)
      | None \<Rightarrow>
          if map_of (cell_id_to_hash st) cell_id \<noteq> None then (Inl (IdRebound cell_id), st)
          else (Inr cell_id, st\<lparr>cell_hash_to_id := (cell_hash_to_id st)(hash \<mapsto> cell_id),
                 cell_id_to_hash := AList.update cell_id hash (cell_id_to_hash st),
                 cell_id_reserved := (cell_id_reserved st)(hash := None),
                 next_cell_id := max (next_cell_id st) (cell_id + 1)\<rparr>))"

definition kind_for_cell_id :: "('i, 'j) task_def_store \<Rightarrow> nat \<Rightarrow> task_kind option" where
  "kind_for_cell_id st cell_id =
     (case map_of (cell_id_to_hash st) cell_id of None \<Rightarrow> None | Some hash \<Rightarrow> kind_for_hash st hash)"

definition eager_prep_cell_ids :: "('i, 'j) task_def_store \<Rightarrow> nat list" where
  "eager_prep_cell_ids st =
     filter (\<lambda>i. kind_for_cell_id st i = Some SecondaryEagerPrep) (keys (cell_id_to_hash st))"

definition resume_cell_alloc_floor :: "nat \<Rightarrow> ('i, 'j) task_def_store \<Rightarrow> ('i, 'j) task_def_store" where
  "resume_cell_alloc_floor floor_id st = st\<lparr>next_cell_id := max (next_cell_id st) floor_id\<rparr>"

section \<open>The bijection of hashes and ids\<close>

text \<open>A definition's content hash, which does not depend on its id, cell id or dependencies.\<close>

definition def_hash :: "('i hash_input \<Rightarrow> nat) \<Rightarrow> ('i, 'j) frozen_task_def \<Rightarrow> string" where
  "def_hash hasher d = compute_task_hash hasher (to_task_info d
     \<lparr>r_preferred_secondaries = [], r_preferred_version = default_version, r_resolved_path = None\<rparr> [])"

lemma def_hash_simps [simp]:
  "def_hash hasher (d\<lparr>f_def_id := i\<rparr>) = def_hash hasher d"
  "def_hash hasher (d\<lparr>f_task_depends_on := refs\<rparr>) = def_hash hasher d"
  by (simp_all add: def_hash_def to_task_info_def compute_task_hash_def)

definition def_store_ok :: "('i hash_input \<Rightarrow> nat) \<Rightarrow> ('i, 'j) task_def_store \<Rightarrow> bool" where
  "def_store_ok hasher st \<longleftrightarrow>
     inj_on (hash_to_id st) (dom (hash_to_id st)) \<and>
     (\<forall>h i. hash_to_id st h = Some i \<longrightarrow> i < next_id st) \<and>
     (\<forall>i d. resolve st i = Some d \<longrightarrow> hash_to_id st (def_hash hasher d) = Some i)"

lemma resolve_put_slot [simp]:
  "resolve (put_slot i d st) j = (if j = i then Some d else resolve st j)"
  by (auto simp: resolve_def put_slot_def Let_def nth_append nth_list_update)

lemma put_slot_fields [simp]: "hash_to_id (put_slot i d st) = hash_to_id st"
    "next_id (put_slot i d st) = max (next_id st) (i + 1)"
  by (simp_all add: put_slot_def Let_def)

lemma resolve_cong [simp]: "resolve (st\<lparr>hash_to_id := m\<rparr>) i = resolve st i" "resolve (st\<lparr>next_id := n\<rparr>) i = resolve st i"
  by (simp_all add: resolve_def)

lemma def_store_ok_slot:
  assumes "def_store_ok hasher st" and "resolve st i = Some d" and "hash_to_id st h = Some i"
  shows "def_hash hasher d = h"
proof -
  have "hash_to_id st (def_hash hasher d) = Some i" using assms by (simp add: def_store_ok_def)
  with assms show ?thesis unfolding def_store_ok_def inj_on_def dom_def by fastforce
qed

lemma bind_ok:
  assumes ok: "def_store_ok hasher st" and free: "hash_to_id st h = None" "\<And>h'. hash_to_id st h' \<noteq> Some i"
    and d: "def_hash hasher d = h" and st': "hash_to_id st' = (hash_to_id st)(h \<mapsto> i)" "next_id st' = max (next_id st) (i + 1)"
      "\<And>j. resolve st' j = (if j = i then Some d else resolve st j)"
  shows "def_store_ok hasher st'"
  unfolding def_store_ok_def
proof (intro conjI allI impI)
  show "inj_on (hash_to_id st') (dom (hash_to_id st'))"
    using ok free unfolding def_store_ok_def inj_on_def st'(1) by (auto simp: domIff)
  show "j < next_id st'" if "hash_to_id st' h' = Some j" for h' j
    using that ok unfolding def_store_ok_def st'(1,2) by (cases "h' = h") (auto simp: less_max_iff_disj)
  show "hash_to_id st' (def_hash hasher e) = Some j" if "resolve st' j = Some e" for j e
    using that ok d free unfolding def_store_ok_def st'(1,3) by (cases "j = i") (fastforce split: if_splits)+
qed

lemma fill_slot_ok:
  assumes ok: "def_store_ok hasher st" and bound: "hash_to_id st h = Some i" and d: "def_hash hasher d = h"
  shows "def_store_ok hasher (put_slot i d st)"
  using ok bound d unfolding def_store_ok_def by (auto simp: less_max_iff_disj split: if_splits)

text \<open>No hash but \<open>h\<close> holds the id \<open>i\<close>, not even by a reservation whose slot is still empty.\<close>

definition id_free_for :: "('i, 'j) task_def_store \<Rightarrow> nat \<Rightarrow> string \<Rightarrow> bool" where
  "id_free_for st i h \<longleftrightarrow> (\<forall>h'. hash_to_id st h' = Some i \<longrightarrow> h' = h)"

lemma alloc_ok:
  assumes "def_store_ok hasher st"
  shows "def_store_ok hasher (snd (alloc_for_hash h st))"
    and "hash_to_id (snd (alloc_for_hash h st)) h = Some (fst (alloc_for_hash h st))"
    and "hash_to_id st h' = Some i \<Longrightarrow> hash_to_id (snd (alloc_for_hash h st)) h' = Some i"
proof -
  have "def_store_ok hasher (st\<lparr>next_id := next_id st + 1, hash_to_id := (hash_to_id st)(h \<mapsto> next_id st)\<rparr>)"
    if "hash_to_id st h = None"
    unfolding def_store_ok_def
  proof (intro conjI allI impI)
    have fresh: "hash_to_id st h' \<noteq> Some (next_id st)" for h' using assms unfolding def_store_ok_def by blast
    then show "inj_on (hash_to_id (st\<lparr>next_id := next_id st + 1, hash_to_id := (hash_to_id st)(h \<mapsto> next_id st)\<rparr>))
        (dom (hash_to_id (st\<lparr>next_id := next_id st + 1, hash_to_id := (hash_to_id st)(h \<mapsto> next_id st)\<rparr>)))"
      using assms unfolding def_store_ok_def inj_on_def by (auto simp: domIff)
  qed (use assms that in \<open>auto simp: def_store_ok_def less_Suc_eq split: if_splits\<close>)
  then show "def_store_ok hasher (snd (alloc_for_hash h st))"
    and "hash_to_id (snd (alloc_for_hash h st)) h = Some (fst (alloc_for_hash h st))"
    and "hash_to_id st h' = Some i \<Longrightarrow> hash_to_id (snd (alloc_for_hash h st)) h' = Some i"
    using assms by (auto simp: alloc_for_hash_def alloc_def split: option.split)
qed

lemma intern_ok:
  assumes "def_store_ok hasher st" and "def_hash hasher d = h"
  shows "def_store_ok hasher (snd (intern h d st))"
proof (cases "hash_to_id st h")
  case None
  have "hash_to_id st h' \<noteq> Some (next_id st)" for h' using assms(1) unfolding def_store_ok_def by blast
  then show ?thesis
    using bind_ok [OF assms(1) None _ assms(2), of "next_id st" "snd (intern h d st)"] None
    by (simp add: intern_def intern_reporting_placement_def alloc_def)
qed (simp add: assms intern_def intern_reporting_placement_def)

text \<open>
  filing a definition under an id carried by a mutation keeps hashes and ids in bijection. If
  the id is not held by another hash, it is accepted exactly when the hash has no other id: the
  slot then holds a definition with this content hash, and every earlier binding and definition
  is unchanged. If it is refused, the registry is unchanged, and the hash is bound to another id
  or the slot holds a definition of another hash.
\<close>

theorem intern_at_bijection:
  assumes "def_store_ok hasher st" and "def_hash hasher d = h" and "intern_at i h d st = (r, st')"
  shows "(id_free_for st i h \<and> hash_to_id st h \<in> {None, Some i} \<longrightarrow>
      r = Inr i \<and> def_store_ok hasher st' \<and> hash_to_id st' h = Some i \<and>
      (\<exists>e. resolve st' i = Some e \<and> def_hash hasher e = h) \<and>
      (\<forall>h'. h' \<noteq> h \<longrightarrow> hash_to_id st' h' = hash_to_id st h') \<and> (\<forall>j e. resolve st j = Some e \<longrightarrow> resolve st' j = Some e)) \<and>
    (\<forall>e. r = Inl e \<longrightarrow> st' = st \<and>
      ((\<exists>j. j \<noteq> i \<and> hash_to_id st h = Some j) \<or> (\<exists>d'. resolve st i = Some d' \<and> def_hash hasher d' \<noteq> h)))"
proof (cases "hash_to_id st h")
  case None
  have occupied: "resolve st i = Some e \<Longrightarrow> hash_to_id st (def_hash hasher e) = Some i \<and> def_hash hasher e \<noteq> h" for e
    using assms(1) None by (auto simp: def_store_ok_def)
  have "def_store_ok hasher st'" if free: "id_free_for st i h" "resolve st i = None"
  proof -
    have "hash_to_id st h' \<noteq> Some i" for h' using free(1) None by (auto simp: id_free_for_def)
    then show ?thesis
      using bind_ok [OF assms(1) None _ _, of i "d\<lparr>f_def_id := i\<rparr>" st'] assms(2,3) free None
      by (auto simp: intern_at_def)
  qed
  then show ?thesis
    using assms(2,3) None occupied by (cases "resolve st i") (auto simp: intern_at_def id_free_for_def)
next
  case (Some j)
  have "def_store_ok hasher (put_slot i (d\<lparr>f_def_id := i\<rparr>) st)" if "j = i"
    using fill_slot_ok [OF assms(1)] Some that assms(2) by simp
  then show ?thesis
    using assms Some def_store_ok_slot [OF assms(1)] by (auto simp: intern_at_def split: if_splits)
qed

definition sample_def :: "string \<Rightarrow> (unit, unit) frozen_task_def" where
  "sample_def t = \<lparr>f_def_id = unbound_id, f_affine_id = None, f_path = t, f_size = 0, f_identifier = (), f_phase_id = ''p'',
     f_type_id = ''t'', f_kind = Work, f_setup_affinity = None, f_upload_file = None, f_required_files = None,
     f_affinity_id = None, f_payload = (), f_task_id = t, f_task_depends_on = []\<rparr>"

lemma empty_def_store_ok: "def_store_ok hasher empty_def_store"
  by (simp add: def_store_ok_def empty_def_store_def resolve_def)

theorem intern_at_bijection_witness:
  "fst (intern_at 3 (def_hash (\<lambda>_. 0) (sample_def ''a'')) (sample_def ''a'') empty_def_store) = Inr 3"
  using intern_at_bijection [where hasher = "\<lambda>_. 0" and d = "sample_def ''a''" and i = 3
      and r = "fst (intern_at 3 (def_hash (\<lambda>_. 0) (sample_def ''a'')) (sample_def ''a'') empty_def_store)"
      and st' = "snd (intern_at 3 (def_hash (\<lambda>_. 0) (sample_def ''a'')) (sample_def ''a'') empty_def_store)",
      OF empty_def_store_ok refl]
  by (simp add: id_free_for_def empty_def_store_def)

text \<open>
  an id reserved for one hash whose definition is not filed yet can be taken by another hash:
  only an occupied slot is refused. Filing the first definition then succeeds as a repetition,
  but the slot holds the other definition, so the first hash resolves to a task that is not its
  own and both hashes have the same id.
\<close>

theorem reserved_id_aliased:
  assumes "def_store_ok hasher st" and "hash_to_id st ha = None" and "hash_to_id st hb = None" and "ha \<noteq> hb"
    and "resolve st (next_id st) = None"
    and "alloc_for_hash ha st = (i, st1)" and "intern_at i hb db st1 = (r2, st2)" and "intern_at i ha da st2 = (r1, st3)"
  shows "r2 = Inr i \<and> r1 = Inr i \<and> hash_to_id st3 ha = Some i \<and> hash_to_id st3 hb = Some i \<and>
    resolve st3 i = Some (db\<lparr>f_def_id := i\<rparr>)"
  using assms by (auto simp: alloc_for_hash_def alloc_def intern_at_def)

theorem reserved_id_aliased_witness:
  "resolve (snd (intern_at 0 ''h1'' (sample_def ''a'')
     (snd (intern_at 0 ''h2'' (sample_def ''b'') (snd (alloc_for_hash ''h1'' empty_def_store)))))) 0 =
   Some (sample_def ''b''\<lparr>f_def_id := 0\<rparr>)"
proof -
  let ?st1 = "snd (alloc_for_hash ''h1'' (empty_def_store :: (unit, unit) task_def_store))"
  let ?st2 = "snd (intern_at 0 ''h2'' (sample_def ''b'') ?st1)"
  have h: "hash_to_id (empty_def_store :: (unit, unit) task_def_store) k = None" for k
    by (simp add: empty_def_store_def)
  have r: "resolve (empty_def_store :: (unit, unit) task_def_store) (next_id (empty_def_store :: (unit, unit) task_def_store)) = None"
    by (simp add: empty_def_store_def resolve_def)
  have a: "alloc_for_hash ''h1'' (empty_def_store :: (unit, unit) task_def_store) = (0, ?st1)"
    by (simp add: alloc_for_hash_def alloc_def empty_def_store_def)
  have "''h1'' \<noteq> ''h2''" by simp
  from reserved_id_aliased [OF empty_def_store_ok h h this r a, where da = "sample_def ''a''" and db = "sample_def ''b''", OF
      prod.collapse [symmetric] prod.collapse [symmetric]]
  show ?thesis by blast
qed

end
