(* ===== verification/Ledger_Types.thy ===== *)
theory Ledger_Types
  imports Replica Def_Store
begin

text \<open>
  The states of a task in the ledger and the one order in which all replicas join them
  (\<open>cluster_state/types.rs\<close>, first part of \<open>cluster_state/merge.rs\<close>, \<open>cluster_state/outcome_tally.rs\<close>).
  A state is ranked by its attempt, then by its band (waiting, blocked, final), then by what
  ended it, its version and the hash of its error text; a state replaces another exactly when it
  ranks strictly above it. The hasher of the standard library is the parameter \<open>h\<close>.
\<close>

section \<open>Task states\<close>

datatype ('i, 'j) task_state =
    TPending "('i, 'j) frozen_task_def" task_routing task_version nat
  | TInFlight "('i, 'j) frozen_task_def" task_routing string worker_id task_version nat
  | TCompleted "('i, 'j) frozen_task_def" task_routing nat
  | TFailed "('i, 'j) frozen_task_def" task_routing error_type string task_version nat
  | TUnfulfillable "('i, 'j) frozen_task_def" task_routing string string task_version nat
  | TBlocked "('i, 'j) frozen_task_def" task_routing string nat
  | TInvalidTask "('i, 'j) frozen_task_def" task_routing string string task_version nat
  | TSkippedAlreadyDone "('i, 'j) frozen_task_def" task_routing nat
  | TSetupCompleted "('i, 'j) frozen_task_def" task_routing nat

fun state_def :: "('i, 'j) task_state \<Rightarrow> ('i, 'j) frozen_task_def" where
  "state_def (TPending d _ _ _) = d"
| "state_def (TInFlight d _ _ _ _ _) = d"
| "state_def (TCompleted d _ _) = d"
| "state_def (TFailed d _ _ _ _ _) = d"
| "state_def (TUnfulfillable d _ _ _ _ _) = d"
| "state_def (TInvalidTask d _ _ _ _ _) = d"
| "state_def (TSkippedAlreadyDone d _ _) = d"
| "state_def (TSetupCompleted d _ _) = d"
| "state_def (TBlocked d _ _ _) = d"

fun state_routing :: "('i, 'j) task_state \<Rightarrow> task_routing" where
  "state_routing (TPending _ r _ _) = r"
| "state_routing (TInFlight _ r _ _ _ _) = r"
| "state_routing (TCompleted _ r _) = r"
| "state_routing (TFailed _ r _ _ _ _) = r"
| "state_routing (TUnfulfillable _ r _ _ _ _) = r"
| "state_routing (TInvalidTask _ r _ _ _ _) = r"
| "state_routing (TSkippedAlreadyDone _ r _) = r"
| "state_routing (TSetupCompleted _ r _) = r"
| "state_routing (TBlocked _ r _ _) = r"

text \<open>\<open>routing_mut\<close> and \<open>def_mut\<close>: the same state with another routing or definition.\<close>

fun with_routing :: "task_routing \<Rightarrow> ('i, 'j) task_state \<Rightarrow> ('i, 'j) task_state" where
  "with_routing r (TPending d _ v a) = TPending d r v a"
| "with_routing r (TInFlight d _ s w v a) = TInFlight d r s w v a"
| "with_routing r (TCompleted d _ a) = TCompleted d r a"
| "with_routing r (TFailed d _ k e v a) = TFailed d r k e v a"
| "with_routing r (TUnfulfillable d _ x e v a) = TUnfulfillable d r x e v a"
| "with_routing r (TInvalidTask d _ x e v a) = TInvalidTask d r x e v a"
| "with_routing r (TSkippedAlreadyDone d _ a) = TSkippedAlreadyDone d r a"
| "with_routing r (TSetupCompleted d _ a) = TSetupCompleted d r a"
| "with_routing r (TBlocked d _ p a) = TBlocked d r p a"

fun with_def :: "('i, 'j) frozen_task_def \<Rightarrow> ('i, 'j) task_state \<Rightarrow> ('i, 'j) task_state" where
  "with_def d (TPending _ r v a) = TPending d r v a"
| "with_def d (TInFlight _ r s w v a) = TInFlight d r s w v a"
| "with_def d (TCompleted _ r a) = TCompleted d r a"
| "with_def d (TFailed _ r k e v a) = TFailed d r k e v a"
| "with_def d (TUnfulfillable _ r x e v a) = TUnfulfillable d r x e v a"
| "with_def d (TInvalidTask _ r x e v a) = TInvalidTask d r x e v a"
| "with_def d (TSkippedAlreadyDone _ r a) = TSkippedAlreadyDone d r a"
| "with_def d (TSetupCompleted _ r a) = TSetupCompleted d r a"
| "with_def d (TBlocked _ r p a) = TBlocked d r p a"

fun state_attempt :: "('i, 'j) task_state \<Rightarrow> nat" where
  "state_attempt (TPending _ _ _ a) = a"
| "state_attempt (TInFlight _ _ _ _ _ a) = a"
| "state_attempt (TCompleted _ _ a) = a"
| "state_attempt (TFailed _ _ _ _ _ a) = a"
| "state_attempt (TUnfulfillable _ _ _ _ _ a) = a"
| "state_attempt (TInvalidTask _ _ _ _ _ a) = a"
| "state_attempt (TSkippedAlreadyDone _ _ a) = a"
| "state_attempt (TSetupCompleted _ _ a) = a"
| "state_attempt (TBlocked _ _ _ a) = a"

fun attempt_if_failed :: "('i, 'j) task_state \<Rightarrow> nat option" where
  "attempt_if_failed (TFailed _ _ _ _ _ a) = Some a"
| "attempt_if_failed _ = None"

fun state_is_terminal :: "('i, 'j) task_state \<Rightarrow> bool" where
  "state_is_terminal (TPending _ _ _ _) = False"
| "state_is_terminal (TInFlight _ _ _ _ _ _) = False"
| "state_is_terminal (TBlocked _ _ _ _) = False"
| "state_is_terminal _ = True"

fun holder :: "('i, 'j) task_state \<Rightarrow> (string \<times> worker_id) option" where
  "holder (TInFlight _ _ s w _ _) = Some (s, w)"
| "holder _ = None"

fun state_tag :: "('i, 'j) task_state \<Rightarrow> string" where
  "state_tag (TPending _ _ _ _) = ''pending''"
| "state_tag (TInFlight _ _ _ _ _ _) = ''in-flight''"
| "state_tag (TCompleted _ _ _) = ''completed''"
| "state_tag (TFailed _ _ _ _ _ _) = ''failed''"
| "state_tag (TUnfulfillable _ _ _ _ _ _) = ''unfulfillable''"
| "state_tag (TBlocked _ _ _ _) = ''blocked''"
| "state_tag (TInvalidTask _ _ _ _ _ _) = ''invalid-task''"
| "state_tag (TSkippedAlreadyDone _ _ _) = ''skipped-already-done''"
| "state_tag (TSetupCompleted _ _ _) = ''setup-completed''"

record task_completed_event =
  tc_task_id :: task_id
  tc_task_hash :: string
  tc_success :: bool
  tc_error_kind :: "string option"
  tc_last_error :: "string option"

fun to_completed_event :: "string \<Rightarrow> ('i, 'j) task_state \<Rightarrow> task_completed_event option" where
  "to_completed_event hash (TCompleted d _ _) = Some
     \<lparr>tc_task_id = f_task_id d, tc_task_hash = hash, tc_success = True, tc_error_kind = None, tc_last_error = None\<rparr>"
| "to_completed_event hash (TFailed d _ k e _ _) = Some
     \<lparr>tc_task_id = f_task_id d, tc_task_hash = hash, tc_success = False, tc_error_kind = Some (wire_value k), tc_last_error = Some e\<rparr>"
| "to_completed_event hash (TUnfulfillable d _ reason e _ _) = Some
     \<lparr>tc_task_id = f_task_id d, tc_task_hash = hash, tc_success = False,
      tc_error_kind = Some (''unfulfillable:'' @ reason), tc_last_error = Some e\<rparr>"
| "to_completed_event hash (TInvalidTask d _ reason e _ _) = Some
     \<lparr>tc_task_id = f_task_id d, tc_task_hash = hash, tc_success = False,
      tc_error_kind = Some (''invalid_task:'' @ reason), tc_last_error = Some e\<rparr>"
| "to_completed_event hash _ = None"

section \<open>Join keys\<close>

datatype join_band = NonTerminalBand | BlockedBand | TerminalBand
datatype terminal_rank = SkippedRank | SetupCompletedRank | FailedLikeRank | CompletedRank | InvalidTaskRank
datatype nonterminal_rank = PendingRank | InFlightRank
datatype failedlike_rank = FailedSub | UnfulfillableSub

record join_key =
  jk_attempt :: nat
  jk_band :: join_band
  jk_terminal_rank :: terminal_rank
  jk_version :: task_version
  jk_nonterminal_rank :: nonterminal_rank
  jk_failedlike :: failedlike_rank
  jk_payload_hash :: nat

text \<open>What is hashed: a discriminant, alone or with two strings.\<close>

datatype payload_input = PTag nat | PText nat string string

type_synonym payload_hasher = "payload_input \<Rightarrow> nat"

definition completed_payload_hash :: "payload_hasher \<Rightarrow> nat" where
  "completed_payload_hash h = h (PTag 0)"
definition failed_payload_hash :: "payload_hasher \<Rightarrow> string \<Rightarrow> string \<Rightarrow> nat" where
  "failed_payload_hash h kind_wire last_error = h (PText 1 kind_wire last_error)"
definition unfulfillable_payload_hash :: "payload_hasher \<Rightarrow> string \<Rightarrow> string \<Rightarrow> nat" where
  "unfulfillable_payload_hash h reason last_error = h (PText 2 reason last_error)"
definition invalid_task_payload_hash :: "payload_hasher \<Rightarrow> string \<Rightarrow> string \<Rightarrow> nat" where
  "invalid_task_payload_hash h reason last_error = h (PText 3 reason last_error)"
definition skipped_payload_hash :: "payload_hasher \<Rightarrow> nat" where
  "skipped_payload_hash h = h (PTag 4)"
definition setup_completed_payload_hash :: "payload_hasher \<Rightarrow> nat" where
  "setup_completed_payload_hash h = h (PTag 5)"

fun terminal_payload_hash :: "payload_hasher \<Rightarrow> ('i, 'j) task_state \<Rightarrow> nat" where
  "terminal_payload_hash h (TCompleted _ _ _) = completed_payload_hash h"
| "terminal_payload_hash h (TFailed _ _ k e _ _) = failed_payload_hash h (wire_value k) e"
| "terminal_payload_hash h (TUnfulfillable _ _ r e _ _) = unfulfillable_payload_hash h r e"
| "terminal_payload_hash h (TInvalidTask _ _ r e _ _) = invalid_task_payload_hash h r e"
| "terminal_payload_hash h (TSkippedAlreadyDone _ _ _) = skipped_payload_hash h"
| "terminal_payload_hash h (TSetupCompleted _ _ _) = setup_completed_payload_hash h"
| "terminal_payload_hash h _ = 0"

definition key_pending :: "nat \<Rightarrow> task_version \<Rightarrow> join_key" where
  "key_pending a v = \<lparr>jk_attempt = a, jk_band = NonTerminalBand, jk_terminal_rank = FailedLikeRank, jk_version = v,
     jk_nonterminal_rank = PendingRank, jk_failedlike = FailedSub, jk_payload_hash = 0\<rparr>"
definition key_in_flight :: "nat \<Rightarrow> task_version \<Rightarrow> join_key" where
  "key_in_flight a v = \<lparr>jk_attempt = a, jk_band = NonTerminalBand, jk_terminal_rank = FailedLikeRank, jk_version = v,
     jk_nonterminal_rank = InFlightRank, jk_failedlike = FailedSub, jk_payload_hash = 0\<rparr>"
definition key_completed :: "payload_hasher \<Rightarrow> nat \<Rightarrow> join_key" where
  "key_completed h a = \<lparr>jk_attempt = a, jk_band = TerminalBand, jk_terminal_rank = CompletedRank, jk_version = default_version,
     jk_nonterminal_rank = PendingRank, jk_failedlike = FailedSub, jk_payload_hash = completed_payload_hash h\<rparr>"
definition key_failed :: "nat \<Rightarrow> task_version \<Rightarrow> nat \<Rightarrow> join_key" where
  "key_failed a v p = \<lparr>jk_attempt = a, jk_band = TerminalBand, jk_terminal_rank = FailedLikeRank, jk_version = v,
     jk_nonterminal_rank = PendingRank, jk_failedlike = FailedSub, jk_payload_hash = p\<rparr>"
definition key_unfulfillable :: "nat \<Rightarrow> task_version \<Rightarrow> nat \<Rightarrow> join_key" where
  "key_unfulfillable a v p = \<lparr>jk_attempt = a, jk_band = TerminalBand, jk_terminal_rank = FailedLikeRank, jk_version = v,
     jk_nonterminal_rank = PendingRank, jk_failedlike = UnfulfillableSub, jk_payload_hash = p\<rparr>"
definition key_invalid_task :: "nat \<Rightarrow> task_version \<Rightarrow> nat \<Rightarrow> join_key" where
  "key_invalid_task a v p = \<lparr>jk_attempt = a, jk_band = TerminalBand, jk_terminal_rank = InvalidTaskRank, jk_version = v,
     jk_nonterminal_rank = PendingRank, jk_failedlike = FailedSub, jk_payload_hash = p\<rparr>"
definition key_skipped :: "payload_hasher \<Rightarrow> nat \<Rightarrow> join_key" where
  "key_skipped h a = \<lparr>jk_attempt = a, jk_band = TerminalBand, jk_terminal_rank = SkippedRank, jk_version = default_version,
     jk_nonterminal_rank = PendingRank, jk_failedlike = FailedSub, jk_payload_hash = skipped_payload_hash h\<rparr>"
definition key_setup_completed :: "payload_hasher \<Rightarrow> nat \<Rightarrow> join_key" where
  "key_setup_completed h a = \<lparr>jk_attempt = a, jk_band = TerminalBand, jk_terminal_rank = SetupCompletedRank, jk_version = default_version,
     jk_nonterminal_rank = PendingRank, jk_failedlike = FailedSub, jk_payload_hash = setup_completed_payload_hash h\<rparr>"

fun task_join_key :: "payload_hasher \<Rightarrow> ('i, 'j) task_state \<Rightarrow> join_key" where
  "task_join_key h (TPending _ _ v a) = key_pending a v"
| "task_join_key h (TInFlight _ _ _ _ v a) = key_in_flight a v"
| "task_join_key h (TBlocked _ _ _ a) = \<lparr>jk_attempt = a, jk_band = BlockedBand, jk_terminal_rank = FailedLikeRank,
     jk_version = default_version, jk_nonterminal_rank = PendingRank, jk_failedlike = FailedSub, jk_payload_hash = 0\<rparr>"
| "task_join_key h (TCompleted _ _ a) = key_completed h a"
| "task_join_key h (TFailed d r k e v a) = key_failed a v (terminal_payload_hash h (TFailed d r k e v a))"
| "task_join_key h (TUnfulfillable d r x e v a) = key_unfulfillable a v (terminal_payload_hash h (TUnfulfillable d r x e v a))"
| "task_join_key h (TInvalidTask d r x e v a) = key_invalid_task a v (terminal_payload_hash h (TInvalidTask d r x e v a))"
| "task_join_key h (TSkippedAlreadyDone _ _ a) = key_skipped h a"
| "task_join_key h (TSetupCompleted _ _ a) = key_setup_completed h a"

fun probe_key_for_failed_mutation :: "payload_hasher \<Rightarrow> error_type \<Rightarrow> string \<Rightarrow> task_version \<Rightarrow> nat \<Rightarrow> join_key" where
  "probe_key_for_failed_mutation h (Unfulfillable reason) e v a = key_unfulfillable a v (unfulfillable_payload_hash h reason e)"
| "probe_key_for_failed_mutation h (InvalidTask reason) e v a = key_invalid_task a v (invalid_task_payload_hash h reason e)"
| "probe_key_for_failed_mutation h k e v a = key_failed a v (failed_payload_hash h (wire_value k) e)"

text \<open>
  The derived order of \<open>TaskJoinKey\<close>: lexicographic in the fields, with the discriminants of the
  ranks.
\<close>

fun band_discriminant :: "join_band \<Rightarrow> nat" where
  "band_discriminant NonTerminalBand = 0"
| "band_discriminant BlockedBand = 1"
| "band_discriminant TerminalBand = 2"

fun terminal_discriminant :: "terminal_rank \<Rightarrow> nat" where
  "terminal_discriminant SkippedRank = 0"
| "terminal_discriminant SetupCompletedRank = 1"
| "terminal_discriminant FailedLikeRank = 2"
| "terminal_discriminant CompletedRank = 3"
| "terminal_discriminant InvalidTaskRank = 4"

fun nonterminal_discriminant :: "nonterminal_rank \<Rightarrow> nat" where
  "nonterminal_discriminant PendingRank = 0"
| "nonterminal_discriminant InFlightRank = 1"

fun failedlike_discriminant :: "failedlike_rank \<Rightarrow> nat" where
  "failedlike_discriminant FailedSub = 0"
| "failedlike_discriminant UnfulfillableSub = 1"

type_synonym key_tuple = "nat \<times> nat \<times> nat \<times> task_version \<times> nat \<times> nat \<times> nat"

definition key_order :: "join_key \<Rightarrow> key_tuple" where
  "key_order k = (jk_attempt k, band_discriminant (jk_band k), terminal_discriminant (jk_terminal_rank k), jk_version k,
     nonterminal_discriminant (jk_nonterminal_rank k), failedlike_discriminant (jk_failedlike k), jk_payload_hash k)"

definition task_join_key_dominates :: "join_key \<Rightarrow> join_key \<Rightarrow> bool" where
  "task_join_key_dominates incoming x \<longleftrightarrow> key_order incoming > key_order x"

abbreviation state_key :: "payload_hasher \<Rightarrow> ('i, 'j) task_state \<Rightarrow> key_tuple" where
  "state_key h s \<equiv> key_order (task_join_key h s)"

lemmas key_defs = key_pending_def key_in_flight_def key_completed_def key_failed_def key_unfulfillable_def
  key_invalid_task_def key_skipped_def key_setup_completed_def

lemma key_order_inj: "key_order k = key_order k' \<longleftrightarrow> k = k'"
proof
  have "terminal_discriminant a = terminal_discriminant b \<Longrightarrow> a = b" for a b by (cases a; cases b) auto
  moreover have "band_discriminant a = band_discriminant b \<Longrightarrow> a = b" for a b by (cases a; cases b) auto
  moreover have "nonterminal_discriminant a = nonterminal_discriminant b \<Longrightarrow> a = b" for a b by (cases a; cases b) auto
  moreover have "failedlike_discriminant a = failedlike_discriminant b \<Longrightarrow> a = b" for a b by (cases a; cases b) auto
  moreover assume "key_order k = key_order k'"
  ultimately show "k = k'" by (auto simp: key_order_def intro!: join_key.equality)
qed simp

lemma with_key [simp]: "task_join_key h (with_routing r s) = task_join_key h s" "task_join_key h (with_def d s) = task_join_key h s"
  by (cases s; simp)+

lemma key_attempt [simp]: "jk_attempt (task_join_key h s) = state_attempt s"
  by (cases s) (simp_all add: key_defs)

lemma key_order_attempt: "key_order k < key_order k' \<Longrightarrow> jk_attempt k \<le> jk_attempt k'"
  by (auto simp: key_order_def less_prod_def')

section \<open>One task's states joined\<close>

text \<open>What a replica keeps when a state arrives for a task it has.\<close>

definition state_join :: "payload_hasher \<Rightarrow> ('i, 'j) task_state \<Rightarrow> ('i, 'j) task_state \<Rightarrow> ('i, 'j) task_state" where
  "state_join h x incoming =
     (if task_join_key_dominates (task_join_key h incoming) (task_join_key h x) then incoming else x)"

interpretation state_register: lww_register "state_key h" "state_join h" for h
  by unfold_locales (simp_all add: state_join_def task_join_key_dominates_def)

section \<open>Outcome buckets\<close>

datatype outcome_bucket = BSucceeded | BFailRetry | BFailOom | BFailFinal | BSkipped | BSetupSucceeded

record outcome_summary =
  o_succeeded :: nat
  o_fail_retry :: nat
  o_fail_oom :: nat
  o_fail_final :: nat
  o_skipped :: nat
  o_setup_succeeded :: nat

definition zero_summary :: outcome_summary where
  "zero_summary = \<lparr>o_succeeded = 0, o_fail_retry = 0, o_fail_oom = 0, o_fail_final = 0, o_skipped = 0, o_setup_succeeded = 0\<rparr>"

fun bucket_for_failed_kind :: "error_type \<Rightarrow> outcome_bucket" where
  "bucket_for_failed_kind Recoverable = BFailRetry"
| "bucket_for_failed_kind (ResourceExhausted k) = (if k = memory_kind then BFailOom else BFailFinal)"
| "bucket_for_failed_kind NonRecoverable = BFailFinal"
| "bucket_for_failed_kind (Unfulfillable _) = BFailFinal"
| "bucket_for_failed_kind (InvalidTask _) = BFailFinal"

fun outcome_bucket_of :: "('i, 'j) task_state \<Rightarrow> outcome_bucket option" where
  "outcome_bucket_of (TCompleted _ _ _) = Some BSucceeded"
| "outcome_bucket_of (TFailed _ _ k _ _ _) = Some (bucket_for_failed_kind k)"
| "outcome_bucket_of (TUnfulfillable _ _ _ _ _ _) = Some BFailFinal"
| "outcome_bucket_of (TInvalidTask _ _ _ _ _ _) = Some BFailFinal"
| "outcome_bucket_of (TSkippedAlreadyDone _ _ _) = Some BSkipped"
| "outcome_bucket_of (TSetupCompleted _ _ _) = Some BSetupSucceeded"
| "outcome_bucket_of _ = None"

fun bump_field :: "(nat \<Rightarrow> nat) \<Rightarrow> outcome_bucket \<Rightarrow> outcome_summary \<Rightarrow> outcome_summary" where
  "bump_field f BSucceeded s = s\<lparr>o_succeeded := f (o_succeeded s)\<rparr>"
| "bump_field f BFailRetry s = s\<lparr>o_fail_retry := f (o_fail_retry s)\<rparr>"
| "bump_field f BFailOom s = s\<lparr>o_fail_oom := f (o_fail_oom s)\<rparr>"
| "bump_field f BFailFinal s = s\<lparr>o_fail_final := f (o_fail_final s)\<rparr>"
| "bump_field f BSkipped s = s\<lparr>o_skipped := f (o_skipped s)\<rparr>"
| "bump_field f BSetupSucceeded s = s\<lparr>o_setup_succeeded := f (o_setup_succeeded s)\<rparr>"

definition tally_swap :: "outcome_bucket option \<Rightarrow> outcome_bucket option \<Rightarrow> outcome_summary \<Rightarrow> outcome_summary" where
  "tally_swap old_bucket new_bucket s =
     (let s1 = (case old_bucket of Some b \<Rightarrow> bump_field (\<lambda>n. n - 1) b s | None \<Rightarrow> s)
      in case new_bucket of Some b \<Rightarrow> bump_field (\<lambda>n. n + 1) b s1 | None \<Rightarrow> s1)"

fun bucket_count :: "outcome_summary \<Rightarrow> outcome_bucket \<Rightarrow> nat" where
  "bucket_count s BSucceeded = o_succeeded s"
| "bucket_count s BFailRetry = o_fail_retry s"
| "bucket_count s BFailOom = o_fail_oom s"
| "bucket_count s BFailFinal = o_fail_final s"
| "bucket_count s BSkipped = o_skipped s"
| "bucket_count s BSetupSucceeded = o_setup_succeeded s"

lemma bucket_count_bump [simp]: "bucket_count (bump_field f b s) c = (if c = b then f (bucket_count s b) else bucket_count s c)"
  by (cases b; cases c) simp_all

lemma bucket_count_swap:
  "bucket_count (tally_swap x y s) c =
     (bucket_count s c - (if x = Some c then 1 else 0)) + (if y = Some c then 1 else 0)"
  by (cases x; cases y) (auto simp: tally_swap_def)

lemma bucket_count_zero [simp]: "bucket_count zero_summary b = 0"
  by (cases b) (simp_all add: zero_summary_def)

definition total_terminal :: "outcome_summary \<Rightarrow> nat" where
  "total_terminal s = o_succeeded s + o_fail_retry s + o_fail_oom s + o_fail_final s + o_skipped s + o_setup_succeeded s"

end
