(* ===== verification/Membership.thy ===== *)
theory Membership
  imports Replica Task_Types
begin

text \<open>
  Cluster membership as every replica of the ledger keeps it (\<open>cluster_state/apply_peer.rs\<close>, the
  capability part of \<open>cluster_state/merge.rs\<close> and the membership part of
  \<open>cluster_state/snapshot.rs\<close>): the liveness and the generation of each peer, the capability each
  peer advertised or the tombstone of its departure, and the role table projected from both. A
  removal holds within one generation; a peer is admitted again under a greater one.

  The batch system's evidence that a peer's job is running is the parameter \<open>authority\<close>
  (\<open>authority_snapshot.peer_life(id) == Alive\<close>). Log lines, their throttle and the role-change
  hooks are left out; emitted lifecycle events are appended to \<open>lifecycle\<close>.
\<close>

section \<open>Capabilities and their merge\<close>

datatype capability_entry =
    Advertised bool bool task_version nat  \<comment> \<open>\<open>is_observer\<close>, \<open>can_be_primary\<close>, \<open>cap_version\<close>, \<open>member_gen\<close>\<close>
  | Departed nat bool bool task_version    \<comment> \<open>\<open>member_gen\<close>, \<open>is_observer\<close>, \<open>can_be_primary\<close>, \<open>cap_version\<close>\<close>

fun capability_member_gen :: "capability_entry \<Rightarrow> nat" where
  "capability_member_gen (Advertised _ _ _ g) = g"
| "capability_member_gen (Departed g _ _ _) = g"

definition fold_advertisement ::
  "bool \<Rightarrow> bool \<Rightarrow> task_version \<Rightarrow> bool \<Rightarrow> bool \<Rightarrow> task_version \<Rightarrow> bool \<times> bool \<times> task_version" where
  "fold_advertisement lo lc lv io ic iv = (lo \<or> io, if iv > lv then ic else lc, max lv iv)"

fun merge_same_gen :: "capability_entry \<Rightarrow> capability_entry \<Rightarrow> capability_entry" where
  "merge_same_gen (Departed g lo lc lv) (Departed _ io ic iv) =
     (let (obs, cbp, v) = fold_advertisement lo lc lv io ic iv in Departed g obs cbp v)"
| "merge_same_gen (Departed g lo lc lv) (Advertised _ _ _ _) = Departed g lo lc lv"
| "merge_same_gen (Advertised _ _ _ _) (Departed g io ic iv) = Departed g io ic iv"
| "merge_same_gen (Advertised lo lc lv g) (Advertised io ic iv _) =
     (let (obs, cbp, v) = fold_advertisement lo lc lv io ic iv in Advertised obs cbp v g)"

definition merge_capability :: "capability_entry \<Rightarrow> capability_entry \<Rightarrow> capability_entry" where
  "merge_capability x incoming =
     (if capability_member_gen x < capability_member_gen incoming then incoming
      else if capability_member_gen x > capability_member_gen incoming then x
      else merge_same_gen x incoming)"

section \<open>The membership state\<close>

datatype peer_life = Alive | Dead

record peer_entry =
  life :: peer_life
  member_gen :: nat
  pubkey :: "string option"
  endpoint :: "string option"

datatype removal_cause =
    KeepaliveMiss | FatalError string | SelfDeparture string | RosterReemit | PersistentDialFailure

datatype peer_lifecycle_event = Removed string removal_cause | Added string bool

record capacity_record =
  worker_count :: nat
  capacity_resources :: "(string \<times> nat) list"

record 'p resource_sample =
  sample_gen :: nat
  emitted_at_ms :: nat
  measurements :: 'p

record 'p membership =
  peer_state :: "(string \<times> peer_entry) list"
  capabilities :: "(string \<times> capability_entry) list"
  observers :: "string set"
  can_be_primary :: "string set"
  peer_holdings :: "string \<rightharpoonup> string set"
  secondary_capacities :: "string \<rightharpoonup> capacity_record"
  latest_resource_samples :: "string \<rightharpoonup> 'p resource_sample"
  lifecycle :: "peer_lifecycle_event list"

definition empty_membership :: "'p membership" where
  "empty_membership = \<lparr>peer_state = [], capabilities = [], observers = {}, can_be_primary = {},
     peer_holdings = Map.empty, secondary_capacities = Map.empty, latest_resource_samples = Map.empty,
     lifecycle = []\<rparr>"

definition is_peer_alive :: "'p membership \<Rightarrow> string \<Rightarrow> bool" where
  "is_peer_alive m peer_id =
     (case map_of (peer_state m) peer_id of Some e \<Rightarrow> life e = Alive | None \<Rightarrow> False)"

fun advertises_observer :: "capability_entry \<Rightarrow> bool" where
  "advertises_observer (Advertised obs _ _ _) = obs"
| "advertises_observer (Departed _ _ _ _) = False"

fun advertises_primary :: "capability_entry \<Rightarrow> bool" where
  "advertises_primary (Advertised _ cbp _ _) = cbp"
| "advertises_primary (Departed _ _ _ _) = False"

definition reproject_roles :: "'p membership \<Rightarrow> 'p membership" where
  "reproject_roles m = m\<lparr>
     observers := set (map fst (filter (\<lambda>(id, e). advertises_observer e \<and> is_peer_alive m id) (capabilities m))),
     can_be_primary := set (map fst (filter (\<lambda>(id, e). advertises_primary e \<and> is_peer_alive m id) (capabilities m)))\<rparr>"

definition merge_entry :: "string \<Rightarrow> capability_entry \<Rightarrow> 'p membership \<Rightarrow> bool \<times> 'p membership" where
  "merge_entry peer_id incoming m =
     (let merged = (case map_of (capabilities m) peer_id of
                      Some x \<Rightarrow> merge_capability x incoming
                    | None \<Rightarrow> incoming);
          changed = (map_of (capabilities m) peer_id \<noteq> Some merged)
      in (changed, if changed then m\<lparr>capabilities := AList.update peer_id merged (capabilities m)\<rparr> else m))"

definition merge_advertised_capability ::
  "string \<Rightarrow> bool \<Rightarrow> bool \<Rightarrow> task_version \<Rightarrow> nat \<Rightarrow> 'p membership \<Rightarrow> bool \<times> 'p membership" where
  "merge_advertised_capability peer_id obs cbp v g m = merge_entry peer_id (Advertised obs cbp v g) m"

definition merge_departed_tombstone :: "string \<Rightarrow> nat \<Rightarrow> 'p membership \<Rightarrow> bool \<times> 'p membership" where
  "merge_departed_tombstone peer_id g m =
     (let (obs, cbp, v) = (case map_of (capabilities m) peer_id of
            Some (Advertised obs cbp v _) \<Rightarrow> (obs, cbp, v)
          | Some (Departed _ obs cbp v) \<Rightarrow> (obs, cbp, v)
          | None \<Rightarrow> (False, False, default_version))
      in merge_entry peer_id (Departed g obs cbp v) m)"

section \<open>The mutations\<close>

definition join_liveness :: "string \<Rightarrow> nat \<Rightarrow> 'p membership \<Rightarrow> bool \<times> 'p membership" where
  "join_liveness peer_id g m =
     (case map_of (peer_state m) peer_id of
        None \<Rightarrow> (True, m\<lparr>peer_state := AList.update peer_id
                   \<lparr>life = Alive, member_gen = g, pubkey = None, endpoint = None\<rparr> (peer_state m)\<rparr>)
      | Some e \<Rightarrow>
          if life e = Dead
          then (True, m\<lparr>peer_state := AList.update peer_id
                  (e\<lparr>member_gen := if g > member_gen e then g else member_gen e, life := Alive\<rparr>) (peer_state m)\<rparr>)
          else if g > member_gen e
          then (True, m\<lparr>peer_state := AList.update peer_id (e\<lparr>member_gen := g\<rparr>) (peer_state m)\<rparr>)
          else (False, m))"

definition apply_peer_joined ::
  "(string \<Rightarrow> bool) \<Rightarrow> string \<Rightarrow> bool \<Rightarrow> bool \<Rightarrow> task_version \<Rightarrow> nat \<Rightarrow> 'p membership \<Rightarrow> apply_outcome \<times> 'p membership" where
  "apply_peer_joined authority peer_id obs cbp v g m =
     (if (case map_of (peer_state m) peer_id of
            Some e \<Rightarrow> life e = Dead \<and> g \<le> member_gen e \<and> \<not> authority peer_id | None \<Rightarrow> False)
      then (NoOp, m)
      else
        let (live, m1) = join_liveness peer_id g m;
            (cap, m2) = merge_advertised_capability peer_id obs cbp v g m1
        in if live \<or> cap
           then let m3 = reproject_roles m2
                in (Applied, m3\<lparr>lifecycle := lifecycle m3 @ [Added peer_id obs]\<rparr>)
           else (NoOp, m2))"

definition apply_set_can_be_primary ::
  "string \<Rightarrow> bool \<Rightarrow> task_version \<Rightarrow> 'p membership \<Rightarrow> apply_outcome \<times> 'p membership" where
  "apply_set_can_be_primary peer_id cbp v m =
     (let obs = (case map_of (capabilities m) peer_id of Some (Advertised obs _ _ _) \<Rightarrow> obs | _ \<Rightarrow> False);
          g = (case map_of (capabilities m) peer_id of
                 Some e \<Rightarrow> capability_member_gen e
               | None \<Rightarrow> (case map_of (peer_state m) peer_id of Some e \<Rightarrow> member_gen e | None \<Rightarrow> 0));
          (changed, m1) = merge_advertised_capability peer_id obs cbp v g m
      in if changed then (Applied, reproject_roles m1) else (NoOp, m1))"

fun is_self_departure :: "removal_cause \<Rightarrow> bool" where
  "is_self_departure (SelfDeparture _) = True"
| "is_self_departure _ = False"

definition remove_liveness :: "string \<Rightarrow> removal_cause \<Rightarrow> nat \<Rightarrow> 'p membership \<Rightarrow> bool \<times> 'p membership" where
  "remove_liveness peer_id cause g m =
     (if is_self_departure cause then (False, m)
      else case map_of (peer_state m) peer_id of
        None \<Rightarrow> (True, m\<lparr>peer_state := AList.update peer_id
                  \<lparr>life = Dead, member_gen = g, pubkey = None, endpoint = None\<rparr> (peer_state m)\<rparr>)
      | Some e \<Rightarrow> (life e \<noteq> Dead \<or> member_gen e < g,
                  m\<lparr>peer_state := AList.update peer_id
                    (e\<lparr>life := Dead, member_gen := max (member_gen e) g\<rparr>) (peer_state m)\<rparr>))"

definition apply_peer_removed ::
  "string \<Rightarrow> removal_cause \<Rightarrow> nat \<Rightarrow> 'p membership \<Rightarrow> apply_outcome \<times> 'p membership" where
  "apply_peer_removed peer_id cause g m =
     (if (case map_of (peer_state m) peer_id of
            Some e \<Rightarrow> (\<not> is_self_departure cause \<and> life e = Dead \<and> g \<le> member_gen e) \<or>
                      (life e = Alive \<and> g < member_gen e)
          | None \<Rightarrow> False)
      then (NoOp, m)
      else
        let (live, m1) = remove_liveness peer_id cause g m;
            (cap, m2) = merge_departed_tombstone peer_id g m1
        in if \<not> live \<and> \<not> cap then (NoOp, m2)
           else let m3 = reproject_roles m2
                in (Applied, m3\<lparr>lifecycle := lifecycle m3 @ [Removed peer_id cause]\<rparr>))"

definition apply_peer_resource_holdings_updated ::
  "nat \<Rightarrow> string \<Rightarrow> string list \<Rightarrow> nat \<Rightarrow> 'p membership \<Rightarrow> apply_outcome \<times> 'p membership" where
  "apply_peer_resource_holdings_updated epoch_now peer_id holdings epoch m =
     (if epoch < epoch_now then (NoOp, m)
      else if peer_holdings m peer_id = Some (set holdings) then (NoOp, m)
      else (Applied, m\<lparr>peer_holdings := (peer_holdings m)(peer_id \<mapsto> set holdings)\<rparr>))"

definition apply_secondary_capacity ::
  "string \<Rightarrow> nat \<Rightarrow> (string \<times> nat) list \<Rightarrow> 'p membership \<Rightarrow> apply_outcome \<times> 'p membership" where
  "apply_secondary_capacity secondary n resources m =
     (case secondary_capacities m secondary of
        None \<Rightarrow> (Applied, m\<lparr>secondary_capacities := (secondary_capacities m)(secondary \<mapsto>
                   \<lparr>worker_count = n, capacity_resources = resources\<rparr>)\<rparr>)
      | Some _ \<Rightarrow> (NoOp, m))"

definition sample_stamp :: "'p resource_sample \<Rightarrow> nat \<times> nat" where
  "sample_stamp r = (sample_gen r, emitted_at_ms r)"

definition apply_secondary_resource_sample ::
  "string \<Rightarrow> 'p resource_sample \<Rightarrow> 'p membership \<Rightarrow> apply_outcome \<times> 'p membership" where
  "apply_secondary_resource_sample secondary rec m =
     (case latest_resource_samples m secondary of
        None \<Rightarrow> (Applied, m\<lparr>latest_resource_samples := (latest_resource_samples m)(secondary \<mapsto> rec)\<rparr>)
      | Some x \<Rightarrow>
          if sample_stamp rec > sample_stamp x
          then (Applied, m\<lparr>latest_resource_samples := (latest_resource_samples m)(secondary \<mapsto> rec)\<rparr>)
          else (NoOp, m))"

section \<open>Adopting another replica's membership\<close>

definition restore_capabilities :: "(string \<times> capability_entry) list \<Rightarrow> 'p membership \<Rightarrow> bool \<times> 'p membership" where
  "restore_capabilities caps m =
     fold (\<lambda>(id, incoming) (changed, m). let (c, m1) = merge_entry id incoming m in (changed \<or> c, m1)) caps (False, m)"

definition restore_alive_one :: "(string \<rightharpoonup> nat) \<Rightarrow> string \<Rightarrow> bool \<times> 'p membership \<Rightarrow> bool \<times> 'p membership" where
  "restore_alive_one gens peer cm =
     (let (changed, m) = cm; g = (case gens peer of Some g \<Rightarrow> g | None \<Rightarrow> 0) in
      case map_of (peer_state m) peer of
        None \<Rightarrow> (True, m\<lparr>peer_state := AList.update peer
                   \<lparr>life = Alive, member_gen = g, pubkey = None, endpoint = None\<rparr> (peer_state m)\<rparr>)
      | Some e \<Rightarrow>
          if g > member_gen e
          then (True, m\<lparr>peer_state := AList.update peer (e\<lparr>life := Alive, member_gen := g\<rparr>) (peer_state m)\<rparr>)
          else (changed, m))"

definition restore_membership ::
  "(string \<times> capability_entry) list \<Rightarrow> string list \<Rightarrow> (string \<rightharpoonup> nat) \<Rightarrow> 'p membership \<Rightarrow> 'p membership" where
  "restore_membership caps alive_members gens m =
     (let (cap, m1) = restore_capabilities caps m;
          (live, m2) = fold (restore_alive_one gens) alive_members (False, m1)
      in if cap \<or> live then reproject_roles m2 else m2)"

record peer_readmission =
  re_gen :: nat
  re_observer :: bool
  re_primary :: bool

definition removed_peer_readmission :: "'p membership \<Rightarrow> string \<Rightarrow> peer_readmission option" where
  "removed_peer_readmission m peer_id =
     (case map_of (peer_state m) peer_id of
        None \<Rightarrow> None
      | Some e \<Rightarrow>
          if life e \<noteq> Dead then None
          else let (obs, cbp) = (case map_of (capabilities m) peer_id of
                 Some (Departed _ obs cbp _) \<Rightarrow> (obs, cbp)
               | Some (Advertised obs cbp _ _) \<Rightarrow> (obs, cbp)
               | None \<Rightarrow> (False, False))
               in Some \<lparr>re_gen = member_gen e + 1, re_observer = obs, re_primary = cbp\<rparr>)"

section \<open>Laws of the capability merge\<close>

lemma merge_gen [simp]: "capability_member_gen (merge_capability x y) =
    max (capability_member_gen x) (capability_member_gen y)"
  by (cases x; cases y) (auto simp: merge_capability_def fold_advertisement_def)

lemma merge_same_assoc:
  assumes "capability_member_gen x = capability_member_gen y" "capability_member_gen y = capability_member_gen z"
  shows "merge_same_gen (merge_same_gen x y) z = merge_same_gen x (merge_same_gen y z)"
  using assms by (cases x; cases y; cases z) (auto simp: fold_advertisement_def max.assoc less_max_iff_disj)

lemma merge_same_gen_gen: "capability_member_gen x = capability_member_gen y \<Longrightarrow>
    capability_member_gen (merge_same_gen x y) = capability_member_gen x"
  by (cases x; cases y) (auto simp: fold_advertisement_def)

lemma merge_assoc: "merge_capability (merge_capability x y) z = merge_capability x (merge_capability y z)"
proof -
  consider "capability_member_gen x = capability_member_gen y" "capability_member_gen y = capability_member_gen z"
    | "capability_member_gen x \<noteq> capability_member_gen y \<or> capability_member_gen y \<noteq> capability_member_gen z"
    by blast
  then show ?thesis
  proof cases
    case 1
    then show ?thesis
      using merge_same_gen_gen [of x y] merge_same_gen_gen [of y z]
      by (simp add: merge_capability_def merge_same_assoc)
  next
    case 2
    then show ?thesis
      using merge_same_gen_gen [of x y] merge_same_gen_gen [of y z]
      by (auto simp: merge_capability_def)
  qed
qed

lemma merge_idem: "merge_capability x x = x"
  by (cases x) (auto simp: merge_capability_def fold_advertisement_def)

text \<open>
  Two entries of one generation and one kind conflict when the same version carries two different
  \<open>can_be_primary\<close> bits.
\<close>

fun capability_conflict :: "capability_entry \<Rightarrow> capability_entry \<Rightarrow> bool" where
  "capability_conflict (Advertised _ c v g) (Advertised _ c' v' g') \<longleftrightarrow> g = g' \<and> v = v' \<and> c \<noteq> c'"
| "capability_conflict (Departed g _ c v) (Departed g' _ c' v') \<longleftrightarrow> g = g' \<and> v = v' \<and> c \<noteq> c'"
| "capability_conflict _ _ \<longleftrightarrow> False"

text \<open>
  the capability merge is associative and idempotent, it keeps the greater generation, and a
  departure absorbs every advertisement of its own generation. It is commutative exactly when the
  two entries do not carry different \<open>can_be_primary\<close> bits under the same version: such a pair
  is kept as each replica has it, so two replicas that merge each other's entry stay apart.
\<close>

theorem capability_merge_laws:
  "merge_capability (merge_capability x y) z = merge_capability x (merge_capability y z) \<and>
   merge_capability x x = x \<and>
   capability_member_gen (merge_capability x y) = max (capability_member_gen x) (capability_member_gen y) \<and>
   merge_capability (Departed g obs cbp v) (Advertised obs' cbp' v' g) = Departed g obs cbp v \<and>
   merge_capability (Advertised obs' cbp' v' g) (Departed g obs cbp v) = Departed g obs cbp v \<and>
   (merge_capability x y = merge_capability y x \<longleftrightarrow> \<not> capability_conflict x y)"
proof -
  have "merge_capability x y = merge_capability y x \<longleftrightarrow> \<not> capability_conflict x y"
    by (cases x; cases y) (auto simp: merge_capability_def fold_advertisement_def max.commute)
  then show ?thesis
    by (simp add: merge_assoc merge_idem) (simp add: merge_capability_def)
qed

section \<open>The role table is always the projection\<close>

definition advertised_by :: "(capability_entry \<Rightarrow> bool) \<Rightarrow> 'p membership \<Rightarrow> string set" where
  "advertised_by p m = {peer. \<exists>e. map_of (capabilities m) peer = Some e \<and> p e \<and> is_peer_alive m peer}"

definition tables_ok :: "'p membership \<Rightarrow> bool" where
  "tables_ok m \<longleftrightarrow> distinct (keys (peer_state m)) \<and> distinct (keys (capabilities m))"

definition roles_ok :: "'p membership \<Rightarrow> bool" where
  "roles_ok m \<longleftrightarrow> tables_ok m \<and>
     observers m = advertised_by advertises_observer m \<and>
     can_be_primary m = advertised_by advertises_primary m"

lemma reproject_fields [simp]: "peer_state (reproject_roles m) = peer_state m"
    "capabilities (reproject_roles m) = capabilities m" "lifecycle (reproject_roles m) = lifecycle m"
  by (simp_all add: reproject_roles_def)

lemma alive_cong: "peer_state m' = peer_state m \<Longrightarrow> is_peer_alive m' = is_peer_alive m"
  by (simp add: is_peer_alive_def fun_eq_iff)

lemma reproject_sets:
  "observers (reproject_roles m) = {peer. \<exists>e. (peer, e) \<in> set (capabilities m) \<and> advertises_observer e \<and> is_peer_alive m peer}"
  "can_be_primary (reproject_roles m) = {peer. \<exists>e. (peer, e) \<in> set (capabilities m) \<and> advertises_primary e \<and> is_peer_alive m peer}"
  by (force simp: reproject_roles_def)+

lemma reproject_ok: "tables_ok m \<Longrightarrow> roles_ok (reproject_roles m)"
  using map_of_Some_iff_mem [of "capabilities m"] alive_cong [OF reproject_fields(1), of m]
  by (simp add: roles_ok_def tables_ok_def advertised_by_def reproject_sets)

lemma roles_ok_lifecycle [simp]: "roles_ok (m\<lparr>lifecycle := l\<rparr>) = roles_ok m"
  by (simp add: roles_ok_def tables_ok_def advertised_by_def is_peer_alive_def)

lemma roles_ok_tables: "roles_ok m \<Longrightarrow> tables_ok m"
  by (simp add: roles_ok_def)

lemma merge_entry_fields:
  assumes "merge_entry p e m = (c, m')"
  shows "peer_state m' = peer_state m" and "\<not> c \<Longrightarrow> m' = m"
    and "tables_ok m \<Longrightarrow> tables_ok m'"
    and "map_of (capabilities m') = (map_of (capabilities m))(p \<mapsto>
      (case map_of (capabilities m) p of Some x \<Rightarrow> merge_capability x e | None \<Rightarrow> e))"
  using assms by (auto simp: merge_entry_def tables_ok_def Let_def fun_eq_iff split: if_splits option.splits)

lemma tombstone_is_merge: "\<exists>obs cbp v. merge_departed_tombstone p g m = merge_entry p (Departed g obs cbp v) m"
  by (auto simp: merge_departed_tombstone_def split: option.split capability_entry.split)

lemma join_liveness_fields:
  assumes "join_liveness p g m = (c, m')"
  shows "capabilities m' = capabilities m" and "\<not> c \<Longrightarrow> m' = m" and "tables_ok m \<Longrightarrow> tables_ok m'"
  using assms by (auto simp: join_liveness_def tables_ok_def split: option.splits if_splits)

lemma join_liveness_entry:
  assumes "join_liveness p g m = (c, m')"
  shows "map_of (peer_state m') = (map_of (peer_state m))(p \<mapsto>
     (case map_of (peer_state m) p of
        None \<Rightarrow> \<lparr>life = Alive, member_gen = g, pubkey = None, endpoint = None\<rparr>
      | Some e \<Rightarrow> e\<lparr>life := Alive, member_gen := max (member_gen e) g\<rparr>))"
proof (cases "map_of (peer_state m) p")
  case (Some e)
  then show ?thesis
    using assms by (cases "life e"; cases e) (auto simp: join_liveness_def max_def fun_eq_iff split: if_splits)
qed (use assms in \<open>auto simp: join_liveness_def\<close>)

lemma remove_liveness_fields:
  assumes "remove_liveness p cause g m = (c, m')"
  shows "capabilities m' = capabilities m" and "tables_ok m \<Longrightarrow> tables_ok m'"
    and "is_self_departure cause \<Longrightarrow> m' = m"
    and "\<not> is_self_departure cause \<Longrightarrow> map_of (peer_state m) p = Some e \<Longrightarrow>
      map_of (peer_state m') = (map_of (peer_state m))(p \<mapsto> e\<lparr>life := Dead, member_gen := max (member_gen e) g\<rparr>)"
  using assms by (auto simp: remove_liveness_def tables_ok_def split: option.splits if_splits)

lemma joined_ok: "roles_ok m \<Longrightarrow> roles_ok (snd (apply_peer_joined auth p obs cbp v g m))"
proof -
  assume ok: "roles_ok m"
  obtain live m1 where l: "join_liveness p g m = (live, m1)" by fastforce
  obtain cap m2 where c: "merge_entry p (Advertised obs cbp v g) m1 = (cap, m2)" by fastforce
  have "tables_ok m2" "\<not> live \<Longrightarrow> \<not> cap \<Longrightarrow> m2 = m"
    using ok join_liveness_fields [OF l] merge_entry_fields [OF c] by (auto simp: roles_ok_tables)
  then show ?thesis
    using ok by (auto simp: apply_peer_joined_def merge_advertised_capability_def l c Let_def reproject_ok)
qed

lemma removed_ok: "roles_ok m \<Longrightarrow> roles_ok (snd (apply_peer_removed p cause g m))"
proof -
  assume ok: "roles_ok m"
  obtain live m1 where l: "remove_liveness p cause g m = (live, m1)" by fastforce
  obtain cap m2 where c: "merge_departed_tombstone p g m1 = (cap, m2)" by fastforce
  then obtain e where c': "merge_entry p e m1 = (cap, m2)" using tombstone_is_merge [of p g m1] by auto
  have t: "tables_ok m2"
    using ok remove_liveness_fields [OF l] merge_entry_fields [OF c'] by (auto simp: roles_ok_tables)
  have "is_self_departure cause \<or> live" if "\<not> (case map_of (peer_state m) p of
      Some e \<Rightarrow> (\<not> is_self_departure cause \<and> life e = Dead \<and> g \<le> member_gen e) \<or> (life e = Alive \<and> g < member_gen e)
    | None \<Rightarrow> False)"
    using that l by (auto simp: remove_liveness_def split: option.splits if_splits)
  then show ?thesis
    using ok t remove_liveness_fields(3) [OF l] merge_entry_fields(2) [OF c']
    by (auto simp: apply_peer_removed_def l c Let_def reproject_ok)
qed

lemma set_primary_ok: "roles_ok m \<Longrightarrow> roles_ok (snd (apply_set_can_be_primary p cbp v m))"
proof -
  assume ok: "roles_ok m"
  obtain e where e: "apply_set_can_be_primary p cbp v m =
      (let (changed, m1) = merge_entry p e m in if changed then (Applied, reproject_roles m1) else (NoOp, m1))"
    by (simp add: apply_set_can_be_primary_def merge_advertised_capability_def Let_def)
  obtain c m1 where m1: "merge_entry p e m = (c, m1)" by fastforce
  show ?thesis
    using ok merge_entry_fields(2,3) [OF m1] by (auto simp: e m1 reproject_ok roles_ok_tables)
qed

lemma restore_capabilities_fields:
  assumes "fold (\<lambda>(p, e) (changed, m). let (c, m1) = merge_entry p e m in (changed \<or> c, m1)) caps (c0, m) = (c, m')"
    and "tables_ok m"
  shows "tables_ok m' \<and> peer_state m' = peer_state m \<and> (c0 \<longrightarrow> c) \<and> (\<not> c \<longrightarrow> m' = m)"
  using assms
proof (induction caps arbitrary: c0 m)
  case (Cons x caps)
  obtain p e where x: "x = (p, e)" by fastforce
  obtain c1 m1 where m1: "merge_entry p e m = (c1, m1)" by fastforce
  show ?case
    using Cons.IH [of "c0 \<or> c1" m1] Cons.prems merge_entry_fields [OF m1] by (auto simp: x m1)
qed auto

lemma restore_alive_fields:
  assumes "fold (restore_alive_one gens) ps (c0, m) = (c, m')" and "tables_ok m"
  shows "tables_ok m' \<and> capabilities m' = capabilities m \<and> (c0 \<longrightarrow> c) \<and> (\<not> c \<longrightarrow> m' = m)"
  using assms
proof (induction ps arbitrary: c0 m)
  case (Cons p ps)
  obtain c1 m1 where m1: "restore_alive_one gens p (c0, m) = (c1, m1)" by fastforce
  have "tables_ok m1" "capabilities m1 = capabilities m" "c0 \<longrightarrow> c1" "\<not> c1 \<longrightarrow> m1 = m"
    using m1 Cons.prems(2) by (auto simp: restore_alive_one_def tables_ok_def Let_def split: option.splits if_splits)
  then show ?case
    using Cons.IH [of c1 m1] Cons.prems(1) m1 by auto
qed auto

lemma restore_ok: "roles_ok m \<Longrightarrow> roles_ok (restore_membership caps ps gens m)"
proof -
  assume ok: "roles_ok m"
  obtain c m1 where c: "restore_capabilities caps m = (c, m1)" by fastforce
  obtain l m2 where l: "fold (restore_alive_one gens) ps (False, m1) = (l, m2)" by fastforce
  note f = restore_capabilities_fields [OF c [unfolded restore_capabilities_def]] restore_alive_fields [OF l]
  have "tables_ok m2" "\<not> c \<Longrightarrow> \<not> l \<Longrightarrow> m2 = m"
    using f ok by (auto simp: roles_ok_tables)
  then show ?thesis using ok by (auto simp: restore_membership_def c l reproject_ok)
qed

text \<open>Every history of membership mutations and snapshot restores, from the empty state.\<close>

inductive member_reachable :: "'p membership \<Rightarrow> bool" where
  start: "member_reachable empty_membership"
| joined: "member_reachable m \<Longrightarrow> member_reachable (snd (apply_peer_joined auth p obs cbp v g m))"
| set_primary: "member_reachable m \<Longrightarrow> member_reachable (snd (apply_set_can_be_primary p cbp v m))"
| removed: "member_reachable m \<Longrightarrow> member_reachable (snd (apply_peer_removed p cause g m))"
| holdings: "member_reachable m \<Longrightarrow> member_reachable (snd (apply_peer_resource_holdings_updated now p hs epoch m))"
| capacity: "member_reachable m \<Longrightarrow> member_reachable (snd (apply_secondary_capacity p n rs m))"
| sample: "member_reachable m \<Longrightarrow> member_reachable (snd (apply_secondary_resource_sample p r m))"
| restored: "member_reachable m \<Longrightarrow> member_reachable (restore_membership caps ps gens m)"

text \<open>
  C33: in every membership a replica can reach, whatever mutations and snapshots it applied and in
  whatever order, the two role sets are exactly the peers that are alive and whose capability
  entry is an advertisement with the respective bit.
\<close>

theorem roles_exact:
  "member_reachable m \<Longrightarrow> observers m = advertised_by advertises_observer m \<and>
     can_be_primary m = advertised_by advertises_primary m"
proof -
  assume "member_reachable m"
  then have "roles_ok m"
  proof induction
    case start
    show ?case by (simp add: roles_ok_def tables_ok_def empty_membership_def advertised_by_def)
  next
    case (holdings m now p hs epoch)
    then show ?case by (simp add: apply_peer_resource_holdings_updated_def roles_ok_def tables_ok_def advertised_by_def is_peer_alive_def)
  next
    case (capacity m p n rs)
    then show ?case by (simp add: apply_secondary_capacity_def roles_ok_def tables_ok_def advertised_by_def is_peer_alive_def split: option.split)
  next
    case (sample m p r)
    then show ?case by (simp add: apply_secondary_resource_sample_def roles_ok_def tables_ok_def advertised_by_def is_peer_alive_def split: option.split)
  qed (simp_all add: joined_ok set_primary_ok removed_ok restore_ok)
  then show ?thesis by (simp add: roles_ok_def)
qed

definition one_member :: "unit membership" where
  "one_member = snd (apply_peer_joined (\<lambda>_. False) ''s'' False True default_version 0 empty_membership)"

theorem roles_exact_witness: "can_be_primary one_member = {''s''} \<and> advertised_by advertises_primary one_member = {''s''}"
proof -
  have "member_reachable one_member"
    unfolding one_member_def by (intro member_reachable.joined member_reachable.start)
  moreover have "can_be_primary one_member = {''s''}"
    by (auto simp: one_member_def apply_peer_joined_def empty_membership_def merge_advertised_capability_def
        join_liveness_def merge_entry_def reproject_roles_def is_peer_alive_def)
  ultimately show ?thesis using roles_exact [of one_member] by simp
qed

section \<open>Removal and re-admission\<close>

lemma roles_eq:
  assumes "roles_ok a" and "roles_ok b" and "map_of (peer_state a) = map_of (peer_state b)"
    and "map_of (capabilities a) = map_of (capabilities b)"
  shows "observers a = observers b" and "can_be_primary a = can_be_primary b"
  using assms by (auto simp: roles_ok_def advertised_by_def is_peer_alive_def)

lemma joined_newer:
  assumes "map_of (peer_state m) p = Some e" and "member_gen e < g"
    and "\<And>c. map_of (capabilities m) p = Some c \<Longrightarrow> capability_member_gen c < g"
    and m': "m' = snd (apply_peer_joined auth p obs cbp v g m)"
  shows "map_of (capabilities m') = (map_of (capabilities m))(p \<mapsto> Advertised obs cbp v g)"
    and "map_of (peer_state m') = (map_of (peer_state m))(p \<mapsto> e\<lparr>life := Alive, member_gen := g\<rparr>)"
proof -
  obtain live m1 where l: "join_liveness p g m = (live, m1)" by fastforce
  obtain cap m2 where c: "merge_entry p (Advertised obs cbp v g) m1 = (cap, m2)" by fastforce
  have m': "peer_state m' = peer_state m2" "capabilities m' = capabilities m2"
    using assms(1,2) by (auto simp: m' apply_peer_joined_def merge_advertised_capability_def l c Let_def)
  show "map_of (capabilities m') = (map_of (capabilities m))(p \<mapsto> Advertised obs cbp v g)"
    using merge_entry_fields(4) [OF c] join_liveness_fields(1) [OF l] assms(3)
    by (auto simp: m' merge_capability_def split: option.splits)
  show "map_of (peer_state m') = (map_of (peer_state m))(p \<mapsto> e\<lparr>life := Alive, member_gen := g\<rparr>)"
    using join_liveness_entry [OF l] merge_entry_fields(1) [OF c] assms(1,2) by (simp add: m' max_def)
qed

lemma removed_current:
  assumes "map_of (peer_state m) p = Some e" and "life e = Alive" and "\<not> is_self_departure cause"
    and "\<And>c. map_of (capabilities m) p = Some c \<Longrightarrow> capability_member_gen c \<le> member_gen e"
    and m': "m' = snd (apply_peer_removed p cause (member_gen e) m)"
  shows "\<exists>c. map_of (capabilities m') = (map_of (capabilities m))(p \<mapsto> c) \<and> capability_member_gen c = member_gen e"
    and "map_of (peer_state m') = (map_of (peer_state m))(p \<mapsto> e\<lparr>life := Dead\<rparr>)"
proof -
  obtain live m1 where l: "remove_liveness p cause (member_gen e) m = (live, m1)" by fastforce
  obtain cap m2 where c: "merge_departed_tombstone p (member_gen e) m1 = (cap, m2)" by fastforce
  obtain obs cbp v where c': "merge_entry p (Departed (member_gen e) obs cbp v) m1 = (cap, m2)"
    using c tombstone_is_merge [of p "member_gen e" m1] by auto
  have live: live using l assms(1-3) by (auto simp: remove_liveness_def)
  have m': "peer_state m' = peer_state m2" "capabilities m' = capabilities m2"
    using assms(1-3) live by (auto simp: m' apply_peer_removed_def l c Let_def)
  have "max (capability_member_gen x) (member_gen e) = member_gen e" if "map_of (capabilities m) p = Some x" for x
    using assms(4) [OF that] by simp
  then show "\<exists>c. map_of (capabilities m') = (map_of (capabilities m))(p \<mapsto> c) \<and> capability_member_gen c = member_gen e"
    using merge_entry_fields(4) [OF c'] remove_liveness_fields(1) [OF l]
    by (auto simp: m' split: option.splits intro!: exI)
  show "map_of (peer_state m') = (map_of (peer_state m))(p \<mapsto> e\<lparr>life := Dead\<rparr>)"
    using remove_liveness_fields(4) [OF l assms(3,1)] merge_entry_fields(1) [OF c'] by (simp add: m')
qed

lemma readmission_alive:
  assumes ok: "roles_ok m" and e: "map_of (peer_state m) p = Some e" "life e = Alive" "\<not> is_self_departure cause"
    and cap: "\<And>c. map_of (capabilities m) p = Some c \<Longrightarrow> capability_member_gen c \<le> member_gen e"
    and a_def: "a = snd (apply_peer_joined auth p obs cbp v (member_gen e + 1)
      (snd (apply_peer_removed p cause (member_gen e) m)))"
    and b_def: "b = snd (apply_peer_removed p cause (member_gen e)
      (snd (apply_peer_joined auth p obs cbp v (member_gen e + 1) m)))"
  shows "map_of (peer_state a) = map_of (peer_state b) \<and> map_of (capabilities a) = map_of (capabilities b) \<and>
    observers a = observers b \<and> can_be_primary a = can_be_primary b \<and>
    is_peer_alive a p \<and> (p \<in> can_be_primary a \<longleftrightarrow> cbp) \<and> (p \<in> observers a \<longleftrightarrow> obs)"
proof -
  let ?g = "member_gen e + 1"
  define r where "r = snd (apply_peer_removed p cause (member_gen e) m)"
  define j where "j = snd (apply_peer_joined auth p obs cbp v ?g m)"
  note r = removed_current [OF e cap r_def]
  have j: "map_of (capabilities j) = (map_of (capabilities m))(p \<mapsto> Advertised obs cbp v ?g)"
      "map_of (peer_state j) = (map_of (peer_state m))(p \<mapsto> e\<lparr>life := Alive, member_gen := ?g\<rparr>)"
    using joined_newer [OF e(1) _ _ j_def] cap by fastforce+
  have a: "map_of (capabilities a) = (map_of (capabilities m))(p \<mapsto> Advertised obs cbp v ?g)"
      "map_of (peer_state a) = (map_of (peer_state m))(p \<mapsto> e\<lparr>life := Alive, member_gen := ?g\<rparr>)"
    using joined_newer [of r p "e\<lparr>life := Dead\<rparr>" ?g, OF _ _ _ a_def [folded r_def]] r by auto
  have b: "b = j"
    using j(2) by (simp add: b_def [folded j_def] apply_peer_removed_def)
  have ok: "roles_ok a" "roles_ok b"
    using ok by (simp_all add: a_def b_def joined_ok removed_ok)
  show ?thesis
    using roles_eq [OF ok] ok(1) a j by (simp add: b roles_ok_def advertised_by_def is_peer_alive_def)
qed

text \<open>
  a removal is final for its generation and for no other. While a peer is removed, a join
  that does not advance its generation is dropped without a trace (unless the batch system says
  that the peer runs). For a peer alive at generation \<open>n\<close>, its removal at \<open>n\<close> and its
  re-admission at \<open>n + 1\<close> leave the same entry, the same capability and the same roles in either
  order of arrival: the peer is alive at \<open>n + 1\<close> with the advertised roles.
\<close>

theorem readmission_order_free:
  assumes "roles_ok m" and "map_of (peer_state m) p = Some e" and "\<not> is_self_departure cause"
    and "\<forall>c. map_of (capabilities m) p = Some c \<longrightarrow> capability_member_gen c \<le> member_gen e"
  shows "(life e = Dead \<and> g \<le> member_gen e \<and> \<not> auth p \<longrightarrow>
      apply_peer_joined auth p obs cbp v g m = (NoOp, m)) \<and>
    (life e = Alive \<and>
      a = snd (apply_peer_joined auth p obs cbp v (member_gen e + 1) (snd (apply_peer_removed p cause (member_gen e) m))) \<and>
      b = snd (apply_peer_removed p cause (member_gen e) (snd (apply_peer_joined auth p obs cbp v (member_gen e + 1) m))) \<longrightarrow>
      map_of (peer_state a) = map_of (peer_state b) \<and> map_of (capabilities a) = map_of (capabilities b) \<and>
      observers a = observers b \<and> can_be_primary a = can_be_primary b \<and>
      is_peer_alive a p \<and> (p \<in> can_be_primary a \<longleftrightarrow> cbp) \<and> (p \<in> observers a \<longleftrightarrow> obs))"
proof (intro conjI impI)
  assume "life e = Dead \<and> g \<le> member_gen e \<and> \<not> auth p"
  then show "apply_peer_joined auth p obs cbp v g m = (NoOp, m)"
    using assms(2) by (simp add: apply_peer_joined_def)
qed (use readmission_alive [OF assms(1,2) _ assms(3)] assms(4) in blast)+

lemma one_member_ok: "roles_ok one_member"
    "map_of (peer_state one_member) ''s'' = Some \<lparr>life = Alive, member_gen = 0, pubkey = None, endpoint = None\<rparr>"
    "map_of (capabilities one_member) ''s'' = Some (Advertised False True default_version 0)"
proof -
  show "roles_ok one_member"
    unfolding one_member_def
    by (rule joined_ok) (simp add: roles_ok_def tables_ok_def empty_membership_def advertised_by_def)
qed (simp_all add: one_member_def apply_peer_joined_def empty_membership_def merge_advertised_capability_def
    join_liveness_def merge_entry_def)

theorem readmission_order_free_witness:
  "''s'' \<in> can_be_primary (snd (apply_peer_joined (\<lambda>_. False) ''s'' False True default_version 1
     (snd (apply_peer_removed ''s'' KeepaliveMiss 0 one_member))))"
proof -
  let ?e = "\<lparr>life = Alive, member_gen = 0, pubkey = None, endpoint = None\<rparr>"
  let ?a = "snd (apply_peer_joined (\<lambda>_. False) ''s'' False True default_version 1
     (snd (apply_peer_removed ''s'' KeepaliveMiss 0 one_member)))"
  have "roles_ok one_member" "map_of (peer_state one_member) ''s'' = Some ?e" "\<not> is_self_departure KeepaliveMiss"
      "\<forall>c. map_of (capabilities one_member) ''s'' = Some c \<longrightarrow> capability_member_gen c \<le> member_gen ?e"
    using one_member_ok by auto
  note order_free = readmission_order_free [OF this, where a = ?a and auth = "\<lambda>_. False" and obs = False
      and cbp = True and v = default_version, THEN conjunct2, THEN mp]
  have "life ?e = Alive \<and> ?a = snd (apply_peer_joined (\<lambda>_. False) ''s'' False True default_version (member_gen ?e + 1)
      (snd (apply_peer_removed ''s'' KeepaliveMiss (member_gen ?e) one_member))) \<and>
      snd (apply_peer_removed ''s'' KeepaliveMiss (member_gen ?e)
        (snd (apply_peer_joined (\<lambda>_. False) ''s'' False True default_version (member_gen ?e + 1) one_member))) =
      snd (apply_peer_removed ''s'' KeepaliveMiss (member_gen ?e)
        (snd (apply_peer_joined (\<lambda>_. False) ''s'' False True default_version (member_gen ?e + 1) one_member)))"
    by simp
  from order_free [OF this] show ?thesis by blast
qed

text \<open>
  when the batch system shows that a removed peer runs, a join at the removed generation
  makes the peer alive again but leaves the tombstone of the removal in the capability table: a
  departure absorbs every advertisement of its own generation. The peer stays out of both role
  sets, and because it counts as alive it is no longer offered for re-admission.
\<close>

theorem reversal_keeps_tombstone:
  assumes "map_of (peer_state m) p = Some e" and "life e = Dead" and "auth p" and "tables_ok m"
    and "map_of (capabilities m) p = Some (Departed (member_gen e) pobs pcbp pv)" and "g \<le> member_gen e"
    and "m' = snd (apply_peer_joined auth p obs cbp v g m)"
  shows "is_peer_alive m' p \<and>
    map_of (capabilities m') p = Some (Departed (member_gen e) pobs pcbp pv) \<and>
    p \<notin> can_be_primary m' \<and> p \<notin> observers m' \<and> removed_peer_readmission m' p = None"
proof -
  obtain live m1 where l: "join_liveness p g m = (live, m1)" by fastforce
  obtain cap m2 where c: "merge_entry p (Advertised obs cbp v g) m1 = (cap, m2)" by fastforce
  have live: live using l assms(1,2) by (simp add: join_liveness_def)
  have m': "m' = reproject_roles m2\<lparr>lifecycle := lifecycle (reproject_roles m2) @ [Added p obs]\<rparr>"
    using assms(1-3) live by (simp add: assms(7) apply_peer_joined_def merge_advertised_capability_def l c Let_def)
  have state: "map_of (peer_state m') p = Some (e\<lparr>life := Alive, member_gen := member_gen e\<rparr>)"
    using join_liveness_entry [OF l] merge_entry_fields(1) [OF c] assms(1,6) by (simp add: m' max_def)
  have capb: "map_of (capabilities m') p = Some (Departed (member_gen e) pobs pcbp pv)"
    using merge_entry_fields(4) [OF c] join_liveness_fields(1) [OF l] assms(5,6)
    by (simp add: m' merge_capability_def)
  have "roles_ok m'"
    using merge_entry_fields(3) [OF c] join_liveness_fields(3) [OF l] assms(4) by (simp add: m' reproject_ok)
  then show ?thesis
    using state capb by (simp add: roles_ok_def advertised_by_def is_peer_alive_def removed_peer_readmission_def)
qed

theorem reversal_keeps_tombstone_witness:
  "''s'' \<notin> can_be_primary (snd (apply_peer_joined (\<lambda>_. True) ''s'' False True default_version 0
     (snd (apply_peer_removed ''s'' KeepaliveMiss 0 one_member))))"
proof -
  let ?m = "snd (apply_peer_removed ''s'' KeepaliveMiss 0 one_member)"
  let ?e = "\<lparr>life = Dead, member_gen = 0, pubkey = None, endpoint = None\<rparr>"
  have "tables_ok ?m" using removed_ok [OF one_member_ok(1)] by (rule roles_ok_tables)
  moreover have "map_of (peer_state ?m) ''s'' = Some ?e"
      "map_of (capabilities ?m) ''s'' = Some (Departed 0 False True default_version)"
    using one_member_ok(2,3)
    by (simp_all add: apply_peer_removed_def remove_liveness_def merge_departed_tombstone_def merge_entry_def
        merge_capability_def Let_def split: prod.split)
  ultimately show ?thesis
    using reversal_keeps_tombstone [where m = ?m and p = "''s''" and e = ?e and auth = "\<lambda>_. True" and g = 0
        and pobs = False and pcbp = True and pv = default_version and obs = False and cbp = True
        and v = default_version, OF _ _ _ _ _ _ refl] by simp
qed

end
