(* ===== verification/Grow_Maps.thy ===== *)
theory Grow_Maps
  imports Replica
begin

text \<open>
  The grow-only maps of the ledger (\<open>cluster_state/grow_max.rs\<close>): maps whose values only grow
  (merged by maximum) and maps whose entries are written once (merged by first insertion). The
  locale \<open>grow_only\<close> of a value join gives, for a map merged entry by entry, the value under each
  key; \<open>merge_grow_max\<close> is its instance on \<^const>\<open>max\<close> and \<open>merge_grow_set\<close> the one that keeps the
  first value.
\<close>

definition merge_grow_max :: "('k \<times> 'v::linorder) list \<Rightarrow> ('k \<times> 'v) list \<Rightarrow> ('k \<times> 'v) list" where
  "merge_grow_max m incoming =
     fold (\<lambda>(k, v) m. case map_of m k of
         Some x \<Rightarrow> if v > x then AList.update k v m else m
       | None \<Rightarrow> AList.update k v m) incoming m"

definition read_grow_max :: "('k \<times> nat) list \<Rightarrow> 'k \<Rightarrow> nat" where
  "read_grow_max m k = get_count m k"

definition bump_grow_max :: "'k \<Rightarrow> nat \<Rightarrow> ('k \<times> nat) list \<Rightarrow> ('k \<times> nat) list" where
  "bump_grow_max k n m = AList.update k (max (get_count m k) n) m"

definition merge_grow_set :: "('k \<times> 'v) list \<Rightarrow> ('k \<times> 'v) list \<Rightarrow> ('k \<times> 'v) list" where
  "merge_grow_set m incoming =
     fold (\<lambda>(k, v) m. case map_of m k of Some x \<Rightarrow> m | None \<Rightarrow> AList.update k v m) incoming m"

definition insert_grow_set :: "'k \<Rightarrow> 'v \<Rightarrow> ('k \<times> 'v) list \<Rightarrow> ('k \<times> 'v) list" where
  "insert_grow_set k v m = (case map_of m k of Some x \<Rightarrow> m | None \<Rightarrow> AList.update k v m)"

section \<open>Merging entry by entry\<close>

definition opt_join :: "('v \<Rightarrow> 'v \<Rightarrow> 'v) \<Rightarrow> 'v option \<Rightarrow> 'v option \<Rightarrow> 'v option" where
  "opt_join f x y = (case x of None \<Rightarrow> y | Some a \<Rightarrow> (case y of None \<Rightarrow> x | Some b \<Rightarrow> Some (f a b)))"

lemma opt_join_None [simp]: "opt_join f None y = y" "opt_join f x None = x"
  by (auto simp: opt_join_def split: option.split)

locale grow_only =
  fixes value_join :: "'v \<Rightarrow> 'v \<Rightarrow> 'v"
    and step :: "'k \<times> 'v \<Rightarrow> ('k \<times> 'v) list \<Rightarrow> ('k \<times> 'v) list"
  assumes step_value: "map_of (step (k, v) m) = (map_of m)(k := opt_join value_join (map_of m k) (Some v))"
    and step_distinct: "distinct (keys m) \<Longrightarrow> distinct (keys (step (k, v) m))"
begin

lemma merge_value:
  "distinct (keys incoming) \<Longrightarrow>
     map_of (fold step incoming m) k = opt_join value_join (map_of m k) (map_of incoming k)"
proof (induction incoming arbitrary: m)
  case (Cons e incoming)
  obtain j v where e: "e = (j, v)" by fastforce
  have "map_of incoming j = None" using Cons.prems by (simp add: e map_of_eq_None_iff)
  then show ?case using Cons by (simp add: e step_value)
qed simp

lemma merge_distinct: "distinct (keys m) \<Longrightarrow> distinct (keys (fold step incoming m))"
  by (induction incoming arbitrary: m) (use step_distinct in auto)

end

interpretation grow_max: grow_only "max :: 'v::linorder \<Rightarrow> 'v \<Rightarrow> 'v" "\<lambda>(k, v) m. case map_of m k of
    Some x \<Rightarrow> if v > x then AList.update k v m else m | None \<Rightarrow> AList.update k v m"
  by unfold_locales (auto simp: opt_join_def fun_eq_iff max_def not_less split: option.split)

interpretation grow_set: grow_only "\<lambda>x y. x" "\<lambda>(k, v) m. case map_of m k of
    Some x \<Rightarrow> m | None \<Rightarrow> AList.update k v m"
  by unfold_locales (auto simp: opt_join_def fun_eq_iff split: option.split)

lemma map_of_merge_grow_max:
  "distinct (keys incoming) \<Longrightarrow> map_of (merge_grow_max m incoming) k = opt_join max (map_of m k) (map_of incoming k)"
  using grow_max.merge_value by (simp add: merge_grow_max_def)

lemma distinct_merge_grow_max [simp]: "distinct (keys m) \<Longrightarrow> distinct (keys (merge_grow_max m incoming))"
  using grow_max.merge_distinct by (simp add: merge_grow_max_def)

lemma map_of_merge_grow_set:
  "distinct (keys incoming) \<Longrightarrow> map_of (merge_grow_set m incoming) k = opt_join (\<lambda>x y. x) (map_of m k) (map_of incoming k)"
  using grow_set.merge_value by (simp add: merge_grow_set_def)

lemma distinct_merge_grow_set [simp]: "distinct (keys m) \<Longrightarrow> distinct (keys (merge_grow_set m incoming))"
  using grow_set.merge_distinct by (simp add: merge_grow_set_def)

end
