(* ===== verification/Custom_Inbox.thy ===== *)
theory Custom_Inbox
  imports Grow_Maps
begin

text \<open>
  The replicated inbox of custom messages (\<open>cluster_state/apply_custom.rs\<close> and the inbox part of
  \<open>cluster_state/snapshot.rs\<close>). A message is keyed by its origin and a sequence number counted
  from 1; it is posted, and later handled or failed. Both ends are final. A per-origin watermark
  stands for the prefix of sequence numbers that all reached an end, whose entries are deleted.

  The contract is a table of message statuses: \<open>status\<close> maps the inbox to it, and every operation
  is shown to act on the table as the contract says, the deletion of finished entries included.
  Outcome events are appended to \<open>outcomes\<close>.
\<close>

section \<open>The inbox and its mutations\<close>

datatype custom_msg_state = Unhandled string string bool | Handled | MsgFailed

datatype custom_message_outcome = OutcomeHandled | OutcomeFailed string

record outcome_event =
  ev_origin :: string
  ev_seq :: nat
  ev_outcome :: custom_message_outcome
  ev_high_volume :: bool

record custom_inbox =
  custom_messages :: "((string \<times> nat) \<times> custom_msg_state) list"
  custom_terminal_watermarks :: "(string \<times> nat) list"
  outcomes :: "outcome_event list"

definition empty_inbox :: custom_inbox where
  "empty_inbox = \<lparr>custom_messages = [], custom_terminal_watermarks = [], outcomes = []\<rparr>"

fun is_ended :: "custom_msg_state \<Rightarrow> bool" where
  "is_ended (Unhandled _ _ _) = False"
| "is_ended _ = True"

fun volume_class :: "custom_msg_state option \<Rightarrow> bool" where
  "volume_class (Some (Unhandled _ _ high_volume)) = high_volume"
| "volume_class _ = False"

definition watermark_covers :: "(string \<times> nat) list \<Rightarrow> string \<Rightarrow> nat \<Rightarrow> bool" where
  "watermark_covers wm origin seq = (case map_of wm origin of Some w \<Rightarrow> seq \<le> w | None \<Rightarrow> False)"

definition custom_watermark_covers :: "custom_inbox \<Rightarrow> string \<Rightarrow> nat \<Rightarrow> bool" where
  "custom_watermark_covers b origin seq = watermark_covers (custom_terminal_watermarks b) origin seq"

lemma length_delete_present: "map_of al k = Some v \<Longrightarrow> length (AList.delete k al) < length al"
proof (induction al)
  case (Cons e al)
  then show ?case using AList.length_delete_le [of k al] by (cases e) (auto simp: less_Suc_eq_le split: if_splits)
qed simp

function compact_loop ::
  "string \<Rightarrow> nat \<Rightarrow> ((string \<times> nat) \<times> custom_msg_state) list \<Rightarrow> nat \<times> ((string \<times> nat) \<times> custom_msg_state) list" where
  "compact_loop origin next_seq msgs =
     (case map_of msgs (origin, next_seq) of
        Some x \<Rightarrow> if is_ended x then compact_loop origin (next_seq + 1) (AList.delete (origin, next_seq) msgs)
                  else (next_seq, msgs)
      | None \<Rightarrow> (next_seq, msgs))"
  by pat_completeness auto
termination
  by (relation "measure (\<lambda>(_, _, msgs). length msgs)") (auto intro: length_delete_present)

declare compact_loop.simps [simp del]

definition compact_custom_watermark :: "string \<Rightarrow> custom_inbox \<Rightarrow> custom_inbox" where
  "compact_custom_watermark origin b =
     (let start = (case map_of (custom_terminal_watermarks b) origin of Some w \<Rightarrow> w + 1 | None \<Rightarrow> 1);
          (next_seq, msgs) = compact_loop origin start (custom_messages b)
      in if next_seq = start then b
         else b\<lparr>custom_messages := msgs,
                custom_terminal_watermarks := AList.update origin (next_seq - 1) (custom_terminal_watermarks b)\<rparr>)"

definition apply_custom_message_posted ::
  "string \<Rightarrow> nat \<Rightarrow> string \<Rightarrow> string \<Rightarrow> bool \<Rightarrow> custom_inbox \<Rightarrow> apply_outcome \<times> custom_inbox" where
  "apply_custom_message_posted origin seq topic data high_volume b =
     (if custom_watermark_covers b origin seq then (NoOp, b)
      else case map_of (custom_messages b) (origin, seq) of
        None \<Rightarrow> (Applied, b\<lparr>custom_messages :=
                   AList.update (origin, seq) (Unhandled topic data high_volume) (custom_messages b)\<rparr>)
      | Some _ \<Rightarrow> (NoOp, b))"

definition latch_message ::
  "string \<Rightarrow> nat \<Rightarrow> custom_msg_state \<Rightarrow> custom_message_outcome \<Rightarrow> custom_inbox \<Rightarrow> custom_inbox" where
  "latch_message origin seq x result b =
     compact_custom_watermark origin
       (b\<lparr>custom_messages := AList.update (origin, seq) x (custom_messages b),
          outcomes := outcomes b @ [\<lparr>ev_origin = origin, ev_seq = seq, ev_outcome = result,
            ev_high_volume = volume_class (map_of (custom_messages b) (origin, seq))\<rparr>]\<rparr>)"

definition apply_custom_message_handled :: "string \<Rightarrow> nat \<Rightarrow> custom_inbox \<Rightarrow> apply_outcome \<times> custom_inbox" where
  "apply_custom_message_handled origin seq b =
     (if custom_watermark_covers b origin seq then (NoOp, b)
      else if map_of (custom_messages b) (origin, seq) = Some Handled then (NoOp, b)
      else (Applied, latch_message origin seq Handled OutcomeHandled b))"

definition apply_custom_message_failed :: "string \<Rightarrow> nat \<Rightarrow> string \<Rightarrow> custom_inbox \<Rightarrow> apply_outcome \<times> custom_inbox" where
  "apply_custom_message_failed origin seq reason b =
     (if custom_watermark_covers b origin seq then (NoOp, b)
      else case map_of (custom_messages b) (origin, seq) of
        Some x \<Rightarrow> if is_ended x then (NoOp, b)
                  else (Applied, latch_message origin seq MsgFailed (OutcomeFailed reason) b)
      | None \<Rightarrow> (Applied, latch_message origin seq MsgFailed (OutcomeFailed reason) b))"

definition prune_below_custom_watermark :: "string \<Rightarrow> custom_inbox \<Rightarrow> custom_inbox" where
  "prune_below_custom_watermark origin b =
     (case map_of (custom_terminal_watermarks b) origin of
        None \<Rightarrow> b
      | Some w \<Rightarrow> b\<lparr>custom_messages := filter (\<lambda>((org, seq), _). org \<noteq> origin \<or> seq > w) (custom_messages b)\<rparr>)"

fun waiting_entry :: "(string \<times> nat) \<times> custom_msg_state \<Rightarrow> (string \<times> nat \<times> string \<times> string \<times> bool) option" where
  "waiting_entry ((origin, seq), Unhandled topic data high_volume) = Some (origin, seq, topic, data, high_volume)"
| "waiting_entry _ = None"

definition unhandled_custom_messages :: "custom_inbox \<Rightarrow> (string \<times> nat \<times> string \<times> string \<times> bool) list" where
  "unhandled_custom_messages b =
     sort_key (\<lambda>(origin, seq, _). (origin, seq)) (List.map_filter waiting_entry (custom_messages b))"

definition unhandled_custom_message_keys :: "custom_inbox \<Rightarrow> (string \<times> nat) list" where
  "unhandled_custom_message_keys b =
     sort (map fst (filter (\<lambda>(_, x). \<not> is_ended x) (custom_messages b)))"

section \<open>Adopting another replica's inbox\<close>

definition restore_message ::
  "(string \<times> nat) list \<Rightarrow> (string \<times> nat) \<times> custom_msg_state \<Rightarrow>
   string set \<times> ((string \<times> nat) \<times> custom_msg_state) list \<Rightarrow> string set \<times> ((string \<times> nat) \<times> custom_msg_state) list" where
  "restore_message wm e acc =
     (let ((origin, seq), incoming) = e; (touched, msgs) = acc in
      if watermark_covers wm origin seq then acc
      else case map_of msgs (origin, seq) of
        None \<Rightarrow> (if incoming = Handled then insert origin touched else touched, AList.update (origin, seq) incoming msgs)
      | Some x \<Rightarrow>
          if incoming = Handled \<and> \<not> is_ended x
          then (insert origin touched, AList.update (origin, seq) Handled msgs)
          else (touched, msgs))"

text \<open>The touched origins form a hash set; \<open>order\<close> is the order in which it is iterated.\<close>

definition restore_inbox ::
  "(string set \<Rightarrow> string list) \<Rightarrow> (string \<times> nat) list \<Rightarrow> ((string \<times> nat) \<times> custom_msg_state) list \<Rightarrow>
   custom_inbox \<Rightarrow> custom_inbox" where
  "restore_inbox order watermarks messages b =
     (let b1 = b\<lparr>custom_terminal_watermarks := merge_grow_max (custom_terminal_watermarks b) watermarks\<rparr>;
          b2 = fold prune_below_custom_watermark (keys watermarks) b1;
          (touched, msgs) = fold (restore_message (custom_terminal_watermarks b2)) messages ({}, custom_messages b2)
      in fold compact_custom_watermark (order touched) (b2\<lparr>custom_messages := msgs\<rparr>))"

section \<open>The status table\<close>

datatype msg_status = Unposted | Waiting string string bool | Ended

fun entry_status :: "custom_msg_state option \<Rightarrow> msg_status" where
  "entry_status None = Unposted"
| "entry_status (Some (Unhandled t d h)) = Waiting t d h"
| "entry_status (Some Handled) = Ended"
| "entry_status (Some MsgFailed) = Ended"

definition status :: "custom_inbox \<Rightarrow> string \<Rightarrow> nat \<Rightarrow> msg_status" where
  "status b origin seq =
     (if custom_watermark_covers b origin seq then Ended
      else entry_status (map_of (custom_messages b) (origin, seq)))"

definition inbox_wf :: "custom_inbox \<Rightarrow> bool" where
  "inbox_wf b \<longleftrightarrow> distinct (keys (custom_messages b)) \<and> distinct (keys (custom_terminal_watermarks b)) \<and>
     (\<forall>origin seq x. map_of (custom_messages b) (origin, seq) = Some x \<longrightarrow>
        1 \<le> seq \<and> \<not> custom_watermark_covers b origin seq)"

lemma entry_status_ended [simp]: "entry_status (Some x) = Ended \<longleftrightarrow> is_ended x"
    "entry_status e = Unposted \<longleftrightarrow> e = None"
  by (cases x; simp) (cases "the e"; cases e; simp)

lemma compact_loop_spec:
  assumes "compact_loop origin n msgs = (n', msgs')" and "distinct (keys msgs)"
  shows "n \<le> n' \<and> distinct (keys msgs') \<and>
    (\<forall>s. n \<le> s \<and> s < n' \<longrightarrow> (\<exists>x. map_of msgs (origin, s) = Some x \<and> is_ended x)) \<and>
    map_of msgs' = (\<lambda>k. if fst k = origin \<and> n \<le> snd k \<and> snd k < n' then None else map_of msgs k)"
  using assms
proof (induction origin n msgs rule: compact_loop.induct)
  case (1 origin n msgs)
  show ?case
  proof (cases "\<exists>x. map_of msgs (origin, n) = Some x \<and> is_ended x")
    case True
    then obtain x where x: "map_of msgs (origin, n) = Some x" "is_ended x" by blast
    have step: "compact_loop origin (n + 1) (AList.delete (origin, n) msgs) = (n', msgs')"
      using "1.prems"(1) x by (simp add: compact_loop.simps [of origin n msgs])
    note IH = "1.IH" [OF x step] 
    have split: "n \<le> s \<and> s < n' \<longleftrightarrow> (s = n \<or> n + 1 \<le> s) \<and> s < n'" for s by auto
    have "n + 1 \<le> n'" using IH "1.prems"(2) by simp
    then show ?thesis
      using IH "1.prems"(2) x by (auto simp: split fun_eq_iff le_Suc_eq)
  next
    case False
    then have "(n', msgs') = (n, msgs)"
      using "1.prems"(1) by (auto simp: compact_loop.simps [of origin n msgs] split: option.splits if_splits)
    then show ?thesis using "1.prems"(2) by (auto simp: fun_eq_iff)
  qed
qed

lemma covers_update:
  "watermark_covers (AList.update origin w wm) o' s = (if o' = origin then s \<le> w else watermark_covers wm o' s)"
  by (simp add: watermark_covers_def)

lemma compact_status:
  assumes "inbox_wf b"
  shows "inbox_wf (compact_custom_watermark origin b)"
    and "1 \<le> s \<Longrightarrow> status (compact_custom_watermark origin b) org s = status b org s"
    and "outcomes (compact_custom_watermark origin b) = outcomes b"
proof -
  define start where "start = (case map_of (custom_terminal_watermarks b) origin of Some w \<Rightarrow> w + 1 | None \<Rightarrow> 1)"
  obtain n msgs where c: "compact_loop origin start (custom_messages b) = (n, msgs)" by fastforce
  have d: "distinct (keys (custom_messages b))" using assms by (simp add: inbox_wf_def)
  note loop = compact_loop_spec [OF c d]
  have covered: "custom_watermark_covers b origin s \<longleftrightarrow> s < start" if "1 \<le> s" for s
    using that by (auto simp: custom_watermark_covers_def watermark_covers_def start_def split: option.split)
  have b': "compact_custom_watermark origin b = (if n = start then b else b\<lparr>custom_messages := msgs,
      custom_terminal_watermarks := AList.update origin (n - 1) (custom_terminal_watermarks b)\<rparr>)"
    by (simp add: compact_custom_watermark_def start_def [symmetric] c Let_def)
  show "outcomes (compact_custom_watermark origin b) = outcomes b" by (simp add: b')
  show "1 \<le> s \<Longrightarrow> status (compact_custom_watermark origin b) org s = status b org s"
  proof (cases "n = start \<or> org \<noteq> origin")
    case True
    then show ?thesis
      using loop by (auto simp: b' status_def custom_watermark_covers_def covers_update)
  next
    case False
    assume s: "1 \<le> s"
    have "\<not> s < start \<Longrightarrow> s < n \<Longrightarrow> entry_status (map_of (custom_messages b) (origin, s)) = Ended"
      using loop by (metis entry_status_ended(1) not_less)
    moreover have "s < start \<Longrightarrow> s < n" using loop by linarith
    ultimately show ?thesis
      using False loop covered [OF s] s
      by (auto simp: b' status_def custom_watermark_covers_def covers_update)
  qed
  have kept: "1 \<le> q \<and> \<not> custom_watermark_covers b o' q \<and> \<not> (o' = origin \<and> start \<le> q \<and> q < n)"
    if "map_of msgs (o', q) = Some x" for o' q x
  proof -
    have "map_of (custom_messages b) (o', q) = Some x" "\<not> (o' = origin \<and> start \<le> q \<and> q < n)"
      using that loop by (auto split: if_splits)
    then show ?thesis using assms unfolding inbox_wf_def by blast
  qed
  have "\<not> custom_watermark_covers (b\<lparr>custom_messages := msgs,
      custom_terminal_watermarks := AList.update origin (n - 1) (custom_terminal_watermarks b)\<rparr>) o' q"
    if "map_of msgs (o', q) = Some x" "n \<noteq> start" for o' q x
    using kept [OF that(1)] covered [of q] loop that(2)
    by (cases "o' = origin") (auto simp: custom_watermark_covers_def covers_update)
  note uncovered = this
  show "inbox_wf (compact_custom_watermark origin b)"
  proof (cases "n = start")
    case False
    define c where "c = b\<lparr>custom_messages := msgs,
      custom_terminal_watermarks := AList.update origin (n - 1) (custom_terminal_watermarks b)\<rparr>"
    have "distinct (keys (custom_messages c))" "distinct (keys (custom_terminal_watermarks c))" "custom_messages c = msgs"
      using loop assms by (auto simp: c_def inbox_wf_def)
    moreover have "\<forall>o' q x. map_of msgs (o', q) = Some x \<longrightarrow> 1 \<le> q \<and> \<not> custom_watermark_covers c o' q"
      using kept uncovered [OF _ False] unfolding c_def by blast
    ultimately have "inbox_wf c" unfolding inbox_wf_def by metis
    then show ?thesis unfolding b' c_def using False by simp
  qed (simp add: b' assms)
qed

section \<open>The operations act on the table\<close>

lemma insert_wf:
  assumes "inbox_wf b" and "1 \<le> seq" and "\<not> custom_watermark_covers b origin seq"
    and c: "custom_messages c = AList.update (origin, seq) x (custom_messages b)"
      "custom_terminal_watermarks c = custom_terminal_watermarks b"
  shows "inbox_wf c" and "custom_watermark_covers c = custom_watermark_covers b"
    and "map_of (custom_messages c) = (map_of (custom_messages b))((origin, seq) \<mapsto> x)"
proof -
  show cov: "custom_watermark_covers c = custom_watermark_covers b"
    by (simp add: custom_watermark_covers_def c fun_eq_iff)
  show map: "map_of (custom_messages c) = (map_of (custom_messages b))((origin, seq) \<mapsto> x)"
    by (simp add: c)
  have d: "distinct (keys (custom_messages c))" "distinct (keys (custom_terminal_watermarks b))"
    using assms(1) by (simp_all add: c inbox_wf_def)
  show "inbox_wf c"
    using assms(1-3) unfolding inbox_wf_def cov map c(2) by (auto simp only: fun_upd_apply d split: if_splits)
qed

lemma posted_status:
  assumes "inbox_wf b" and "1 \<le> seq"
  shows "inbox_wf (snd (apply_custom_message_posted origin seq t d h b))"
    and "status (snd (apply_custom_message_posted origin seq t d h b)) org s =
      (if org = origin \<and> s = seq \<and> status b origin seq = Unposted then Waiting t d h else status b org s)"
    and "fst (apply_custom_message_posted origin seq t d h b) = Applied \<longleftrightarrow> status b origin seq = Unposted"
proof -
  let ?b = "b\<lparr>custom_messages := AList.update (origin, seq) (Unhandled t d h) (custom_messages b)\<rparr>"
  have post: "apply_custom_message_posted origin seq t d h b =
      (if status b origin seq = Unposted then (Applied, ?b) else (NoOp, b))"
    by (auto simp: apply_custom_message_posted_def status_def split: option.split)
  have un: "status b origin seq = Unposted \<Longrightarrow> \<not> custom_watermark_covers b origin seq"
    by (auto simp: status_def)
  note ins = insert_wf [OF assms un, where c = ?b and x = "Unhandled t d h"]
  show "inbox_wf (snd (apply_custom_message_posted origin seq t d h b))"
    using assms(1) ins(1) by (simp add: post)
  show "status (snd (apply_custom_message_posted origin seq t d h b)) org s =
      (if org = origin \<and> s = seq \<and> status b origin seq = Unposted then Waiting t d h else status b org s)"
    using un ins(2,3) by (auto simp: post status_def [of ?b]) (simp_all add: status_def)
  show "fst (apply_custom_message_posted origin seq t d h b) = Applied \<longleftrightarrow> status b origin seq = Unposted"
    by (simp add: post)
qed

lemma latch_status:
  assumes "inbox_wf b" and "1 \<le> seq" and "is_ended x" and "\<not> custom_watermark_covers b origin seq"
  shows "inbox_wf (latch_message origin seq x r b)"
    and "1 \<le> s \<Longrightarrow> status (latch_message origin seq x r b) org s =
      (if org = origin \<and> s = seq then Ended else status b org s)"
proof -
  define c where "c = b\<lparr>custom_messages := AList.update (origin, seq) x (custom_messages b),
          outcomes := outcomes b @ [\<lparr>ev_origin = origin, ev_seq = seq, ev_outcome = r,
            ev_high_volume = volume_class (map_of (custom_messages b) (origin, seq))\<rparr>]\<rparr>"
  have l: "latch_message origin seq x r b = compact_custom_watermark origin c"
    by (simp add: latch_message_def c_def)
  note ins = insert_wf [OF assms(1,2,4), where c = c and x = x]
  have c: "inbox_wf c" and cov: "custom_watermark_covers c = custom_watermark_covers b"
    and map: "map_of (custom_messages c) = (map_of (custom_messages b))((origin, seq) \<mapsto> x)"
    using ins by (simp_all add: c_def)
  from c show "inbox_wf (latch_message origin seq x r b)" unfolding l by (rule compact_status(1))
  show "1 \<le> s \<Longrightarrow> status (latch_message origin seq x r b) org s =
      (if org = origin \<and> s = seq then Ended else status b org s)"
    using compact_status(2) [OF c] assms(3) by (auto simp: l status_def cov map)
qed

lemma handled_status:
  assumes "inbox_wf b" and "1 \<le> seq"
  shows "inbox_wf (snd (apply_custom_message_handled origin seq b))"
    and "1 \<le> s \<Longrightarrow> status (snd (apply_custom_message_handled origin seq b)) org s =
      (if org = origin \<and> s = seq then Ended else status b org s)"
    and "status b origin seq \<noteq> Ended \<Longrightarrow> fst (apply_custom_message_handled origin seq b) = Applied"
proof -
  let ?skip = "custom_watermark_covers b origin seq \<or> map_of (custom_messages b) (origin, seq) = Some Handled"
  have h: "apply_custom_message_handled origin seq b = (if ?skip then (NoOp, b)
      else (Applied, latch_message origin seq Handled OutcomeHandled b))"
    by (simp add: apply_custom_message_handled_def)
  have skip: "?skip \<Longrightarrow> status b origin seq = Ended" by (auto simp: status_def)
  show "inbox_wf (snd (apply_custom_message_handled origin seq b))"
    and "1 \<le> s \<Longrightarrow> status (snd (apply_custom_message_handled origin seq b)) org s =
      (if org = origin \<and> s = seq then Ended else status b org s)"
    and "status b origin seq \<noteq> Ended \<Longrightarrow> fst (apply_custom_message_handled origin seq b) = Applied"
    using assms(1) skip latch_status [OF assms, of Handled] by (auto simp: h)
qed

lemma failed_status:
  assumes "inbox_wf b" and "1 \<le> seq"
  shows "inbox_wf (snd (apply_custom_message_failed origin seq r b))"
    and "1 \<le> s \<Longrightarrow> status (snd (apply_custom_message_failed origin seq r b)) org s =
      (if org = origin \<and> s = seq then Ended else status b org s)"
    and "fst (apply_custom_message_failed origin seq r b) = Applied \<longleftrightarrow> status b origin seq \<noteq> Ended"
proof -
  have f: "apply_custom_message_failed origin seq r b = (if status b origin seq = Ended then (NoOp, b)
      else (Applied, latch_message origin seq MsgFailed (OutcomeFailed r) b))"
    by (auto simp: apply_custom_message_failed_def status_def split: option.split)
  have un: "status b origin seq \<noteq> Ended \<Longrightarrow> \<not> custom_watermark_covers b origin seq"
    by (auto simp: status_def)
  show "inbox_wf (snd (apply_custom_message_failed origin seq r b))"
    and "1 \<le> s \<Longrightarrow> status (snd (apply_custom_message_failed origin seq r b)) org s =
      (if org = origin \<and> s = seq then Ended else status b org s)"
    and "fst (apply_custom_message_failed origin seq r b) = Applied \<longleftrightarrow> status b origin seq \<noteq> Ended"
    using assms un latch_status [OF assms, of MsgFailed] by (auto simp: f)
qed

lemma unhandled_exact:
  assumes "inbox_wf b"
  shows "set (unhandled_custom_messages b) = {(org, s, t, d, h) | org s t d h. status b org s = Waiting t d h}"
    and "sorted (map (\<lambda>(org, s, _). (org, s)) (unhandled_custom_messages b))"
proof -
  have d: "distinct (keys (custom_messages b))" using assms by (simp add: inbox_wf_def)
  have "(org, s, t, e, h) \<in> set (unhandled_custom_messages b) \<longleftrightarrow> status b org s = Waiting t e h" for org s t e h
  proof -
    have "(org, s, t, e, h) \<in> set (unhandled_custom_messages b) \<longleftrightarrow> ((org, s), Unhandled t e h) \<in> set (custom_messages b)"
      by (force simp: unhandled_custom_messages_def List.map_filter_def elim!: waiting_entry.elims)
    also have "\<dots> \<longleftrightarrow> map_of (custom_messages b) (org, s) = Some (Unhandled t e h)"
      by (rule map_of_Some_iff_mem [OF d, symmetric])
    also have "\<dots> \<longleftrightarrow> entry_status (map_of (custom_messages b) (org, s)) = Waiting t e h"
      by (cases "map_of (custom_messages b) (org, s)"; cases "the (map_of (custom_messages b) (org, s))") auto
    also have "\<dots> \<longleftrightarrow> status b org s = Waiting t e h"
      using assms unfolding inbox_wf_def status_def
      by (cases "map_of (custom_messages b) (org, s)") auto
    finally show ?thesis .
  qed
  then show "set (unhandled_custom_messages b) = {(org, s, t, d, h) | org s t d h. status b org s = Waiting t d h}"
    by auto
  show "sorted (map (\<lambda>(org, s, _). (org, s)) (unhandled_custom_messages b))"
    by (simp add: unhandled_custom_messages_def)
qed

section \<open>Histories of mutations\<close>

datatype inbox_mutation = Posted string nat string string bool | HandledMsg string nat | FailedMsg string nat string

fun apply_inbox :: "inbox_mutation \<Rightarrow> custom_inbox \<Rightarrow> custom_inbox" where
  "apply_inbox (Posted origin seq t d h) b = snd (apply_custom_message_posted origin seq t d h b)"
| "apply_inbox (HandledMsg origin seq) b = snd (apply_custom_message_handled origin seq b)"
| "apply_inbox (FailedMsg origin seq r) b = snd (apply_custom_message_failed origin seq r b)"

fun mutation_seq :: "inbox_mutation \<Rightarrow> nat" where
  "mutation_seq (Posted _ seq _ _ _) = seq"
| "mutation_seq (HandledMsg _ seq) = seq"
| "mutation_seq (FailedMsg _ seq _) = seq"

fun ends :: "string \<Rightarrow> nat \<Rightarrow> inbox_mutation \<Rightarrow> bool" where
  "ends org s (Posted _ _ _ _ _) = False"
| "ends org s (HandledMsg origin seq) = (origin = org \<and> seq = s)"
| "ends org s (FailedMsg origin seq _) = (origin = org \<and> seq = s)"

fun post_of :: "string \<Rightarrow> nat \<Rightarrow> inbox_mutation \<Rightarrow> msg_status option" where
  "post_of org s (Posted origin seq t d h) = (if origin = org \<and> seq = s then Some (Waiting t d h) else None)"
| "post_of org s _ = None"

text \<open>What the contract says of a history: ended if anything ended it, else as first posted.\<close>

definition history_status :: "inbox_mutation list \<Rightarrow> string \<Rightarrow> nat \<Rightarrow> msg_status" where
  "history_status ms org s =
     (if \<exists>m \<in> set ms. ends org s m then Ended
      else case List.map_filter (post_of org s) ms of [] \<Rightarrow> Unposted | w # _ \<Rightarrow> w)"

lemma history_snoc:
  "history_status (ms @ [m]) org s =
     (if ends org s m then Ended
      else if history_status ms org s = Unposted then (case post_of org s m of Some w \<Rightarrow> w | None \<Rightarrow> Unposted)
      else history_status ms org s)"
proof -
  have "List.map_filter (post_of org s) ms = w # ws \<Longrightarrow> w \<noteq> Unposted" for w ws
    by (induction ms) (auto simp: List.map_filter_simps split: option.splits if_splits elim!: post_of.elims)
  then show ?thesis
    by (auto simp: history_status_def List.map_filter_def split: list.split option.split)
qed

text \<open>
  C31: after any sequence of posts and ends, with duplicates and in any order, an inbox shows for
  each message exactly what the contract says: ended if some mutation ended it, else waiting with
  the payload of its first post, else unposted. The compaction of finished prefixes never shows.
  The messages a new primary replays are exactly the waiting ones, in order of origin and number.
\<close>

theorem inbox_history_exact:
  assumes "\<forall>m \<in> set ms. 1 \<le> mutation_seq m"
  shows "(1 \<le> s \<longrightarrow> status (fold apply_inbox ms empty_inbox) org s = history_status ms org s) \<and>
    set (unhandled_custom_messages (fold apply_inbox ms empty_inbox)) =
      {(org, s, t, d, h) | org s t d h. status (fold apply_inbox ms empty_inbox) org s = Waiting t d h} \<and>
    sorted (map (\<lambda>(org, s, _). (org, s)) (unhandled_custom_messages (fold apply_inbox ms empty_inbox)))"
proof -
  have "inbox_wf (fold apply_inbox ms empty_inbox) \<and>
      (\<forall>org s. 1 \<le> s \<longrightarrow> status (fold apply_inbox ms empty_inbox) org s = history_status ms org s)"
    using assms
  proof (induction ms rule: rev_induct)
    case Nil
    show ?case
      by (simp add: empty_inbox_def inbox_wf_def status_def custom_watermark_covers_def watermark_covers_def history_status_def
          List.map_filter_simps)
  next
    case (snoc m ms)
    let ?b = "fold apply_inbox ms empty_inbox"
    have b: "inbox_wf ?b" "\<And>org s. 1 \<le> s \<Longrightarrow> status ?b org s = history_status ms org s" and m: "1 \<le> mutation_seq m"
      using snoc by auto
    show ?case
    proof (cases m)
      case (Posted origin seq t d h)
      then show ?thesis
        using posted_status(1,2) [OF b(1)] b(2) m by (auto simp: history_snoc)
    next
      case (HandledMsg origin seq)
      then show ?thesis
        using handled_status(1,2) [OF b(1)] b(2) m by (auto simp: history_snoc split: msg_status.split)
    next
      case (FailedMsg origin seq r)
      then show ?thesis
        using failed_status(1,2) [OF b(1)] b(2) m by (auto simp: history_snoc split: msg_status.split)
    qed
  qed
  then show ?thesis using unhandled_exact by blast
qed

theorem inbox_history_exact_witness:
  "status (fold apply_inbox [HandledMsg ''a'' 1, Posted ''a'' 1 ''t'' ''d'' False, Posted ''a'' 2 ''t'' ''e'' True] empty_inbox) ''a'' 2 =
     Waiting ''t'' ''e'' True"
  using inbox_history_exact [of "[HandledMsg ''a'' 1, Posted ''a'' 1 ''t'' ''d'' False, Posted ''a'' 2 ''t'' ''e'' True]" 2 "''a''"]
  by (simp add: history_status_def List.map_filter_simps)

section \<open>Restoring a snapshot of the inbox\<close>

fun latch_join :: "custom_msg_state \<Rightarrow> custom_msg_state \<Rightarrow> custom_msg_state" where
  "latch_join x incoming = (if incoming = Handled \<and> \<not> is_ended x then Handled else x)"

interpretation inbox_entries: grow_only latch_join "\<lambda>(k, v) m. case map_of m k of
    None \<Rightarrow> AList.update k v m
  | Some x \<Rightarrow> if v = Handled \<and> \<not> is_ended x then AList.update k Handled m else m"
  by unfold_locales (auto simp: opt_join_def fun_eq_iff split: option.split)

lemma restore_message_fold:
  "snd (fold (restore_message wm) messages (touched, msgs)) =
     fold (\<lambda>(k, v) m. case map_of m k of
         None \<Rightarrow> AList.update k v m
       | Some x \<Rightarrow> if v = Handled \<and> \<not> is_ended x then AList.update k Handled m else m)
       (filter (\<lambda>((org, s), _). \<not> watermark_covers wm org s) messages) msgs"
proof (induction messages arbitrary: touched msgs)
  case (Cons e messages)
  obtain org s v where e: "e = ((org, s), v)" by (metis prod.exhaust)
  show ?case
    using Cons.IH by (auto simp: e restore_message_def split: option.split)
qed simp

lemma prune_fold:
  "fold prune_below_custom_watermark os b =
     b\<lparr>custom_messages := filter (\<lambda>((org, s), _). org \<notin> set os \<or> \<not> custom_watermark_covers b org s) (custom_messages b)\<rparr>"
proof (induction os arbitrary: b)
  case (Cons org os)
  let ?b = "prune_below_custom_watermark org b"
  have same: "custom_watermark_covers ?b = custom_watermark_covers b"
    by (auto simp: prune_below_custom_watermark_def custom_watermark_covers_def fun_eq_iff split: option.split)
  have "custom_messages ?b = filter (\<lambda>((o', s), _). o' \<noteq> org \<or> \<not> custom_watermark_covers b o' s) (custom_messages b)"
    by (auto simp: prune_below_custom_watermark_def custom_watermark_covers_def watermark_covers_def case_prod_unfold not_le
        split: option.split intro!: filter_cong)
  then have "filter (\<lambda>((o', s), _). o' \<notin> set os \<or> \<not> custom_watermark_covers b o' s) (custom_messages ?b) =
      filter (\<lambda>((o', s), _). o' \<notin> set (org # os) \<or> \<not> custom_watermark_covers b o' s) (custom_messages b)"
    by (auto intro!: filter_cong)
  moreover have "?b\<lparr>custom_messages := m\<rparr> = b\<lparr>custom_messages := m\<rparr>" for m
    by (simp add: prune_below_custom_watermark_def split: option.split)
  ultimately show ?case by (simp add: Cons.IH same)
qed (simp add: case_prod_beta')

lemma compact_fold:
  "inbox_wf b \<Longrightarrow> inbox_wf (fold compact_custom_watermark os b) \<and>
     (1 \<le> s \<longrightarrow> status (fold compact_custom_watermark os b) org s = status b org s)"
  by (induction os arbitrary: b) (use compact_status in auto)

lemma map_of_filter_keys: "map_of (filter (\<lambda>(k, _). p k) al) k = (if p k then map_of al k else None)"
  by (induction al) auto

text \<open>The tables after each step of the restore of a snapshot of \<open>p\<close> into \<open>b\<close>.\<close>

definition merged_wm :: "custom_inbox \<Rightarrow> custom_inbox \<Rightarrow> (string \<times> nat) list" where
  "merged_wm p b = merge_grow_max (custom_terminal_watermarks b) (custom_terminal_watermarks p)"

definition pruned_msgs :: "custom_inbox \<Rightarrow> custom_inbox \<Rightarrow> ((string \<times> nat) \<times> custom_msg_state) list" where
  "pruned_msgs p b = filter (\<lambda>((org, s), _). org \<notin> set (keys (custom_terminal_watermarks p)) \<or>
      \<not> watermark_covers (merged_wm p b) org s) (custom_messages b)"

definition restored_msgs :: "custom_inbox \<Rightarrow> custom_inbox \<Rightarrow> ((string \<times> nat) \<times> custom_msg_state) list" where
  "restored_msgs p b = snd (fold (restore_message (merged_wm p b)) (custom_messages p) ({}, pruned_msgs p b))"

definition restored_inbox :: "custom_inbox \<Rightarrow> custom_inbox \<Rightarrow> custom_inbox" where
  "restored_inbox p b = b\<lparr>custom_terminal_watermarks := merged_wm p b, custom_messages := restored_msgs p b\<rparr>"

lemma restore_inbox_steps:
  "\<exists>os. restore_inbox order (custom_terminal_watermarks p) (custom_messages p) b =
     fold compact_custom_watermark os (restored_inbox p b)"
  by (auto simp: restore_inbox_def Let_def prune_fold custom_watermark_covers_def pruned_msgs_def merged_wm_def
      restored_msgs_def restored_inbox_def split: prod.split intro!: exI)

lemma merged_covers:
  assumes "inbox_wf p"
  shows "watermark_covers (merged_wm p b) org s \<longleftrightarrow> custom_watermark_covers b org s \<or> custom_watermark_covers p org s"
proof -
  have "distinct (keys (custom_terminal_watermarks p))" using assms by (simp add: inbox_wf_def)
  note map_of_merge_grow_max [OF this]
  then show ?thesis
    by (auto simp: merged_wm_def custom_watermark_covers_def watermark_covers_def opt_join_def split: option.split)
qed

lemma wf_uncovered: "inbox_wf b \<Longrightarrow> custom_watermark_covers b org s \<Longrightarrow> map_of (custom_messages b) (org, s) = None"
  unfolding inbox_wf_def by (metis option.exhaust)

lemma map_of_pruned:
  assumes "inbox_wf p" and "inbox_wf b"
  shows "map_of (pruned_msgs p b) (org, s) =
     (if custom_watermark_covers p org s then None else map_of (custom_messages b) (org, s))"
proof -
  have "custom_watermark_covers p org s \<Longrightarrow> org \<in> set (keys (custom_terminal_watermarks p))"
    by (auto simp: custom_watermark_covers_def watermark_covers_def image_iff split: option.splits dest!: map_of_SomeD)
      force
  moreover have "map_of (pruned_msgs p b) (org, s) =
      (if org \<notin> set (keys (custom_terminal_watermarks p)) \<or> \<not> watermark_covers (merged_wm p b) org s
       then map_of (custom_messages b) (org, s) else None)"
    using map_of_filter_keys [where p = "\<lambda>(org, s). org \<notin> set (keys (custom_terminal_watermarks p)) \<or>
        \<not> watermark_covers (merged_wm p b) org s" and al = "custom_messages b" and k = "(org, s)"]
    by (simp add: pruned_msgs_def case_prod_unfold)
  ultimately show ?thesis
    using wf_uncovered [OF assms(2)] by (auto simp: merged_covers [OF assms(1)])
qed

lemma map_of_restored:
  assumes "inbox_wf p" and "inbox_wf b"
  shows "map_of (restored_msgs p b) (org, s) = opt_join latch_join (map_of (pruned_msgs p b) (org, s))
      (if watermark_covers (merged_wm p b) org s then None else map_of (custom_messages p) (org, s))"
    and "distinct (keys (restored_msgs p b))"
proof -
  let ?f = "filter (\<lambda>((org, s), _). \<not> watermark_covers (merged_wm p b) org s) (custom_messages p)"
  have "distinct (keys ?f)" "distinct (keys (pruned_msgs p b))"
    using assms by (simp_all add: distinct_map_filter inbox_wf_def pruned_msgs_def)
  note inbox_entries.merge_value [OF this(1), of "pruned_msgs p b" "(org, s)"] inbox_entries.merge_distinct [OF this(2), of ?f]
  moreover have "map_of ?f (org, s) = (if watermark_covers (merged_wm p b) org s then None else map_of (custom_messages p) (org, s))"
    using map_of_filter_keys [where p = "\<lambda>(org, s). \<not> watermark_covers (merged_wm p b) org s"
        and al = "custom_messages p" and k = "(org, s)"] by (simp add: case_prod_unfold)
  ultimately show "map_of (restored_msgs p b) (org, s) = opt_join latch_join (map_of (pruned_msgs p b) (org, s))
      (if watermark_covers (merged_wm p b) org s then None else map_of (custom_messages p) (org, s))"
    and "distinct (keys (restored_msgs p b))"
    by (simp_all add: restored_msgs_def restore_message_fold)
qed

lemma restored_entry:
  assumes "inbox_wf p" and "inbox_wf b" and "map_of (restored_msgs p b) (org, s) = Some x"
  shows "1 \<le> s \<and> \<not> watermark_covers (merged_wm p b) org s"
proof (cases "watermark_covers (merged_wm p b) org s")
  case True
  then show ?thesis
    using assms(3) wf_uncovered [OF assms(2), of org s]
    by (auto simp: map_of_restored(1) [OF assms(1,2)] map_of_pruned [OF assms(1,2)] merged_covers [OF assms(1)] split: if_splits)
next
  case False
  then have "map_of (custom_messages b) (org, s) \<noteq> None \<or> map_of (custom_messages p) (org, s) \<noteq> None"
    using assms(3) by (auto simp: map_of_restored(1) [OF assms(1,2)] map_of_pruned [OF assms(1,2)] merged_covers [OF assms(1)])
  with False assms(1,2) show ?thesis unfolding inbox_wf_def by (metis option.exhaust)
qed

lemma restored_wf:
  assumes "inbox_wf p" and "inbox_wf b"
  shows "inbox_wf (restored_inbox p b)"
proof -
  have "distinct (keys (merged_wm p b))" using assms(2) by (simp add: merged_wm_def inbox_wf_def)
  then show ?thesis
    using restored_entry [OF assms] map_of_restored(2) [OF assms] unfolding inbox_wf_def restored_inbox_def custom_watermark_covers_def
    by (auto simp only: custom_inbox.select_convs custom_inbox.update_convs) auto
qed

text \<open>
  restoring a snapshot joins the two inboxes message by message: what either replica knows to
  be ended is ended, and a post that only the snapshot has is adopted. One case is different. A
  message that the snapshot has as failed and that waits locally keeps waiting: only a handled
  entry of the snapshot ends a waiting message.
\<close>

theorem inbox_restore_exact:
  assumes "inbox_wf b" and "inbox_wf p" and "1 \<le> s"
    and "b' = restore_inbox order (custom_terminal_watermarks p) (custom_messages p) b"
  shows "inbox_wf b' \<and>
    status b' org s =
      (if status b org s = Ended \<or> custom_watermark_covers p org s then Ended
       else case map_of (custom_messages p) (org, s) of
         None \<Rightarrow> status b org s
       | Some Handled \<Rightarrow> Ended
       | Some MsgFailed \<Rightarrow> (if status b org s = Unposted then Ended else status b org s)
       | Some (Unhandled t d h) \<Rightarrow> (if status b org s = Unposted then Waiting t d h else status b org s))"
proof -
  have cov: "custom_watermark_covers (restored_inbox p b) org s \<longleftrightarrow> custom_watermark_covers b org s \<or> custom_watermark_covers p org s"
    by (simp add: restored_inbox_def custom_watermark_covers_def merged_covers [OF assms(2), unfolded custom_watermark_covers_def])
  have "inbox_wf b' \<and> status b' org s = status (restored_inbox p b) org s"
    using restore_inbox_steps [of order p b] compact_fold [OF restored_wf [OF assms(2,1)]] assms(3,4) by metis
  moreover have "status (restored_inbox p b) org s =
      (if custom_watermark_covers b org s \<or> custom_watermark_covers p org s then Ended
       else entry_status (opt_join latch_join (map_of (custom_messages b) (org, s)) (map_of (custom_messages p) (org, s))))"
    using cov by (simp add: status_def restored_inbox_def map_of_restored(1) [OF assms(2,1)] map_of_pruned [OF assms(2,1)]
        merged_covers [OF assms(2)])
  ultimately show ?thesis
    by (cases "map_of (custom_messages b) (org, s)"; cases "the (map_of (custom_messages b) (org, s))")
      (auto simp: status_def opt_join_def split: option.split custom_msg_state.split)
qed

theorem inbox_restore_exact_witness:
  "status (restore_inbox (\<lambda>_. []) [] [((''a'', 1), MsgFailed)]
     \<lparr>custom_messages = [((''a'', 1), Unhandled ''t'' ''d'' False)], custom_terminal_watermarks = [], outcomes = []\<rparr>) ''a'' 1 =
   Waiting ''t'' ''d'' False"
proof -
  let ?b = "\<lparr>custom_messages = [((''a'', 1), Unhandled ''t'' ''d'' False)], custom_terminal_watermarks = [], outcomes = []\<rparr>"
  let ?p = "\<lparr>custom_messages = [((''a'', 1), MsgFailed)], custom_terminal_watermarks = [], outcomes = []\<rparr>"
  have "inbox_wf ?b" "inbox_wf ?p"
    by (auto simp: inbox_wf_def custom_watermark_covers_def watermark_covers_def)
  from inbox_restore_exact [OF this, of 1 _ "\<lambda>_. []" "''a''"] show ?thesis
    by (simp add: status_def custom_watermark_covers_def watermark_covers_def)
qed

end
