(* ===== verification/Secondary_Cells.thy ===== *)
theory Secondary_Cells
  imports Replica "HOL-Library.Word"
begin

unbundle bit_operations_syntax

text \<open>
  The replicated cells of the per-secondary tasks (\<open>cluster_state/secondary_cell_state.rs\<close>). A
  secondary's cells are packed two bits each into bytes, beside a generation stamp per written
  cell; the join of one cell keeps the greater generation and, at equal generations, the greater
  value. The packed representation is related to the abstract cell, a pair of generation and
  value, by \<open>cell_view\<close>: every operation refines the register of theory \<open>Replica\<close>.
\<close>

section \<open>Cells and their packed form\<close>

datatype secondary_cell = NotDone | Queued | CellFailed | CellDone

fun cell_to_bits :: "secondary_cell \<Rightarrow> 8 word" where
  "cell_to_bits NotDone = 0"
| "cell_to_bits Queued = 1"
| "cell_to_bits CellFailed = 2"
| "cell_to_bits CellDone = 3"

definition bits_to_cell :: "8 word \<Rightarrow> secondary_cell" where
  "bits_to_cell w = (let v = w AND 3 in
     if v = 0 then NotDone else if v = 1 then Queued else if v = 2 then CellFailed else CellDone)"

definition cell_rank :: "secondary_cell \<Rightarrow> 8 word" where
  "cell_rank c = cell_to_bits c"

record secondary_cell_bits =
  cell_bits :: "8 word list"
  generations :: "(nat \<times> nat) list"

definition empty_bits :: secondary_cell_bits where
  "empty_bits = \<lparr>cell_bits = [], generations = []\<rparr>"

definition bits_cell :: "secondary_cell_bits \<Rightarrow> nat \<Rightarrow> secondary_cell" where
  "bits_cell b affine_id =
     (let byte = affine_id div 4 in
      if byte < length (cell_bits b)
      then let shift = (affine_id mod 4) * 2
           in bits_to_cell (drop_bit shift (cell_bits b ! byte) AND 3)
      else NotDone)"

definition bits_generation :: "secondary_cell_bits \<Rightarrow> nat \<Rightarrow> nat" where
  "bits_generation b affine_id = get_count (generations b) affine_id"

text \<open>\<open>Vec::resize\<close> to a greater length\<close>

definition grow_to :: "nat \<Rightarrow> 'a \<Rightarrow> 'a list \<Rightarrow> 'a list" where
  "grow_to n v xs = (if length xs < n then xs @ replicate (n - length xs) v else xs)"

definition bits_write :: "nat \<Rightarrow> secondary_cell \<Rightarrow> nat \<Rightarrow> secondary_cell_bits \<Rightarrow> secondary_cell_bits" where
  "bits_write affine_id cell generation b =
     (let byte = affine_id div 4;
          grown = grow_to (byte + 1) 0 (cell_bits b);
          shift = (affine_id mod 4) * 2;
          mask = push_bit shift 3
      in \<lparr>cell_bits = grown[byte := (grown ! byte AND NOT mask) OR push_bit shift (cell_to_bits cell)],
          generations = AList.update affine_id generation (generations b)\<rparr>)"

definition merge_cell :: "nat \<Rightarrow> secondary_cell \<Rightarrow> nat \<Rightarrow> secondary_cell_bits \<Rightarrow> bool \<times> secondary_cell_bits" where
  "merge_cell affine_id cell generation b =
     (let local_gen = bits_generation b affine_id;
          wins = generation > local_gen \<or>
                 (generation = local_gen \<and> cell_rank cell > cell_rank (bits_cell b affine_id))
      in (wins, if wins then bits_write affine_id cell generation b else b))"

definition bits_max_generation :: "secondary_cell_bits \<Rightarrow> nat" where
  "bits_max_generation b = fold max (map snd (generations b)) 0"

section \<open>The bitvector of all secondaries\<close>

type_synonym cell_bitvector = "(string \<times> secondary_cell_bits) list"

definition secondary_bits :: "cell_bitvector \<Rightarrow> string \<Rightarrow> secondary_cell_bits" where
  "secondary_bits v secondary = (case map_of v secondary of Some b \<Rightarrow> b | None \<Rightarrow> empty_bits)"

definition vec_cell :: "cell_bitvector \<Rightarrow> string \<Rightarrow> nat \<Rightarrow> secondary_cell" where
  "vec_cell v secondary affine_id =
     (case map_of v secondary of None \<Rightarrow> NotDone | Some b \<Rightarrow> bits_cell b affine_id)"

definition set_cell :: "string \<Rightarrow> nat \<Rightarrow> secondary_cell \<Rightarrow> nat \<Rightarrow> cell_bitvector \<Rightarrow> bool \<times> cell_bitvector" where
  "set_cell secondary affine_id cell generation v =
     (let (wins, b) = merge_cell affine_id cell generation (secondary_bits v secondary)
      in (wins, AList.update secondary b v))"

definition merge_bits :: "secondary_cell_bits \<Rightarrow> secondary_cell_bits \<Rightarrow> secondary_cell_bits" where
  "merge_bits other b =
     fold (\<lambda>(affine_id, generation) b. snd (merge_cell affine_id (bits_cell other affine_id) generation b))
       (generations other) b"

definition vec_merge :: "cell_bitvector \<Rightarrow> cell_bitvector \<Rightarrow> cell_bitvector" where
  "vec_merge v other =
     fold (\<lambda>(secondary, bits) v. AList.update secondary (merge_bits bits (secondary_bits v secondary)) v) other v"

definition max_generation :: "cell_bitvector \<Rightarrow> nat" where
  "max_generation v = fold max (map (\<lambda>(_, b). bits_max_generation b) v) 0"

definition to_wire :: "cell_bitvector \<Rightarrow> (string \<times> (nat \<times> secondary_cell \<times> nat) list) list" where
  "to_wire v = map (\<lambda>(secondary, b).
     (secondary, map (\<lambda>(affine_id, generation). (affine_id, bits_cell b affine_id, generation)) (generations b))) v"

definition vec_from_wire :: "(string \<times> (nat \<times> secondary_cell \<times> nat) list) list \<Rightarrow> cell_bitvector" where
  "vec_from_wire wire =
     fold (\<lambda>(secondary, cells) v.
       AList.update secondary
         (fold (\<lambda>(affine_id, cell, generation) b. bits_write affine_id cell generation b) cells
            (secondary_bits v secondary)) v) wire []"

definition secondaries_with_all_done :: "nat list \<Rightarrow> cell_bitvector \<Rightarrow> string list" where
  "secondaries_with_all_done affine_ids v =
     map fst (filter (\<lambda>(_, b). \<forall>i \<in> set affine_ids. bits_cell b i = CellDone) v)"

definition non_terminal_cells_for :: "string \<Rightarrow> nat list \<Rightarrow> cell_bitvector \<Rightarrow> nat list" where
  "non_terminal_cells_for secondary cell_ids v =
     (case map_of v secondary of
        None \<Rightarrow> cell_ids
      | Some b \<Rightarrow> filter (\<lambda>i. bits_cell b i \<in> {NotDone, CellFailed}) cell_ids)"

text \<open>The sub-store of the ledger: the cells and the primary's stamp counter.\<close>

record secondary_cell_state =
  bitvector :: cell_bitvector
  next_cell_gen :: nat

definition next_cell_generation :: "secondary_cell_state \<Rightarrow> nat \<times> secondary_cell_state" where
  "next_cell_generation s = (next_cell_gen s, s\<lparr>next_cell_gen := next_cell_gen s + 1\<rparr>)"

definition resume_cell_gen_floor :: "nat \<Rightarrow> secondary_cell_state \<Rightarrow> secondary_cell_state" where
  "resume_cell_gen_floor floor_gen s = s\<lparr>next_cell_gen := max (next_cell_gen s) floor_gen\<rparr>"

section \<open>Reading a cell back\<close>

lemma cell_bits_small: "cell_to_bits c AND 3 = cell_to_bits c"
  by (cases c) simp_all

lemma bits_to_cell_inverse [simp]: "bits_to_cell (cell_to_bits c AND 3) = c"
  by (cases c) (simp_all add: bits_to_cell_def)

lemma cell_rank_inj: "cell_rank c = cell_rank d \<longleftrightarrow> c = d"
  by (cases c; cases d) (simp_all add: cell_rank_def)

lemma bit_three: "bit (3 :: 8 word) n \<longleftrightarrow> n < 2"
proof -
  have three: "(3 :: 8 word) = mask 2" by (simp add: mask_eq_exp_minus_1)
  show ?thesis unfolding three by (auto simp only: bit_mask_iff possible_bit_word) simp
qed

lemma slot_read:
  fixes w v m :: "8 word"
  assumes "k < 4" and "l < 4" and m: "\<And>n. bit m n \<longleftrightarrow> n < 2" and v: "\<And>n. bit v n \<Longrightarrow> n < 2"
  shows "drop_bit (l * 2) ((w AND NOT (push_bit (k * 2) m)) OR push_bit (k * 2) v) AND m =
     (if l = k then v else drop_bit (l * 2) w AND m)"
proof (rule bit_word_eqI)
  fix n assume "n < LENGTH(8)"
  then show "bit (drop_bit (l * 2) ((w AND NOT (push_bit (k * 2) m)) OR push_bit (k * 2) v) AND m) n =
      bit (if l = k then v else drop_bit (l * 2) w AND m) n"
    using assms(1,2) v [of n] v [of "l * 2 + n - k * 2"]
    by (auto simp: bit_simps m)
qed

lemma bit_cell: "bit (cell_to_bits c) n \<Longrightarrow> n < 2"
  by (metis bit_and_iff bit_three cell_bits_small)

lemma bits_cell_write:
  "bits_cell (bits_write i c g b) j = (if j = i then c else bits_cell b j)"
proof -
  define grown where "grown = grow_to (i div 4 + 1) 0 (cell_bits b)"
  define w where "w = (grown ! (i div 4) AND NOT (push_bit (i mod 4 * 2) 3)) OR push_bit (i mod 4 * 2) (cell_to_bits c)"
  have len: "i div 4 < length grown"
    by (auto simp: grown_def grow_to_def)
  have old: "bits_cell b j = (if j div 4 < length grown
      then bits_to_cell (drop_bit (j mod 4 * 2) (grown ! (j div 4)) AND 3) else NotDone)"
    by (auto simp: bits_cell_def grown_def grow_to_def nth_append Let_def bits_to_cell_def)
  have new: "bits_cell (bits_write i c g b) j = (if j div 4 < length grown
      then bits_to_cell (drop_bit (j mod 4 * 2) (grown[i div 4 := w] ! (j div 4)) AND 3) else NotDone)"
    by (simp only: bits_cell_def bits_write_def Let_def w_def grown_def
        secondary_cell_bits.select_convs length_list_update)
  have read: "drop_bit (j mod 4 * 2) w AND 3 =
      (if j mod 4 = i mod 4 then cell_to_bits c else drop_bit (j mod 4 * 2) (grown ! (i div 4)) AND 3)"
    unfolding w_def by (rule slot_read [OF _ _ bit_three bit_cell]) auto
  have eq: "j div 4 = i div 4 \<and> j mod 4 = i mod 4 \<longleftrightarrow> j = i"
    by (metis div_mult_mod_eq)
  have c: "bits_to_cell (cell_to_bits c) = c"
    using bits_to_cell_inverse [of c] by (simp only: cell_bits_small)
  show ?thesis
  proof (cases "j div 4 = i div 4")
    case True
    then have "bits_cell (bits_write i c g b) j = bits_to_cell (drop_bit (j mod 4 * 2) w AND 3)"
      using len by (simp only: new nth_list_update_eq if_True)
    then show ?thesis
      using True eq len by (simp only: read old c split: if_split) auto
  next
    case False
    then have "j \<noteq> i" by auto
    with False show ?thesis by (simp only: new old nth_list_update_neq not_sym if_False)
  qed
qed

lemma bits_generation_write:
  "bits_generation (bits_write i c g b) j = (if j = i then g else bits_generation b j)"
  by (simp add: bits_generation_def bits_write_def Let_def)

section \<open>Refinement of the per-cell register\<close>

text \<open>
  What a replica knows of one cell: its generation and its value. An unwritten cell reads as
  \<open>(0, NotDone)\<close>, the least element.
\<close>

type_synonym cell_view = "nat \<times> secondary_cell"

definition cell_key :: "cell_view \<Rightarrow> nat \<times> 8 word" where
  "cell_key x = (fst x, cell_rank (snd x))"

definition cell_join :: "cell_view \<Rightarrow> cell_view \<Rightarrow> cell_view" where
  "cell_join x y = (if cell_key x < cell_key y then y else x)"

interpretation cell_register: total_register cell_key cell_join
  by unfold_locales (auto simp: cell_join_def cell_key_def cell_rank_inj prod_eq_iff)

definition bits_view :: "secondary_cell_bits \<Rightarrow> nat \<Rightarrow> cell_view" where
  "bits_view b i = (bits_generation b i, bits_cell b i)"

definition vec_view :: "cell_bitvector \<Rightarrow> string \<Rightarrow> nat \<Rightarrow> cell_view" where
  "vec_view v secondary i = bits_view (secondary_bits v secondary) i"

text \<open>
  Every cell that was ever written has a stamp, so a cell without one is \<^const>\<open>NotDone\<close>, and the
  tables have distinct keys.
\<close>

definition bits_wf :: "secondary_cell_bits \<Rightarrow> bool" where
  "bits_wf b \<longleftrightarrow> distinct (keys (generations b)) \<and>
     (\<forall>i. i \<notin> set (keys (generations b)) \<longrightarrow> bits_cell b i = NotDone)"

definition vec_wf :: "cell_bitvector \<Rightarrow> bool" where
  "vec_wf v \<longleftrightarrow> distinct (keys v) \<and> (\<forall>(secondary, b) \<in> set v. bits_wf b)"

lemma bits_wf_empty [simp]: "bits_wf empty_bits"
  by (simp add: bits_wf_def empty_bits_def bits_cell_def)

lemma bits_wf_write [simp]: "bits_wf b \<Longrightarrow> bits_wf (bits_write i c g b)"
  by (auto simp: bits_wf_def bits_cell_write) (simp_all add: bits_write_def Let_def)

lemma bits_wf_merge_cell [simp]: "bits_wf b \<Longrightarrow> bits_wf (snd (merge_cell i c g b))"
  by (simp add: merge_cell_def Let_def)

lemma bits_view_write: "bits_view (bits_write i c g b) j = (if j = i then (g, c) else bits_view b j)"
  by (simp add: bits_view_def bits_cell_write bits_generation_write)

lemma merge_cell_view:
  "bits_view (snd (merge_cell i c g b)) j = (if j = i then cell_join (bits_view b i) (g, c) else bits_view b j)"
  by (auto simp: merge_cell_def Let_def bits_view_write cell_join_def cell_key_def)
    (auto simp: bits_view_def)

lemma merge_cell_wins: "fst (merge_cell i c g b) \<longleftrightarrow> cell_key (bits_view b i) < cell_key (g, c)"
  by (auto simp: merge_cell_def Let_def cell_key_def bits_view_def)

lemma secondary_bits_update [simp]:
  "secondary_bits (AList.update s b v) s' = (if s' = s then b else secondary_bits v s')"
  by (simp add: secondary_bits_def)

lemma vec_wf_bits [simp]: "vec_wf v \<Longrightarrow> bits_wf (secondary_bits v s)"
  by (auto simp: vec_wf_def secondary_bits_def dest: map_of_SomeD split: option.split)

lemma vec_wf_update [simp]: "vec_wf v \<Longrightarrow> bits_wf b \<Longrightarrow> vec_wf (AList.update s b v)"
  by (auto simp: vec_wf_def set_AList_update)

lemma vec_cell_view: "vec_cell v s i = snd (vec_view v s i)"
  by (auto simp: vec_cell_def vec_view_def bits_view_def secondary_bits_def empty_bits_def bits_cell_def split: option.split)

lemma set_cell_wf [simp]: "vec_wf v \<Longrightarrow> vec_wf (snd (set_cell s i c g v))"
  by (simp add: set_cell_def split: prod.split) (metis bits_wf_merge_cell snd_conv vec_wf_bits vec_wf_update)

lemma set_cell_view:
  "vec_view (snd (set_cell s i c g v)) s' j =
     (if s' = s \<and> j = i then cell_join (vec_view v s i) (g, c) else vec_view v s' j)"
  using merge_cell_view [of i c g "secondary_bits v s" j]
  by (auto simp: set_cell_def vec_view_def split: prod.split)

text \<open>Merging one secondary's cells, and then all of them, is the join cell by cell.\<close>

lemma bits_view_unwritten: "bits_wf b \<Longrightarrow> i \<notin> set (keys (generations b)) \<Longrightarrow> bits_view b i = (0, NotDone)"
  by (auto simp: bits_wf_def bits_view_def bits_generation_def get_count_def map_of_eq_None_iff split: option.split)
    (metis fst_conv image_eqI map_of_SomeD)

lemma cell_join_bottom [simp]: "cell_join x (0, NotDone) = x"
  by (auto simp: cell_join_def cell_key_def cell_rank_def less_prod_def')

lemma merge_bits_fold:
  assumes "distinct (keys gs)" and "bits_wf b"
  shows "bits_view (fold (\<lambda>(i, g) b. snd (merge_cell i (bits_cell other i) g b)) gs b) j =
      (case map_of gs j of None \<Rightarrow> bits_view b j | Some g \<Rightarrow> cell_join (bits_view b j) (g, bits_cell other j))
    \<and> bits_wf (fold (\<lambda>(i, g) b. snd (merge_cell i (bits_cell other i) g b)) gs b)"
  using assms
proof (induction gs arbitrary: b)
  case (Cons e gs)
  obtain i g where e: "e = (i, g)" by fastforce
  have "map_of gs i = None" using Cons.prems(1) by (simp add: e map_of_eq_None_iff)
  then show ?case
    using Cons.IH [of "snd (merge_cell i (bits_cell other i) g b)"] Cons.prems
    by (auto simp: e merge_cell_view split: option.splits)
qed auto

lemma merge_bits_view:
  assumes "bits_wf other" and "bits_wf b"
  shows "bits_view (merge_bits other b) j = cell_join (bits_view b j) (bits_view other j)"
proof (cases "map_of (generations other) j")
  case None
  then have "bits_view other j = (0, NotDone)"
    using assms(1) by (auto intro: bits_view_unwritten simp: map_of_eq_None_iff)
  then show ?thesis
    using merge_bits_fold [of "generations other" b other j] assms None by (simp add: merge_bits_def bits_wf_def)
next
  case (Some g)
  then have "bits_view other j = (g, bits_cell other j)"
    by (simp add: bits_view_def bits_generation_def get_count_def)
  then show ?thesis
    using merge_bits_fold [of "generations other" b other j] assms Some by (simp add: merge_bits_def bits_wf_def)
qed

lemma merge_bits_wf [simp]: "bits_wf other \<Longrightarrow> bits_wf b \<Longrightarrow> bits_wf (merge_bits other b)"
  using merge_bits_fold [of "generations other" b other] by (simp add: merge_bits_def bits_wf_def)

lemma vec_merge_fold:
  assumes "distinct (keys other)" and "\<forall>(s, b) \<in> set other. bits_wf b" and "vec_wf v"
  shows "vec_wf (vec_merge v other) \<and>
    vec_view (vec_merge v other) s i = cell_join (vec_view v s i) (vec_view other s i)"
  using assms
proof (induction other arbitrary: v)
  case Nil
  then show ?case by (simp add: vec_merge_def vec_view_def secondary_bits_def empty_bits_def bits_view_def bits_generation_def
      get_count_def bits_cell_def)
next
  case (Cons e other)
  obtain t b where e: "e = (t, b)" by fastforce
  let ?v = "AList.update t (merge_bits b (secondary_bits v t)) v"
  have fresh: "map_of other t = None" and wf: "bits_wf b" "vec_wf ?v"
    using Cons.prems by (auto simp: e map_of_eq_None_iff)
  have step: "vec_merge v (e # other) = vec_merge ?v other"
    by (simp add: vec_merge_def e)
  have "vec_view other t i = (0, NotDone)"
    using fresh by (simp add: vec_view_def secondary_bits_def bits_view_unwritten empty_bits_def)
      (simp add: bits_view_def bits_generation_def get_count_def bits_cell_def)
  moreover have "vec_view ?v s i = (if s = t then cell_join (vec_view v t i) (bits_view b i) else vec_view v s i)"
    using Cons.prems(3) wf(1) by (simp add: vec_view_def merge_bits_view)
  moreover have "vec_view (e # other) s i = (if s = t then bits_view b i else vec_view other s i)"
    by (simp add: vec_view_def secondary_bits_def e)
  moreover have "vec_wf (vec_merge ?v other) \<and> vec_view (vec_merge ?v other) s i = cell_join (vec_view ?v s i) (vec_view other s i)"
    using Cons.prems wf(2) by (intro Cons.IH) (auto simp: e)
  ultimately show ?case by (simp add: step)
qed

lemma vec_merge_view:
  "vec_wf v \<Longrightarrow> vec_wf other \<Longrightarrow> vec_view (vec_merge v other) s i = cell_join (vec_view v s i) (vec_view other s i)"
  using vec_merge_fold [of other v s i] by (simp add: vec_wf_def)

lemma vec_merge_wf [simp]: "vec_wf v \<Longrightarrow> vec_wf other \<Longrightarrow> vec_wf (vec_merge v other)"
  using vec_merge_fold [of other v] by (simp add: vec_wf_def)


definition sample_cells :: cell_bitvector where
  "sample_cells = [(''s'', \<lparr>cell_bits = [5], generations = [(0, 2), (1, 3)]\<rparr>)]"

lemma sample_cells_wf: "vec_wf sample_cells"
proof -
  have "bits_cell \<lparr>cell_bits = [5], generations = [(0, 2), (1, 3)]\<rparr> i = NotDone" if "i \<noteq> 0" "i \<noteq> 1" for i
  proof (cases "i < 4")
    case True
    with that have "i = 2 \<or> i = 3" by auto
    then show ?thesis by (auto simp: bits_cell_def Let_def bits_to_cell_def)
  qed (simp add: bits_cell_def Let_def div_eq_0_iff)
  then show ?thesis by (auto simp: vec_wf_def bits_wf_def sample_cells_def)
qed


section \<open>The wire form\<close>

lemma write_fold:
  assumes "distinct (keys gs)" and "bits_wf b" 
  shows "bits_view (fold (\<lambda>(i, c, g). bits_write i c g) (map (\<lambda>(i, g). (i, f i, g)) gs) b) j =
      (case map_of gs j of None \<Rightarrow> bits_view b j | Some g \<Rightarrow> (g, f j))
    \<and> bits_wf (fold (\<lambda>(i, c, g). bits_write i c g) (map (\<lambda>(i, g). (i, f i, g)) gs) b)"
  using assms
proof (induction gs arbitrary: b)
  case (Cons e gs)
  obtain i g where e: "e = (i, g)" by fastforce
  have "map_of gs i = None" using Cons.prems(1) by (simp add: e map_of_eq_None_iff)
  then show ?case
    using Cons.IH [of "bits_write i (f i) g b"] Cons.prems
    by (auto simp: e bits_view_write split: option.splits)
qed auto

text \<open>The bytes a secondary sends of its own cells rebuild what it reads.\<close>

definition rebuilt :: "secondary_cell_bits \<Rightarrow> secondary_cell_bits" where
  "rebuilt b = fold (\<lambda>(i, c, g). bits_write i c g) (map (\<lambda>(i, g). (i, bits_cell b i, g)) (generations b)) empty_bits"

lemma rebuilt_view:
  assumes "bits_wf b"
  shows "bits_view (rebuilt b) j = bits_view b j" and "bits_wf (rebuilt b)"
proof -
  have d: "distinct (keys (generations b))" using assms by (simp add: bits_wf_def)
  note fold = write_fold [OF d bits_wf_empty, where f = "bits_cell b"]
  show "bits_wf (rebuilt b)" using fold by (simp add: rebuilt_def)
  show "bits_view (rebuilt b) j = bits_view b j"
  proof (cases "map_of (generations b) j")
    case None
    then have "bits_view b j = (0, NotDone)" "bits_view empty_bits j = (0, NotDone)"
      using assms by (auto intro!: bits_view_unwritten simp: map_of_eq_None_iff) (simp add: empty_bits_def)
    then show ?thesis using fold [of j] None by (simp add: rebuilt_def)
  next
    case (Some g)
    then show ?thesis using fold [of j]
      by (simp add: rebuilt_def bits_view_def [of b] bits_generation_def get_count_def)
  qed
qed

lemma from_wire_fold:
  assumes "distinct (keys v)" and "\<forall>s \<in> set (keys v). map_of u s = None" and "vec_wf u"
    and "\<forall>(s, b) \<in> set v. bits_wf b"
  shows "vec_wf (fold (\<lambda>(s, cells) v. AList.update s (fold (\<lambda>(i, c, g) b. bits_write i c g b) cells (secondary_bits v s)) v)
           (to_wire v) u) \<and>
    vec_view (fold (\<lambda>(s, cells) v. AList.update s (fold (\<lambda>(i, c, g) b. bits_write i c g b) cells (secondary_bits v s)) v)
           (to_wire v) u) s i = (if s \<in> set (keys v) then vec_view v s i else vec_view u s i)"
  using assms
proof (induction v arbitrary: u)
  case (Cons e v)
  obtain t b where e: "e = (t, b)" by fastforce
  have empty: "secondary_bits u t = empty_bits" and wf: "bits_wf b"
    using Cons.prems by (auto simp: e secondary_bits_def)
  let ?u = "AList.update t (rebuilt b) u"
  have "vec_wf ?u" "\<forall>s \<in> set (keys v). map_of ?u s = None" "distinct (keys v)" "\<forall>(s, b) \<in> set v. bits_wf b" "t \<notin> set (keys v)"
    using Cons.prems rebuilt_view(2) [OF wf] by (auto simp: e)
  moreover have "vec_view ?u s i = (if s = t then bits_view b i else vec_view u s i)"
    using rebuilt_view(1) [OF wf] by (simp add: vec_view_def)
  moreover have "vec_view (e # v) s i = (if s = t then bits_view b i else vec_view v s i)"
    by (simp add: vec_view_def secondary_bits_def e)
  ultimately show ?case
    using Cons.IH [of ?u] by (auto simp: e to_wire_def empty rebuilt_def)
qed (simp add: to_wire_def)

text \<open>
  a snapshot carries the cells faithfully: rebuilding the packed tables from the wire form
  gives a well-formed table in which every cell of every secondary has the value and the
  generation it had.
\<close>

theorem cell_wire_roundtrip:
  assumes "vec_wf v"
  shows "vec_wf (vec_from_wire (to_wire v)) \<and> vec_view (vec_from_wire (to_wire v)) = vec_view v"
proof -
  have d: "distinct (keys v)" "\<forall>(s, b) \<in> set v. bits_wf b" using assms by (auto simp: vec_wf_def)
  note fold = from_wire_fold [OF d(1) _ _ d(2), where u = "[]"]
  have absent: "s \<notin> set (keys v) \<Longrightarrow> vec_view v s i = vec_view [] s i" for s i
    by (simp add: vec_view_def secondary_bits_def map_of_eq_None_iff split: option.split)
      (metis map_of_eq_None_iff option.distinct(1))
  have "vec_wf []" by (simp add: vec_wf_def)
  then show ?thesis using fold absent by (auto simp: vec_from_wire_def fun_eq_iff)
qed

theorem cell_wire_roundtrip_witness:
  "vec_view (vec_from_wire (to_wire sample_cells)) ''s'' 1 = (3, Queued)"
  using cell_wire_roundtrip [OF sample_cells_wf]
  by (simp add: vec_view_def secondary_bits_def sample_cells_def bits_view_def bits_generation_def get_count_def
      bits_cell_def Let_def bits_to_cell_def)

section \<open>Stamps of a promoted primary\<close>

lemma fold_max_le: "x \<in> set xs \<or> x \<le> a \<Longrightarrow> x \<le> fold max xs (a :: nat)"
  by (induction xs arbitrary: a) (auto simp: le_max_iff_disj)

lemma generation_bounded: "bits_generation b i \<le> bits_max_generation b"
proof (cases "map_of (generations b) i")
  case (Some g)
  then have "g \<in> set (map snd (generations b))" by (force dest: map_of_SomeD)
  then show ?thesis
    using Some by (simp add: bits_generation_def get_count_def bits_max_generation_def fold_max_le)
qed (simp add: bits_generation_def get_count_def)

lemma view_bounded: "fst (vec_view v s i) \<le> max_generation v"
proof (cases "map_of v s")
  case (Some b)
  then have "bits_max_generation b \<in> set (map (\<lambda>(_, b). bits_max_generation b) v)" by (force dest: map_of_SomeD)
  then have "bits_max_generation b \<le> max_generation v" by (simp add: max_generation_def fold_max_le)
  then show ?thesis
    using Some generation_bounded [of b i] by (simp add: vec_view_def secondary_bits_def bits_view_def)
qed (simp add: vec_view_def secondary_bits_def bits_view_def bits_generation_def get_count_def empty_bits_def)

text \<open>
  a primary that resumed its stamp counter past every generation it has seen overrides any
  cell with its next write, a reset to \<^const>\<open>NotDone\<close> included: the write takes effect, the cell
  reads back the written value, and merging the cells as they were before does not undo it.
\<close>

theorem stamped_write_wins:
  assumes "vec_wf (bitvector st)"
    and "(g, st') = next_cell_generation (resume_cell_gen_floor (max_generation (bitvector st) + 1) st)"
    and "set_cell s i c g (bitvector st') = (wins, v)"
  shows "wins \<and> vec_cell v s i = c \<and> vec_cell (vec_merge v (bitvector st)) s i = c \<and>
    (s' \<noteq> s \<or> j \<noteq> i \<longrightarrow> vec_cell v s' j = vec_cell (bitvector st) s' j) \<and>
    g < next_cell_gen st'"
proof -
  have bv: "bitvector st' = bitvector st" and g: "max_generation (bitvector st) < g" and "g < next_cell_gen st'"
    using assms(2) by (auto simp: next_cell_generation_def resume_cell_gen_floor_def)
  have later: "cell_key (vec_view (bitvector st) s i) < cell_key (g, c)"
    using view_bounded [of "bitvector st" s i] g by (auto simp: cell_key_def)
  have v: "v = snd (set_cell s i c g (bitvector st))" and w: "wins = fst (set_cell s i c g (bitvector st))"
    using assms(3) by (simp_all add: bv)
  have vec_view: "vec_view v s' j = (if s' = s \<and> j = i then (g, c) else vec_view (bitvector st) s' j)" for s' j
    using later by (auto simp: v set_cell_view cell_join_def)
  have "vec_wf v" using assms(1) by (simp add: v)
  then have "vec_cell (vec_merge v (bitvector st)) s i = c"
    using assms(1) later by (auto simp: vec_cell_view vec_merge_view vec_view cell_join_def)
  moreover have "wins"
    using later by (auto simp: w set_cell_def vec_view_def merge_cell_wins split: prod.splits dest: sym)
      (metis fst_conv merge_cell_wins)
  ultimately show ?thesis
    using \<open>g < next_cell_gen st'\<close> by (auto simp: vec_cell_view vec_view)
qed

theorem stamped_write_wins_witness:
  "fst (set_cell ''s'' 1 NotDone 4 sample_cells) \<and>
   vec_cell (snd (set_cell ''s'' 1 NotDone 4 sample_cells)) ''s'' 1 = NotDone"
proof -
  let ?st = "\<lparr>bitvector = sample_cells, next_cell_gen = 0\<rparr>"
  let ?st' = "\<lparr>bitvector = sample_cells, next_cell_gen = 5\<rparr>"
  have "(4, ?st') = next_cell_generation (resume_cell_gen_floor (max_generation (bitvector ?st) + 1) ?st)"
    by (simp add: next_cell_generation_def resume_cell_gen_floor_def max_generation_def sample_cells_def bits_max_generation_def)
  moreover have "vec_wf (bitvector ?st)" by (simp add: sample_cells_wf)
  moreover have "set_cell ''s'' 1 NotDone 4 (bitvector ?st') = (fst (set_cell ''s'' 1 NotDone 4 sample_cells), snd (set_cell ''s'' 1 NotDone 4 sample_cells))"
    by simp
  ultimately show ?thesis
    using stamped_write_wins [where st = ?st and st' = ?st' and s = "''s''" and i = 1 and c = NotDone and g = 4] by blast
qed

end
