(* ===== verification/Ledger_State.thy ===== *)
theory Ledger_State
  imports Ledger_Types Membership Custom_Inbox Secondary_Cells Output_Gather
begin

text \<open>
  The replicated cluster ledger, \<open>ClusterState\<close> of \<open>cluster_state/state.rs\<close>, and its single write
  path for task states: \<open>set_task_state\<close> (\<open>cluster_state/range_digest.rs\<close>) keeps, beside the table
  of tasks, three derived tables: who is blocked on whom, the tally of outcomes and the digest
  that replicas compare. Finished tasks move to the settled store on disk and come back when
  something overrides them (\<open>cluster_state/settled.rs\<close>).

  The environment \<open>ledger_env\<close> holds what the ledger calls and does not compute itself: the hashers
  of the standard library, the records on disk, the decoding of a worker's result, whether a write to
  the output file succeeds, and the liveness snapshot of the transport. Caches of digests, log lines and narration events are left
  out; completion events are appended to \<open>completed_events\<close>.
\<close>

section \<open>State\<close>

datatype phase_tally = TallyCompleted | TallyFailed

datatype bucket_kind = BucketRecoverable | BucketOom

datatype discovery_debt = Undeclared | Owed | Settled

datatype task_count_category = CatWork | CatSetup | CatSecondaryAffine | CatSecondaryEagerPrep

fun count_category :: "task_kind \<Rightarrow> task_count_category" where
  "count_category Work = CatWork"
| "count_category Setup = CatSetup"
| "count_category SecondaryAffine = CatSecondaryAffine"
| "count_category SecondaryEagerPrep = CatSecondaryEagerPrep"

datatype settled_class = SCompleted | SSkippedAlreadyDone | SSetupCompleted | SInvalidTask | SFailedFinal error_type

record settled_entry =
  se_task_id :: task_id
  se_phase_id :: phase_id
  se_task_depends_on :: "task_dep list"
  se_class :: settled_class
  se_category :: task_count_category
  se_join_key :: join_key
  se_def_id :: nat
  se_digest :: "64 word"
  se_has_outputs :: bool
  se_segment :: nat
  se_offset :: nat
  se_len :: nat

record respawn_policy =
  max_per_secondary :: nat
  max_total :: nat
  cooldown_ms :: nat

record respawn_event_record =
  original_id :: string
  respawn_cause :: removal_cause
  respawned_at :: nat

record ('i, 'j) ledger_env =
  hash_payload :: payload_hasher
  hash_digest :: "string \<Rightarrow> join_key \<Rightarrow> 64 word"
  range_index :: "string \<Rightarrow> nat"
  hash_content :: "'i hash_input \<Rightarrow> nat"
  hash_phase_deps :: "(phase_id \<times> phase_id list) list \<Rightarrow> nat"
  read_spill :: "nat \<Rightarrow> nat \<Rightarrow> nat \<Rightarrow> (('i, 'j) task_state \<times> task_outputs option) option"
  decode_payload :: "string \<Rightarrow> task_outputs option"
  output_write_ok :: "string \<Rightarrow> bool"
  alive_via_authority :: "string \<Rightarrow> bool"

record ('i, 'j, 'p) ledger =
  tasks :: "(string \<times> ('i, 'j) task_state) list"
  settled_index :: "(string \<times> settled_entry) list"
  settled_def_ids :: "nat \<rightharpoonup> string"
  spill_writer :: bool
  blocked_by :: "string \<Rightarrow> string list"
  outcome_tally :: outcome_summary
  range_fold_memo :: "nat \<Rightarrow> 64 word \<times> nat"
  task_outputs :: "string \<rightharpoonup> task_outputs"
  output_folded :: "string set"
  output_persisted :: "string \<rightharpoonup> task_outputs"
  output_writable :: bool
  definitions :: "('i, 'j) task_def_store"
  affine :: secondary_cell_state
  members :: "'p membership"
  inbox :: custom_inbox
  current_primary :: "string option"
  ledger_epoch :: nat
  role_primary :: "string option"
  phase_deps :: "(phase_id \<times> phase_id list) list"
  phase_may_be_empty :: "phase_id set"
  phase_no_barrier :: "phase_id set"
  phases_ended :: "phase_id set"
  run_complete :: bool
  run_aborted :: "string option"
  terminal_outcome :: "outcome_summary option"
  graceful_abort_requested :: bool
  wind_down_requested :: "(string \<times> nat) set"
  ledger_debt :: discovery_debt
  ledger_respawn_policy :: "respawn_policy option"
  phase_event_tallies :: "((phase_id \<times> phase_tally) \<times> nat) list"
  retry_passes_used :: "((phase_id \<times> bucket_kind) \<times> nat) list"
  unfulfillable_reinject_used :: "(string \<times> nat) list"
  respawn_events :: "(string \<times> respawn_event_record) list"
  completed_events :: "task_completed_event list"

definition empty_ledger :: "('i, 'j, 'p) ledger" where
  "empty_ledger = \<lparr>tasks = [], settled_index = [], settled_def_ids = Map.empty, spill_writer = False, blocked_by = (\<lambda>_. []),
     outcome_tally = zero_summary, range_fold_memo = (\<lambda>_. (0, 0)), task_outputs = Map.empty, output_folded = {},
     output_persisted = Map.empty, output_writable = False, definitions = empty_def_store,
     affine = \<lparr>bitvector = [], next_cell_gen = 0\<rparr>, members = empty_membership, inbox = empty_inbox, current_primary = None,
     ledger_epoch = 0, role_primary = None, phase_deps = [], phase_may_be_empty = {}, phase_no_barrier = {},
     phases_ended = {}, run_complete = False, run_aborted = None, terminal_outcome = None,
     graceful_abort_requested = False, wind_down_requested = {}, ledger_debt = Undeclared, ledger_respawn_policy = None,
     phase_event_tallies = [], retry_passes_used = [], unfulfillable_reinject_used = [], respawn_events = [],
     completed_events = []\<rparr>"

section \<open>The write path of task states\<close>

definition digest_term :: "('i, 'j) ledger_env \<Rightarrow> string \<Rightarrow> ('i, 'j) task_state \<Rightarrow> 64 word" where
  "digest_term env k s = hash_digest env k (task_join_key (hash_payload env) s)"

text \<open>\<open>RangeFoldMemo::add\<close> and \<open>swap\<close>; the count saturates at the greatest 32-bit number.\<close>

definition memo_add :: "('i, 'j) ledger_env \<Rightarrow> string \<Rightarrow> 64 word \<Rightarrow> (nat \<Rightarrow> 64 word \<times> nat) \<Rightarrow> nat \<Rightarrow> 64 word \<times> nat" where
  "memo_add env k t m =
     m(range_index env k := (fst (m (range_index env k)) XOR t, min (snd (m (range_index env k)) + 1) (2 ^ 32 - 1)))"

definition memo_swap ::
  "('i, 'j) ledger_env \<Rightarrow> string \<Rightarrow> 64 word \<Rightarrow> 64 word \<Rightarrow> (nat \<Rightarrow> 64 word \<times> nat) \<Rightarrow> nat \<Rightarrow> 64 word \<times> nat" where
  "memo_swap env k old_term new_term m =
     m(range_index env k := (fst (m (range_index env k)) XOR (old_term XOR new_term), snd (m (range_index env k))))"

fun blocked_on :: "('i, 'j) task_state option \<Rightarrow> string option" where
  "blocked_on (Some (TBlocked _ _ p _)) = Some p"
| "blocked_on _ = None"

definition reindex_blocked :: "string \<Rightarrow> string option \<Rightarrow> string option \<Rightarrow> (string \<Rightarrow> string list) \<Rightarrow> string \<Rightarrow> string list" where
  "reindex_blocked hash old_on new_on b =
     (if old_on = new_on then b
      else let b1 = (case old_on of Some p \<Rightarrow> b(p := removeAll hash (b p)) | None \<Rightarrow> b)
           in case new_on of Some p \<Rightarrow> b1(p := List.insert hash (b1 p)) | None \<Rightarrow> b1)"

definition set_task_state ::
  "('i, 'j) ledger_env \<Rightarrow> string \<Rightarrow> ('i, 'j) task_state \<Rightarrow> ('i, 'j, 'p) ledger \<Rightarrow> ('i, 'j, 'p) ledger" where
  "set_task_state env hash new_state l =
     (let old_state = map_of (tasks l) hash in
      l\<lparr>tasks := AList.update hash new_state (tasks l),
        range_fold_memo := (case old_state of
            Some x \<Rightarrow> memo_swap env hash (digest_term env hash x) (digest_term env hash new_state) (range_fold_memo l)
          | None \<Rightarrow> memo_add env hash (digest_term env hash new_state) (range_fold_memo l)),
        outcome_tally := tally_swap (Option.bind old_state outcome_bucket_of) (outcome_bucket_of new_state) (outcome_tally l),
        blocked_by := reindex_blocked hash (blocked_on old_state) (blocked_on (Some new_state)) (blocked_by l)\<rparr>)"

definition rewrite_task_state ::
  "('i, 'j) ledger_env \<Rightarrow> string \<Rightarrow> ('i, 'j) task_state \<Rightarrow> ('i, 'j, 'p) ledger \<Rightarrow> bool \<times> ('i, 'j, 'p) ledger" where
  "rewrite_task_state env hash new_state l =
     (if map_of (tasks l) hash = None then (False, l) else (True, set_task_state env hash new_state l))"

section \<open>The settled store\<close>

definition settled_contains :: "('i, 'j, 'p) ledger \<Rightarrow> string \<Rightarrow> bool" where
  "settled_contains l hash \<longleftrightarrow> map_of (settled_index l) hash \<noteq> None"

definition contains_task :: "('i, 'j, 'p) ledger \<Rightarrow> string \<Rightarrow> bool" where
  "contains_task l hash \<longleftrightarrow> map_of (tasks l) hash \<noteq> None \<or> settled_contains l hash"

definition bucket_matches :: "bucket_kind \<Rightarrow> error_type \<Rightarrow> bool" where
  "bucket_matches b k = (case b of BucketRecoverable \<Rightarrow> k = Recoverable | BucketOom \<Rightarrow> k = ResourceExhausted memory_kind)"

fun settle_eligible :: "('i, 'j) task_state \<Rightarrow> bool" where
  "settle_eligible (TCompleted _ _ _) = True"
| "settle_eligible (TSkippedAlreadyDone _ _ _) = True"
| "settle_eligible (TSetupCompleted _ _ _) = True"
| "settle_eligible (TInvalidTask _ _ _ _ _ _) = True"
| "settle_eligible (TFailed _ _ k _ _ _) = (\<not> bucket_matches BucketRecoverable k \<and> \<not> bucket_matches BucketOom k)"
| "settle_eligible _ = False"

fun settled_class_of :: "('i, 'j) task_state \<Rightarrow> settled_class option" where
  "settled_class_of (TCompleted _ _ _) = Some SCompleted"
| "settled_class_of (TSkippedAlreadyDone _ _ _) = Some SSkippedAlreadyDone"
| "settled_class_of (TSetupCompleted _ _ _) = Some SSetupCompleted"
| "settled_class_of (TInvalidTask _ _ _ _ _ _) = Some SInvalidTask"
| "settled_class_of (TFailed d r k e v a) = (if settle_eligible (TFailed d r k e v a) then Some (SFailedFinal k) else None)"
| "settled_class_of _ = None"

fun settled_bucket_of :: "settled_class \<Rightarrow> outcome_bucket" where
  "settled_bucket_of SCompleted = BSucceeded"
| "settled_bucket_of (SFailedFinal k) = bucket_for_failed_kind k"
| "settled_bucket_of SInvalidTask = BFailFinal"
| "settled_bucket_of SSkippedAlreadyDone = BSkipped"
| "settled_bucket_of SSetupCompleted = BSetupSucceeded"

definition identity_for_def_id :: "('i, 'j, 'p) ledger \<Rightarrow> nat \<Rightarrow> (phase_id \<times> task_id) option" where
  "identity_for_def_id l def_id =
     (case settled_def_ids l def_id of
        None \<Rightarrow> None
      | Some hash \<Rightarrow> map_option (\<lambda>e. (se_phase_id e, se_task_id e)) (map_of (settled_index l) hash))"

definition resolve_dep_refs :: "('i, 'j, 'p) ledger \<Rightarrow> task_dep_ref list \<Rightarrow> task_dep list" where
  "resolve_dep_refs l refs = resolve_dep_refs_with_fallback (definitions l) refs (identity_for_def_id l)"

definition task_to_info :: "('i, 'j, 'p) ledger \<Rightarrow> ('i, 'j) task_state \<Rightarrow> ('i, 'j) task_info" where
  "task_to_info l s = to_task_info (state_def s) (state_routing s) (resolve_dep_refs l (f_task_depends_on (state_def s)))"

record written_record =
  wr_hash :: string
  wr_join_key :: join_key
  wr_offset :: nat
  wr_len :: nat

definition collect_spill_batch ::
  "('i, 'j) ledger_env \<Rightarrow> nat \<Rightarrow> ('i, 'j, 'p) ledger \<Rightarrow> (string \<times> ('i, 'j) task_state \<times> task_outputs option \<times> join_key) list" where
  "collect_spill_batch env max_entries l =
     (if \<not> spill_writer l then [] else take max_entries (map (\<lambda>(hash, s). (hash, s, task_outputs l hash, task_join_key (hash_payload env) s))
       (filter (\<lambda>(_, s). settle_eligible s) (tasks l))))"

definition commit_record ::
  "('i, 'j) ledger_env \<Rightarrow> nat \<Rightarrow> written_record \<Rightarrow> nat \<times> ('i, 'j, 'p) ledger \<Rightarrow> nat \<times> ('i, 'j, 'p) ledger" where
  "commit_record env segment wr acc =
     (let (evicted, l) = acc in
      case map_of (tasks l) (wr_hash wr) of
        None \<Rightarrow> acc
      | Some s \<Rightarrow>
          if task_join_key (hash_payload env) s \<noteq> wr_join_key wr then acc
          else case settled_class_of s of
            None \<Rightarrow> acc
          | Some c \<Rightarrow>
              let d = state_def s;
                  e = \<lparr>se_task_id = f_task_id d, se_phase_id = f_phase_id d,
                       se_task_depends_on = resolve_dep_refs l (f_task_depends_on d), se_class = c, se_category = count_category (f_kind d),
                       se_join_key = wr_join_key wr, se_def_id = f_def_id d, se_digest = digest_term env (wr_hash wr) s,
                       se_has_outputs = (task_outputs l (wr_hash wr) \<noteq> None), se_segment = segment,
                       se_offset = wr_offset wr, se_len = wr_len wr\<rparr>
              in (evicted + 1, l\<lparr>task_outputs := (task_outputs l)(wr_hash wr := None),
                    settled_def_ids := (if f_def_id d = unbound_id then settled_def_ids l
                       else (settled_def_ids l)(f_def_id d \<mapsto> wr_hash wr)),
                    settled_index := AList.update (wr_hash wr) e (settled_index l),
                    tasks := AList.delete (wr_hash wr) (tasks l)\<rparr>))"

definition commit_spill ::
  "('i, 'j) ledger_env \<Rightarrow> nat \<Rightarrow> written_record list \<Rightarrow> ('i, 'j, 'p) ledger \<Rightarrow> nat \<times> ('i, 'j, 'p) ledger" where
  "commit_spill env segment written l = fold (commit_record env segment) written (0, l)"

definition unsettle_if_dominated ::
  "('i, 'j) ledger_env \<Rightarrow> string \<Rightarrow> join_key \<Rightarrow> ('i, 'j, 'p) ledger \<Rightarrow> bool \<times> ('i, 'j, 'p) ledger" where
  "unsettle_if_dominated env hash incoming_key l =
     (case map_of (settled_index l) hash of
        None \<Rightarrow> (False, l)
      | Some e \<Rightarrow>
          if \<not> task_join_key_dominates incoming_key (se_join_key e) then (False, l)
          else case read_spill env (se_segment e) (se_offset e) (se_len e) of
            None \<Rightarrow> (False, l)
          | Some (s, outs) \<Rightarrow>
              (True, l\<lparr>settled_index := AList.delete hash (settled_index l),
                 settled_def_ids := (if se_def_id e = unbound_id then settled_def_ids l else (settled_def_ids l)(se_def_id e := None)),
                 task_outputs := (case outs of
                     Some x \<Rightarrow> if se_has_outputs e then or_insert hash x (task_outputs l) else task_outputs l
                   | None \<Rightarrow> task_outputs l),
                 tasks := AList.update hash s (tasks l)\<rparr>))"

definition task_entry_unsettling ::
  "('i, 'j) ledger_env \<Rightarrow> string \<Rightarrow> join_key \<Rightarrow> ('i, 'j, 'p) ledger \<Rightarrow> ('i, 'j) task_state option \<times> ('i, 'j, 'p) ledger" where
  "task_entry_unsettling env hash incoming_key l =
     (let l1 = (if map_of (tasks l) hash = None then snd (unsettle_if_dominated env hash incoming_key l) else l)
      in (map_of (tasks l1) hash, l1))"

section \<open>Outputs\<close>

definition output_store_record ::
  "('i, 'j) ledger_env \<Rightarrow> string \<Rightarrow> task_outputs \<Rightarrow> ('i, 'j, 'p) ledger \<Rightarrow> bool \<times> ('i, 'j, 'p) ledger" where
  "output_store_record env hash outs l =
     (if hash \<in> output_folded l then (True, l)
      else let l1 = l\<lparr>output_folded := insert hash (output_folded l)\<rparr> in
        if output_writable l1
        then if output_write_ok env hash
             then (True, l1\<lparr>output_persisted := (output_persisted l1)(hash \<mapsto> outs)\<rparr>)
             else (False, l1\<lparr>output_writable := False\<rparr>)
        else (False, l1))"

definition record_task_outputs_value ::
  "('i, 'j) ledger_env \<Rightarrow> string \<Rightarrow> task_outputs option \<Rightarrow> ('i, 'j, 'p) ledger \<Rightarrow> ('i, 'j, 'p) ledger" where
  "record_task_outputs_value env hash outs l =
     (case outs of
        None \<Rightarrow> l
      | Some x \<Rightarrow>
          if map_of (tasks l) hash = None then l
          else let (stored, l1) = output_store_record env hash x l
               in if stored then l1 else l1\<lparr>task_outputs := or_insert hash x (task_outputs l1)\<rparr>)"

definition decode_done_payload_outputs :: "('i, 'j) ledger_env \<Rightarrow> string option \<Rightarrow> task_outputs option" where
  "decode_done_payload_outputs env result_data =
     (case result_data of
        None \<Rightarrow> None
      | Some bytes \<Rightarrow> (case decode_payload env bytes of Some outs \<Rightarrow> Some outs | None \<Rightarrow> Some []))"

definition outputs_for_hash :: "('i, 'j) ledger_env \<Rightarrow> ('i, 'j, 'p) ledger \<Rightarrow> string \<Rightarrow> task_outputs option" where
  "outputs_for_hash env l hash =
     (case task_outputs l hash of
        Some x \<Rightarrow> Some x
      | None \<Rightarrow>
     (case output_persisted l hash of
        Some x \<Rightarrow> Some x
      | None \<Rightarrow>
     (case map_of (settled_index l) hash of
        None \<Rightarrow> None
      | Some e \<Rightarrow> Option.bind (read_spill env (se_segment e) (se_offset e) (se_len e)) snd)))"

end
