(* ===== verification/Ledger_Invariant.thy ===== *)
theory Ledger_Invariant
  imports Ledger_State
begin

text \<open>
  What the derived tables of the ledger mean. A task is either in memory or settled, never both;
  the reverse index of blocked tasks, the tally of outcomes and the digest memo are each a
  function of these entries, and the write path \<open>set_task_state\<close>, the spill to disk and the way back
  keep them so. The digest of a range is given by its bits: bit \<open>i\<close> is set when an odd number of
  entries of the range has it set, so it does not depend on the order in which they arrived.
\<close>

section \<open>The invariant\<close>

definition ledger_bucket :: "('i, 'j, 'p) ledger \<Rightarrow> string \<Rightarrow> outcome_bucket option" where
  "ledger_bucket l h = (case map_of (tasks l) h of
       Some s \<Rightarrow> outcome_bucket_of s
     | None \<Rightarrow> map_option (\<lambda>e. settled_bucket_of (se_class e)) (map_of (settled_index l) h))"

definition ledger_key :: "('i, 'j) ledger_env \<Rightarrow> ('i, 'j, 'p) ledger \<Rightarrow> string \<Rightarrow> join_key option" where
  "ledger_key env l h = (case map_of (tasks l) h of
       Some s \<Rightarrow> Some (task_join_key (hash_payload env) s)
     | None \<Rightarrow> map_option se_join_key (map_of (settled_index l) h))"

definition entries_disjoint :: "('i, 'j, 'p) ledger \<Rightarrow> bool" where
  "entries_disjoint l \<longleftrightarrow> distinct (map fst (tasks l)) \<and> (\<forall>h. map_of (tasks l) h = None \<or> map_of (settled_index l) h = None)"

definition index_exact :: "('i, 'j, 'p) ledger \<Rightarrow> bool" where
  "index_exact l \<longleftrightarrow> (\<forall>p. set (blocked_by l p) = {h. blocked_on (map_of (tasks l) h) = Some p} \<and> distinct (blocked_by l p))"

definition tally_exact :: "('i, 'j, 'p) ledger \<Rightarrow> bool" where
  "tally_exact l \<longleftrightarrow> (\<forall>b. bucket_count (outcome_tally l) b = card {h. ledger_bucket l h = Some b})"

definition in_range :: "('i, 'j) ledger_env \<Rightarrow> ('i, 'j, 'p) ledger \<Rightarrow> nat \<Rightarrow> (64 word \<Rightarrow> bool) \<Rightarrow> string \<Rightarrow> bool" where
  "in_range env l r Q h \<longleftrightarrow> range_index env h = r \<and> (\<exists>k. ledger_key env l h = Some k \<and> Q (hash_digest env h k))"

definition memo_exact :: "('i, 'j) ledger_env \<Rightarrow> ('i, 'j, 'p) ledger \<Rightarrow> bool" where
  "memo_exact env l \<longleftrightarrow> (\<forall>r.
     (\<forall>i. bit (fst (range_fold_memo l r)) i \<longleftrightarrow> odd (card {h. in_range env l r (\<lambda>t. bit t i) h})) \<and>
     snd (range_fold_memo l r) = min (card {h. in_range env l r (\<lambda>_. True) h}) (2 ^ 32 - 1))"

definition settled_record_ok :: "('i, 'j) ledger_env \<Rightarrow> settled_entry \<Rightarrow> bool" where
  "settled_record_ok env e \<longleftrightarrow>
     (case read_spill env (se_segment e) (se_offset e) (se_len e) of
        None \<Rightarrow> True
      | Some (s, _) \<Rightarrow> settle_eligible s \<and> outcome_bucket_of s = Some (settled_bucket_of (se_class e)) \<and>
          task_join_key (hash_payload env) s = se_join_key e)"

definition settled_exact :: "('i, 'j) ledger_env \<Rightarrow> ('i, 'j, 'p) ledger \<Rightarrow> bool" where
  "settled_exact env l \<longleftrightarrow> (\<forall>h e. map_of (settled_index l) h = Some e \<longrightarrow> settled_record_ok env e)"

definition ledger_inv :: "('i, 'j) ledger_env \<Rightarrow> ('i, 'j, 'p) ledger \<Rightarrow> bool" where
  "ledger_inv env l \<longleftrightarrow> entries_disjoint l \<and> index_exact l \<and> tally_exact l \<and> memo_exact env l \<and> settled_exact env l"

lemmas view_defs = ledger_bucket_def ledger_key_def in_range_def
lemmas exact_defs = entries_disjoint_def index_exact_def tally_exact_def memo_exact_def settled_exact_def

section \<open>Counting under a change at one key\<close>

lemma card_point:
  assumes "finite {x. P x}"
  shows "card {x. (P(h := q)) x} = card {x. P x} - of_bool (P h) + of_bool q"
proof -
  have "{x. (P(h := q)) x} = (if q then insert h ({x. P x} - {h}) else {x. P x} - {h})" by auto
  then show ?thesis using assms by (auto simp: card.insert_remove card_Diff_singleton_if)
qed

lemma odd_card_point:
  assumes "finite {x. P x}"
  shows "odd (card {x. (P(h := q)) x}) \<longleftrightarrow> odd (card {x. P x}) \<noteq> (P h \<noteq> q)"
proof -
  have "P h \<Longrightarrow> card {x. P x} > 0" using assms by (auto simp: card_gt_0_iff)
  then show ?thesis unfolding card_point [OF assms] by (cases "P h"; cases q) auto
qed

lemma finite_view: "finite {h. ledger_bucket l h = Some b}" "finite {h. in_range env l r Q h}"
proof -
  have f: "finite (dom (map_of (tasks l)) \<union> dom (map_of (settled_index l)))" by (simp add: finite_dom_map_of)
  show "finite {h. ledger_bucket l h = Some b}"
    by (rule finite_subset [OF _ f]) (auto simp: view_defs split: option.splits)
  show "finite {h. in_range env l r Q h}"
    by (rule finite_subset [OF _ f]) (auto simp: view_defs split: option.splits)
qed

section \<open>The write path\<close>

lemma set_task_state_simps [simp]:
  "map_of (tasks (set_task_state env h s l)) = (map_of (tasks l))(h \<mapsto> s)"
  "settled_index (set_task_state env h s l) = settled_index l"
  "settled_contains (set_task_state env h s l) = settled_contains l"
  "settled_def_ids (set_task_state env h s l) = settled_def_ids l"
  "definitions (set_task_state env h s l) = definitions l"
  "completed_events (set_task_state env h s l) = completed_events l"
  by (auto simp: set_task_state_def Let_def update_conv' settled_contains_def)

lemma reindex_blocked_set:
  assumes "\<And>p. set (b p) = {x. f x = Some p} \<and> distinct (b p)" and "f h = o_old"
  shows "set (reindex_blocked h o_old o_new b p) = {x. (f(h := o_new)) x = Some p} \<and> distinct (reindex_blocked h o_old o_new b p)"
  using assms by (auto simp: reindex_blocked_def Let_def distinct_removeAll split: option.splits)

lemma index_exact_set: "index_exact l \<Longrightarrow> index_exact (set_task_state env h s l)"
proof -
  assume i: "index_exact l"
  have eq: "(\<lambda>x. blocked_on (((map_of (tasks l))(h \<mapsto> s)) x)) = (\<lambda>x. blocked_on (map_of (tasks l) x))(h := blocked_on (Some s))"
    by auto
  show ?thesis
    using reindex_blocked_set [of "blocked_by l" "\<lambda>x. blocked_on (map_of (tasks l) x)" h "blocked_on (map_of (tasks l) h)" "blocked_on (Some s)"] i
    unfolding index_exact_def set_task_state_simps fun_cong [OF eq]
    by (auto simp: set_task_state_def Let_def)
qed

lemma tally_exact_set:
  assumes "tally_exact l" and "\<not> settled_contains l h"
  shows "tally_exact (set_task_state env h s l)"
proof -
  have n: "map_of (settled_index l) h = None" using assms(2) by (simp add: settled_contains_def)
  have old_bucket: "ledger_bucket l h = Option.bind (map_of (tasks l) h) outcome_bucket_of"
    using n by (auto simp: ledger_bucket_def split: option.split)
  have "{x. ledger_bucket (set_task_state env h s l) x = Some b} =
      {x. ((\<lambda>x. ledger_bucket l x = Some b)(h := outcome_bucket_of s = Some b)) x}" for b
    by (auto simp: ledger_bucket_def cong: option.case_cong)
  then show ?thesis
    using assms(1) unfolding tally_exact_def
    by (simp only: card_point [OF finite_view(1)])
      (simp add: set_task_state_def Let_def bucket_count_swap old_bucket)
qed

lemma min_pred: "0 < c \<Longrightarrow> min c 4294967295 = Suc (min (c - Suc 0) 4294967294)"
  by simp

lemma memo_exact_set:
  assumes "memo_exact env l" and "\<not> settled_contains l h"
  shows "memo_exact env (set_task_state env h s l)"
proof -
  have n: "map_of (settled_index l) h = None" using assms(2) by (simp add: settled_contains_def)
  let ?l = "set_task_state env h s l"
  have point: "{x. in_range env ?l r Q x} =
      {x. ((in_range env l r Q)(h := range_index env h = r \<and> Q (digest_term env h s))) x}" for r Q
    by (auto simp: in_range_def ledger_key_def digest_term_def cong: option.case_cong)
  have was: "in_range env l r Q h \<longleftrightarrow> range_index env h = r \<and> (\<exists>x. map_of (tasks l) h = Some x \<and> Q (digest_term env h x))" for r Q
    using n by (auto simp: in_range_def ledger_key_def digest_term_def split: option.split)
  have card_pos: "map_of (tasks l) h = Some x \<Longrightarrow> range_index env h = r \<Longrightarrow> 0 < card {x. in_range env l r (\<lambda>_. True) x}" for x r
    using was [of r "\<lambda>_. True"] finite_view(2) [of env l r "\<lambda>_. True"] by (auto simp: card_gt_0_iff)
  have bits: "bit (fst (range_fold_memo ?l r)) i \<longleftrightarrow> odd (card {x. in_range env ?l r (\<lambda>t. bit t i) x})" for r i
    using assms(1) unfolding memo_exact_def point odd_card_point [OF finite_view(2)] was
    by (auto simp: set_task_state_def Let_def memo_add_def memo_swap_def bit_xor_iff split: option.split)
  have counts: "snd (range_fold_memo ?l r) = min (card {x. in_range env ?l r (\<lambda>_. True) x}) (2 ^ 32 - 1)" for r
    using assms(1) card_pos unfolding memo_exact_def point card_point [OF finite_view(2)] was
    by (auto simp: set_task_state_def Let_def memo_add_def memo_swap_def intro!: min_pred split: option.split)
  show ?thesis using bits counts by (simp add: memo_exact_def)
qed

lemma distinct_set: "distinct (map fst (tasks l)) \<Longrightarrow> distinct (map fst (tasks (set_task_state env h s l)))"
  by (simp add: set_task_state_def Let_def distinct_update)

lemma ledger_inv_set:
  assumes "ledger_inv env l" and "\<not> settled_contains l h"
  shows "ledger_inv env (set_task_state env h s l)"
  using assms index_exact_set tally_exact_set memo_exact_set distinct_set
  by (auto simp: ledger_inv_def entries_disjoint_def settled_exact_def settled_contains_def)

lemma ledger_inv_other [simp]:
  "ledger_inv env (l\<lparr>task_outputs := a\<rparr>) = ledger_inv env l"
  "ledger_inv env (l\<lparr>output_folded := b\<rparr>) = ledger_inv env l"
  "ledger_inv env (l\<lparr>output_persisted := c\<rparr>) = ledger_inv env l"
  "ledger_inv env (l\<lparr>output_writable := w\<rparr>) = ledger_inv env l"
  "ledger_inv env (l\<lparr>definitions := d\<rparr>) = ledger_inv env l"
  "ledger_inv env (l\<lparr>phase_event_tallies := e\<rparr>) = ledger_inv env l"
  "ledger_inv env (l\<lparr>completed_events := f\<rparr>) = ledger_inv env l"
  by (simp_all add: ledger_inv_def exact_defs view_defs cong: option.case_cong)

lemma empty_ledger_inv: "ledger_inv env empty_ledger"
  by (simp add: ledger_inv_def exact_defs view_defs empty_ledger_def)

section \<open>Spilling and coming back\<close>

lemma ledger_inv_same_view:
  assumes "ledger_inv env l" and "ledger_bucket l' = ledger_bucket l" and "ledger_key env l' = ledger_key env l"
    and "outcome_tally l' = outcome_tally l" and "range_fold_memo l' = range_fold_memo l" and "blocked_by l' = blocked_by l"
    and "\<And>h. blocked_on (map_of (tasks l') h) = blocked_on (map_of (tasks l) h)"
    and "entries_disjoint l'" and "settled_exact env l'"
  shows "ledger_inv env l'"
  using assms unfolding ledger_inv_def index_exact_def tally_exact_def memo_exact_def in_range_def by simp

lemma settle_eligible_not_blocked: "settle_eligible s \<Longrightarrow> blocked_on (Some s) = None"
  by (cases s) auto

lemma settle_eligible_class: "settle_eligible s \<longleftrightarrow> settled_class_of s \<noteq> None"
  by (cases s) auto

lemma settled_class_bucket: "settled_class_of s = Some c \<Longrightarrow> outcome_bucket_of s = Some (settled_bucket_of c)"
  by (cases s) (auto split: if_splits)

lemma delete_distinct [simp]: "distinct (map fst m) \<Longrightarrow> distinct (map fst (AList.delete k m))"
  by (simp add: distinct_delete)

lemma unsettle_cases:
  obtains (kept) "unsettle_if_dominated env h k l = (False, l)"
  | (returned) e s outs where "map_of (settled_index l) h = Some e" "task_join_key_dominates k (se_join_key e)"
      "read_spill env (se_segment e) (se_offset e) (se_len e) = Some (s, outs)"
      "fst (unsettle_if_dominated env h k l)"
      "tasks (snd (unsettle_if_dominated env h k l)) = AList.update h s (tasks l)"
      "settled_index (snd (unsettle_if_dominated env h k l)) = AList.delete h (settled_index l)"
      "blocked_by (snd (unsettle_if_dominated env h k l)) = blocked_by l"
      "outcome_tally (snd (unsettle_if_dominated env h k l)) = outcome_tally l"
      "range_fold_memo (snd (unsettle_if_dominated env h k l)) = range_fold_memo l"
proof (cases "map_of (settled_index l) h")
  case None
  then show ?thesis by (intro kept) (simp add: unsettle_if_dominated_def)
next
  case (Some e)
  show ?thesis
  proof (cases "task_join_key_dominates k (se_join_key e) \<and> read_spill env (se_segment e) (se_offset e) (se_len e) \<noteq> None")
    case True
    then obtain s outs where "read_spill env (se_segment e) (se_offset e) (se_len e) = Some (s, outs)" by auto
    then show ?thesis using Some True by (intro returned [of e s outs]) (simp_all add: unsettle_if_dominated_def)
  next
    case False
    then show ?thesis using Some by (intro kept) (auto simp: unsettle_if_dominated_def split: option.split)
  qed
qed

lemma ledger_inv_unsettle:
  assumes inv: "ledger_inv env l"
  shows "ledger_inv env (snd (unsettle_if_dominated env h k l))"
proof (cases rule: unsettle_cases [of env h k l])
  case kept
  then show ?thesis using inv by simp
next
  case (returned e s outs)
  let ?l = "snd (unsettle_if_dominated env h k l)"
  have ok: "settled_record_ok env e" and none: "map_of (tasks l) h = None"
    using inv returned(1) unfolding ledger_inv_def settled_exact_def entries_disjoint_def by (metis, metis option.distinct(1))
  have s: "settle_eligible s" "outcome_bucket_of s = Some (settled_bucket_of (se_class e))"
      "task_join_key (hash_payload env) s = se_join_key e"
    using ok returned(3) by (simp_all add: settled_record_ok_def)
  have t: "map_of (tasks ?l) = (map_of (tasks l))(h \<mapsto> s)" and i: "map_of (settled_index ?l) = (map_of (settled_index l))(h := None)"
    by (simp_all add: returned update_conv' delete_conv')
  show ?thesis
  proof (rule ledger_inv_same_view [OF inv _ _ returned(8,9,7)])
    show "ledger_bucket ?l = ledger_bucket l"
      by (rule ext) (simp add: ledger_bucket_def t i none returned(1) s cong: option.case_cong)
    show "ledger_key env ?l = ledger_key env l"
      by (rule ext) (simp add: ledger_key_def t i none returned(1) s cong: option.case_cong)
    show "blocked_on (map_of (tasks ?l) x) = blocked_on (map_of (tasks l) x)" for x
      using settle_eligible_not_blocked [OF s(1)] by (simp add: t none)
    show "entries_disjoint ?l"
      using inv unfolding ledger_inv_def entries_disjoint_def t i by (simp add: returned(5) distinct_update)
    show "settled_exact env ?l"
      using inv unfolding ledger_inv_def settled_exact_def i by simp
  qed
qed

text \<open>What the writer of the spill file promises: a record reads back as the state it was made from.\<close>

definition spill_faithful :: "('i, 'j) ledger_env \<Rightarrow> nat \<Rightarrow> written_record list \<Rightarrow> ('i, 'j, 'p) ledger \<Rightarrow> bool" where
  "spill_faithful env segment written l \<longleftrightarrow>
     list_all (\<lambda>wr. case map_of (tasks l) (wr_hash wr) of
         None \<Rightarrow> True
       | Some s \<Rightarrow> (case read_spill env segment (wr_offset wr) (wr_len wr) of
           None \<Rightarrow> True
         | Some (x, _) \<Rightarrow> task_join_key (hash_payload env) s = wr_join_key wr \<longrightarrow>
             settle_eligible x \<and> outcome_bucket_of x = outcome_bucket_of s \<and> task_join_key (hash_payload env) x = wr_join_key wr)) written"

lemma commit_record_cases:
  obtains (skipped) "commit_record env segment wr (n, l) = (n, l)"
  | (evicted) s c e where "map_of (tasks l) (wr_hash wr) = Some s" "task_join_key (hash_payload env) s = wr_join_key wr"
      "settled_class_of s = Some c"
      "se_class e = c" "se_join_key e = wr_join_key wr" "se_segment e = segment" "se_offset e = wr_offset wr" "se_len e = wr_len wr"
      "se_category e = count_category (f_kind (state_def s))"
      "fst (commit_record env segment wr (n, l)) = n + 1"
      "tasks (snd (commit_record env segment wr (n, l))) = AList.delete (wr_hash wr) (tasks l)"
      "settled_index (snd (commit_record env segment wr (n, l))) = AList.update (wr_hash wr) e (settled_index l)"
      "blocked_by (snd (commit_record env segment wr (n, l))) = blocked_by l"
      "outcome_tally (snd (commit_record env segment wr (n, l))) = outcome_tally l"
      "range_fold_memo (snd (commit_record env segment wr (n, l))) = range_fold_memo l"
proof (cases "map_of (tasks l) (wr_hash wr)")
  case None
  then show ?thesis by (intro skipped) (simp add: commit_record_def)
next
  case (Some s)
  show ?thesis
  proof (cases "task_join_key (hash_payload env) s = wr_join_key wr \<and> settled_class_of s \<noteq> None")
    case True
    then obtain c where "settled_class_of s = Some c" by auto
    then show ?thesis using Some True
      by (intro evicted [of s c "\<lparr>se_task_id = f_task_id (state_def s), se_phase_id = f_phase_id (state_def s),
          se_task_depends_on = resolve_dep_refs l (f_task_depends_on (state_def s)), se_class = c,
          se_category = count_category (f_kind (state_def s)), se_join_key = wr_join_key wr,
          se_def_id = f_def_id (state_def s), se_digest = digest_term env (wr_hash wr) s,
          se_has_outputs = (task_outputs l (wr_hash wr) \<noteq> None), se_segment = segment,
          se_offset = wr_offset wr, se_len = wr_len wr\<rparr>"]) (simp_all add: commit_record_def Let_def)
  next
    case False
    then show ?thesis using Some by (intro skipped) (auto simp: commit_record_def)
  qed
qed

lemma ledger_inv_commit_record:
  assumes inv: "ledger_inv env l" and "spill_faithful env segment [wr] l"
  shows "ledger_inv env (snd (commit_record env segment wr (n, l)))"
proof (cases rule: commit_record_cases [of env segment wr n l])
  case skipped
  then show ?thesis using inv by simp
next
  case (evicted s c e)
  let ?l = "snd (commit_record env segment wr (n, l))" and ?h = "wr_hash wr"
  have none: "map_of (settled_index l) ?h = None"
    using inv evicted(1) unfolding ledger_inv_def entries_disjoint_def by (metis option.distinct(1))
  have bucket: "outcome_bucket_of s = Some (settled_bucket_of c)" using settled_class_bucket evicted(3) .
  have t: "map_of (tasks ?l) = (map_of (tasks l))(?h := None)" and i: "map_of (settled_index ?l) = (map_of (settled_index l))(?h \<mapsto> e)"
    by (simp_all add: evicted update_conv' delete_conv')
  show ?thesis
  proof (rule ledger_inv_same_view [OF inv _ _ evicted(14,15,13)])
    show "ledger_bucket ?l = ledger_bucket l"
      by (rule ext) (simp add: ledger_bucket_def t i none evicted(1,4) bucket cong: option.case_cong)
    show "ledger_key env ?l = ledger_key env l"
      by (rule ext) (simp add: ledger_key_def t i none evicted(1,2,5) cong: option.case_cong)
    show "blocked_on (map_of (tasks ?l) x) = blocked_on (map_of (tasks l) x)" for x
      using settle_eligible_not_blocked [of s] settle_eligible_class [of s] evicted(3) by (simp add: t evicted(1))
    show "entries_disjoint ?l"
      using inv unfolding ledger_inv_def entries_disjoint_def t i by (simp add: evicted(11))
    have "settled_record_ok env e"
      using assms(2) evicted(1,2,4-8) bucket by (auto simp: spill_faithful_def settled_record_ok_def split: option.splits)
    then show "settled_exact env ?l"
      using inv unfolding ledger_inv_def settled_exact_def i by simp
  qed
qed

lemma ledger_inv_commit_spill:
  assumes "ledger_inv env l" and "spill_faithful env segment written l"
  shows "ledger_inv env (snd (commit_spill env segment written l))"
proof -
  have "ledger_inv env l \<Longrightarrow> spill_faithful env segment written l \<Longrightarrow>
      ledger_inv env (snd (fold (commit_record env segment) written (n, l)))" for n
  proof (induction written arbitrary: n l)
    case (Cons wr ws)
    obtain m k where mk: "commit_record env segment wr (n, l) = (m, k)" by fastforce
    have f: "spill_faithful env segment [wr] l" "spill_faithful env segment ws l"
      using Cons.prems(2) by (simp_all add: spill_faithful_def)
    have "map_of (tasks k) x = Some s \<Longrightarrow> map_of (tasks l) x = Some s" for x s
      by (cases rule: commit_record_cases [of env segment wr n l]) (auto simp: mk delete_conv' split: if_splits)
    then have "spill_faithful env segment ws k"
      using f(2) unfolding spill_faithful_def list_all_iff by (fastforce split: option.splits)
    moreover have "ledger_inv env k" using ledger_inv_commit_record [OF Cons.prems(1) f(1), of n] by (simp add: mk)
    ultimately show ?case using Cons.IH by (simp add: mk)
  qed simp
  then show ?thesis using assms by (simp add: commit_spill_def)
qed

end
