(* ===== verification/Ledger_Merge.thy ===== *)
theory Ledger_Merge
  imports Ledger_Invariant
begin

text \<open>
  How a task state that arrives from another replica is merged into the ledger (second part of
  \<open>cluster_state/merge.rs\<close>, \<open>resume_blocked_on\<close> of \<open>cluster_state/apply_tasks.rs\<close>). A merge replaces the
  entry only when the incoming state ranks above it; a completion then resumes the tasks blocked
  on the entry, and a final failure fails them, and those blocked on them, in turn. The recursion
  of the failures is bounded by fuel; \<open>cascade_complete\<close> shows that one unit more than the number of
  blocked tasks is enough.
\<close>

section \<open>Definitions\<close>

fun is_completed :: "('i, 'j) task_state \<Rightarrow> bool" where
  "is_completed (TCompleted _ _ _) = True"
| "is_completed _ = False"

fun is_failure_terminal :: "('i, 'j) task_state \<Rightarrow> bool" where
  "is_failure_terminal (TFailed _ _ _ _ _ _) = True"
| "is_failure_terminal (TUnfulfillable _ _ _ _ _ _) = True"
| "is_failure_terminal (TInvalidTask _ _ _ _ _ _) = True"
| "is_failure_terminal _ = False"

fun is_cascade_terminal :: "('i, 'j) task_state \<Rightarrow> bool" where
  "is_cascade_terminal (TFailed _ _ k _ _ _) = (k = NonRecoverable)"
| "is_cascade_terminal (TInvalidTask _ _ _ _ _ _) = True"
| "is_cascade_terminal _ = False"

definition resume_one ::
  "('i, 'j) ledger_env \<Rightarrow> string \<Rightarrow> ('i, 'j) task_info list \<times> ('i, 'j, 'p) ledger \<Rightarrow> ('i, 'j) task_info list \<times> ('i, 'j, 'p) ledger" where
  "resume_one env h acc =
     (let (rs, l) = acc in
      case map_of (tasks l) h of
        Some (TBlocked d r p a) \<Rightarrow>
          (rs @ [task_to_info l (TBlocked d r p a)], set_task_state env h (TPending d r default_version a) l)
      | _ \<Rightarrow> acc)"

definition resume_blocked_on ::
  "('i, 'j) ledger_env \<Rightarrow> string \<Rightarrow> ('i, 'j, 'p) ledger \<Rightarrow> ('i, 'j) task_info list \<times> ('i, 'j, 'p) ledger" where
  "resume_blocked_on env prereq_hash l = fold (resume_one env) (blocked_by l prereq_hash) ([], l)"

definition record_phase_event_tally :: "phase_id \<times> phase_tally \<Rightarrow> nat \<Rightarrow> ('i, 'j, 'p) ledger \<Rightarrow> ('i, 'j, 'p) ledger" where
  "record_phase_event_tally k n l = l\<lparr>phase_event_tallies := bump_grow_max k n (phase_event_tallies l)\<rparr>"

definition phase_event_tally_for :: "('i, 'j, 'p) ledger \<Rightarrow> phase_id \<times> phase_tally \<Rightarrow> nat" where
  "phase_event_tally_for l k = read_grow_max (phase_event_tallies l) k"

definition emit_completed :: "task_completed_event option \<Rightarrow> ('i, 'j, 'p) ledger \<Rightarrow> ('i, 'j, 'p) ledger" where
  "emit_completed ev l = (case ev of None \<Rightarrow> l | Some e \<Rightarrow> l\<lparr>completed_events := completed_events l @ [e]\<rparr>)"

record merge_outcome =
  mo_newly_completed :: bool
  mo_failure_won :: bool
  mo_event :: "task_completed_event option"

text \<open>
  The part of \<open>merge_task_state\<close> before the cascade: None is the outcome \<open>NoOp\<close>.
\<close>

definition merge_adopt ::
  "('i, 'j) ledger_env \<Rightarrow> string \<Rightarrow> ('i, 'j) task_state \<Rightarrow> task_outputs option \<Rightarrow> bool \<Rightarrow> ('i, 'j, 'p) ledger \<Rightarrow>
     merge_outcome \<times> ('i, 'j) task_info list \<times> ('i, 'j, 'p) ledger" where
  "merge_adopt env hash incoming outs was_completed l =
     (let newly_completed = (is_completed incoming \<and> \<not> was_completed);
          failure_won = is_failure_terminal incoming;
          event = (if newly_completed \<or> failure_won then to_completed_event hash incoming else None);
          k = (f_phase_id (state_def incoming), if newly_completed then TallyCompleted else TallyFailed);
          l1 = (if newly_completed \<or> failure_won then record_phase_event_tally k (phase_event_tally_for l k + 1) l else l);
          (rs, l2) = (if newly_completed then resume_blocked_on env hash l1 else ([], l1));
          l3 = set_task_state env hash incoming l2;
          l4 = (if newly_completed then record_task_outputs_value env hash outs l3 else l3)
      in (\<lparr>mo_newly_completed = newly_completed, mo_failure_won = failure_won, mo_event = event\<rparr>, rs, l4))"

definition merge_local ::
  "('i, 'j) ledger_env \<Rightarrow> string \<Rightarrow> ('i, 'j) task_state \<Rightarrow> task_outputs option \<Rightarrow> ('i, 'j, 'p) ledger \<Rightarrow>
     merge_outcome option \<times> ('i, 'j) task_info list \<times> ('i, 'j, 'p) ledger" where
  "merge_local env hash incoming outs l =
     (let key = task_join_key (hash_payload env) incoming;
          settled_only = (map_of (tasks l) hash = None \<and> settled_contains l hash);
          (unsettled, l1) = (if settled_only then unsettle_if_dominated env hash key l else (True, l))
      in if \<not> unsettled then (None, [], l1)
         else case map_of (tasks l1) hash of
            None \<Rightarrow> (let (mo, rs, l2) = merge_adopt env hash incoming outs False l1 in (Some mo, rs, l2))
          | Some x \<Rightarrow>
              if \<not> task_join_key_dominates key (task_join_key (hash_payload env) x) then (None, [], l1)
              else (let (mo, rs, l2) = merge_adopt env hash incoming outs (is_completed x) l1 in (Some mo, rs, l2)))"

fun cascade_terminal :: "('i, 'j) task_state \<Rightarrow> ('i, 'j) task_state" where
  "cascade_terminal (TBlocked d r _ a) = TFailed d r NonRecoverable ''upstream-failed'' default_version a"
| "cascade_terminal s = s"

definition cascade_dependents :: "string \<Rightarrow> ('i, 'j, 'p) ledger \<Rightarrow> (string \<times> ('i, 'j) task_state) list" where
  "cascade_dependents failed_prereq_hash l =
     map (\<lambda>(h, s). (h, cascade_terminal s)) (filter (\<lambda>(h, s). blocked_on (Some s) = Some failed_prereq_hash) (tasks l))"

fun merge_task_state ::
  "nat \<Rightarrow> ('i, 'j) ledger_env \<Rightarrow> string \<Rightarrow> ('i, 'j) task_state \<Rightarrow> task_outputs option \<Rightarrow> ('i, 'j, 'p) ledger \<Rightarrow>
     (merge_outcome option \<times> ('i, 'j) task_info list \<times> ('i, 'j, 'p) ledger) option"
and cascade_fail_blocked_dependents ::
  "nat \<Rightarrow> ('i, 'j) ledger_env \<Rightarrow> (string \<times> ('i, 'j) task_state) list \<Rightarrow> ('i, 'j, 'p) ledger \<Rightarrow>
     (('i, 'j) task_info list \<times> ('i, 'j, 'p) ledger) option" where
  "merge_task_state n env hash incoming outs l =
     (case merge_local env hash incoming outs l of
        (None, rs, l1) \<Rightarrow> Some (None, rs, l1)
      | (Some mo, rs, l1) \<Rightarrow>
          if is_cascade_terminal incoming
          then (case n of
              0 \<Rightarrow> None
            | Suc m \<Rightarrow> (case cascade_fail_blocked_dependents m env (cascade_dependents hash l1) l1 of
                None \<Rightarrow> None
              | Some (rs2, l2) \<Rightarrow> Some (Some mo, rs @ rs2, l2)))
          else Some (Some mo, rs, l1))"
| "cascade_fail_blocked_dependents n env [] l = Some ([], l)"
| "cascade_fail_blocked_dependents n env ((h, s) # deps) l =
     (case merge_task_state n env h s None l of
        None \<Rightarrow> None
      | Some (mo, rs, l1) \<Rightarrow>
          (case cascade_fail_blocked_dependents n env deps (emit_completed (Option.bind mo mo_event) l1) of
             None \<Rightarrow> None
           | Some (rs2, l2) \<Rightarrow> Some (rs @ rs2, l2)))"

definition merge_fuel :: "('i, 'j, 'p) ledger \<Rightarrow> nat" where
  "merge_fuel l = Suc (length (tasks l))"

definition apply_merge ::
  "('i, 'j) ledger_env \<Rightarrow> string \<Rightarrow> ('i, 'j) task_state \<Rightarrow> task_outputs option \<Rightarrow> ('i, 'j, 'p) ledger \<Rightarrow>
     (apply_outcome \<times> ('i, 'j) task_info list \<times> ('i, 'j, 'p) ledger) option" where
  "apply_merge env hash incoming outs l =
     (case merge_task_state (merge_fuel l) env hash incoming outs l of
        None \<Rightarrow> None
      | Some (None, rs, l1) \<Rightarrow> Some (NoOp, rs, l1)
      | Some (Some mo, rs, l1) \<Rightarrow> Some (Applied, rs, emit_completed (mo_event mo) l1))"

section \<open>Resuming\<close>

fun unblock :: "('i, 'j) task_state \<Rightarrow> ('i, 'j) task_state" where
  "unblock (TBlocked d r _ a) = TPending d r default_version a"
| "unblock s = s"

lemma blocked_on_Some: "blocked_on x = Some p \<longleftrightarrow> (\<exists>d r a. x = Some (TBlocked d r p a))"
  by (cases x rule: blocked_on.cases) auto

lemma identity_set [simp]: "identity_for_def_id (set_task_state env h s l) = identity_for_def_id l"
  by (simp add: fun_eq_iff identity_for_def_id_def cong: option.case_cong)

lemma task_to_info_set [simp]: "task_to_info (set_task_state env h s l) = task_to_info l"
  by (simp add: fun_eq_iff task_to_info_def resolve_dep_refs_def)

lemma inv_not_settled: "ledger_inv env l \<Longrightarrow> map_of (tasks l) h \<noteq> None \<Longrightarrow> \<not> settled_contains l h"
  unfolding ledger_inv_def entries_disjoint_def settled_contains_def by metis

text \<open>What resuming keeps of the ledger: all but the task states and their derived tables.\<close>

definition same_rest :: "('i, 'j, 'p) ledger \<Rightarrow> ('i, 'j, 'p) ledger \<Rightarrow> bool" where
  "same_rest l k \<longleftrightarrow> k = l\<lparr>tasks := tasks k, blocked_by := blocked_by k, outcome_tally := outcome_tally k,
     range_fold_memo := range_fold_memo k\<rparr>"

lemma same_rest_refl [simp]: "same_rest l l"
  by (simp add: same_rest_def)

lemma same_rest_trans: "same_rest l k \<Longrightarrow> same_rest k m \<Longrightarrow> same_rest l m"
  unfolding same_rest_def by (cases l; cases k; cases m) simp

lemma same_rest_set [simp]: "same_rest l (set_task_state env h s l)"
  by (simp add: same_rest_def set_task_state_def Let_def)

lemma same_rest_settled: "same_rest l k \<Longrightarrow> settled_index k = settled_index l"
  unfolding same_rest_def by (cases l; cases k) simp

lemma resume_one_effect:
  assumes "resume_one env h (rs, l) = (rs', l')"
  shows "map_of (tasks l') = (map_of (tasks l))(h := map_option unblock (map_of (tasks l) h))"
    and "same_rest l l'" and "ledger_inv env l \<Longrightarrow> ledger_inv env l'"
    and "task_to_info l' = task_to_info l"
    and "rs' = rs @ (if blocked_on (map_of (tasks l) h) = None then [] else [task_to_info l (the (map_of (tasks l) h))])"
proof -
  consider d r p a where "map_of (tasks l) h = Some (TBlocked d r p a)"
    | "blocked_on (map_of (tasks l) h) = None" "map_option unblock (map_of (tasks l) h) = map_of (tasks l) h"
      "resume_one env h (rs, l) = (rs, l)"
    by (cases "map_of (tasks l) h"; cases "the (map_of (tasks l) h)") (auto simp: resume_one_def)
  note c = this
  show "map_of (tasks l') = (map_of (tasks l))(h := map_option unblock (map_of (tasks l) h))"
    using c assms by cases (auto simp: resume_one_def fun_upd_idem)
  show "same_rest l l'" using c assms by cases (auto simp: resume_one_def)
  show "task_to_info l' = task_to_info l" using c assms by cases (auto simp: resume_one_def)
  show "rs' = rs @ (if blocked_on (map_of (tasks l) h) = None then [] else [task_to_info l (the (map_of (tasks l) h))])"
    using c assms by cases (auto simp: resume_one_def)
  show "ledger_inv env l'" if "ledger_inv env l"
    using c assms by cases (auto simp: resume_one_def that intro!: ledger_inv_set inv_not_settled [OF that])
qed

lemma resume_fold:
  assumes "fold (resume_one env) hs (rs, l) = (rs', l')" and "distinct hs"
  shows "map_of (tasks l') = (\<lambda>h. if h \<in> set hs then map_option unblock (map_of (tasks l) h) else map_of (tasks l) h) \<and>
    same_rest l l' \<and> (ledger_inv env l \<longrightarrow> ledger_inv env l') \<and>
    rs' = rs @ map (\<lambda>h. task_to_info l (the (map_of (tasks l) h))) (filter (\<lambda>h. blocked_on (map_of (tasks l) h) \<noteq> None) hs)"
  using assms
proof (induction hs arbitrary: rs l)
  case (Cons h hs)
  obtain rs1 l1 where one: "resume_one env h (rs, l) = (rs1, l1)" by fastforce
  note e = resume_one_effect [OF one]
  have f: "fold (resume_one env) hs (rs1, l1) = (rs', l')" using Cons.prems(1) one by simp
  have keep: "map_of (tasks l1) x = map_of (tasks l) x" if "x \<in> set hs" for x
    using Cons.prems(2) that e(1) by auto
  then have filt: "filter (\<lambda>h. blocked_on (map_of (tasks l1) h) \<noteq> None) hs = filter (\<lambda>h. blocked_on (map_of (tasks l) h) \<noteq> None) hs"
    by (simp cong: filter_cong)
  have mp: "map (\<lambda>h. task_to_info l1 (the (map_of (tasks l1) h))) (filter P hs) =
      map (\<lambda>h. task_to_info l (the (map_of (tasks l) h))) (filter P hs)" for P
    by (rule map_cong [OF refl]) (simp add: keep e(4))
  note ih = Cons.IH [OF f distinct_tl [OF Cons.prems(2), simplified]]
  have "rs' = rs1 @ map (\<lambda>h. task_to_info l (the (map_of (tasks l) h))) (filter (\<lambda>h. blocked_on (map_of (tasks l) h) \<noteq> None) hs)"
    using ih by (simp only: filt mp)
  moreover have "map_of (tasks l') x = (if x \<in> set (h # hs) then map_option unblock (map_of (tasks l) x) else map_of (tasks l) x)" for x
    using ih keep [of x] Cons.prems(2) by (auto simp: e(1))
  ultimately show ?case
    using ih e(3) same_rest_trans [OF e(2)] by (auto simp: e(5))
qed simp

lemma resume_blocked_on_effect:
  assumes "ledger_inv env l" and "resume_blocked_on env p l = (rs, l')"
  shows "map_of (tasks l') h =
      (if blocked_on (map_of (tasks l) h) = Some p then map_option unblock (map_of (tasks l) h) else map_of (tasks l) h)"
    and "same_rest l l'" and "ledger_inv env l'"
    and "rs = map (\<lambda>h. task_to_info l (the (map_of (tasks l) h))) (blocked_by l p)"
proof -
  have i: "set (blocked_by l p) = {h. blocked_on (map_of (tasks l) h) = Some p}" and d: "distinct (blocked_by l p)"
    using assms(1) by (simp_all add: ledger_inv_def index_exact_def)
  have f: "filter (\<lambda>h. blocked_on (map_of (tasks l) h) \<noteq> None) (blocked_by l p) = blocked_by l p"
    using i by (auto simp: filter_id_conv)
  note r = resume_fold [OF assms(2) [unfolded resume_blocked_on_def] d, unfolded f]
  show "map_of (tasks l') h =
      (if blocked_on (map_of (tasks l) h) = Some p then map_option unblock (map_of (tasks l) h) else map_of (tasks l) h)"
    using r i by simp
  show "same_rest l l'" "ledger_inv env l'" "rs = map (\<lambda>h. task_to_info l (the (map_of (tasks l) h))) (blocked_by l p)"
    using r assms(1) by simp_all
qed

section \<open>One merge without its cascade\<close>

lemma record_tally_simps [simp]:
  "tasks (record_phase_event_tally k n l) = tasks l"
  "blocked_by (record_phase_event_tally k n l) = blocked_by l"
  "settled_index (record_phase_event_tally k n l) = settled_index l"
  "ledger_inv env (record_phase_event_tally k n l) = ledger_inv env l"
  "task_to_info (record_phase_event_tally k n l) = task_to_info l"
proof -
  have "identity_for_def_id (record_phase_event_tally k n l) = identity_for_def_id l"
    by (simp add: record_phase_event_tally_def fun_eq_iff identity_for_def_id_def cong: option.case_cong)
  moreover have "definitions (record_phase_event_tally k n l) = definitions l"
    by (simp add: record_phase_event_tally_def)
  ultimately show "task_to_info (record_phase_event_tally k n l) = task_to_info l"
    by (intro ext) (simp add: task_to_info_def resolve_dep_refs_def)
qed (simp_all add: record_phase_event_tally_def)

lemma record_outputs_simps [simp]:
  "tasks (record_task_outputs_value env h outs l) = tasks l"
  "settled_index (record_task_outputs_value env h outs l) = settled_index l"
  "ledger_inv env' (record_task_outputs_value env h outs l) = ledger_inv env' l"
  by (auto simp: record_task_outputs_value_def output_store_record_def Let_def split: option.splits)

lemma emit_simps [simp]:
  "tasks (emit_completed ev l) = tasks l"
  "settled_index (emit_completed ev l) = settled_index l"
  "ledger_inv env (emit_completed ev l) = ledger_inv env l"
  by (auto simp: emit_completed_def split: option.splits)

lemma merge_adopt_effect:
  assumes inv: "ledger_inv env l" and ns: "\<not> settled_contains l hash"
    and m: "merge_adopt env hash incoming outs was l = (mo, rs, l')"
  defines "newly \<equiv> is_completed incoming \<and> \<not> was"
  shows "map_of (tasks l') h = (if h = hash then Some incoming
      else if newly \<and> blocked_on (map_of (tasks l) h) = Some hash then map_option unblock (map_of (tasks l) h)
      else map_of (tasks l) h)"
    and "ledger_inv env l'" and "settled_index l' = settled_index l"
    and "rs = (if newly then map (\<lambda>h. task_to_info l (the (map_of (tasks l) h))) (blocked_by l hash) else [])"
    and "mo_event mo = (if newly \<or> is_failure_terminal incoming then to_completed_event hash incoming else None)"
proof -
  let ?k = "(f_phase_id (state_def incoming), if newly then TallyCompleted else TallyFailed)"
  define la where "la = (if newly \<or> is_failure_terminal incoming then record_phase_event_tally ?k (phase_event_tally_for l ?k + 1) l else l)"
  obtain rs2 lb where b: "(if newly then resume_blocked_on env hash la else ([], la)) = (rs2, lb)" by fastforce
  have la: "tasks la = tasks l" "blocked_by la = blocked_by l" "settled_index la = settled_index l" "ledger_inv env la" "task_to_info la = task_to_info l"
    using inv by (simp_all add: la_def)
  have lb: "map_of (tasks lb) h = (if newly \<and> blocked_on (map_of (tasks l) h) = Some hash then map_option unblock (map_of (tasks l) h)
      else map_of (tasks l) h)" for h
    using b resume_blocked_on_effect(1) [OF la(4), of hash rs2 lb] la by (auto split: if_splits)
  have lb': "ledger_inv env lb" "settled_index lb = settled_index l"
      "rs2 = (if newly then map (\<lambda>h. task_to_info l (the (map_of (tasks l) h))) (blocked_by l hash) else [])"
    using b resume_blocked_on_effect [OF la(4), of hash rs2 lb] same_rest_settled [of la lb] la by (auto split: if_splits)
  have l': "l' = (if newly then record_task_outputs_value env hash outs (set_task_state env hash incoming lb) else set_task_state env hash incoming lb)"
    and rs: "rs = rs2" and mo: "mo_event mo = (if newly \<or> is_failure_terminal incoming then to_completed_event hash incoming else None)"
    using m b unfolding merge_adopt_def newly_def [symmetric] Let_def la_def [symmetric] by auto
  show "map_of (tasks l') h = (if h = hash then Some incoming
      else if newly \<and> blocked_on (map_of (tasks l) h) = Some hash then map_option unblock (map_of (tasks l) h)
      else map_of (tasks l) h)"
    by (simp add: l' lb)
  have "\<not> settled_contains lb hash" using ns by (simp add: settled_contains_def lb')
  then show "ledger_inv env l'" using lb' by (simp add: l' ledger_inv_set)
  show "settled_index l' = settled_index l" by (simp add: l' lb')
  show "rs = (if newly then map (\<lambda>h. task_to_info l (the (map_of (tasks l) h))) (blocked_by l hash) else [])"
    by (simp add: rs lb')
  show "mo_event mo = (if newly \<or> is_failure_terminal incoming then to_completed_event hash incoming else None)"
    by (rule mo)
qed

text \<open>The state a replica holds for a task, in memory or on disk, and whether an incoming one replaces it.\<close>

definition held_state :: "('i, 'j) ledger_env \<Rightarrow> ('i, 'j, 'p) ledger \<Rightarrow> string \<Rightarrow> ('i, 'j) task_state option" where
  "held_state env l h = (case map_of (tasks l) h of
       Some s \<Rightarrow> Some s
     | None \<Rightarrow> Option.bind (map_of (settled_index l) h) (\<lambda>e. map_option fst (read_spill env (se_segment e) (se_offset e) (se_len e))))"

definition adopts :: "('i, 'j) ledger_env \<Rightarrow> string \<Rightarrow> ('i, 'j) task_state \<Rightarrow> ('i, 'j, 'p) ledger \<Rightarrow> bool" where
  "adopts env hash incoming l \<longleftrightarrow>
     (case held_state env l hash of
        Some x \<Rightarrow> task_join_key_dominates (task_join_key (hash_payload env) incoming) (task_join_key (hash_payload env) x)
      | None \<Rightarrow> \<not> settled_contains l hash)"

definition completes :: "('i, 'j) ledger_env \<Rightarrow> string \<Rightarrow> ('i, 'j) task_state \<Rightarrow> ('i, 'j, 'p) ledger \<Rightarrow> bool" where
  "completes env hash incoming l \<longleftrightarrow> is_completed incoming \<and> \<not> (case held_state env l hash of Some x \<Rightarrow> is_completed x | None \<Rightarrow> False)"

definition merged_here :: "('i, 'j) ledger_env \<Rightarrow> string \<Rightarrow> ('i, 'j) task_state \<Rightarrow> ('i, 'j, 'p) ledger \<Rightarrow> string \<Rightarrow> ('i, 'j) task_state option" where
  "merged_here env hash incoming l h =
     (if h = hash then Some incoming
      else if completes env hash incoming l \<and> blocked_on (map_of (tasks l) h) = Some hash then map_option unblock (map_of (tasks l) h)
      else map_of (tasks l) h)"

definition state_ident :: "('i, 'j) task_state \<Rightarrow> phase_id \<times> task_id" where
  "state_ident s = (f_phase_id (state_def s), f_task_id (state_def s))"

lemma task_to_info_ident [simp]: "ident (task_to_info l s) = state_ident s"
  by (simp add: task_to_info_def to_task_info_def state_ident_def)

lemma adopted_in_memory:
  assumes inv: "ledger_inv env l" and m: "map_of (tasks l) hash = x"
    and "\<not> settled_contains l hash"
    and eq: "merge_adopt env hash incoming outs (case x of Some s \<Rightarrow> is_completed s | None \<Rightarrow> False) l = (mo, rs, l')"
  shows "map_of (tasks l') h = merged_here env hash incoming l h"
    and "ledger_inv env l'" and "settled_index l' = settled_index l"
    and "map ident rs = (if completes env hash incoming l then map (\<lambda>h. state_ident (the (map_of (tasks l) h))) (blocked_by l hash) else [])"
    and "mo_event mo = (if completes env hash incoming l \<or> is_failure_terminal incoming then to_completed_event hash incoming else None)"
proof -
  have held: "held_state env l hash = x"
    using m assms(3) by (auto simp: held_state_def settled_contains_def split: option.split)
  have c: "completes env hash incoming l \<longleftrightarrow> is_completed incoming \<and> \<not> (case x of Some s \<Rightarrow> is_completed s | None \<Rightarrow> False)"
    by (simp add: completes_def held)
  note e = merge_adopt_effect [OF inv assms(3) eq, folded c]
  show "map_of (tasks l') h = merged_here env hash incoming l h" by (simp add: merged_here_def e(1))
  show "ledger_inv env l'" "settled_index l' = settled_index l" by (fact e(2), fact e(3))
  show "map ident rs = (if completes env hash incoming l then map (\<lambda>h. state_ident (the (map_of (tasks l) h))) (blocked_by l hash) else [])"
    unfolding e(4) by (simp add: comp_def del: prod.inject)
  show "mo_event mo = (if completes env hash incoming l \<or> is_failure_terminal incoming then to_completed_event hash incoming else None)"
    by (rule e(5))
qed

lemma settled_adopts:
  assumes inv: "ledger_inv env l" and none: "map_of (tasks l) hash = None" and st: "settled_contains l hash"
  shows "adopts env hash incoming l \<longleftrightarrow> fst (unsettle_if_dominated env hash (task_join_key (hash_payload env) incoming) l)"
proof -
  obtain e where e: "map_of (settled_index l) hash = Some e" using st by (auto simp: settled_contains_def)
  have "settled_record_ok env e" using inv e unfolding ledger_inv_def settled_exact_def by metis
  then show ?thesis
    using none e st by (auto simp: adopts_def held_state_def settled_record_ok_def unsettle_if_dominated_def split: option.splits)
qed

lemma unsettled_view:
  assumes inv: "ledger_inv env l" and f: "fst (unsettle_if_dominated env hash k l)"
  defines "l1 \<equiv> snd (unsettle_if_dominated env hash k l)"
  obtains s where "held_state env l hash = Some s" "map_of (tasks l1) = (map_of (tasks l))(hash \<mapsto> s)"
    "map_of (settled_index l1) = (map_of (settled_index l))(hash := None)" "blocked_by l1 = blocked_by l"
    "blocked_on (Some s) = None" "map_of (tasks l) hash = None"
proof (cases rule: unsettle_cases [of env hash k l])
  case kept
  then show ?thesis using f by simp
next
  case (returned e s outs)
  have none: "map_of (tasks l) hash = None" and ok: "settled_record_ok env e"
    using inv returned(1) unfolding ledger_inv_def entries_disjoint_def settled_exact_def by (metis option.distinct(1), metis)
  show ?thesis
  proof (rule that)
    show "held_state env l hash = Some s" using none returned by (simp add: held_state_def)
    show "map_of (tasks l1) = (map_of (tasks l))(hash \<mapsto> s)" by (simp add: l1_def returned update_conv')
    show "map_of (settled_index l1) = (map_of (settled_index l))(hash := None)" by (simp add: l1_def returned delete_conv')
    show "blocked_by l1 = blocked_by l" by (simp add: l1_def returned)
    show "blocked_on (Some s) = None" using ok returned(3) by (simp add: settled_record_ok_def settle_eligible_not_blocked)
    show "map_of (tasks l) hash = None" by (rule none)
  qed
qed

definition merge_effect ::
  "('i, 'j) ledger_env \<Rightarrow> string \<Rightarrow> ('i, 'j) task_state \<Rightarrow> ('i, 'j, 'p) ledger \<Rightarrow> merge_outcome \<Rightarrow>
     ('i, 'j) task_info list \<Rightarrow> ('i, 'j, 'p) ledger \<Rightarrow> bool" where
  "merge_effect env hash incoming l mo rs l' \<longleftrightarrow>
     mo_event mo = (if completes env hash incoming l \<or> is_failure_terminal incoming then to_completed_event hash incoming else None) \<and>
     ledger_inv env l' \<and> map_of (tasks l') = merged_here env hash incoming l \<and>
     map_of (settled_index l') = (map_of (settled_index l))(hash := None) \<and>
     map ident rs = (if completes env hash incoming l then map (\<lambda>h. state_ident (the (map_of (tasks l) h))) (blocked_by l hash) else [])"

lemma merge_effect_in_memory:
  assumes "ledger_inv env l" and "\<not> settled_contains l hash"
    and "merge_adopt env hash incoming outs (case map_of (tasks l) hash of Some s \<Rightarrow> is_completed s | None \<Rightarrow> False) l = (mo, rs, l')"
  shows "merge_effect env hash incoming l mo rs l'"
  using adopted_in_memory [OF assms(1) refl assms(2,3)] assms(2)
  by (simp add: merge_effect_def fun_eq_iff settled_contains_def fun_upd_idem)

lemma merge_effect_unsettled:
  assumes inv: "ledger_inv env l" and f: "fst (unsettle_if_dominated env hash k l)"
    and e: "merge_effect env hash incoming (snd (unsettle_if_dominated env hash k l)) mo rs l'"
  shows "merge_effect env hash incoming l mo rs l'"
proof (rule unsettled_view [OF inv f])
  fix s let ?l1 = "snd (unsettle_if_dominated env hash k l)"
  assume held: "held_state env l hash = Some s" and t: "map_of (tasks ?l1) = (map_of (tasks l))(hash \<mapsto> s)"
    and i: "map_of (settled_index ?l1) = (map_of (settled_index l))(hash := None)" and b: "blocked_by ?l1 = blocked_by l"
    and nb: "map_of (tasks l) hash = None"
  have "held_state env ?l1 hash = Some s" by (simp add: held_state_def t)
  then have c: "completes env hash incoming ?l1 = completes env hash incoming l" by (simp add: completes_def held)
  have m: "merged_here env hash incoming ?l1 = merged_here env hash incoming l"
    by (rule ext) (simp add: merged_here_def c t)
  have "hash \<notin> set (blocked_by l hash)" using inv nb by (simp add: ledger_inv_def index_exact_def)
  then have "map (\<lambda>h. state_ident (the (map_of (tasks ?l1) h))) (blocked_by l hash) =
      map (\<lambda>h. state_ident (the (map_of (tasks l) h))) (blocked_by l hash)"
    by (intro map_cong) (auto simp: t)
  then show ?thesis using e by (simp add: merge_effect_def c m i b)
qed

lemma merge_local_skips:
  assumes inv: "ledger_inv env l" and na: "\<not> adopts env hash incoming l"
  shows "merge_local env hash incoming outs l = (None, [], l)"
proof (cases "map_of (tasks l) hash")
  case None
  then have st: "settled_contains l hash"
    using na by (auto simp: adopts_def held_state_def settled_contains_def split: option.splits Option.bind_splits)
  then show ?thesis using na None settled_adopts [OF inv None st, of incoming]
    by (cases rule: unsettle_cases [of env hash "task_join_key (hash_payload env) incoming" l]) (auto simp: merge_local_def)
next
  case (Some x)
  then show ?thesis using na by (simp add: merge_local_def adopts_def held_state_def)
qed

lemma merge_local_adopts:
  assumes inv: "ledger_inv env l" and ad: "adopts env hash incoming l"
  shows "\<exists>mo rs l'. merge_local env hash incoming outs l = (Some mo, rs, l') \<and> merge_effect env hash incoming l mo rs l'"
proof -
  let ?k = "task_join_key (hash_payload env) incoming"
  define l1 where "l1 = (if map_of (tasks l) hash = None \<and> settled_contains l hash then snd (unsettle_if_dominated env hash ?k l) else l)"
  have inv1: "ledger_inv env l1" using inv ledger_inv_unsettle by (auto simp: l1_def)
  have up: "merge_effect env hash incoming l1 mo rs l' \<Longrightarrow> merge_effect env hash incoming l mo rs l'" for mo rs l'
    using merge_effect_unsettled [OF inv] settled_adopts [OF inv] ad by (auto simp: l1_def split: if_splits)
  have st: "\<not> settled_contains l1 hash \<and> (\<forall>x. map_of (tasks l1) hash = Some x \<longrightarrow> held_state env l hash = Some x)"
  proof (cases "map_of (tasks l) hash = None \<and> settled_contains l hash")
    case True
    then have "fst (unsettle_if_dominated env hash ?k l)" using ad settled_adopts [OF inv] by blast
    then show ?thesis
      by (rule unsettled_view [OF inv]) (use True in \<open>auto simp: l1_def settled_contains_def\<close>)
  next
    case False
    then have "l1 = l" by (auto simp: l1_def)
    then show ?thesis using False inv_not_settled [OF inv, of hash] by (auto simp: held_state_def)
  qed
  have dom: "map_of (tasks l1) hash = Some x \<Longrightarrow> task_join_key_dominates ?k (task_join_key (hash_payload env) x)" for x
    using ad st by (simp add: adopts_def)
  obtain mo rs l' where a: "merge_adopt env hash incoming outs (case map_of (tasks l1) hash of Some s \<Rightarrow> is_completed s | None \<Rightarrow> False) l1 = (mo, rs, l')"
    using prod_cases3 by blast
  have "merge_local env hash incoming outs l = (Some mo, rs, l')"
    using a dom ad settled_adopts [OF inv, of hash incoming]
    by (cases "map_of (tasks l1) hash") (auto simp: merge_local_def l1_def Let_def split: if_splits prod.splits)
  then show ?thesis using up [OF merge_effect_in_memory [OF inv1 conjunct1 [OF st] a]] by blast
qed

section \<open>The cascade\<close>

text \<open>
  Who waits for whom, as a relation on the task map. A task is blocked on one other task, so the
  relation is a function and its chains do not branch.
\<close>

definition waits :: "(string \<Rightarrow> ('i, 'j) task_state option) \<Rightarrow> (string \<times> string) set" where
  "waits T = {(h, p). blocked_on (T h) = Some p}"

definition fail_at :: "string set \<Rightarrow> (string \<Rightarrow> ('i, 'j) task_state option) \<Rightarrow> string \<Rightarrow> ('i, 'j) task_state option" where
  "fail_at S T h = (if h \<in> S then map_option cascade_terminal (T h) else T h)"

definition waiting_for :: "(string \<Rightarrow> ('i, 'j) task_state option) \<Rightarrow> string set \<Rightarrow> string set" where
  "waiting_for T D = {h. \<exists>d\<in>D. (h, d) \<in> (waits T)\<^sup>*}"

lemma waits_single: "single_valued (waits T)"
  by (auto simp: single_valued_def waits_def)

lemma dependents_disjoint:
  assumes p: "blocked_on (T p) = None" and d: "(d, p) \<in> waits T" and d': "(d', p) \<in> waits T"
    and "(h, d) \<in> (waits T)\<^sup>*" and "(h, d') \<in> (waits T)\<^sup>*"
  shows "d = d'"
proof -
  have stop: "(p, x) \<in> (waits T)\<^sup>* \<Longrightarrow> x = p" for x
    using p by (auto simp: waits_def elim: converse_rtranclE)
  have only: "(a, b) \<in> (waits T)\<^sup>* \<Longrightarrow> (a, p) \<in> waits T \<Longrightarrow> b = a \<or> b = p" for a b
    by (erule converse_rtranclE) (use stop waits_single [of T] in \<open>auto dest: single_valuedD\<close>)
  have ne: "d \<noteq> p" "d' \<noteq> p" using p d d' by (auto simp: waits_def)
  show ?thesis
    using single_valued_confluent [OF waits_single assms(4,5)] only d d' ne by blast
qed

lemma no_wait_cycle: "blocked_on (T p) = None \<Longrightarrow> (d, p) \<in> waits T \<Longrightarrow> (d, d) \<notin> (waits T)\<^sup>+"
proof
  assume p: "blocked_on (T p) = None" and d: "(d, p) \<in> waits T" and "(d, d) \<in> (waits T)\<^sup>+"
  then obtain y where "(d, y) \<in> waits T" "(y, d) \<in> (waits T)\<^sup>*" by (meson tranclD)
  then have "(p, d) \<in> (waits T)\<^sup>*" using d waits_single [of T] by (auto dest: single_valuedD)
  then show False using p d by (auto simp: waits_def elim: converse_rtranclE)
qed

lemma cascade_terminal_not_blocked [simp]: "blocked_on (map_option cascade_terminal x) = None"
  by (cases x; cases "the x") auto

lemma fail_at_step:
  assumes p: "blocked_on (T p) = None" and D: "\<forall>x\<in>D. (x, p) \<in> waits T" and d: "(d, p) \<in> waits T" "d \<notin> D"
  defines "T1 \<equiv> (fail_at (waiting_for T D) T)(d := map_option cascade_terminal (T d))"
  shows "fail_at {h. (h, d) \<in> (waits T1)\<^sup>+} T1 = fail_at (waiting_for T (insert d D)) T"
proof -
  have away: "h \<notin> waiting_for T D \<and> h \<noteq> d" if "(h, d) \<in> (waits T)\<^sup>+" for h
    using dependents_disjoint [OF p d(1), of _ h] D d(2) no_wait_cycle [OF p d(1)] trancl_into_rtrancl [OF that] that
    by (auto simp: waiting_for_def)
  have T1: "waits T1 = {(h, q) \<in> waits T. h \<notin> waiting_for T D \<and> h \<noteq> d}"
    by (auto simp: waits_def T1_def fail_at_def split: if_splits)
  have "(h, d) \<in> (waits T1)\<^sup>+" if "(h, d) \<in> (waits T)\<^sup>+" for h
    using that
  proof (induction rule: converse_trancl_induct)
    case (base y)
    then show ?case using away [OF r_into_trancl] by (auto simp: T1)
  next
    case (step y z)
    then have "(y, z) \<in> waits T1" using away [of y] by (auto simp: T1 intro: trancl_into_trancl2)
    then show ?case using step.IH by (rule trancl_into_trancl2)
  qed
  moreover have "(waits T1)\<^sup>+ \<subseteq> (waits T)\<^sup>+" by (rule trancl_mono_subset) (auto simp: T1)
  ultimately have eq: "{h. (h, d) \<in> (waits T1)\<^sup>+} = {h. (h, d) \<in> (waits T)\<^sup>+}" by blast
  show ?thesis unfolding eq
  proof
    fix h
    consider "(h, d) \<in> (waits T)\<^sup>+" | "h = d" | "(h, d) \<notin> (waits T)\<^sup>*" by (auto simp: rtrancl_eq_or_trancl)
    then show "fail_at {h. (h, d) \<in> (waits T)\<^sup>+} T1 h = fail_at (waiting_for T (insert d D)) T h"
    proof cases
      case 1
      then show ?thesis using away [OF 1]
        by (auto simp: fail_at_def T1_def waiting_for_def dest: trancl_into_rtrancl)
    next
      case 2
      then show ?thesis using no_wait_cycle [OF p d(1)] by (simp add: fail_at_def T1_def waiting_for_def)
    next
      case 3
      then show ?thesis by (auto simp: fail_at_def T1_def waiting_for_def dest: trancl_into_rtrancl)
    qed
  qed
qed

definition blocked_count :: "('i, 'j, 'p) ledger \<Rightarrow> nat" where
  "blocked_count l = card {h. blocked_on (map_of (tasks l) h) \<noteq> None}"

lemma finite_blocked: "finite {h. blocked_on (map_of (tasks l) h) \<noteq> None}"
  by (rule finite_subset [OF _ finite_dom_map_of [of "tasks l"]]) (auto simp: blocked_on_Some)

lemma blocked_key_below: "task_join_key_dominates (task_join_key h (cascade_terminal (TBlocked d r p a))) (task_join_key h (TBlocked d r p a))"
  by (simp add: task_join_key_dominates_def key_order_def key_failed_def less_prod_def')

lemma cascade_one:
  assumes inv: "ledger_inv env l" and t: "map_of (tasks l) h = Some s" and b: "blocked_on (Some s) = Some p"
  shows "\<exists>mo l'. merge_local env h (cascade_terminal s) None l = (Some mo, [], l') \<and> ledger_inv env l' \<and>
    map_of (tasks l') = (map_of (tasks l))(h \<mapsto> cascade_terminal s) \<and> map_of (settled_index l') = map_of (settled_index l)"
proof -
  obtain d r a where s: "s = TBlocked d r p a" using b by (auto simp: blocked_on_Some)
  have held: "held_state env l h = Some s" by (simp add: held_state_def t)
  then have "adopts env h (cascade_terminal s) l" using blocked_key_below unfolding adopts_def s by auto
  then obtain mo rs l' where m: "merge_local env h (cascade_terminal s) None l = (Some mo, rs, l')"
    and e: "merge_effect env h (cascade_terminal s) l mo rs l'"
    using merge_local_adopts [OF inv] by blast
  have c: "\<not> completes env h (cascade_terminal s) l" by (simp add: completes_def s)
  have "map_of (settled_index l) h = None" using inv_not_settled [OF inv, of h] t by (simp add: settled_contains_def)
  then show ?thesis using m e c by (auto simp: merge_effect_def merged_here_def fun_eq_iff)
qed

lemma cascade_dependents_alt:
  assumes "distinct (map fst (tasks l))"
  shows "\<exists>hs. cascade_dependents p l = map (\<lambda>h. (h, cascade_terminal (the (map_of (tasks l) h)))) hs \<and> distinct hs \<and>
    set hs = {h. (h, p) \<in> waits (map_of (tasks l))}"
proof -
  let ?f = "filter (\<lambda>(h, s). blocked_on (Some s) = Some p) (tasks l)"
  have "map_of (tasks l) h = Some s" if "(h, s) \<in> set ?f" for h s
    using assms that by auto
  then have "cascade_dependents p l = map (\<lambda>h. (h, cascade_terminal (the (map_of (tasks l) h)))) (map fst ?f)"
    unfolding cascade_dependents_def map_map by (intro map_cong) (auto simp: comp_def)
  moreover have "distinct (map fst ?f)" using assms by (induction "tasks l") (auto simp: distinct_map_filter)
  moreover have "set (map fst ?f) = {h. (h, p) \<in> waits (map_of (tasks l))}"
  proof -
    have "h \<in> set (map fst ?f) \<longleftrightarrow> (\<exists>s. map_of (tasks l) h = Some s \<and> blocked_on (Some s) = Some p)" for h
      using assms by (force simp: image_iff)
    moreover have "(\<exists>s. map_of (tasks l) h = Some s \<and> blocked_on (Some s) = Some p) \<longleftrightarrow> (h, p) \<in> waits (map_of (tasks l))" for h
      by (cases "map_of (tasks l) h") (simp_all add: waits_def)
    ultimately show ?thesis by (intro set_eqI) (simp only: mem_Collect_eq)
  qed
  ultimately show ?thesis by blast
qed

lemma cascade_list:
  assumes "ledger_inv env l" and "blocked_on (T p) = None" and "card {h. blocked_on (T h) \<noteq> None} \<le> n" and "finite {h. blocked_on (T h) \<noteq> None}"
    and "map_of (tasks l) = fail_at (waiting_for T D) T"
    and "\<forall>x\<in>D \<union> set ds. (x, p) \<in> waits T" and "distinct ds" and "D \<inter> set ds = {}"
  shows "\<exists>l'. cascade_fail_blocked_dependents n env (map (\<lambda>h. (h, cascade_terminal (the (T h)))) ds) l = Some ([], l') \<and>
    ledger_inv env l' \<and> map_of (tasks l') = fail_at (waiting_for T (D \<union> set ds)) T \<and> map_of (settled_index l') = map_of (settled_index l)"
  using assms
proof (induction n arbitrary: l T p D ds)
  case 0
  then have "ds = []" by (cases ds) (auto simp: waits_def)
  then show ?case using 0 by simp
next
  case (Suc n)
  note outer = Suc.IH
  show ?case using Suc.prems
  proof (induction ds arbitrary: l D)
    case (Cons d ds)
    note inv = Cons.prems(1) and p = Cons.prems(2) and T = Cons.prems(5)
    have d: "(d, p) \<in> waits T" "d \<notin> D" and D: "\<forall>x\<in>D. (x, p) \<in> waits T" using Cons.prems(6,8) by auto
    obtain s where s: "T d = Some s" "blocked_on (Some s) = Some p" using d(1) by (cases "T d") (auto simp: waits_def)
    have "d \<notin> waiting_for T D" using dependents_disjoint [OF p d(1), of _ d] D d(2) by (auto simp: waiting_for_def)
    then have ld: "map_of (tasks l) d = Some s" using s by (simp add: T fail_at_def)
    obtain mo l1 where m: "merge_local env d (cascade_terminal s) None l = (Some mo, [], l1)" and inv1: "ledger_inv env l1"
      and t1: "map_of (tasks l1) = (map_of (tasks l))(d \<mapsto> cascade_terminal s)" and i1: "map_of (settled_index l1) = map_of (settled_index l)"
      using cascade_one [OF inv ld s(2)] by blast
    let ?T1 = "map_of (tasks l1)"
    have T1: "?T1 = (fail_at (waiting_for T D) T)(d := map_option cascade_terminal (T d))" by (simp add: t1 T s)
    have sub: "{h. blocked_on (?T1 h) \<noteq> None} \<subset> {h. blocked_on (T h) \<noteq> None}"
      using d(1) by (auto simp: T1 fail_at_def waits_def split: if_splits)
    have n: "card {h. blocked_on (?T1 h) \<noteq> None} \<le> n"
      using psubset_card_mono [OF Cons.prems(4) sub] Cons.prems(3) by simp
    have distinct1: "distinct (map fst (tasks l1))" using inv1 by (simp add: ledger_inv_def entries_disjoint_def)
    obtain hs where hs: "cascade_dependents d l1 = map (\<lambda>h. (h, cascade_terminal (the (?T1 h)))) hs" "distinct hs"
        "set hs = {h. (h, d) \<in> waits ?T1}"
      using cascade_dependents_alt [OF distinct1] by blast
    have d1: "blocked_on (?T1 d) = None" using cascade_terminal_not_blocked [of "Some s"] by (simp add: t1)
    have closed: "waiting_for ?T1 (set hs) = {h. (h, d) \<in> (waits ?T1)\<^sup>+}"
      by (auto simp: waiting_for_def hs(3) intro: rtrancl_into_trancl1 dest: tranclD2)
    have z: "?T1 = fail_at (waiting_for ?T1 {}) ?T1" by (simp add: fail_at_def waiting_for_def fun_eq_iff)
    have done': "fail_at {h. (h, d) \<in> (waits ?T1)\<^sup>+} ?T1 = fail_at (waiting_for T (insert d D)) T"
      using fail_at_step [OF p D d] by (simp only: T1)
    have side: "\<forall>x\<in>{} \<union> set hs. (x, d) \<in> waits ?T1" by (simp add: hs(3))
    obtain l2 where l2: "cascade_fail_blocked_dependents n env (cascade_dependents d l1) l1 = Some ([], l2)" "ledger_inv env l2"
        "map_of (tasks l2) = fail_at (waiting_for T (insert d D)) T" "map_of (settled_index l2) = map_of (settled_index l1)"
      using outer [OF inv1 d1 n finite_blocked z side hs(2) Int_empty_left, unfolded Un_empty_left closed done', folded hs(1)] by blast
    have ct: "is_cascade_terminal (cascade_terminal s)" using s(2) by (auto simp: blocked_on_Some)
    have step: "merge_task_state (Suc n) env d (cascade_terminal s) None l = Some (Some mo, [], l2)"
      by (simp add: m ct l2(1))
    let ?l3 = "emit_completed (mo_event mo) l2"
    obtain l4 where "cascade_fail_blocked_dependents (Suc n) env (map (\<lambda>h. (h, cascade_terminal (the (T h)))) ds) ?l3 = Some ([], l4)"
        "ledger_inv env l4" "map_of (tasks l4) = fail_at (waiting_for T (insert d D \<union> set ds)) T" "map_of (settled_index l4) = map_of (settled_index ?l3)"
      using Cons.IH [of ?l3 "insert d D"] Cons.prems l2 by auto
    then show ?case using step l2(4) i1 by (simp add: s del: merge_task_state.simps)
  qed simp
qed

section \<open>What a merge does\<close>

lemma first_arrival:
  assumes "blocked_on (Some x) = None" and "h \<noteq> k"
  shows "(h, k) \<in> (waits (T(k \<mapsto> x)))\<^sup>+ \<longleftrightarrow> (h, k) \<in> (waits T)\<^sup>+"
proof
  have "waits (T(k \<mapsto> x)) \<subseteq> waits T" using assms(1) by (auto simp: waits_def split: if_splits)
  then show "(h, k) \<in> (waits (T(k \<mapsto> x)))\<^sup>+ \<Longrightarrow> (h, k) \<in> (waits T)\<^sup>+" by (metis subsetD trancl_mono_subset)
  assume "(h, k) \<in> (waits T)\<^sup>+"
  then have "h \<noteq> k \<longrightarrow> (h, k) \<in> (waits (T(k \<mapsto> x)))\<^sup>+"
  proof (induction rule: converse_trancl_induct)
    case (base y)
    then show ?case by (auto simp: waits_def)
  next
    case (step y z)
    show ?case
    proof
      assume "y \<noteq> k"
      then have "(y, z) \<in> waits (T(k \<mapsto> x))" using step.hyps(1) by (simp add: waits_def)
      then show "(y, k) \<in> (waits (T(k \<mapsto> x)))\<^sup>+" using step.IH by (cases "z = k") (blast intro: trancl_into_trancl2)+
    qed
  qed
  then show "(h, k) \<in> (waits (T(k \<mapsto> x)))\<^sup>+" using assms(2) by blast
qed

lemma cascade_terminal_facts:
  "is_cascade_terminal s \<Longrightarrow> blocked_on (Some s) = None" "is_cascade_terminal s \<Longrightarrow> \<not> is_completed s"
  "is_cascade_terminal s \<Longrightarrow> cascade_terminal s = s"
  by (cases s; auto)+

lemma blocked_count_bound: "card {h. blocked_on (map_of (tasks l) h) \<noteq> None} \<le> length (tasks l)"
proof -
  have "{h. blocked_on (map_of (tasks l) h) \<noteq> None} \<subseteq> set (map fst (tasks l))"
    by (auto simp: blocked_on_Some intro: rev_image_eqI dest: map_of_SomeD)
  then show ?thesis by (metis card_length card_mono finite_set le_trans length_map)
qed

lemma cascade_complete:
  assumes inv: "ledger_inv env l" and p: "blocked_on (map_of (tasks l) hash) = None"
    and n: "card {h. blocked_on (map_of (tasks l) h) \<noteq> None} \<le> n"
  shows "\<exists>l'. cascade_fail_blocked_dependents n env (cascade_dependents hash l) l = Some ([], l') \<and> ledger_inv env l' \<and>
    map_of (tasks l') = fail_at {h. (h, hash) \<in> (waits (map_of (tasks l)))\<^sup>+} (map_of (tasks l)) \<and>
    map_of (settled_index l') = map_of (settled_index l)"
proof -
  let ?T = "map_of (tasks l)"
  have "distinct (map fst (tasks l))" using inv by (simp add: ledger_inv_def entries_disjoint_def)
  then obtain hs where hs: "cascade_dependents hash l = map (\<lambda>h. (h, cascade_terminal (the (?T h)))) hs" "distinct hs"
      "set hs = {h. (h, hash) \<in> waits ?T}"
    using cascade_dependents_alt by blast
  have z: "?T = fail_at (waiting_for ?T {}) ?T" by (simp add: fail_at_def waiting_for_def fun_eq_iff)
  have side: "\<forall>x\<in>{} \<union> set hs. (x, hash) \<in> waits ?T" by (simp add: hs(3))
  have closed: "waiting_for ?T (set hs) = {h. (h, hash) \<in> (waits ?T)\<^sup>+}"
    by (auto simp: waiting_for_def hs(3) intro: rtrancl_into_trancl1 dest: tranclD2)
  show ?thesis
    using cascade_list [OF inv p n finite_blocked z side hs(2) Int_empty_left, unfolded Un_empty_left closed, folded hs(1)] .
qed

text \<open>The task map after a merge that is adopted.\<close>

definition merged_task :: "('i, 'j) ledger_env \<Rightarrow> string \<Rightarrow> ('i, 'j) task_state \<Rightarrow> ('i, 'j, 'p) ledger \<Rightarrow> string \<Rightarrow> ('i, 'j) task_state option" where
  "merged_task env hash incoming l h =
     (if h = hash then Some incoming
      else if completes env hash incoming l \<and> (h, hash) \<in> waits (map_of (tasks l)) then map_option unblock (map_of (tasks l) h)
      else if is_cascade_terminal incoming \<and> (h, hash) \<in> (waits (map_of (tasks l)))\<^sup>+ then map_option cascade_terminal (map_of (tasks l) h)
      else map_of (tasks l) h)"

lemma merge_task_state_effect:
  assumes inv: "ledger_inv env l" and ad: "adopts env hash incoming l"
  shows "\<exists>mo rs l'. merge_task_state (merge_fuel l) env hash incoming outs l = Some (Some mo, rs, l') \<and> ledger_inv env l' \<and>
    map_of (tasks l') = merged_task env hash incoming l \<and>
    map_of (settled_index l') = (map_of (settled_index l))(hash := None) \<and>
    map ident rs = (if completes env hash incoming l then map (\<lambda>h. state_ident (the (map_of (tasks l) h))) (blocked_by l hash) else [])"
proof -
  let ?T = "map_of (tasks l)"
  obtain mo rs l1 where m: "merge_local env hash incoming outs l = (Some mo, rs, l1)" and e: "merge_effect env hash incoming l mo rs l1"
    using merge_local_adopts [OF inv ad] by blast
  have t1: "map_of (tasks l1) = merged_here env hash incoming l" and inv1: "ledger_inv env l1" using e by (simp_all add: merge_effect_def)
  show ?thesis
  proof (cases "is_cascade_terminal incoming")
    case True
    note f = cascade_terminal_facts [OF True]
    have c: "\<not> completes env hash incoming l" using f by (simp add: completes_def)
    have T1: "map_of (tasks l1) = ?T(hash \<mapsto> incoming)" by (rule ext) (simp add: t1 merged_here_def c)
    have "{h. blocked_on (map_of (tasks l1) h) \<noteq> None} \<subseteq> {h. blocked_on (?T h) \<noteq> None}" using f by (auto simp: T1 split: if_splits)
    then have n: "card {h. blocked_on (map_of (tasks l1) h) \<noteq> None} \<le> length (tasks l)"
      using le_trans [OF card_mono [OF finite_blocked] blocked_count_bound] by blast
    have b: "blocked_on (map_of (tasks l1) hash) = None" using f by (simp add: T1)
    obtain l2 where l2: "cascade_fail_blocked_dependents (length (tasks l)) env (cascade_dependents hash l1) l1 = Some ([], l2)"
        "ledger_inv env l2" "map_of (tasks l2) = fail_at {h. (h, hash) \<in> (waits (map_of (tasks l1)))\<^sup>+} (map_of (tasks l1))"
        "map_of (settled_index l2) = map_of (settled_index l1)"
      using cascade_complete [OF inv1 b n] by blast
    have "map_of (tasks l2) h = merged_task env hash incoming l h" for h
      using f(1,3) True by (cases "h = hash") (auto simp: l2(3) T1 fail_at_def merged_task_def c first_arrival blocked_on_Some)
    then show ?thesis using l2 True m e by (auto simp: merge_fuel_def merge_effect_def)
  next
    case False
    then have "merged_task env hash incoming l = merged_here env hash incoming l"
      by (auto simp: fun_eq_iff merged_task_def merged_here_def waits_def)
    then show ?thesis using False m e by (auto simp: merge_effect_def)
  qed
qed

text \<open>
  C3: A state that arrives for a task is merged in full or not at all, and the merge always
  returns. It is adopted exactly when it ranks strictly above the state held in memory or on disk,
  or when the task is unknown; otherwise the ledger is unchanged. An adopted first completion
  resumes the tasks blocked on the task, and hands them out, and no others. An adopted permanent
  failure fails every task that waits for the task directly or through a chain of blocked tasks,
  and no others. Every other task keeps its state, and the reverse index, the tally of outcomes
  and the digest memo are exact afterwards.
\<close>

theorem merge_exact:
  assumes "ledger_inv env l"
  shows "\<exists>out rs l'. apply_merge env hash incoming outs l = Some (out, rs, l') \<and> ledger_inv env l' \<and>
    (if adopts env hash incoming l
     then out = Applied \<and> map_of (tasks l') = merged_task env hash incoming l \<and>
       map ident rs = (if completes env hash incoming l then map (\<lambda>h. state_ident (the (map_of (tasks l) h))) (blocked_by l hash) else [])
     else out = NoOp \<and> rs = [] \<and> l' = l)"
proof (cases "adopts env hash incoming l")
  case True
  then show ?thesis using merge_task_state_effect [OF assms True, of outs] by (auto simp: apply_merge_def simp del: merge_task_state.simps)
next
  case False
  then show ?thesis using merge_local_skips [OF assms False, of outs] assms by (simp add: apply_merge_def)
qed

definition sample_routing :: task_routing where
  "sample_routing = \<lparr>r_preferred_secondaries = [], r_preferred_version = default_version, r_resolved_path = None\<rparr>"

definition sample_env :: "(unit, unit) ledger_env" where
  "sample_env = \<lparr>hash_payload = (\<lambda>_. 0), hash_digest = (\<lambda>_ _. 1), range_index = (\<lambda>_. 0), hash_content = (\<lambda>_. 0),
     hash_phase_deps = length, read_spill = (\<lambda>_ _ _. None), decode_payload = (\<lambda>_. None), output_write_ok = (\<lambda>_. True),
     alive_via_authority = (\<lambda>_. False)\<rparr>"

definition sample_chain :: "(unit, unit, unit) ledger" where
  "sample_chain =
     set_task_state sample_env ''c'' (TBlocked (sample_def ''c'') sample_routing ''b'' 0)
       (set_task_state sample_env ''b'' (TBlocked (sample_def ''b'') sample_routing ''a'' 0)
         (set_task_state sample_env ''a'' (TPending (sample_def ''a'') sample_routing default_version 0) empty_ledger))"

lemma sample_chain_tasks:
  "map_of (tasks sample_chain) = [''a'' \<mapsto> TPending (sample_def ''a'') sample_routing default_version 0,
     ''b'' \<mapsto> TBlocked (sample_def ''b'') sample_routing ''a'' 0, ''c'' \<mapsto> TBlocked (sample_def ''c'') sample_routing ''b'' 0]"
  "settled_index sample_chain = []"
  by (simp_all add: sample_chain_def empty_ledger_def)

lemma sample_chain_inv: "ledger_inv sample_env sample_chain"
  unfolding sample_chain_def by (intro ledger_inv_set empty_ledger_inv) (simp_all add: settled_contains_def empty_ledger_def)

theorem merge_exact_witness:
  "\<exists>out rs l'. apply_merge sample_env ''a'' (TFailed (sample_def ''a'') sample_routing NonRecoverable ''no'' default_version 0) None sample_chain
       = Some (out, rs, l') \<and>
     map_of (tasks l') ''c'' = Some (TFailed (sample_def ''c'') sample_routing NonRecoverable ''upstream-failed'' default_version 0)"
proof -
  let ?s = "TFailed (sample_def ''a'') sample_routing NonRecoverable ''no'' default_version 0"
  have "adopts sample_env ''a'' ?s sample_chain"
    by (simp add: adopts_def held_state_def sample_chain_tasks task_join_key_dominates_def key_order_def key_defs less_prod_def')
  moreover have "(''c'', ''a'') \<in> (waits (map_of (tasks sample_chain)))\<^sup>+"
    by (rule trancl_into_trancl2 [where b = "''b''"]) (auto simp: waits_def sample_chain_tasks)
  ultimately show ?thesis
    using merge_exact [OF sample_chain_inv, of "''a''" ?s None]
    by (auto simp: merged_task_def sample_chain_tasks completes_def)
qed

end
