(* ===== verification/Ledger_Apply.thy ===== *)
theory Ledger_Apply
  imports Ledger_Merge
begin

text \<open>
  The mutations of the ledger: one constructor per variant of \<open>ClusterMutation\<close>, one definition per
  arm of \<open>apply_with_resumed_blocked\<close> (\<open>cluster_state/apply.rs\<close>) that does more than latch a value, the
  spawning of tasks (\<open>cluster_state/apply_tasks.rs\<close>), the interning of their definitions
  (\<open>cluster_state/task_def_store.rs\<close>) and the cell writes (\<open>cluster_state/apply_affine.rs\<close>). The result
  of an application is its outcome, the tasks it resumed, the tasks it spawned ready to run, and
  the ledger; None is a panic of an \<open>expect\<close> on the definition store.
\<close>

section \<open>Mutations\<close>

datatype primary_change_reason = Election | Transferred

datatype ('i, 'j, 'p) cluster_mutation =
    TaskAdded string "('i, 'j) task_info" "nat option"
  | TaskAssigned string string worker_id task_version nat
  | TaskCompleted string "string option" nat
  | TaskFailed string error_type string task_version nat
  | PrimaryChanged string nat primary_change_reason
  | PhaseDepsSet "(phase_id \<times> phase_id list) list"
  | PhaseMayBeEmptySet "phase_id list"
  | PhaseNoBarrierSet "phase_id list"
  | RespawnPolicySet nat nat nat
  | RunComplete outcome_summary
  | RunAborted string outcome_summary
  | GracefulAbortRequested
  | WindDownRequested string nat
  | DiscoveryDebtDeclared
  | DiscoverySettled
  | TaskReinjected string task_version
  | TaskRequeued string task_version
  | TaskRetried string nat task_version
  | TaskBlocked string string
  | PhaseEnded phase_id
  | TaskSkippedAlreadyDone string
  | SetupCompleted string
  | TaskPreferredSecondariesUpdated string "string list" task_version
  | PeerJoined string bool bool task_version nat
  | SetCanBePrimary string bool task_version
  | PeerRemoved string removal_cause nat
  | PeerResourceHoldingsUpdated string "string list" nat
  | SecondaryCapacity string nat "(string \<times> nat) list"
  | SecondaryResourceSample string "'p resource_sample"
  | TasksSpawned "('i, 'j) task_info list" "nat option list"
  | CustomMessagePosted string nat string string bool
  | CustomMessageHandled string nat
  | CustomMessageFailed string nat string
  | SecondaryCellRegistered string nat
  | SecondaryCellFinished string nat nat
  | SecondaryCellQueued string nat nat
  | SecondaryCellFailed string nat nat
  | SecondaryCellUnqueued string nat nat

record ('i, 'j, 'p) applied =
  ap_outcome :: apply_outcome
  ap_resumed :: "('i, 'j) task_info list"
  ap_newly_pending :: "('i, 'j) task_info list"
  ap_ledger :: "('i, 'j, 'p) ledger"

abbreviation plain :: "apply_outcome \<times> ('i, 'j, 'p) ledger \<Rightarrow> ('i, 'j, 'p) applied option" where
  "plain r \<equiv> Some \<lparr>ap_outcome = fst r, ap_resumed = [], ap_newly_pending = [], ap_ledger = snd r\<rparr>"

section \<open>Interning a task's definition\<close>

definition max_def_id :: "('i, 'j, 'p) ledger \<Rightarrow> nat option" where
  "max_def_id l =
     (case filter (\<lambda>i. i \<noteq> unbound_id) (map (se_def_id \<circ> snd) (settled_index l)) of
        [] \<Rightarrow> None
      | i # ids \<Rightarrow> Some (fold max ids i))"

definition resume_def_alloc_floor :: "('i, 'j, 'p) ledger \<Rightarrow> ('i, 'j, 'p) ledger" where
  "resume_def_alloc_floor l =
     (let settled_floor = (case max_def_id l of None \<Rightarrow> 0 | Some m \<Rightarrow> m + 1)
      in l\<lparr>definitions := resume_alloc_floor (max (next_id (definitions l)) settled_floor) (definitions l)\<rparr>)"

definition is_def_id_settled :: "('i, 'j, 'p) ledger \<Rightarrow> nat \<Rightarrow> bool" where
  "is_def_id_settled l i \<longleftrightarrow> settled_def_ids l i \<noteq> None"

definition filled :: "bool \<Rightarrow> nat \<Rightarrow> task_dep list \<Rightarrow> ('i, 'j) task_def_store \<Rightarrow> ('i, 'j) task_def_store" where
  "filled placed i deps st = (if placed then fill_dep_refs i (dep_refs_from_deps st deps) st else st)"

definition intern_task_def ::
  "string \<Rightarrow> ('i, 'j) task_info \<Rightarrow> ('i, 'j, 'p) ledger \<Rightarrow> (('i, 'j) frozen_task_def \<times> task_routing) option \<times> ('i, 'j, 'p) ledger" where
  "intern_task_def hash t l =
     (let (frozen, routing, deps) = from_task_info t;
          ((i, placed), st1) = intern_reporting_placement hash frozen (definitions l);
          st2 = filled placed i deps st1
      in (map_option (\<lambda>d. (d, routing)) (resolve st2 i), l\<lparr>definitions := st2\<rparr>))"

datatype 'a interned = Panic | Dropped | Bound 'a

definition or_panic :: "'a option \<Rightarrow> 'a interned" where
  "or_panic x = (case x of None \<Rightarrow> Panic | Some y \<Rightarrow> Bound y)"

definition intern_task_def_at ::
  "nat option \<Rightarrow> string \<Rightarrow> ('i, 'j) task_info \<Rightarrow> ('i, 'j, 'p) ledger \<Rightarrow>
     (('i, 'j) frozen_task_def \<times> task_routing) interned \<times> ('i, 'j, 'p) ledger" where
  "intern_task_def_at def_id hash t l =
     (case def_id of
        None \<Rightarrow> (let (r, l1) = intern_task_def hash t l in (or_panic r, l1))
      | Some wire \<Rightarrow>
          if is_def_id_settled l wire then (let (r, l1) = intern_task_def hash t l in (or_panic r, l1))
          else let (frozen, routing, deps) = from_task_info t;
                   fresh = (resolve (definitions l) wire = None)
               in case intern_at wire hash frozen (definitions l) of
                    (Inl _, st1) \<Rightarrow> (Dropped, l\<lparr>definitions := st1\<rparr>)
                  | (Inr i, st1) \<Rightarrow>
                      let st2 = filled fresh i deps st1
                      in (or_panic (map_option (\<lambda>d. (d, routing)) (resolve st2 i)), l\<lparr>definitions := st2\<rparr>))"

section \<open>Spawning\<close>

definition find_hash :: "('a \<Rightarrow> bool) \<Rightarrow> (string \<times> 'a) list \<Rightarrow> string option" where
  "find_hash P m = map_option fst (List.find (\<lambda>(_, x). P x) m)"

definition task_hash_for_dep :: "('i, 'j, 'p) ledger \<Rightarrow> phase_id \<Rightarrow> task_id \<Rightarrow> string option" where
  "task_hash_for_dep l ph t =
     (case find_hash (\<lambda>s. f_task_id (state_def s) = t \<and> f_phase_id (state_def s) = ph) (tasks l) of
        Some h \<Rightarrow> Some h
      | None \<Rightarrow> find_hash (\<lambda>e. se_task_id e = t \<and> se_phase_id e = ph) (settled_index l))"

text \<open>What one dependency means for a task that is spawned now.\<close>

datatype dep_effect = DepDone | DepFailed | DepUnfulfillable | DepPending

fun settled_effect :: "settled_class \<Rightarrow> dep_effect" where
  "settled_effect SCompleted = DepDone"
| "settled_effect SSkippedAlreadyDone = DepDone"
| "settled_effect SSetupCompleted = DepDone"
| "settled_effect SInvalidTask = DepFailed"
| "settled_effect (SFailedFinal k) = (if k = NonRecoverable then DepFailed else DepPending)"

fun state_effect :: "('i, 'j) task_state \<Rightarrow> dep_effect" where
  "state_effect (TFailed _ _ k _ _ _) = (if k = NonRecoverable then DepFailed else DepPending)"
| "state_effect (TInvalidTask _ _ _ _ _ _) = DepFailed"
| "state_effect (TUnfulfillable _ _ _ _ _ _) = DepUnfulfillable"
| "state_effect (TCompleted _ _ _) = DepDone"
| "state_effect (TSkippedAlreadyDone _ _ _) = DepDone"
| "state_effect (TSetupCompleted _ _ _) = DepDone"
| "state_effect (TPending _ _ _ _) = DepPending"
| "state_effect (TInFlight _ _ _ _ _ _) = DepPending"
| "state_effect (TBlocked _ _ _ _) = DepPending"

definition dep_effect_of :: "('i, 'j, 'p) ledger \<Rightarrow> string \<Rightarrow> dep_effect" where
  "dep_effect_of l h =
     (case map_of (settled_index l) h of
        Some e \<Rightarrow> settled_effect (se_class e)
      | None \<Rightarrow> (case map_of (tasks l) h of Some s \<Rightarrow> state_effect s | None \<Rightarrow> DepDone))"

text \<open>The loop over the dependencies; it stops at the first that failed for good.\<close>

fun classify_deps ::
  "('i, 'j, 'p) ledger \<Rightarrow> task_dep list \<Rightarrow> string option \<Rightarrow> string option \<Rightarrow> bool \<times> string option \<times> string option" where
  "classify_deps l [] unf pend = (False, unf, pend)"
| "classify_deps l (dep # deps) unf pend =
     (case task_hash_for_dep l (dep_phase_id dep) (dep_task_id dep) of
        None \<Rightarrow> classify_deps l deps unf pend
      | Some h \<Rightarrow> (case dep_effect_of l h of
          DepFailed \<Rightarrow> (True, unf, pend)
        | DepUnfulfillable \<Rightarrow> classify_deps l deps (if unf = None then Some h else unf) pend
        | DepPending \<Rightarrow> classify_deps l deps unf (if pend = None then Some h else pend)
        | DepDone \<Rightarrow> classify_deps l deps unf pend))"

definition initial_state ::
  "bool \<Rightarrow> string option \<Rightarrow> string option \<Rightarrow> ('i, 'j) frozen_task_def \<Rightarrow> task_routing \<Rightarrow> ('i, 'j) task_state" where
  "initial_state cascade_fail unf pend d r =
     (if cascade_fail then TFailed d r NonRecoverable ''upstream-failed'' default_version 0
      else case unf of
        Some h \<Rightarrow> TBlocked d r h 0
      | None \<Rightarrow> (case pend of Some h \<Rightarrow> TBlocked d r h 0 | None \<Rightarrow> TPending d r default_version 0))"

definition spawn_one ::
  "('i, 'j) ledger_env \<Rightarrow> ('i, 'j) task_info \<Rightarrow> nat option \<Rightarrow> bool \<times> ('i, 'j) task_info list \<times> ('i, 'j, 'p) ledger \<Rightarrow>
     (bool \<times> ('i, 'j) task_info list \<times> ('i, 'j, 'p) ledger) option" where
  "spawn_one env t wire acc =
     (let (applied_any, np, l) = acc;
          hash = compute_task_hash (hash_content env) t
      in if contains_task l hash then Some acc
         else
           let (cascade_fail, unf, pend) = classify_deps l (task_depends_on t) None None;
               surface = (\<not> cascade_fail \<and> unf = None \<and> pend = None \<and> \<not> is_secondary_eager_prep (kind t))
           in case intern_task_def_at wire hash t l of
                (Panic, _) \<Rightarrow> None
              | (Dropped, l1) \<Rightarrow> Some (applied_any, np, l1)
              | (Bound (d, r), l1) \<Rightarrow>
                  Some (True, np @ (if surface then [t] else []), set_task_state env hash (initial_state cascade_fail unf pend d r) l1))"

fun spawn_loop ::
  "('i, 'j) ledger_env \<Rightarrow> ('i, 'j) task_info list \<Rightarrow> nat option list \<Rightarrow> bool \<times> ('i, 'j) task_info list \<times> ('i, 'j, 'p) ledger \<Rightarrow>
     (bool \<times> ('i, 'j) task_info list \<times> ('i, 'j, 'p) ledger) option" where
  "spawn_loop env [] ids acc = Some acc"
| "spawn_loop env (t # ts) ids acc =
     (case spawn_one env t (case ids of [] \<Rightarrow> None | i # _ \<Rightarrow> i) acc of
        None \<Rightarrow> None
      | Some acc1 \<Rightarrow> spawn_loop env ts (drop 1 ids) acc1)"

definition apply_tasks_spawned ::
  "('i, 'j) ledger_env \<Rightarrow> ('i, 'j) task_info list \<Rightarrow> nat option list \<Rightarrow> ('i, 'j, 'p) ledger \<Rightarrow> ('i, 'j, 'p) applied option" where
  "apply_tasks_spawned env ts ids l =
     (case spawn_loop env ts ids (False, [], l) of
        None \<Rightarrow> None
      | Some (applied_any, np, l1) \<Rightarrow>
          Some \<lparr>ap_outcome = (if applied_any then Applied else NoOp), ap_resumed = [], ap_newly_pending = np, ap_ledger = l1\<rparr>)"

section \<open>The arms of apply\<close>

definition with_merge ::
  "(apply_outcome \<times> ('i, 'j) task_info list \<times> ('i, 'j, 'p) ledger) option \<Rightarrow> ('i, 'j, 'p) applied option" where
  "with_merge r = map_option (\<lambda>(out, rs, l). \<lparr>ap_outcome = out, ap_resumed = rs, ap_newly_pending = [], ap_ledger = l\<rparr>) r"

definition apply_task_added ::
  "('i, 'j) ledger_env \<Rightarrow> string \<Rightarrow> ('i, 'j) task_info \<Rightarrow> nat option \<Rightarrow> ('i, 'j, 'p) ledger \<Rightarrow> ('i, 'j, 'p) applied option" where
  "apply_task_added env hash t def_id l =
     (if settled_contains l hash then plain (NoOp, l)
      else if map_of (tasks l) hash \<noteq> None then plain (NoOp, l)
      else case intern_task_def_at def_id hash t l of
        (Panic, _) \<Rightarrow> None
      | (Dropped, l1) \<Rightarrow> plain (NoOp, l1)
      | (Bound (d, r), l1) \<Rightarrow> plain (Applied, set_task_state env hash (TPending d r default_version 0) l1))"

text \<open>The three arms that build a state from the entry and merge it.\<close>

definition apply_built ::
  "('i, 'j) ledger_env \<Rightarrow> string \<Rightarrow> join_key \<Rightarrow> (('i, 'j) frozen_task_def \<Rightarrow> task_routing \<Rightarrow> ('i, 'j) task_state) \<Rightarrow>
     task_outputs option \<Rightarrow> ('i, 'j, 'p) ledger \<Rightarrow> ('i, 'j, 'p) applied option" where
  "apply_built env hash probe build outs l =
     (case task_entry_unsettling env hash probe l of
        (None, l1) \<Rightarrow> plain (NoOp, l1)
      | (Some s, l1) \<Rightarrow> with_merge (apply_merge env hash (build (state_def s) (state_routing s)) outs l1))"

definition apply_task_assigned ::
  "('i, 'j) ledger_env \<Rightarrow> string \<Rightarrow> string \<Rightarrow> worker_id \<Rightarrow> task_version \<Rightarrow> nat \<Rightarrow> ('i, 'j, 'p) ledger \<Rightarrow> ('i, 'j, 'p) applied option" where
  "apply_task_assigned env hash secondary worker v a l =
     apply_built env hash (key_in_flight a v) (\<lambda>d r. TInFlight d r secondary worker v a) None l"

definition apply_task_completed ::
  "('i, 'j) ledger_env \<Rightarrow> string \<Rightarrow> string option \<Rightarrow> nat \<Rightarrow> ('i, 'j, 'p) ledger \<Rightarrow> ('i, 'j, 'p) applied option" where
  "apply_task_completed env hash result_data a l =
     apply_built env hash (key_completed (hash_payload env) a) (\<lambda>d r. TCompleted d r a) (decode_done_payload_outputs env result_data) l"

fun failed_state ::
  "error_type \<Rightarrow> string \<Rightarrow> task_version \<Rightarrow> nat \<Rightarrow> ('i, 'j) frozen_task_def \<Rightarrow> task_routing \<Rightarrow> ('i, 'j) task_state" where
  "failed_state (Unfulfillable reason) e v a d r = TUnfulfillable d r reason e v a"
| "failed_state (InvalidTask reason) e v a d r = TInvalidTask d r reason e v a"
| "failed_state k e v a d r = TFailed d r k e v a"

definition apply_task_failed ::
  "('i, 'j) ledger_env \<Rightarrow> string \<Rightarrow> error_type \<Rightarrow> string \<Rightarrow> task_version \<Rightarrow> nat \<Rightarrow> ('i, 'j, 'p) ledger \<Rightarrow> ('i, 'j, 'p) applied option" where
  "apply_task_failed env hash k e v a l =
     apply_built env hash (probe_key_for_failed_mutation (hash_payload env) k e v a) (failed_state k e v a) None l"

definition primary_register_adopt :: "nat \<Rightarrow> string option \<Rightarrow> nat \<Rightarrow> string \<Rightarrow> bool" where
  "primary_register_adopt local_epoch local_id inc_epoch inc_id =
     (if inc_epoch > local_epoch then True
      else if inc_epoch < local_epoch then False
      else case local_id of None \<Rightarrow> True | Some x \<Rightarrow> inc_id < x)"

definition resume_affine_cell_gen_floor :: "('i, 'j, 'p) ledger \<Rightarrow> ('i, 'j, 'p) ledger" where
  "resume_affine_cell_gen_floor l =
     l\<lparr>affine := resume_cell_gen_floor (max_generation (bitvector (affine l)) + 1) (affine l),
       definitions := resume_cell_alloc_floor (next_cell_id (definitions l)) (definitions l)\<rparr>"

definition apply_primary_changed :: "string \<Rightarrow> nat \<Rightarrow> ('i, 'j, 'p) ledger \<Rightarrow> apply_outcome \<times> ('i, 'j, 'p) ledger" where
  "apply_primary_changed new_primary epoch l =
     (if \<not> primary_register_adopt (ledger_epoch l) (current_primary l) epoch new_primary then (NoOp, l)
      else let l1 = l\<lparr>current_primary := Some new_primary, ledger_epoch := epoch\<rparr>;
               l2 = resume_affine_cell_gen_floor (resume_def_alloc_floor l1)
           in (Applied, l2\<lparr>role_primary := Some new_primary\<rparr>))"

text \<open>The arms that reset an entry by authority: no join, but a guard on the state they leave.\<close>

fun reinjected :: "task_version \<Rightarrow> ('i, 'j) task_state \<Rightarrow> ('i, 'j) task_state option" where
  "reinjected v (TUnfulfillable d r _ _ _ a) = Some (TPending d r v a)"
| "reinjected v _ = None"

fun requeued :: "task_version \<Rightarrow> ('i, 'j) task_state \<Rightarrow> ('i, 'j) task_state option" where
  "requeued v (TInFlight d r _ _ _ a) = Some (TPending d r v a)"
| "requeued v _ = None"

fun retried :: "nat \<Rightarrow> task_version \<Rightarrow> ('i, 'j) task_state \<Rightarrow> ('i, 'j) task_state option" where
  "retried a v (TFailed d r _ _ _ _) = Some (TPending d r v a)"
| "retried a v _ = None"

fun blocked :: "string \<Rightarrow> ('i, 'j) task_state \<Rightarrow> ('i, 'j) task_state option" where
  "blocked p (TPending d r _ a) = Some (TBlocked d r p a)"
| "blocked p _ = None"

fun skipped :: "('i, 'j) task_state \<Rightarrow> ('i, 'j) task_state option" where
  "skipped (TPending d r _ a) = Some (TSkippedAlreadyDone d r a)"
| "skipped _ = None"

fun setup_done :: "('i, 'j) task_state \<Rightarrow> ('i, 'j) task_state option" where
  "setup_done (TInFlight d r _ _ _ a) = Some (TSetupCompleted d r a)"
| "setup_done (TPending d r _ a) = Some (TSetupCompleted d r a)"
| "setup_done _ = None"

definition apply_rewrite ::
  "('i, 'j) ledger_env \<Rightarrow> string \<Rightarrow> (('i, 'j) task_state \<Rightarrow> ('i, 'j) task_state option) \<Rightarrow> ('i, 'j, 'p) ledger \<Rightarrow> apply_outcome \<times> ('i, 'j, 'p) ledger" where
  "apply_rewrite env hash f l =
     (case Option.bind (map_of (tasks l) hash) f of
        None \<Rightarrow> (NoOp, l)
      | Some s \<Rightarrow> (Applied, snd (rewrite_task_state env hash s l)))"

definition apply_task_retried ::
  "('i, 'j) ledger_env \<Rightarrow> string \<Rightarrow> nat \<Rightarrow> task_version \<Rightarrow> ('i, 'j, 'p) ledger \<Rightarrow> apply_outcome \<times> ('i, 'j, 'p) ledger" where
  "apply_task_retried env hash a v l =
     (case task_entry_unsettling env hash (key_pending a v) l of
        (None, l1) \<Rightarrow> (NoOp, l1)
      | (Some _, l1) \<Rightarrow> apply_rewrite env hash (retried a v) l1)"

definition apply_setup_completed :: "('i, 'j) ledger_env \<Rightarrow> string \<Rightarrow> ('i, 'j, 'p) ledger \<Rightarrow> ('i, 'j, 'p) applied option" where
  "apply_setup_completed env hash l =
     (case apply_rewrite env hash setup_done l of
        (NoOp, l1) \<Rightarrow> plain (NoOp, l1)
      | (Applied, l1) \<Rightarrow>
          (let (rs, l2) = resume_blocked_on env hash l1
           in Some \<lparr>ap_outcome = Applied, ap_resumed = rs, ap_newly_pending = [], ap_ledger = l2\<rparr>))"

definition apply_preferred_secondaries ::
  "string \<Rightarrow> string list \<Rightarrow> task_version \<Rightarrow> ('i, 'j, 'p) ledger \<Rightarrow> apply_outcome \<times> ('i, 'j, 'p) ledger" where
  "apply_preferred_secondaries hash secondaries v l =
     (case map_of (tasks l) hash of
        None \<Rightarrow> (NoOp, l)
      | Some s \<Rightarrow>
          if v \<le> r_preferred_version (state_routing s) then (NoOp, l)
          else (Applied, l\<lparr>tasks := AList.update hash (with_routing
                 ((state_routing s)\<lparr>r_preferred_secondaries := secondaries, r_preferred_version := v\<rparr>) s) (tasks l)\<rparr>))"

definition apply_secondary_cell_registered :: "string \<Rightarrow> nat \<Rightarrow> ('i, 'j, 'p) ledger \<Rightarrow> apply_outcome \<times> ('i, 'j, 'p) ledger" where
  "apply_secondary_cell_registered hash cell_id l =
     (let already = (cell_hash_to_id (definitions l) hash = Some cell_id) in
      case intern_cell_at cell_id hash (definitions l) of
        (Inl _, st) \<Rightarrow> (NoOp, l\<lparr>definitions := st\<rparr>)
      | (Inr _, st) \<Rightarrow>
          let l1 = l\<lparr>definitions := st\<rparr>
          in if already then (NoOp, l1)
             else (Applied, case map_of (tasks l1) hash of
                 None \<Rightarrow> l1
               | Some s \<Rightarrow> l1\<lparr>tasks := AList.update hash (with_def ((state_def s)\<lparr>f_affine_id := Some cell_id\<rparr>) s) (tasks l1)\<rparr>))"

definition apply_secondary_cell_write ::
  "string \<Rightarrow> nat \<Rightarrow> secondary_cell \<Rightarrow> nat \<Rightarrow> ('i, 'j, 'p) ledger \<Rightarrow> apply_outcome \<times> ('i, 'j, 'p) ledger" where
  "apply_secondary_cell_write secondary cell_id c g l =
     (let (won, v) = set_cell secondary cell_id c g (bitvector (affine l))
      in (if won then Applied else NoOp, l\<lparr>affine := (affine l)\<lparr>bitvector := v\<rparr>\<rparr>))"

text \<open>Latches: a value that is set once, and sets that only grow.\<close>

definition latch :: "bool \<Rightarrow> ('i, 'j, 'p) ledger \<Rightarrow> ('i, 'j, 'p) ledger \<Rightarrow> apply_outcome \<times> ('i, 'j, 'p) ledger" where
  "latch open_yet l l' = (if open_yet then (Applied, l') else (NoOp, l))"

definition first_outcome :: "outcome_summary option \<Rightarrow> outcome_summary \<Rightarrow> outcome_summary option" where
  "first_outcome x counts = (case x of None \<Rightarrow> Some counts | Some y \<Rightarrow> Some y)"

definition on_members ::
  "('p membership \<Rightarrow> apply_outcome \<times> 'p membership) \<Rightarrow> ('i, 'j, 'p) ledger \<Rightarrow> apply_outcome \<times> ('i, 'j, 'p) ledger" where
  "on_members f l = (let (out, m) = f (members l) in (out, l\<lparr>members := m\<rparr>))"

definition on_inbox ::
  "(custom_inbox \<Rightarrow> apply_outcome \<times> custom_inbox) \<Rightarrow> ('i, 'j, 'p) ledger \<Rightarrow> apply_outcome \<times> ('i, 'j, 'p) ledger" where
  "on_inbox f l = (let (out, m) = f (inbox l) in (out, l\<lparr>inbox := m\<rparr>))"

fun apply_with_resumed_blocked ::
  "('i, 'j) ledger_env \<Rightarrow> ('i, 'j, 'p) cluster_mutation \<Rightarrow> ('i, 'j, 'p) ledger \<Rightarrow> ('i, 'j, 'p) applied option" where
  "apply_with_resumed_blocked env (TaskAdded hash t i) l = apply_task_added env hash t i l"
| "apply_with_resumed_blocked env (TaskAssigned hash s w v a) l = apply_task_assigned env hash s w v a l"
| "apply_with_resumed_blocked env (TaskCompleted hash d a) l = apply_task_completed env hash d a l"
| "apply_with_resumed_blocked env (TaskFailed hash k e v a) l = apply_task_failed env hash k e v a l"
| "apply_with_resumed_blocked env (PrimaryChanged p e _) l = plain (apply_primary_changed p e l)"
| "apply_with_resumed_blocked env (PhaseDepsSet deps) l = plain (latch (phase_deps l = []) l (l\<lparr>phase_deps := deps\<rparr>))"
| "apply_with_resumed_blocked env (PhaseMayBeEmptySet ps) l =
     plain (latch (phase_may_be_empty l = {} \<and> ps \<noteq> []) l (l\<lparr>phase_may_be_empty := set ps\<rparr>))"
| "apply_with_resumed_blocked env (PhaseNoBarrierSet ps) l =
     plain (latch (phase_no_barrier l = {} \<and> ps \<noteq> []) l (l\<lparr>phase_no_barrier := set ps\<rparr>))"
| "apply_with_resumed_blocked env (RespawnPolicySet a b c) l =
     plain (latch (ledger_respawn_policy l = None) l
       (l\<lparr>ledger_respawn_policy := Some \<lparr>max_per_secondary = a, max_total = b, cooldown_ms = c\<rparr>\<rparr>))"
| "apply_with_resumed_blocked env (RunComplete counts) l =
     plain (latch (\<not> run_complete l) l
       (l\<lparr>run_complete := True, terminal_outcome := first_outcome (terminal_outcome l) counts\<rparr>))"
| "apply_with_resumed_blocked env (RunAborted reason counts) l =
     plain (latch (run_aborted l = None) l
       (l\<lparr>run_aborted := Some reason, terminal_outcome := first_outcome (terminal_outcome l) counts\<rparr>))"
| "apply_with_resumed_blocked env GracefulAbortRequested l =
     plain (latch (\<not> graceful_abort_requested l) l (l\<lparr>graceful_abort_requested := True\<rparr>))"
| "apply_with_resumed_blocked env (WindDownRequested s g) l =
     plain (latch ((s, g) \<notin> wind_down_requested l) l (l\<lparr>wind_down_requested := insert (s, g) (wind_down_requested l)\<rparr>))"
| "apply_with_resumed_blocked env DiscoveryDebtDeclared l = plain (latch (ledger_debt l = Undeclared) l (l\<lparr>ledger_debt := Owed\<rparr>))"
| "apply_with_resumed_blocked env DiscoverySettled l = plain (latch (ledger_debt l \<noteq> Settled) l (l\<lparr>ledger_debt := Settled\<rparr>))"
| "apply_with_resumed_blocked env (TaskReinjected hash v) l = plain (apply_rewrite env hash (reinjected v) l)"
| "apply_with_resumed_blocked env (TaskRequeued hash v) l = plain (apply_rewrite env hash (requeued v) l)"
| "apply_with_resumed_blocked env (TaskRetried hash a v) l = plain (apply_task_retried env hash a v l)"
| "apply_with_resumed_blocked env (TaskBlocked hash p) l = plain (apply_rewrite env hash (blocked p) l)"
| "apply_with_resumed_blocked env (PhaseEnded ph) l =
     plain (latch (ph \<notin> phases_ended l) l (l\<lparr>phases_ended := insert ph (phases_ended l)\<rparr>))"
| "apply_with_resumed_blocked env (TaskSkippedAlreadyDone hash) l = plain (apply_rewrite env hash skipped l)"
| "apply_with_resumed_blocked env (SetupCompleted hash) l = apply_setup_completed env hash l"
| "apply_with_resumed_blocked env (TaskPreferredSecondariesUpdated hash ss v) l = plain (apply_preferred_secondaries hash ss v l)"
| "apply_with_resumed_blocked env (PeerJoined p ob c v g) l =
     plain (on_members (apply_peer_joined (alive_via_authority env) p ob c v g) l)"
| "apply_with_resumed_blocked env (SetCanBePrimary p c v) l = plain (on_members (apply_set_can_be_primary p c v) l)"
| "apply_with_resumed_blocked env (PeerRemoved p c g) l = plain (on_members (apply_peer_removed p c g) l)"
| "apply_with_resumed_blocked env (PeerResourceHoldingsUpdated p hs e) l =
     plain (on_members (apply_peer_resource_holdings_updated (ledger_epoch l) p hs e) l)"
| "apply_with_resumed_blocked env (SecondaryCapacity s n rs) l = plain (on_members (apply_secondary_capacity s n rs) l)"
| "apply_with_resumed_blocked env (SecondaryResourceSample s r) l = plain (on_members (apply_secondary_resource_sample s r) l)"
| "apply_with_resumed_blocked env (TasksSpawned ts ids) l = apply_tasks_spawned env ts ids l"
| "apply_with_resumed_blocked env (CustomMessagePosted p q t d h) l = plain (on_inbox (apply_custom_message_posted p q t d h) l)"
| "apply_with_resumed_blocked env (CustomMessageHandled p q) l = plain (on_inbox (apply_custom_message_handled p q) l)"
| "apply_with_resumed_blocked env (CustomMessageFailed p q r) l = plain (on_inbox (apply_custom_message_failed p q r) l)"
| "apply_with_resumed_blocked env (SecondaryCellRegistered h c) l = plain (apply_secondary_cell_registered h c l)"
| "apply_with_resumed_blocked env (SecondaryCellFinished s c g) l = plain (apply_secondary_cell_write s c CellDone g l)"
| "apply_with_resumed_blocked env (SecondaryCellQueued s c g) l = plain (apply_secondary_cell_write s c Queued g l)"
| "apply_with_resumed_blocked env (SecondaryCellFailed s c g) l = plain (apply_secondary_cell_write s c CellFailed g l)"
| "apply_with_resumed_blocked env (SecondaryCellUnqueued s c g) l = plain (apply_secondary_cell_write s c NotDone g l)"

section \<open>Every mutation keeps the invariant\<close>

definition core_tables ::
  "('i, 'j, 'p) ledger \<Rightarrow> (string \<times> ('i, 'j) task_state) list \<times> (string \<times> settled_entry) list \<times> (string \<Rightarrow> string list) \<times>
     outcome_summary \<times> (nat \<Rightarrow> 64 word \<times> nat)" where
  "core_tables l = (tasks l, settled_index l, blocked_by l, outcome_tally l, range_fold_memo l)"

lemma ledger_inv_core: "core_tables l = core_tables k \<Longrightarrow> ledger_inv env l = ledger_inv env k"
  by (simp add: core_tables_def ledger_inv_def exact_defs view_defs cong: option.case_cong)

lemma ledger_inv_relabel:
  assumes inv: "ledger_inv env l" and t: "map_of (tasks l) hash = Some s"
    and "task_join_key (hash_payload env) x = task_join_key (hash_payload env) s"
    and "outcome_bucket_of x = outcome_bucket_of s" and "blocked_on (Some x) = blocked_on (Some s)"
  shows "ledger_inv env (l\<lparr>tasks := AList.update hash x (tasks l)\<rparr>)" (is "ledger_inv env ?l")
proof (rule ledger_inv_same_view [OF inv])
  show "ledger_bucket ?l = ledger_bucket l" "ledger_key env ?l = ledger_key env l"
    using t assms(3,4) by (auto simp: fun_eq_iff view_defs update_conv' cong: option.case_cong)
  show "blocked_on (map_of (tasks ?l) h) = blocked_on (map_of (tasks l) h)" for h
    using t assms(5) by (simp add: update_conv')
  have "map_of (settled_index l) hash = None" using inv_not_settled [OF inv, of hash] t by (simp add: settled_contains_def)
  then show "entries_disjoint ?l"
    using inv by (simp add: ledger_inv_def entries_disjoint_def update_conv' distinct_update)
  show "settled_exact env ?l" using inv by (simp add: ledger_inv_def settled_exact_def)
qed simp_all

lemma with_routing_same [simp]: "outcome_bucket_of (with_routing r s) = outcome_bucket_of s" "blocked_on (Some (with_routing r s)) = blocked_on (Some s)"
  "outcome_bucket_of (with_def d s) = outcome_bucket_of s" "blocked_on (Some (with_def d s)) = blocked_on (Some s)"
  by (cases s; simp)+

lemma intern_core: "intern_task_def hash t l = (r, l') \<Longrightarrow> core_tables l' = core_tables l"
  by (auto simp: intern_task_def_def core_tables_def Let_def split: prod.splits)

lemma intern_at_core: "intern_task_def_at i hash t l = (r, l') \<Longrightarrow> core_tables l' = core_tables l"
  by (auto simp: intern_task_def_at_def Let_def core_tables_def dest: intern_core split: option.splits prod.splits sum.splits if_splits)

lemma core_settled: "core_tables l = core_tables k \<Longrightarrow> settled_contains l = settled_contains k"
  by (auto simp: core_tables_def settled_contains_def)

lemma ledger_inv_set_core:
  assumes "ledger_inv env l" and "core_tables l1 = core_tables l" and "\<not> settled_contains l hash"
  shows "ledger_inv env (set_task_state env hash s l1)"
  using assms ledger_inv_core core_settled ledger_inv_set by metis

lemma unsettling_inv:
  "ledger_inv env l \<Longrightarrow> task_entry_unsettling env hash k l = (x, l1) \<Longrightarrow> ledger_inv env l1 \<and> x = map_of (tasks l1) hash"
  by (auto simp: task_entry_unsettling_def Let_def intro: ledger_inv_unsettle split: if_splits)

lemma apply_built_total:
  assumes "ledger_inv env l"
  shows "\<exists>r. apply_built env hash k b outs l = Some r \<and> ledger_inv env (ap_ledger r)"
proof -
  obtain x l1 where u: "task_entry_unsettling env hash k l = (x, l1)" by fastforce
  have inv1: "ledger_inv env l1" using unsettling_inv [OF assms u] by blast
  show ?thesis
  proof (cases x)
    case None
    then show ?thesis using u inv1 by (simp add: apply_built_def)
  next
    case (Some s)
    obtain rs l2 where "\<exists>out. apply_merge env hash (b (state_def s) (state_routing s)) outs l1 = Some (out, rs, l2)" "ledger_inv env l2"
    proof (cases "adopts env hash (b (state_def s) (state_routing s)) l1")
      case True
      then show ?thesis
        using that merge_task_state_effect [OF inv1 True, of outs] by (fastforce simp: apply_merge_def simp del: merge_task_state.simps)
    next
      case False
      then show ?thesis using that merge_local_skips [OF inv1 False, of outs] inv1 by (simp add: apply_merge_def)
    qed
    then show ?thesis using u Some by (auto simp: apply_built_def with_merge_def)
  qed
qed

lemma apply_rewrite_inv:
  assumes "ledger_inv env l"
  shows "ledger_inv env (snd (apply_rewrite env hash f l))"
  using assms inv_not_settled [OF assms, of hash]
  by (auto simp: apply_rewrite_def rewrite_task_state_def intro: ledger_inv_set split: option.split Option.bind_split)

lemma latch_inv: "ledger_inv env l \<Longrightarrow> core_tables l' = core_tables l \<Longrightarrow> ledger_inv env (snd (latch c l l'))"
  using ledger_inv_core by (auto simp: latch_def)

lemma spawn_one_inv:
  assumes "ledger_inv env l" and "spawn_one env t i (a, np, l) = Some (a', np', l')"
  shows "ledger_inv env l'"
proof -
  let ?h = "compute_task_hash (hash_content env) t"
  obtain r l1 where i: "intern_task_def_at i ?h t l = (r, l1)" by fastforce
  note c = intern_at_core [OF i]
  have "ledger_inv env l1" using assms(1) ledger_inv_core [OF c] by blast
  then show ?thesis
    using assms ledger_inv_set_core [OF assms(1) c] unfolding spawn_one_def
    by (auto simp: Let_def i contains_task_def split: if_splits interned.splits prod.splits)
qed

lemma spawn_loop_inv:
  "ledger_inv env l \<Longrightarrow> spawn_loop env ts ids (a, np, l) = Some (a', np', l') \<Longrightarrow> ledger_inv env l'"
proof (induction ts arbitrary: ids a np l)
  case (Cons t ts)
  obtain a1 np1 l1 where o1: "spawn_one env t (case ids of [] \<Rightarrow> None | i # _ \<Rightarrow> i) (a, np, l) = Some (a1, np1, l1)"
    using Cons.prems(2) by (cases "spawn_one env t (case ids of [] \<Rightarrow> None | i # _ \<Rightarrow> i) (a, np, l)") auto
  show ?case using Cons.IH [OF spawn_one_inv [OF Cons.prems(1) o1]] Cons.prems(2) by (simp add: o1)
qed simp

lemma on_members_core [simp]: "core_tables (snd (on_members f l)) = core_tables l" "core_tables (snd (on_inbox g l)) = core_tables l"
  "core_tables (snd (apply_secondary_cell_write s c x n l)) = core_tables l"
  "core_tables (snd (apply_primary_changed p e l)) = core_tables l"
  by (simp_all add: on_members_def on_inbox_def apply_secondary_cell_write_def apply_primary_changed_def
      resume_affine_cell_gen_floor_def resume_def_alloc_floor_def core_tables_def Let_def split: prod.split)

lemma apply_cell_registered_inv:
  assumes "ledger_inv env l"
  shows "ledger_inv env (snd (apply_secondary_cell_registered hash c l))"
proof -
  obtain r st where i: "intern_cell_at c hash (definitions l) = (r, st)" by fastforce
  have "ledger_inv env (l\<lparr>definitions := st\<rparr>)" using assms by simp
  then show ?thesis
    using ledger_inv_relabel [of env "l\<lparr>definitions := st\<rparr>" hash]
    by (auto simp: apply_secondary_cell_registered_def i Let_def split: sum.split option.split)
qed

lemma apply_preferred_inv:
  assumes "ledger_inv env l"
  shows "ledger_inv env (snd (apply_preferred_secondaries hash ss v l))"
  using assms ledger_inv_relabel [OF assms, of hash] by (auto simp: apply_preferred_secondaries_def split: option.split)

lemma apply_task_added_inv:
  assumes "ledger_inv env l" and "apply_task_added env hash t i l = Some r"
  shows "ledger_inv env (ap_ledger r)"
proof -
  obtain x l1 where i: "intern_task_def_at i hash t l = (x, l1)" by fastforce
  note c = intern_at_core [OF i]
  have "ledger_inv env l1" using assms(1) ledger_inv_core [OF c] by blast
  then show ?thesis
    using assms ledger_inv_set_core [OF assms(1) c] unfolding apply_task_added_def
    by (auto simp: i split: if_splits interned.splits prod.splits)
qed

lemma apply_retried_inv:
  assumes "ledger_inv env l"
  shows "ledger_inv env (snd (apply_task_retried env hash a v l))"
proof -
  obtain x l1 where u: "task_entry_unsettling env hash (key_pending a v) l = (x, l1)" by fastforce
  have "ledger_inv env l1" using unsettling_inv [OF assms u] by blast
  then show ?thesis using apply_rewrite_inv by (auto simp: apply_task_retried_def u split: option.split)
qed

lemma apply_setup_inv:
  assumes "ledger_inv env l" and "apply_setup_completed env hash l = Some r"
  shows "ledger_inv env (ap_ledger r)"
proof -
  obtain x l1 where a: "apply_rewrite env hash setup_done l = (x, l1)" by fastforce
  obtain rs l2 where b: "resume_blocked_on env hash l1 = (rs, l2)" by fastforce
  have inv1: "ledger_inv env l1" using apply_rewrite_inv [OF assms(1), of hash setup_done] by (simp add: a)
  show ?thesis
    using assms(2) inv1 resume_blocked_on_effect(3) [OF inv1 b] by (auto simp: apply_setup_completed_def a b split: apply_outcome.splits)
qed

lemma apply_inv:
  assumes inv: "ledger_inv env l" and m: "apply_with_resumed_blocked env m l = Some r"
  shows "ledger_inv env (ap_ledger r)"
proof -
  have latched: "ledger_inv env (snd (latch c l l'))" if "core_tables l' = core_tables l" for c l'
    using latch_inv [OF inv that] .
  have same: "ledger_inv env l'" if "core_tables l' = core_tables l" for l'
    using ledger_inv_core [OF that] inv by blast
  have built: "ledger_inv env (ap_ledger r)" if "apply_built env hash k b outs l = Some r" for hash k b outs
    using apply_built_total [OF inv, of hash k b outs] that by auto
  have plain: "ledger_inv env (snd (on_members f l))" "ledger_inv env (snd (on_inbox g l))"
      "ledger_inv env (snd (apply_secondary_cell_write x c y n l))" "ledger_inv env (snd (apply_primary_changed p e l))"
    for f g x c y n p e
    by (rule same, simp)+
  show ?thesis
    by (cases m) (use m in \<open>auto simp: core_tables_def latched plain apply_rewrite_inv [OF inv] apply_retried_inv [OF inv]
        apply_preferred_inv [OF inv] apply_cell_registered_inv [OF inv] apply_tasks_spawned_def apply_task_assigned_def
        apply_task_completed_def apply_task_failed_def dest: built apply_task_added_inv [OF inv] apply_setup_inv [OF inv]
        spawn_loop_inv [OF inv] split: option.splits\<close>)
qed

section \<open>No mutation panics\<close>

text \<open>Every hash that has an id has a definition at it: no reservation is open.\<close>

definition defs_filled :: "('i, 'j) task_def_store \<Rightarrow> bool" where
  "defs_filled st \<longleftrightarrow> (\<forall>hash i. hash_to_id st hash = Some i \<longrightarrow> resolve st i \<noteq> None)"

lemma same_rest_definitions: "same_rest l k \<Longrightarrow> definitions k = definitions l"
  unfolding same_rest_def by (cases l; cases k) simp

lemma resume_definitions: "definitions (snd (resume_blocked_on env p l)) = definitions l"
proof -
  have "definitions (snd (fold (resume_one env) hs a)) = definitions (snd a)" for hs and a :: "('a, 'b) task_info list \<times> ('a, 'b, 'c) ledger"
  proof (induction hs arbitrary: a)
    case (Cons h hs)
    obtain rs k where o1: "resume_one env h (fst a, snd a) = (rs, k)" by fastforce
    show ?case using Cons same_rest_definitions [OF resume_one_effect(2) [OF o1]] o1 by simp
  qed simp
  then show ?thesis by (simp add: resume_blocked_on_def)
qed

lemma recording_definitions [simp]:
  "definitions (record_task_outputs_value env h x k) = definitions k"
  "definitions (record_phase_event_tally key n k) = definitions k"
  "definitions (emit_completed ev k) = definitions k"
  by (auto simp: record_task_outputs_value_def output_store_record_def record_phase_event_tally_def emit_completed_def Let_def
      split: option.splits)

lemma merge_adopt_definitions: "definitions (snd (snd (merge_adopt env hash s outs w l))) = definitions l"
  by (simp add: merge_adopt_def Let_def case_prod_beta resume_definitions)

lemma unsettle_definitions: "definitions (snd (unsettle_if_dominated env h k l)) = definitions l"
  by (auto simp: unsettle_if_dominated_def split: option.splits)

lemma merge_local_definitions: "definitions (snd (snd (merge_local env hash s outs l))) = definitions l"
  by (simp add: merge_local_def Let_def case_prod_beta merge_adopt_definitions unsettle_definitions split: option.split)

lemma merge_definitions:
  "merge_task_state n env hash s outs l = Some (mo, rs, l') \<Longrightarrow> definitions l' = definitions l"
  "cascade_fail_blocked_dependents n env ds l = Some (rs', l'') \<Longrightarrow> definitions l'' = definitions l"
proof (induction n env hash s outs l and n env ds l arbitrary: mo rs l' and rs' l'' rule: merge_task_state_cascade_fail_blocked_dependents.induct)
  case (1 n env hash incoming outs l)
  obtain r rs1 l1 where m: "merge_local env hash incoming outs l = (r, rs1, l1)" using prod_cases3 by blast
  have "definitions l1 = definitions l" using merge_local_definitions [of env hash incoming outs l] by (simp add: m)
  note l1 = this
  show ?case
  proof (cases "\<exists>x k. r = Some x \<and> is_cascade_terminal incoming \<and> n = Suc k")
    case True
    then obtain x k where c: "r = Some x" "is_cascade_terminal incoming" "n = Suc k" by blast
    obtain a b where ab: "cascade_fail_blocked_dependents k env (cascade_dependents hash l1) l1 = Some (a, b)"
      using "1.prems" m c by (cases "cascade_fail_blocked_dependents k env (cascade_dependents hash l1) l1") auto
    then have "l' = b" using "1.prems" m c by simp
    then show ?thesis using "1.IH" [OF m [symmetric] c(1) refl c(2,3) ab] l1 by simp
  next
    case False
    then have "l' = l1" using "1.prems" m by (cases r; cases n) (auto split: if_splits)
    then show ?thesis using l1 by simp
  qed
next
  case (3 n env h s deps l)
  obtain mo1 rs1 l1 where o1: "merge_task_state n env h s None l = Some (mo1, rs1, l1)"
    using "3.prems" by (cases "merge_task_state n env h s None l") auto
  then show ?case
    using "3.prems" "3.IH"(1) [OF o1] "3.IH"(2) [OF o1 refl refl] by (auto split: option.splits simp del: merge_task_state.simps)
qed simp

lemma apply_merge_definitions:
  assumes "apply_merge env hash s outs l = Some (out, rs, l')"
  shows "definitions l' = definitions l"
proof -
  obtain mo b where "merge_task_state (merge_fuel l) env hash s outs l = Some (mo, rs, b)" "definitions l' = definitions b"
    using assms by (auto simp: apply_merge_def simp del: merge_task_state.simps split: option.splits)
  then show ?thesis using merge_definitions(1) by metis
qed

lemma resolve_fill [simp]: "resolve (fill_dep_refs i refs st) j = None \<longleftrightarrow> resolve st j = None" "hash_to_id (fill_dep_refs i refs st) = hash_to_id st"
  by (auto simp: fill_dep_refs_def resolve_def nth_list_update split: option.split)

lemma filled_ok: "defs_filled (filled p i deps st) = defs_filled st" "resolve (filled p i deps st) j = None \<longleftrightarrow> resolve st j = None"
  by (simp_all add: filled_def defs_filled_def del: not_None_eq)

lemma intern_placement_ok:
  assumes "defs_filled st" and "intern_reporting_placement hash d st = ((i, p), st')"
  shows "defs_filled st' \<and> resolve st' i \<noteq> None"
  using assms by (auto simp: intern_reporting_placement_def defs_filled_def alloc_def Let_def split: option.splits if_splits)

lemma intern_at_ok:
  assumes "defs_filled st" and "intern_at i hash d st = (r, st')"
  shows "defs_filled st' \<and> (\<forall>j. r = Inr j \<longrightarrow> resolve st' j \<noteq> None)"
  using assms by (auto simp: intern_at_def defs_filled_def Let_def split: option.splits if_splits)

lemma intern_task_ok:
  assumes "defs_filled (definitions l)" and "intern_task_def hash t l = (r, l')"
  shows "defs_filled (definitions l') \<and> r \<noteq> None"
proof -
  obtain frozen routing deps where f: "from_task_info t = (frozen, routing, deps)" using prod_cases3 by blast
  obtain i p st where p: "intern_reporting_placement hash frozen (definitions l) = ((i, p), st)"
    by (metis surj_pair)
  show ?thesis
    using assms(2) intern_placement_ok [OF assms(1) p] filled_ok(2) [of p i deps st i]
    by (auto simp: intern_task_def_def Let_def f p filled_ok(1) simp del: not_None_eq)
qed

lemma intern_task_at_ok:
  assumes "defs_filled (definitions l)" and "intern_task_def_at i hash t l = (r, l')"
  shows "defs_filled (definitions l') \<and> r \<noteq> Panic"
proof -
  have "defs_filled (definitions l') \<and> r \<noteq> Panic" if "i = Some w" "\<not> is_def_id_settled l w" for w
    using assms that intern_at_ok [OF assms(1), of w hash]
    by (fastforce simp: intern_task_def_at_def Let_def or_panic_def filled_ok split: prod.splits sum.splits option.splits)
  moreover have "defs_filled (definitions l') \<and> r \<noteq> Panic" if "\<not> (\<exists>w. i = Some w \<and> \<not> is_def_id_settled l w)"
    using assms that intern_task_ok [OF assms(1), of hash t]
    by (fastforce simp: intern_task_def_at_def or_panic_def split: prod.splits option.splits)
  ultimately show ?thesis by blast
qed

lemma defs_filled_update [simp]:
  "defs_filled (st\<lparr>cell_hash_to_id := a\<rparr>) = defs_filled st" "defs_filled (st\<lparr>cell_id_to_hash := b\<rparr>) = defs_filled st"
  "defs_filled (st\<lparr>cell_id_reserved := c\<rparr>) = defs_filled st" "defs_filled (st\<lparr>next_cell_id := n\<rparr>) = defs_filled st"
  "defs_filled (st\<lparr>next_id := n\<rparr>) = defs_filled st"
  by (simp_all add: defs_filled_def resolve_def)

lemma intern_cell_filled: "defs_filled (snd (intern_cell_at c hash st)) = defs_filled st"
  by (simp add: intern_cell_at_def split: option.split)

lemma built_definitions: "apply_built env hash k b outs l = Some r \<Longrightarrow> definitions (ap_ledger r) = definitions l"
  by (auto simp: apply_built_def task_entry_unsettling_def Let_def with_merge_def unsettle_definitions
      dest!: apply_merge_definitions split: option.splits prod.splits if_splits)

lemma rewrite_definitions: "definitions (snd (apply_rewrite env hash f l)) = definitions l"
  by (simp add: apply_rewrite_def rewrite_task_state_def split: option.split)

lemma retried_definitions: "definitions (snd (apply_task_retried env hash a v l)) = definitions l"
  by (auto simp: apply_task_retried_def task_entry_unsettling_def Let_def unsettle_definitions rewrite_definitions split: option.splits)

lemma setup_total: "\<exists>r. apply_setup_completed env hash l = Some r \<and> definitions (ap_ledger r) = definitions l"
proof -
  obtain out l1 where a: "apply_rewrite env hash setup_done l = (out, l1)" by fastforce
  have "definitions l1 = definitions l" using rewrite_definitions [of env hash setup_done l] by (simp add: a)
  then show ?thesis
    using resume_definitions [of env hash l1] by (cases out) (auto simp: apply_setup_completed_def a split: prod.split)
qed

lemma cell_registered_filled: "defs_filled (definitions (snd (apply_secondary_cell_registered hash c l))) = defs_filled (definitions l)"
proof -
  obtain r st where i: "intern_cell_at c hash (definitions l) = (r, st)" by fastforce
  have "defs_filled st = defs_filled (definitions l)" using intern_cell_filled [of c hash "definitions l"] by (simp add: i)
  then show ?thesis by (simp add: apply_secondary_cell_registered_def i Let_def split: sum.split option.split)
qed

lemma plain_filled:
  "definitions (snd (on_members f l)) = definitions l" "definitions (snd (on_inbox g l)) = definitions l"
  "definitions (snd (apply_secondary_cell_write s c x n l)) = definitions l"
  "definitions (snd (apply_preferred_secondaries hash ss v l)) = definitions l"
  "defs_filled (definitions (snd (apply_primary_changed p e l))) = defs_filled (definitions l)"
  by (auto simp: on_members_def on_inbox_def apply_secondary_cell_write_def apply_preferred_secondaries_def apply_primary_changed_def
      resume_affine_cell_gen_floor_def resume_def_alloc_floor_def resume_alloc_floor_def resume_cell_alloc_floor_def Let_def
      split: prod.split option.split)

lemma spawn_one_total:
  assumes "defs_filled (definitions l)"
  shows "\<exists>a' np' l'. spawn_one env t i (a, np, l) = Some (a', np', l') \<and> defs_filled (definitions l')"
proof -
  obtain x k where i: "intern_task_def_at i (compute_task_hash (hash_content env) t) t l = (x, k)" by fastforce
  have "defs_filled (definitions k)" "x \<noteq> Panic" using intern_task_at_ok [OF assms i] by auto
  then show ?thesis using assms by (cases x) (auto simp: spawn_one_def Let_def i split: prod.split)
qed

lemma spawn_loop_total:
  "defs_filled (definitions l) \<Longrightarrow> \<exists>a' np' l'. spawn_loop env ts ids (a, np, l) = Some (a', np', l') \<and> defs_filled (definitions l')"
proof (induction ts arbitrary: ids a np l)
  case (Cons t ts)
  obtain a1 np1 l1 where "spawn_one env t (case ids of [] \<Rightarrow> None | i # _ \<Rightarrow> i) (a, np, l) = Some (a1, np1, l1)" "defs_filled (definitions l1)"
    using spawn_one_total [OF Cons.prems] by blast
  then show ?case using Cons.IH by simp
qed simp

lemma added_total:
  assumes "defs_filled (definitions l)"
  shows "\<exists>r. apply_task_added env hash t i l = Some r \<and> defs_filled (definitions (ap_ledger r))"
proof -
  obtain x k where i: "intern_task_def_at i hash t l = (x, k)" by fastforce
  have k: "defs_filled (definitions k)" "x \<noteq> Panic" using intern_task_at_ok [OF assms i] by auto
  then show ?thesis using assms by (cases x) (auto simp: apply_task_added_def i)
qed

lemma apply_total:
  assumes inv: "ledger_inv env l" and filled: "defs_filled (definitions l)"
  shows "\<exists>r. apply_with_resumed_blocked env m l = Some r \<and> defs_filled (definitions (ap_ledger r))"
proof -
  have built: "\<exists>r. apply_built env hash k b outs l = Some r \<and> defs_filled (definitions (ap_ledger r))" for hash k b outs
    using apply_built_total [OF inv, of hash k b outs] built_definitions [of env hash k b outs l] filled by fastforce
  have set_up: "\<exists>r. apply_setup_completed env hash l = Some r \<and> defs_filled (definitions (ap_ledger r))" for hash
    using setup_total [of env hash l] filled by fastforce
  have spawned: "\<exists>r. apply_tasks_spawned env ts ids l = Some r \<and> defs_filled (definitions (ap_ledger r))" for ts ids
    using spawn_loop_total [OF filled, of env ts ids False "[]"] by (auto simp: apply_tasks_spawned_def)
  show ?thesis
    by (cases m) (simp_all add: filled built set_up spawned added_total latch_def plain_filled cell_registered_filled rewrite_definitions
        retried_definitions apply_task_assigned_def apply_task_completed_def apply_task_failed_def)
qed

end
