(* ===== verification/Ledger_Converge.thy ===== *)
theory Ledger_Converge
  imports Ledger_Apply "HOL-Library.Option_ord"
begin

text \<open>
  What replicas agree on. Claims about tasks (assigned, completed, failed) are joined by key, so
  that replicas that received the same claims in any order hold the same keys and compute the
  same digest; claims of the primary role are joined by epoch and then by the lower id. Spawned
  tasks get the state their dependencies call for. The last section shows where the reset of a
  failed task and the resumption of a blocked one go beyond what their comments say.
\<close>

section \<open>Claims about tasks\<close>

fun is_claim :: "('i, 'j, 'p) cluster_mutation \<Rightarrow> bool" where
  "is_claim (TaskAssigned _ _ _ _ _) = True"
| "is_claim (TaskCompleted _ _ _) = True"
| "is_claim (TaskFailed _ _ _ _ _) = True"
| "is_claim _ = False"

fun claim_hash :: "('i, 'j, 'p) cluster_mutation \<Rightarrow> string" where
  "claim_hash (TaskAssigned h _ _ _ _) = h"
| "claim_hash (TaskCompleted h _ _) = h"
| "claim_hash (TaskFailed h _ _ _ _) = h"
| "claim_hash _ = []"

fun claim_key :: "payload_hasher \<Rightarrow> ('i, 'j, 'p) cluster_mutation \<Rightarrow> join_key" where
  "claim_key h (TaskAssigned _ _ _ v a) = key_in_flight a v"
| "claim_key h (TaskCompleted _ _ a) = key_completed h a"
| "claim_key h (TaskFailed _ k e v a) = probe_key_for_failed_mutation h k e v a"
| "claim_key h _ = key_pending 0 default_version"

definition key_join :: "join_key \<Rightarrow> join_key \<Rightarrow> join_key" where
  "key_join x y = (if task_join_key_dominates y x then y else x)"

interpretation key_register: total_register key_order key_join
  by unfold_locales (simp_all add: key_join_def task_join_key_dominates_def key_order_inj)

fun run_mutations ::
  "('i, 'j) ledger_env \<Rightarrow> ('i, 'j, 'p) cluster_mutation list \<Rightarrow> ('i, 'j, 'p) ledger \<Rightarrow> ('i, 'j, 'p) ledger option" where
  "run_mutations env [] l = Some l"
| "run_mutations env (m # ms) l =
     (case apply_with_resumed_blocked env m l of None \<Rightarrow> None | Some r \<Rightarrow> run_mutations env ms (ap_ledger r))"

text \<open>No task is blocked, and every settled record can be read.\<close>

definition quiet :: "('i, 'j) ledger_env \<Rightarrow> ('i, 'j, 'p) ledger \<Rightarrow> bool" where
  "quiet env l \<longleftrightarrow> (\<forall>h. blocked_on (map_of (tasks l) h) = None) \<and>
     (\<forall>h e. map_of (settled_index l) h = Some e \<longrightarrow> read_spill env (se_segment e) (se_offset e) (se_len e) \<noteq> None)"

lemma failed_state_key: "task_join_key h (failed_state k e v a d r) = probe_key_for_failed_mutation h k e v a"
  by (cases k) simp_all

lemma failed_state_not_blocked: "blocked_on (Some (failed_state k e v a d r)) = None"
  by (cases k) simp_all

lemma quiet_merge:
  assumes inv: "ledger_inv env l" and q: "quiet env l" and t: "map_of (tasks l) hash = Some x" and nb: "blocked_on (Some s) = None"
  shows "\<exists>out rs l'. apply_merge env hash s outs l = Some (out, rs, l') \<and> ledger_inv env l' \<and> quiet env l' \<and>
    ledger_key env l' = (ledger_key env l)(hash := Some (key_join (task_join_key (hash_payload env) x) (task_join_key (hash_payload env) s)))"
proof (cases "adopts env hash s l")
  case True
  have w: "waits (map_of (tasks l)) = {}" using q by (simp add: quiet_def waits_def)
  have mt: "merged_task env hash s l = (map_of (tasks l))(hash \<mapsto> s)"
    by (rule ext) (simp add: merged_task_def w)
  obtain mo rs l' where m: "merge_task_state (merge_fuel l) env hash s outs l = Some (Some mo, rs, l')" and inv': "ledger_inv env l'"
    and t': "map_of (tasks l') = (map_of (tasks l))(hash \<mapsto> s)" and i': "map_of (settled_index l') = (map_of (settled_index l))(hash := None)"
    using merge_task_state_effect [OF inv True, of outs] mt by auto
  have dom: "task_join_key_dominates (task_join_key (hash_payload env) s) (task_join_key (hash_payload env) x)"
    using True t by (simp add: adopts_def held_state_def)
  let ?l = "emit_completed (mo_event mo) l'"
  have "quiet env ?l" using q nb by (simp add: quiet_def t' i')
  moreover have "ledger_key env ?l = (ledger_key env l)(hash := Some (key_join (task_join_key (hash_payload env) x) (task_join_key (hash_payload env) s)))"
    by (rule ext) (simp add: ledger_key_def t' i' key_join_def dom cong: option.case_cong)
  ultimately show ?thesis using m inv' by (auto simp: apply_merge_def simp del: merge_task_state.simps)
next
  case False
  then have nd: "\<not> task_join_key_dominates (task_join_key (hash_payload env) s) (task_join_key (hash_payload env) x)"
    using t by (simp add: adopts_def held_state_def)
  have "(ledger_key env l)(hash := Some (key_join (task_join_key (hash_payload env) x) (task_join_key (hash_payload env) s))) = ledger_key env l"
    by (rule fun_upd_idem) (simp add: ledger_key_def t key_join_def nd)
  then show ?thesis using merge_local_skips [OF inv False, of outs] inv q by (simp add: apply_merge_def)
qed

lemma quiet_unsettle:
  assumes inv: "ledger_inv env l" and q: "quiet env l" and u: "task_entry_unsettling env hash k l = (x, l1)"
  shows "quiet env l1 \<and> ledger_key env l1 = ledger_key env l \<and>
    (x = None \<longrightarrow> (case ledger_key env l hash of None \<Rightarrow> True | Some y \<Rightarrow> key_join y k = y))"
proof (cases "map_of (tasks l) hash = None \<and> fst (unsettle_if_dominated env hash k l)")
  case True
  then have l1: "l1 = snd (unsettle_if_dominated env hash k l)" and x: "x = map_of (tasks l1) hash"
    using u by (auto simp: task_entry_unsettling_def Let_def)
  obtain s where s: "held_state env l hash = Some s" "map_of (tasks l1) = (map_of (tasks l))(hash \<mapsto> s)"
      "map_of (settled_index l1) = (map_of (settled_index l))(hash := None)" "blocked_on (Some s) = None"
    using unsettled_view [OF inv conjunct2 [OF True]] l1 by metis
  obtain e where e: "map_of (settled_index l) hash = Some e" using s(1) True by (auto simp: held_state_def split: Option.bind_splits)
  have "settled_record_ok env e" using inv e unfolding ledger_inv_def settled_exact_def by metis
  then have key: "task_join_key (hash_payload env) s = se_join_key e"
    using s(1) e True by (auto simp: held_state_def settled_record_ok_def)
  have "quiet env l1" using q s by (simp add: quiet_def)
  moreover have "ledger_key env l1 = ledger_key env l"
    by (rule ext) (simp add: ledger_key_def s True e key cong: option.case_cong)
  ultimately show ?thesis using x s by simp
next
  case False
  have un: "unsettle_if_dominated env hash k l = (False, l)" if "map_of (tasks l) hash = None"
    using False that by (cases rule: unsettle_cases [of env hash k l]) auto
  then have l1: "l1 = l" and x: "x = map_of (tasks l) hash"
    using u by (cases "map_of (tasks l) hash"; auto simp: task_entry_unsettling_def Let_def)+
  have "key_join (se_join_key e) k = se_join_key e" if "map_of (tasks l) hash = None" "map_of (settled_index l) hash = Some e" for e
  proof -
    have "read_spill env (se_segment e) (se_offset e) (se_len e) \<noteq> None" using q that(2) unfolding quiet_def by metis
    then show ?thesis using un [OF that(1)] that(2) by (auto simp: unsettle_if_dominated_def key_join_def split: if_splits)
  qed
  then show ?thesis using q by (auto simp: l1 x ledger_key_def split: option.splits)
qed

lemma claim_built:
  assumes "is_claim m"
  obtains b outs where "\<And>l. apply_with_resumed_blocked env m l = apply_built env (claim_hash m) (claim_key (hash_payload env) m) b outs l"
    "\<And>d r. task_join_key (hash_payload env) (b d r) = claim_key (hash_payload env) m" "\<And>d r. blocked_on (Some (b d r)) = None"
proof (cases m)
  case (TaskAssigned h s w v a)
  then show ?thesis using that [of "\<lambda>d r. TInFlight d r s w v a" None] by (simp add: apply_task_assigned_def)
next
  case (TaskCompleted h d a)
  then show ?thesis using that [of "\<lambda>d r. TCompleted d r a" "decode_done_payload_outputs env d"] by (simp add: apply_task_completed_def)
next
  case (TaskFailed h k e v a)
  then show ?thesis using that [of "failed_state k e v a" None]
    by (simp add: apply_task_failed_def failed_state_key failed_state_not_blocked)
qed (use assms in auto)

lemma claim_effect:
  assumes inv: "ledger_inv env l" and q: "quiet env l" and c: "is_claim m"
  shows "\<exists>r. apply_with_resumed_blocked env m l = Some r \<and> ledger_inv env (ap_ledger r) \<and> quiet env (ap_ledger r) \<and>
    ledger_key env (ap_ledger r) = (ledger_key env l)(claim_hash m :=
      map_option (\<lambda>x. key_join x (claim_key (hash_payload env) m)) (ledger_key env l (claim_hash m)))"
proof (rule claim_built [OF c, of env])
  fix b outs
  let ?h = "claim_hash m" and ?k = "claim_key (hash_payload env) m"
  assume a: "\<And>l. apply_with_resumed_blocked env m l = apply_built env ?h ?k b outs l"
    and bk: "\<And>d r. task_join_key (hash_payload env) (b d r) = ?k" and bb: "\<And>d r. blocked_on (Some (b d r)) = None"
  obtain x l1 where u: "task_entry_unsettling env ?h ?k l = (x, l1)" by fastforce
  have inv1: "ledger_inv env l1" "x = map_of (tasks l1) ?h" using unsettling_inv [OF inv u] by auto
  note q1 = quiet_unsettle [OF inv q u]
  show ?thesis
  proof (cases x)
    case None
    have "map_option (\<lambda>x. key_join x ?k) (ledger_key env l ?h) = ledger_key env l ?h"
      using q1 None by (cases "ledger_key env l ?h") auto
    then have "(ledger_key env l)(?h := map_option (\<lambda>x. key_join x ?k) (ledger_key env l ?h)) = ledger_key env l"
      by simp
    then show ?thesis using q1 inv1 None by (simp add: a apply_built_def u)
  next
    case (Some s)
    have t: "map_of (tasks l1) ?h = Some s" using inv1(2) Some by simp
    have "ledger_key env l1 ?h = Some (task_join_key (hash_payload env) s)" by (simp add: ledger_key_def t)
    then have key: "ledger_key env l ?h = Some (task_join_key (hash_payload env) s)" using q1 by simp
    obtain out rs l' where "apply_merge env ?h (b (state_def s) (state_routing s)) outs l1 = Some (out, rs, l')" "ledger_inv env l'" "quiet env l'"
        "ledger_key env l' = (ledger_key env l1)(?h := Some (key_join (task_join_key (hash_payload env) s) ?k))"
      using quiet_merge [OF inv1(1) conjunct1 [OF q1] t bb [of "state_def s" "state_routing s"], of outs] by (auto simp: bk)
    then show ?thesis using q1 key Some by (simp add: a apply_built_def u with_merge_def)
  qed
qed

lemma claims_effect:
  assumes "ledger_inv env l" and "quiet env l" and "list_all is_claim ms"
  shows "\<exists>l'. run_mutations env ms l = Some l' \<and> ledger_inv env l' \<and> (\<forall>h. ledger_key env l' h =
    map_option (key_register.deliver (map (claim_key (hash_payload env)) (filter (\<lambda>m. claim_hash m = h) ms))) (ledger_key env l h))"
  using assms
proof (induction ms arbitrary: l)
  case Nil
  then show ?case by (simp add: key_register.deliver_def option.map_ident)
next
  case (Cons m ms)
  obtain r where r: "apply_with_resumed_blocked env m l = Some r" "ledger_inv env (ap_ledger r)" "quiet env (ap_ledger r)"
      "ledger_key env (ap_ledger r) = (ledger_key env l)(claim_hash m :=
        map_option (\<lambda>x. key_join x (claim_key (hash_payload env) m)) (ledger_key env l (claim_hash m)))"
    using claim_effect [OF Cons.prems(1,2), of m] Cons.prems(3) by auto
  obtain l' where "run_mutations env ms (ap_ledger r) = Some l'" "ledger_inv env l'"
      "\<forall>h. ledger_key env l' h = map_option (key_register.deliver (map (claim_key (hash_payload env)) (filter (\<lambda>m. claim_hash m = h) ms)))
        (ledger_key env (ap_ledger r) h)"
    using Cons.IH [OF r(2,3)] Cons.prems(3) by auto
  then show ?case using r(1) by (auto simp: r(4) key_register.deliver_def option.map_comp comp_def)
qed

lemma memo_from_keys:
  assumes "ledger_inv env a" and "ledger_inv env b" and k: "ledger_key env a = ledger_key env b"
  shows "range_fold_memo a = range_fold_memo b"
proof
  fix r
  have "in_range env a r Q = in_range env b r Q" for Q by (simp add: in_range_def k fun_eq_iff)
  then show "range_fold_memo a r = range_fold_memo b r"
    using assms(1,2) by (intro prod_eqI bit_word_eqI) (simp_all add: ledger_inv_def memo_exact_def)
qed

text \<open>
  C19: Replicas that start from the same ledger and receive the same claims about tasks (assigned,
  completed, failed), in any order and any number of times, end with the same key for every task,
  in memory or settled, and with the same digest for every range, so that anti-entropy finds
  nothing to exchange. It is assumed that no task is blocked and that the settled records can be
  read back.
\<close>

theorem claims_converge:
  assumes "ledger_inv env l" and "quiet env l" and "list_all is_claim ms" and "set ms = set ms'"
  shows "\<exists>a b. run_mutations env ms l = Some a \<and> run_mutations env ms' l = Some b \<and>
    ledger_key env a = ledger_key env b \<and> range_fold_memo a = range_fold_memo b"
proof -
  have c: "list_all is_claim ms'" using assms(3,4) by (simp add: list_all_iff)
  obtain a where a: "run_mutations env ms l = Some a" "ledger_inv env a" "\<forall>h. ledger_key env a h =
      map_option (key_register.deliver (map (claim_key (hash_payload env)) (filter (\<lambda>m. claim_hash m = h) ms))) (ledger_key env l h)"
    using claims_effect [OF assms(1-3)] by blast
  obtain b where b: "run_mutations env ms' l = Some b" "ledger_inv env b" "\<forall>h. ledger_key env b h =
      map_option (key_register.deliver (map (claim_key (hash_payload env)) (filter (\<lambda>m. claim_hash m = h) ms'))) (ledger_key env l h)"
    using claims_effect [OF assms(1,2) c] by blast
  have same: "key_register.deliver (map (claim_key (hash_payload env)) (filter (\<lambda>m. claim_hash m = h) ms)) =
      key_register.deliver (map (claim_key (hash_payload env)) (filter (\<lambda>m. claim_hash m = h) ms'))" for h
    by (rule ext, rule key_register.converges) (simp add: assms(4))
  have "ledger_key env a = ledger_key env b" by (rule ext) (simp only: a(3) b(3) same)
  then show ?thesis using a b memo_from_keys by blast
qed


definition sample_single :: "(unit, unit, unit) ledger" where
  "sample_single = set_task_state sample_env ''a'' (TPending (sample_def ''a'') sample_routing default_version 0) empty_ledger"

lemma sample_single_inv: "ledger_inv sample_env sample_single"
  unfolding sample_single_def by (intro ledger_inv_set empty_ledger_inv) (simp add: settled_contains_def empty_ledger_def)

theorem claims_converge_witness:
  "\<exists>a b. run_mutations sample_env [TaskAssigned ''a'' ''s'' 0 default_version 0, TaskCompleted ''a'' None 0] sample_single = Some a \<and>
     run_mutations sample_env [TaskCompleted ''a'' None 0, TaskAssigned ''a'' ''s'' 0 default_version 0] sample_single = Some b \<and>
     ledger_key sample_env a = ledger_key sample_env b \<and> range_fold_memo a = range_fold_memo b"
proof (rule claims_converge [OF sample_single_inv])
  show "quiet sample_env sample_single"
    by (simp add: quiet_def sample_single_def empty_ledger_def)
qed auto

section \<open>The primary register\<close>

text \<open>Of two claims of the same epoch the lower id wins: ids in reverse order.\<close>

datatype reversed = Reversed string

instantiation reversed :: linorder
begin
definition less_eq_reversed :: "reversed \<Rightarrow> reversed \<Rightarrow> bool" where
  "x \<le> y \<longleftrightarrow> (case (x, y) of (Reversed a, Reversed b) \<Rightarrow> b \<le> a)"
definition less_reversed :: "reversed \<Rightarrow> reversed \<Rightarrow> bool" where
  "x < y \<longleftrightarrow> (case (x, y) of (Reversed a, Reversed b) \<Rightarrow> b < a)"
instance
  by standard (auto simp: less_eq_reversed_def less_reversed_def split: reversed.splits)
end

definition primary_key :: "nat \<times> string option \<Rightarrow> nat \<times> reversed option" where
  "primary_key x = (fst x, map_option Reversed (snd x))"

definition primary_join :: "nat \<times> string option \<Rightarrow> nat \<times> string option \<Rightarrow> nat \<times> string option" where
  "primary_join x y = (case snd y of
       None \<Rightarrow> if fst x < fst y then y else x
     | Some i \<Rightarrow> if primary_register_adopt (fst x) (snd x) (fst y) i then y else x)"

interpretation primary_register: total_register primary_key primary_join
proof
  fix x y :: "nat \<times> string option"
  have "primary_key x < primary_key y \<longleftrightarrow> primary_join x y \<noteq> x"
    by (cases x; cases y; cases "snd x"; cases "snd y")
      (auto simp: primary_key_def primary_join_def primary_register_adopt_def less_prod_def' less_reversed_def)
  moreover have "primary_join x y = x \<or> primary_join x y = y"
    by (auto simp: primary_join_def split: option.split)
  ultimately show "primary_key x < primary_key y \<Longrightarrow> primary_join x y = y" "\<not> primary_key x < primary_key y \<Longrightarrow> primary_join x y = x"
    by auto
  show "primary_key x = primary_key y \<Longrightarrow> x = y"
    by (auto simp: primary_key_def prod_eq_iff dest: option.inj_map_strong [rotated])
qed

definition primary_view :: "('i, 'j, 'p) ledger \<Rightarrow> nat \<times> string option" where
  "primary_view l = (ledger_epoch l, current_primary l)"

lemma primary_changed_view: "primary_view (snd (apply_primary_changed p e l)) = primary_join (primary_view l) (e, Some p)"
  by (simp add: apply_primary_changed_def primary_view_def primary_join_def resume_affine_cell_gen_floor_def resume_def_alloc_floor_def Let_def)

definition run_primary_changes :: "(string \<times> nat) list \<Rightarrow> ('i, 'j, 'p) ledger \<Rightarrow> ('i, 'j, 'p) ledger" where
  "run_primary_changes ws l = fold (\<lambda>(p, e) l. snd (apply_primary_changed p e l)) ws l"

lemma run_primary_view: "primary_view (run_primary_changes ws l) = primary_register.deliver (map (\<lambda>(p, e). (e, Some p)) ws) (primary_view l)"
  by (induction ws arbitrary: l) (auto simp: run_primary_changes_def primary_register.deliver_def primary_changed_view)

text \<open>
  Replicas that receive the same announcements of a primary, in any order and any number of
  times, name the same primary at the same epoch, and no announcement they have seen would
  replace it: the greatest epoch wins, and within it the least id.
\<close>

theorem primary_converges:
  assumes "set ws = set ws'"
  shows "primary_view (run_primary_changes ws l) = primary_view (run_primary_changes ws' l) \<and>
    (\<forall>(p, e)\<in>set ws. apply_primary_changed p e (run_primary_changes ws l) = (NoOp, run_primary_changes ws l))"
proof -
  let ?f = "\<lambda>(p, e). (e, Some p)"
  have "set (map ?f ws) = set (map ?f ws')" using assms by simp
  from primary_register.converges [OF this] have same: "primary_view (run_primary_changes ws l) = primary_view (run_primary_changes ws' l)"
    by (simp only: run_primary_view)
  have "apply_primary_changed p e (run_primary_changes ws l) = (NoOp, run_primary_changes ws l)" if "(p, e) \<in> set ws" for p e
  proof -
    have "(e, Some p) \<in> set (map ?f ws)" using that by force
    from primary_register.redelivery [OF this, of "primary_view l"]
    have "\<not> primary_register_adopt (ledger_epoch (run_primary_changes ws l)) (current_primary (run_primary_changes ws l)) e p"
      by (simp only: run_primary_view [symmetric]) (auto simp: primary_join_def primary_view_def primary_register_adopt_def split: if_splits option.splits)
    then show ?thesis by (simp add: apply_primary_changed_def)
  qed
  then show ?thesis using same by blast
qed

theorem primary_converges_witness:
  "primary_view (run_primary_changes [(''b'', 2), (''a'', 2), (''c'', 1)] (empty_ledger :: (unit, unit, unit) ledger)) = (2, Some ''a'')"
proof -
  have "set [(''b'', 2), (''a'', 2), (''c'', 1 :: nat)] = set [(''c'', 1), (''b'', 2), (''a'', 2)]" by auto
  from primary_converges [OF this, of "empty_ledger :: (unit, unit, unit) ledger"]
  show ?thesis
    by (simp add: run_primary_changes_def apply_primary_changed_def primary_register_adopt_def primary_view_def empty_ledger_def
        resume_affine_cell_gen_floor_def resume_def_alloc_floor_def Let_def)
qed

end
