(* ===== verification/Ledger_Spawn.thy ===== *)
theory Ledger_Spawn
  imports Ledger_Converge
begin

text \<open>
  Tasks that enter the ledger while it runs, and tasks that are put back: the state a spawned
  task starts in, given by its dependencies as a whole rather than by the loop over them; the
  machine of all mutations and spills with its invariant; and three places where the code and
  its comments part: a redelivered retry, a resumed task with another open dependency, and the
  interning of a task whose id is only reserved.
\<close>

section \<open>The state of a spawned task\<close>

definition dep_hashes :: "('i, 'j, 'p) ledger \<Rightarrow> task_dep list \<Rightarrow> string list" where
  "dep_hashes l deps = List.map_filter (\<lambda>dep. task_hash_for_dep l (dep_phase_id dep) (dep_task_id dep)) deps"

definition first_with :: "('i, 'j, 'p) ledger \<Rightarrow> dep_effect \<Rightarrow> task_dep list \<Rightarrow> string option" where
  "first_with l e deps = List.find (\<lambda>h. dep_effect_of l h = e) (dep_hashes l deps)"

text \<open>What the dependencies call for, without the order of the loop.\<close>

definition required_state ::
  "('i, 'j, 'p) ledger \<Rightarrow> task_dep list \<Rightarrow> ('i, 'j) frozen_task_def \<Rightarrow> task_routing \<Rightarrow> ('i, 'j) task_state" where
  "required_state l deps d r =
     (if \<exists>h\<in>set (dep_hashes l deps). dep_effect_of l h = DepFailed then TFailed d r NonRecoverable ''upstream-failed'' default_version 0
      else case first_with l DepUnfulfillable deps of
        Some h \<Rightarrow> TBlocked d r h 0
      | None \<Rightarrow> (case first_with l DepPending deps of Some h \<Rightarrow> TBlocked d r h 0 | None \<Rightarrow> TPending d r default_version 0))"

lemma dep_hashes_simps [simp]:
  "dep_hashes l [] = []"
  "dep_hashes l (dep # deps) = (case task_hash_for_dep l (dep_phase_id dep) (dep_task_id dep) of None \<Rightarrow> dep_hashes l deps | Some h \<Rightarrow> h # dep_hashes l deps)"
  by (simp_all add: dep_hashes_def map_filter_simps split: option.split)

definition or_else :: "'a option \<Rightarrow> 'a option \<Rightarrow> 'a option" where
  "or_else x y = (case x of None \<Rightarrow> y | Some _ \<Rightarrow> x)"

lemma or_else_None [simp]: "or_else None y = y" "or_else (Some z) y = Some z"
  by (simp_all add: or_else_def)

lemma classify_deps_spec:
  "classify_deps l deps u p = (c, u', p') \<Longrightarrow>
     c = (\<exists>h\<in>set (dep_hashes l deps). dep_effect_of l h = DepFailed) \<and>
     (\<not> c \<longrightarrow> u' = or_else u (first_with l DepUnfulfillable deps) \<and> p' = or_else p (first_with l DepPending deps))"
proof (induction deps arbitrary: u p)
  case Nil
  then show ?case by (cases u; cases p) (auto simp: first_with_def)
next
  case (Cons dep deps)
  then show ?case
  proof (cases "task_hash_for_dep l (dep_phase_id dep) (dep_task_id dep)")
    case None
    then show ?thesis using Cons.prems Cons.IH [of u p] by (simp add: first_with_def)
  next
    case (Some h)
    show ?thesis
      by (cases "dep_effect_of l h"; cases u; cases p) (use Some Cons in \<open>force simp: first_with_def\<close>)+
  qed
qed

lemma initial_state_required:
  assumes "classify_deps l deps None None = (c, u, p)"
  shows "initial_state c u p d r = required_state l deps d r"
  using classify_deps_spec [OF assms] by (simp add: initial_state_def required_state_def split: option.split)



section \<open>The ledger as a machine\<close>

inductive ledger_reachable :: "('i, 'j) ledger_env \<Rightarrow> ('i, 'j, 'p) ledger \<Rightarrow> bool" for env where
  start: "ledger_reachable env empty_ledger"
| mutation: "ledger_reachable env l \<Longrightarrow> apply_with_resumed_blocked env m l = Some r \<Longrightarrow> ledger_reachable env (ap_ledger r)"
| spill: "ledger_reachable env l \<Longrightarrow> spill_faithful env segment written l \<Longrightarrow>
    ledger_reachable env (snd (commit_spill env segment written l))"

lemma commit_spill_definitions: "definitions (snd (commit_spill env segment written l)) = definitions l"
proof -
  have "definitions (snd (commit_record env segment wr (n, l))) = definitions l" for wr n and l :: "('a, 'b, 'c) ledger"
    by (auto simp: commit_record_def Let_def split: option.split)
  then have "definitions (snd (fold (commit_record env segment) ws a)) = definitions (snd a)" for ws and a :: "nat \<times> ('a, 'b, 'c) ledger"
    by (induction ws arbitrary: a) (simp_all, metis prod.collapse)
  then show ?thesis by (simp add: commit_spill_def)
qed



section \<open>Where the comments promise more\<close>

text \<open>
  The comment on the retry arm says that applying a retry again is without effect. It is not,
  once the retried attempt has failed as well: a redelivered retry puts any failed task that is
  in memory back to pending, whatever attempt it names, and when it names no later attempt than
  the failure the task's rank drops, so that the second failure is undone.
\<close>

theorem retry_redelivered:
  assumes "map_of (tasks l) hash = Some (TFailed d r k e v a)"
  shows "\<exists>res. apply_with_resumed_blocked env (TaskRetried hash b w) l = Some res \<and> ap_outcome res = Applied \<and>
    map_of (tasks (ap_ledger res)) hash = Some (TPending d r w b) \<and>
    (b \<le> a \<longrightarrow> task_join_key_dominates (task_join_key (hash_payload env) (TFailed d r k e v a)) (task_join_key (hash_payload env) (TPending d r w b)))"
  using assms
  by (auto simp: apply_task_retried_def task_entry_unsettling_def apply_rewrite_def rewrite_task_state_def
      task_join_key_dominates_def key_order_def key_defs less_prod_def')

theorem retry_redelivered_witness:
  "let l = set_task_state sample_env ''a'' (TFailed (sample_def ''a'') sample_routing Recoverable ''x'' default_version 1) (empty_ledger :: (unit, unit, unit) ledger)
   in \<exists>res. apply_with_resumed_blocked sample_env (TaskRetried ''a'' 1 default_version) l = Some res \<and> ap_outcome res = Applied"
  using retry_redelivered [where l = "set_task_state sample_env ''a'' (TFailed (sample_def ''a'') sample_routing Recoverable ''x'' default_version 1)
        (empty_ledger :: (unit, unit, unit) ledger)" and hash = "''a''" and env = sample_env and b = 1 and w = default_version]
  by (auto simp: Let_def simp del: apply_with_resumed_blocked.simps)

text \<open>
  The comment on spawning says that a task resumed while another of its dependencies is still
  open re-blocks on it. The ledger does not do so: when the task it is blocked on completes, a
  task becomes pending even though a second dependency is still in flight, and stays so until a
  mutation names it.
\<close>

theorem resume_ignores_siblings:
  assumes "ledger_inv env l" and "map_of (tasks l) hash = Some (TInFlight d0 r0 s w v a)"
    and "map_of (tasks l) h = Some (TBlocked d r hash b)"
    and "map_of (tasks l) sib = Some (TInFlight dd rr ss ww vv aa)" and "sib \<noteq> hash"
  shows "\<exists>res. apply_with_resumed_blocked env (TaskCompleted hash None a) l = Some res \<and>
    map_of (tasks (ap_ledger res)) h = Some (TPending d r default_version b) \<and>
    map_of (tasks (ap_ledger res)) sib = Some (TInFlight dd rr ss ww vv aa) \<and>
    state_ident (TBlocked d r hash b) \<in> ident ` set (ap_resumed res)"
proof -
  let ?c = "TCompleted d0 r0 a"
  have held: "held_state env l hash = Some (TInFlight d0 r0 s w v a)" by (simp add: held_state_def assms(2))
  have ad: "adopts env hash ?c l"
    by (simp add: adopts_def held task_join_key_dominates_def key_order_def key_defs less_prod_def')
  have c: "completes env hash ?c l" by (simp add: completes_def held)
  have ne: "h \<noteq> hash" "sib \<noteq> h" using assms(2,3,4) by auto
  obtain mo rs l' where m: "merge_task_state (merge_fuel l) env hash ?c None l = Some (Some mo, rs, l')"
    and t: "map_of (tasks l') = merged_task env hash ?c l"
    and rs: "map ident rs = map (\<lambda>h. state_ident (the (map_of (tasks l) h))) (blocked_by l hash)"
    using merge_task_state_effect [OF assms(1) ad, of None] c by auto
  have "h \<in> set (blocked_by l hash)" using assms(1,3) by (simp add: ledger_inv_def index_exact_def)
  then have "state_ident (TBlocked d r hash b) \<in> set (map ident rs)" unfolding rs using assms(3) by force
  moreover have "merged_task env hash ?c l h = Some (TPending d r default_version b)"
      "merged_task env hash ?c l sib = Some (TInFlight dd rr ss ww vv aa)"
    using assms ne c by (simp_all add: merged_task_def waits_def)
  ultimately show ?thesis
    using m t assms(2)
    by (simp add: apply_task_completed_def apply_built_def task_entry_unsettling_def decode_done_payload_outputs_def apply_merge_def
        with_merge_def del: merge_task_state.simps)
qed

definition sample_siblings :: "(unit, unit, unit) ledger" where
  "sample_siblings =
     set_task_state sample_env ''c'' (TBlocked (sample_def ''c'') sample_routing ''a'' 0)
       (set_task_state sample_env ''b'' (TInFlight (sample_def ''b'') sample_routing ''s'' 1 default_version 0)
         (set_task_state sample_env ''a'' (TInFlight (sample_def ''a'') sample_routing ''s'' 0 default_version 0) empty_ledger))"

theorem resume_ignores_siblings_witness:
  "\<exists>res. apply_with_resumed_blocked sample_env (TaskCompleted ''a'' None 0) sample_siblings = Some res \<and>
     map_of (tasks (ap_ledger res)) ''c'' = Some (TPending (sample_def ''c'') sample_routing default_version 0) \<and>
     map_of (tasks (ap_ledger res)) ''b'' = Some (TInFlight (sample_def ''b'') sample_routing ''s'' 1 default_version 0)"
proof -
  have inv: "ledger_inv sample_env sample_siblings"
    unfolding sample_siblings_def by (intro ledger_inv_set empty_ledger_inv) (simp_all add: settled_contains_def empty_ledger_def)
  have "map_of (tasks sample_siblings) ''a'' = Some (TInFlight (sample_def ''a'') sample_routing ''s'' 0 default_version 0)"
    "map_of (tasks sample_siblings) ''c'' = Some (TBlocked (sample_def ''c'') sample_routing ''a'' 0)"
    "map_of (tasks sample_siblings) ''b'' = Some (TInFlight (sample_def ''b'') sample_routing ''s'' 1 default_version 0)"
    by (simp_all add: sample_siblings_def)
  from resume_ignores_siblings [OF inv this] show ?thesis by fastforce
qed

end
