(* ===== verification/Consensus_Frames.thy ===== *)
theory Consensus_Frames
  imports Prelude
begin

text \<open>
  What the two sides of the respawn consensus share: the six frames of
  \<open>DistributedMessage\<close> that the protocol uses, the timing constants, and the quorum arithmetic
  that both the primary's side gate and the secondaries' failover election apply.

  Instants are milliseconds on one monotonic clock, a \<open>Duration\<close> is a number of milliseconds. A
  \<open>BTreeSet<String>\<close> is a set of strings and \<open>set.iter().cloned().collect()\<close> its sorted list.
  Of a frame, the fields \<open>target\<close> (always \<open>None\<close> when the state machines build it) and
  \<open>timestamp\<close> (wall-clock, read by nobody here) are left out.
\<close>

type_synonym instant = nat

datatype consensus_frame =
    SuspectPeers (frame_sender: string) (frame_round: nat) nat nat "string list"
  | ResolvedPeer (frame_sender: string) (frame_round: nat) string string
  | RestartRequest (frame_sender: string) (frame_round: nat) nat nat "string list"
  | RestartConfirm (frame_sender: string) (frame_round: nat) string "string list" "string list"
  | PeerProbe (frame_sender: string) (frame_round: nat) string
  | PeerProbeAck (frame_sender: string) (frame_round: nat) string

datatype destination = ToAll | ToPrimary | ToSecondary string

definition RESOLUTION_DEADLINE :: nat where "RESOLUTION_DEADLINE = 15000"
definition CONFIRMATION_DEADLINE :: nat where "CONFIRMATION_DEADLINE = 5000"
definition CONFIRMATION_MAX_RETRIES :: nat where "CONFIRMATION_MAX_RETRIES = 1"
definition PROBE_BASE_PERIOD :: nat where "PROBE_BASE_PERIOD = 5000"
definition PROBE_JITTER_MS :: int where "PROBE_JITTER_MS = 1000"
definition AWAITING_ROUND_END_TIMEOUT :: nat where "AWAITING_ROUND_END_TIMEOUT = 60000"

lemmas consensus_constants =
  RESOLUTION_DEADLINE_def CONFIRMATION_DEADLINE_def CONFIRMATION_MAX_RETRIES_def
  PROBE_BASE_PERIOD_def PROBE_JITTER_MS_def AWAITING_ROUND_END_TIMEOUT_def

section \<open>Quorums\<close>

definition failover_quorum_threshold :: "nat \<Rightarrow> nat" where
  "failover_quorum_threshold n = div_ceil n 2 + 1"

definition failover_quorum :: "nat \<Rightarrow> nat" where
  "failover_quorum live_peer_count = div_ceil live_peer_count 2 + 1"

text \<open>
  What a threshold must promise for a vote to be decisive: two groups of voters that both reach
  it, among \<open>n\<close> members plus at most one voter that is not counted in \<open>n\<close>, share a member.
\<close>

locale quorum_rule =
  fixes threshold :: "nat \<Rightarrow> nat"
  assumes strict_majority: "n + 1 < 2 * threshold n"
begin

lemma groups_meet:
  assumes "finite M" "A \<subseteq> M" "B \<subseteq> M" "card M \<le> n + 1"
    and "threshold n \<le> card A" "threshold n \<le> card B"
  shows "A \<inter> B \<noteq> {}"
proof
  assume "A \<inter> B = {}"
  then have "card A + card B = card (A \<union> B)"
    using assms by (metis card_Un_disjoint finite_subset)
  also have "\<dots> \<le> card M" using assms by (intro card_mono) auto
  finally show False using strict_majority [of n] assms by linarith
qed

end

interpretation side_gate: quorum_rule failover_quorum_threshold
  by unfold_locales (simp add: failover_quorum_threshold_def div_ceil_def; presburger)

interpretation failover_vote: quorum_rule failover_quorum
  by unfold_locales (simp add: failover_quorum_def div_ceil_def; presburger)

end
