(* ===== verification/Consensus_Primary.thy ===== *)
theory Consensus_Primary
  imports Consensus_Frames
begin

text \<open>
  The primary's half of the respawn consensus: the state machine \<open>ConsensusFsm\<close>
  (\<open>primary/consensus/fsm.rs\<close>), the round bookkeeping (\<open>round.rs\<close>) and the coordinator seam
  that drives it (\<open>wiring.rs\<close>). A round opens with \<open>SuspectPeers\<close>, collects contradictions,
  passes the side gate, asks every responder with \<open>RestartRequest\<close> and restarts only the
  candidates that every responder still suspects.

  The theorems follow one round from its opening frame to its verdict
  (\<open>restart_justified\<close>), bound the number of polls it can take (\<open>round_ends\<close>), and show that
  the drive loop of the coordinator always idles before its defensive cap (\<open>drive_idles\<close>).
\<close>

section \<open>State\<close>

record mesh_snapshot =
  live_peer_count :: nat
  total_known_members :: nat

record confirm_tally =
  still_suspicious :: "string list"
  resolved_since :: "string list"

text \<open>The two \<open>format!\<close> reasons of an abort, by their arguments.\<close>

datatype abort_reason = SideGate nat nat nat | ResponderTimeout "string list"

datatype consensus_state =
    RoundIdle
  | SchedulingSuspect "string set"
  | BroadcastSuspect nat "string set" instant nat nat "string set"
  | CollectingResolutions nat "string set" instant nat nat "string set" "string set"
  | BroadcastRestart nat "string set" nat nat "string set" nat
  | CollectingConfirmations nat "string set" nat nat "string set" "(string \<times> confirm_tally) list" instant nat
  | RestartState "string set"
  | DropSuspicionState
  | AbortRound abort_reason

datatype consensus_output =
    NoOutput
  | EmitFrame consensus_frame
  | DropSuspicion
  | RestartPeers "string set"
  | AbortOutput abort_reason

record consensus_fsm =
  fsm_state :: consensus_state
  fsm_ids :: nat

definition consensus_new :: consensus_fsm where
  "consensus_new = \<lparr> fsm_state = RoundIdle, fsm_ids = 0 \<rparr>"

text \<open>\<open>ConsensusIdAllocator::next\<close>: the minted id and the allocator after it.\<close>

definition next_id :: "nat \<Rightarrow> nat \<times> nat" where
  "next_id n = (n + 1, n + 1)"

section \<open>Local suspicion and escalation\<close>

definition set_scheduling_suspect :: "string set \<Rightarrow> consensus_fsm \<Rightarrow> consensus_fsm" where
  "set_scheduling_suspect S f =
     (case fsm_state f of
        RoundIdle \<Rightarrow> if S \<noteq> {} then f\<lparr>fsm_state := SchedulingSuspect S\<rparr> else f
      | SchedulingSuspect current \<Rightarrow>
          f\<lparr>fsm_state := (if S = {} then RoundIdle else SchedulingSuspect S)\<rparr>
      | _ \<Rightarrow> f)"

definition escalate :: "instant \<Rightarrow> nat \<Rightarrow> nat \<Rightarrow> string set \<Rightarrow> consensus_fsm \<Rightarrow> consensus_fsm" where
  "escalate now epoch gen responders f =
     (case fsm_state f of
        SchedulingSuspect suspects \<Rightarrow>
          (if suspects = {} then f\<lparr>fsm_state := RoundIdle\<rparr>
           else let (c, ids) = next_id (fsm_ids f)
                in f\<lparr>fsm_ids := ids, fsm_state := BroadcastSuspect c suspects now epoch gen responders\<rparr>)
      | _ \<Rightarrow> f)"

fun state_round :: "consensus_state \<Rightarrow> nat option" where
  "state_round (BroadcastSuspect c S t e g R) = Some c"
| "state_round (CollectingResolutions c S d e g R res) = Some c"
| "state_round (BroadcastRestart c S e g R k) = Some c"
| "state_round (CollectingConfirmations c S e g R rc d k) = Some c"
| "state_round _ = None"

definition current_consensus_id :: "consensus_fsm \<Rightarrow> nat option" where
  "current_consensus_id f = state_round (fsm_state f)"

definition clear_scheduling_suspect_if_present :: "string \<Rightarrow> consensus_fsm \<Rightarrow> consensus_fsm" where
  "clear_scheduling_suspect_if_present peer f =
     (case fsm_state f of
        SchedulingSuspect S \<Rightarrow>
          (if peer \<in> S \<and> S - {peer} = {} then f\<lparr>fsm_state := RoundIdle\<rparr>
           else f\<lparr>fsm_state := SchedulingSuspect (S - {peer})\<rparr>)
      | _ \<Rightarrow> f)"

fun state_suspects :: "consensus_state \<Rightarrow> string set" where
  "state_suspects (SchedulingSuspect S) = S"
| "state_suspects (BroadcastSuspect c S t e g R) = S"
| "state_suspects (CollectingResolutions c S d e g R res) = S"
| "state_suspects (BroadcastRestart c S e g R k) = S"
| "state_suspects (CollectingConfirmations c S e g R rc d k) = S"
| "state_suspects _ = {}"

definition in_flight_suspects :: "consensus_fsm \<Rightarrow> string set" where
  "in_flight_suspects f = state_suspects (fsm_state f)"

section \<open>Tallies\<close>

text \<open>The observer of a \<open>ResolvedPeer\<close> frame is not read.\<close>

definition apply_resolved :: "nat \<Rightarrow> string \<Rightarrow> string \<Rightarrow> consensus_fsm \<Rightarrow> consensus_fsm" where
  "apply_resolved c observer peer f =
     (case fsm_state f of
        CollectingResolutions c' S d e g R res \<Rightarrow>
          (if c' = c \<and> peer \<in> S
           then f\<lparr>fsm_state := CollectingResolutions c' (S - {peer}) d e g R (insert peer res)\<rparr>
           else f)
      | CollectingConfirmations c' S e g R rc d k \<Rightarrow>
          (if c' = c then f\<lparr>fsm_state := CollectingConfirmations c' (S - {peer}) e g R rc d k\<rparr> else f)
      | BroadcastRestart c' S e g R k \<Rightarrow>
          (if c' = c then f\<lparr>fsm_state := BroadcastRestart c' (S - {peer}) e g R k\<rparr> else f)
      | _ \<Rightarrow> f)"

definition apply_confirm ::
  "nat \<Rightarrow> string \<Rightarrow> string list \<Rightarrow> string list \<Rightarrow> consensus_fsm \<Rightarrow> consensus_fsm" where
  "apply_confirm c responder still since f =
     (case fsm_state f of
        CollectingConfirmations c' S e g R rc d k \<Rightarrow>
          (if c' \<noteq> c then f
           else if responder \<notin> R then f
           else f\<lparr>fsm_state := CollectingConfirmations c' (S - set since) e g R
                    (bt_alter responder (\<lambda>_. \<lparr>still_suspicious = still, resolved_since = since\<rparr>) rc) d k\<rparr>)
      | _ \<Rightarrow> f)"

section \<open>Polling\<close>

fun finalize_terminal :: "consensus_state \<Rightarrow> consensus_state \<times> consensus_output" where
  "finalize_terminal (RestartState targets) = (RoundIdle, RestartPeers targets)"
| "finalize_terminal DropSuspicionState = (RoundIdle, DropSuspicion)"
| "finalize_terminal (AbortRound reason) = (RoundIdle, AbortOutput reason)"
| "finalize_terminal other = (other, NoOutput)"

text \<open>The commit step on a state \<open>BroadcastRestart\<close>: side gate, then the commit frame.\<close>

fun poll_restart :: "instant \<Rightarrow> mesh_snapshot \<Rightarrow> consensus_state \<Rightarrow> consensus_state \<times> consensus_output" where
  "poll_restart now mesh (BroadcastRestart c S e g R k) =
     (if live_peer_count mesh < failover_quorum_threshold (total_known_members mesh)
      then finalize_terminal (AbortRound (SideGate (live_peer_count mesh) (total_known_members mesh)
             (failover_quorum_threshold (total_known_members mesh))))
      else (CollectingConfirmations c S e g R [] (now + CONFIRMATION_DEADLINE) k,
            EmitFrame (RestartRequest [] c e g (sorted_list_of_set S))))"
| "poll_restart now mesh s = (s, NoOutput)"

text \<open>The candidates that every tally confirms and none retracts.\<close>

fun retain_confirmed :: "string set \<Rightarrow> (string \<times> confirm_tally) list \<Rightarrow> string set" where
  "retain_confirmed targets [] = targets"
| "retain_confirmed targets ((q, tally) # rc) =
     retain_confirmed ((targets \<inter> set (still_suspicious tally)) - set (resolved_since tally)) rc"

definition all_responded :: "string set \<Rightarrow> (string \<times> confirm_tally) list \<Rightarrow> bool" where
  "all_responded R rc = (\<forall>q \<in> R. q \<in> fst ` set rc)"

fun poll_confirmations :: "instant \<Rightarrow> consensus_state \<Rightarrow> consensus_state \<times> consensus_output" where
  "poll_confirmations now (CollectingConfirmations c S e g R rc d k) =
     (if all_responded R rc then
        (let targets = retain_confirmed S rc
         in finalize_terminal (if targets = {} then DropSuspicionState else RestartState targets))
      else if d \<le> now then
        (if k > 0 then
           (CollectingConfirmations c S e g R rc (now + CONFIRMATION_DEADLINE) (k - 1),
            EmitFrame (RestartRequest [] c e g (sorted_list_of_set S)))
         else finalize_terminal (AbortRound (ResponderTimeout
                (filter (\<lambda>q. q \<notin> fst ` set rc) (sorted_list_of_set R)))))
      else (CollectingConfirmations c S e g R rc d k, NoOutput))"
| "poll_confirmations now s = (s, NoOutput)"

text \<open>
  The body of \<open>poll\<close>. A state \<open>BroadcastRestart\<close> made at the resolution deadline is consumed by
  the commit step of the same call.
\<close>

fun poll_state :: "instant \<Rightarrow> mesh_snapshot \<Rightarrow> consensus_state \<Rightarrow> consensus_state \<times> consensus_output" where
  "poll_state now mesh (BroadcastSuspect c S started e g R) =
     (CollectingResolutions c S (started + RESOLUTION_DEADLINE) e g R {},
      EmitFrame (SuspectPeers [] c e g (sorted_list_of_set S)))"
| "poll_state now mesh (CollectingResolutions c S d e g R res) =
     (if S = {} then finalize_terminal DropSuspicionState
      else if d \<le> now then poll_restart now mesh (BroadcastRestart c S e g R CONFIRMATION_MAX_RETRIES)
      else (CollectingResolutions c S d e g R res, NoOutput))"
| "poll_state now mesh (BroadcastRestart c S e g R k) = poll_restart now mesh (BroadcastRestart c S e g R k)"
| "poll_state now mesh s = poll_confirmations now s"

definition consensus_poll :: "instant \<Rightarrow> mesh_snapshot \<Rightarrow> consensus_fsm \<Rightarrow> consensus_fsm \<times> consensus_output" where
  "consensus_poll now mesh f =
     (let (s, out) = poll_state now mesh (fsm_state f) in (f\<lparr>fsm_state := s\<rparr>, out))"

section \<open>The coordinator seam\<close>

text \<open>\<open>roster\<close> is the key list of \<open>self.secondaries\<close>.\<close>

definition consensus_mesh_snapshot :: "string list \<Rightarrow> consensus_fsm \<Rightarrow> mesh_snapshot" where
  "consensus_mesh_snapshot roster f =
     \<lparr> live_peer_count = length (filter (\<lambda>q. q \<notin> in_flight_suspects f) roster),
       total_known_members = length roster + 1 \<rparr>"

text \<open>
  \<open>drive_consensus_fsm_at\<close>: poll until the machine idles, at most \<open>n\<close> times. The result lists
  the outputs that were handled and tells whether the cap was reached. Handling an output does
  not touch the machine; the roster that \<open>commit_consensus_restart\<close> changes is read again only
  by the snapshot of the poll after a restart, which finds an idle machine.
\<close>

fun drive_loop ::
  "nat \<Rightarrow> instant \<Rightarrow> string list \<Rightarrow> consensus_fsm \<Rightarrow> consensus_fsm \<times> consensus_output list \<times> bool" where
  "drive_loop 0 now roster f = (f, [], True)"
| "drive_loop (Suc n) now roster f =
     (let (f', out) = consensus_poll now (consensus_mesh_snapshot roster f) f
      in if out = NoOutput then (f', [], False)
         else let (f'', outs, capped) = drive_loop n now roster f' in (f'', out # outs, capped))"

definition drive_consensus_fsm_at ::
  "instant \<Rightarrow> string list \<Rightarrow> consensus_fsm \<Rightarrow> consensus_fsm \<times> consensus_output list \<times> bool" where
  "drive_consensus_fsm_at = drive_loop 8"

text \<open>\<open>member_gen\<close> of a round: the highest known generation among the suspects, 0 without any.\<close>

definition round_member_gen :: "(string \<Rightarrow> nat) \<Rightarrow> string set \<Rightarrow> nat" where
  "round_member_gen peer_member_gen suspects =
     (if suspects = {} then 0 else Max (peer_member_gen ` suspects))"

definition consensus_escalate_at ::
  "nat \<Rightarrow> (string \<Rightarrow> nat) \<Rightarrow> string list \<Rightarrow> string set \<Rightarrow> instant \<Rightarrow> consensus_fsm
     \<Rightarrow> consensus_fsm \<times> consensus_output list \<times> bool" where
  "consensus_escalate_at epoch peer_member_gen roster suspects now f =
     drive_consensus_fsm_at now roster
       (escalate now epoch (round_member_gen peer_member_gen suspects)
          (set (filter (\<lambda>q. q \<notin> suspects) roster)) f)"

definition apply_consensus_resolved ::
  "instant \<Rightarrow> string list \<Rightarrow> nat \<Rightarrow> string \<Rightarrow> string \<Rightarrow> consensus_fsm
     \<Rightarrow> consensus_fsm \<times> consensus_output list \<times> bool" where
  "apply_consensus_resolved now roster c observer peer f =
     drive_consensus_fsm_at now roster (apply_resolved c observer peer f)"

definition apply_consensus_confirm ::
  "instant \<Rightarrow> string list \<Rightarrow> nat \<Rightarrow> string \<Rightarrow> string list \<Rightarrow> string list \<Rightarrow> consensus_fsm
     \<Rightarrow> consensus_fsm \<times> consensus_output list \<times> bool" where
  "apply_consensus_confirm now roster c responder still since f =
     drive_consensus_fsm_at now roster (apply_confirm c responder still since f)"

text \<open>The stamped frame and its destination; \<open>None\<close> is a frame the primary never emits.\<close>

fun dispatch_consensus_frame :: "string \<Rightarrow> consensus_frame \<Rightarrow> (destination \<times> consensus_frame) option" where
  "dispatch_consensus_frame node (SuspectPeers s c e g ps) = Some (ToAll, SuspectPeers node c e g ps)"
| "dispatch_consensus_frame node (RestartRequest s c e g ps) = Some (ToAll, RestartRequest node c e g ps)"
| "dispatch_consensus_frame node other = None"

section \<open>Runs of the machine\<close>

datatype consensus_event =
    SeedSuspects "string set"
  | ClearSuspect string
  | Escalate instant nat nat "string set"
  | GotResolved nat string string
  | GotConfirm nat string "string list" "string list"
  | Poll instant mesh_snapshot

fun consensus_step :: "consensus_event \<Rightarrow> consensus_fsm \<Rightarrow> consensus_fsm \<times> consensus_output" where
  "consensus_step (SeedSuspects S) f = (set_scheduling_suspect S f, NoOutput)"
| "consensus_step (ClearSuspect q) f = (clear_scheduling_suspect_if_present q f, NoOutput)"
| "consensus_step (Escalate now e g R) f = (escalate now e g R f, NoOutput)"
| "consensus_step (GotResolved c observer q) f = (apply_resolved c observer q f, NoOutput)"
| "consensus_step (GotConfirm c q still since) f = (apply_confirm c q still since f, NoOutput)"
| "consensus_step (Poll now mesh) f = consensus_poll now mesh f"

fun consensus_run :: "consensus_event list \<Rightarrow> consensus_fsm \<Rightarrow> consensus_fsm" where
  "consensus_run [] f = f"
| "consensus_run (ev # evs) f = consensus_run evs (fst (consensus_step ev f))"

lemma consensus_run_append [simp]:
  "consensus_run (xs @ ys) f = consensus_run ys (consensus_run xs f)"
  by (induction xs arbitrary: f) auto

text \<open>The states between two calls: the transient ones never survive a call.\<close>

fun state_at_rest :: "consensus_state \<Rightarrow> bool" where
  "state_at_rest (BroadcastRestart c S e g R k) = False"
| "state_at_rest (RestartState T) = False"
| "state_at_rest DropSuspicionState = False"
| "state_at_rest (AbortRound r) = False"
| "state_at_rest (CollectingConfirmations c S e g R rc d k) = (k \<le> CONFIRMATION_MAX_RETRIES \<and> bt_sorted rc)"
| "state_at_rest _ = True"

abbreviation at_rest :: "consensus_fsm \<Rightarrow> bool" where
  "at_rest f \<equiv> state_at_rest (fsm_state f)"

lemmas consensus_op_defs =
  set_scheduling_suspect_def clear_scheduling_suspect_if_present_def escalate_def next_id_def
  apply_resolved_def apply_confirm_def consensus_poll_def

lemma poll_state_at_rest:
  "state_at_rest s \<Longrightarrow> state_at_rest (fst (poll_state now mesh s))"
  by (cases s) (auto simp: Let_def)

lemma consensus_step_at_rest: "at_rest f \<Longrightarrow> at_rest (fst (consensus_step ev f))"
  by (cases ev; cases "fsm_state f")
    (auto simp: consensus_op_defs Let_def split_beta poll_state_at_rest
      intro: poll_state_at_rest [of "fsm_state f", simplified])

lemma consensus_run_at_rest: "at_rest f \<Longrightarrow> at_rest (consensus_run evs f)"
  by (induction evs arbitrary: f) (auto intro: consensus_step_at_rest)

lemma consensus_new_at_rest [simp]: "at_rest consensus_new"
  by (simp add: consensus_new_def)

section \<open>The drive loop idles\<close>

text \<open>An upper bound on the outputs that polling at one instant can still produce.\<close>

fun outputs_left :: "instant \<Rightarrow> consensus_state \<Rightarrow> nat" where
  "outputs_left now (BroadcastSuspect c S t e g R) = 3"
| "outputs_left now (CollectingResolutions c S d e g R res) = 2"
| "outputs_left now (BroadcastRestart c S e g R k) = 2"
| "outputs_left now (CollectingConfirmations c S e g R rc d k) =
     (if all_responded R rc \<or> d \<le> now then 1 else 0)"
| "outputs_left now _ = 0"

lemma poll_outputs_left:
  "snd (poll_state now mesh s) \<noteq> NoOutput \<Longrightarrow>
     outputs_left now (fst (poll_state now mesh s)) < outputs_left now s"
  by (cases s) (auto simp: Let_def consensus_constants split: if_splits)

lemma poll_state_quiet: "snd (poll_state now mesh s) = NoOutput \<Longrightarrow> fst (poll_state now mesh s) = s"
  by (cases s) (auto simp: Let_def split: if_splits)

lemma consensus_poll_quiet: "consensus_poll now mesh f = (f', NoOutput) \<Longrightarrow> f' = f"
  using poll_state_quiet [of now mesh "fsm_state f"] by (auto simp: consensus_poll_def split_beta)

lemma drive_loop_bound:
  "outputs_left now (fsm_state f) < n \<Longrightarrow>
     \<exists>f' outs. drive_loop n now roster f = (f', outs, False) \<and> length outs \<le> outputs_left now (fsm_state f)
       \<and> consensus_poll now (consensus_mesh_snapshot roster f') f' = (f', NoOutput)"
proof (induction n arbitrary: f)
  case (Suc n)
  obtain f' out where p: "consensus_poll now (consensus_mesh_snapshot roster f) f = (f', out)"
    by fastforce
  show ?case
  proof (cases "out = NoOutput")
    case True
    with p consensus_poll_quiet [of now "consensus_mesh_snapshot roster f" f f'] show ?thesis by auto
  next
    case False
    have "outputs_left now (fsm_state f') < outputs_left now (fsm_state f)"
      using poll_outputs_left [of now "consensus_mesh_snapshot roster f" "fsm_state f"] p False
      by (auto simp: consensus_poll_def split_beta)
    moreover from this Suc.prems Suc.IH [of f'] obtain f'' outs where
      "drive_loop n now roster f' = (f'', outs, False)" "length outs \<le> outputs_left now (fsm_state f')"
      "consensus_poll now (consensus_mesh_snapshot roster f'') f'' = (f'', NoOutput)"
      by auto
    ultimately show ?thesis using p False by auto
  qed
qed simp

lemma outputs_left_le: "outputs_left now s \<le> 3"
  by (cases s) auto

text \<open>
  C14: Driving the machine ends: whatever its state and the clock, at most three outputs are handled,
  the defensive cap of eight polls is never reached, and the machine it leaves behind has
  nothing more to say at that instant.
\<close>

theorem drive_idles:
  "\<exists>f' outs. drive_consensus_fsm_at now roster f = (f', outs, False) \<and> length outs \<le> 3
     \<and> consensus_poll now (consensus_mesh_snapshot roster f') f' = (f', NoOutput)"
proof -
  have "outputs_left now (fsm_state f) < 8"
    using outputs_left_le [of now "fsm_state f"] by simp
  from drive_loop_bound [OF this, of roster] outputs_left_le [of now "fsm_state f"] show ?thesis
    unfolding drive_consensus_fsm_at_def by (meson order_trans)
qed

section \<open>Every round ends\<close>

text \<open>A poll is due when it finds a deadline passed or the answer complete.\<close>

fun state_due :: "instant \<Rightarrow> consensus_state \<Rightarrow> bool" where
  "state_due now (BroadcastSuspect c S t e g R) = True"
| "state_due now (CollectingResolutions c S d e g R res) = (d \<le> now \<or> S = {})"
| "state_due now (CollectingConfirmations c S e g R rc d k) = (d \<le> now \<or> all_responded R rc)"
| "state_due now _ = False"

fun due_polls :: "consensus_event list \<Rightarrow> consensus_fsm \<Rightarrow> nat" where
  "due_polls [] f = 0"
| "due_polls (ev # evs) f =
     (case ev of Poll now mesh \<Rightarrow> if state_due now (fsm_state f) then 1 else 0 | _ \<Rightarrow> 0)
     + due_polls evs (fst (consensus_step ev f))"

fun round_rank :: "consensus_state \<Rightarrow> nat" where
  "round_rank (BroadcastSuspect c S t e g R) = 4"
| "round_rank (CollectingResolutions c S d e g R res) = 3"
| "round_rank (CollectingConfirmations c S e g R rc d k) = 1 + k"
| "round_rank _ = 0"

lemma round_rank_pos: "state_at_rest s \<Longrightarrow> state_round s \<noteq> None \<longleftrightarrow> 0 < round_rank s"
  by (cases s) auto

lemma round_rank_le: "state_at_rest s \<Longrightarrow> round_rank s \<le> 4"
  by (cases s) (auto simp: consensus_constants)

lemma poll_round_rank:
  "state_at_rest s \<Longrightarrow> state_round s \<noteq> None \<Longrightarrow>
     round_rank (fst (poll_state now mesh s)) + (if state_due now s then 1 else 0) \<le> round_rank s"
  by (cases s) (auto simp: Let_def consensus_constants)

lemma step_round_rank:
  "at_rest f \<Longrightarrow> current_consensus_id f \<noteq> None \<Longrightarrow>
     round_rank (fsm_state (fst (consensus_step ev f)))
       + (case ev of Poll now mesh \<Rightarrow> if state_due now (fsm_state f) then 1 else 0 | _ \<Rightarrow> 0)
     \<le> round_rank (fsm_state f)"
  using poll_round_rank [of "fsm_state f"]
  by (cases ev; cases "fsm_state f") (auto simp: consensus_op_defs current_consensus_id_def split_beta)

lemma due_polls_end_round:
  "at_rest f \<Longrightarrow> current_consensus_id f \<noteq> None \<Longrightarrow> round_rank (fsm_state f) \<le> due_polls evs f \<Longrightarrow>
     \<exists>ys zs. evs = ys @ zs \<and> current_consensus_id (consensus_run ys f) = None"
proof (induction evs arbitrary: f)
  case Nil
  then show ?case using round_rank_pos [of "fsm_state f"] by (auto simp: current_consensus_id_def)
next
  case (Cons ev evs)
  let ?f = "fst (consensus_step ev f)"
  show ?case
  proof (cases "current_consensus_id ?f")
    case None
    then have "ev # evs = [ev] @ evs \<and> current_consensus_id (consensus_run [ev] f) = None" by simp
    then show ?thesis by blast
  next
    case (Some c)
    have "round_rank (fsm_state ?f) \<le> due_polls evs ?f"
      using step_round_rank [OF Cons.prems(1,2), of ev] Cons.prems(3) by simp
    with Cons.IH [of ?f] consensus_step_at_rest [OF Cons.prems(1), of ev] Some obtain ys zs where
      "evs = ys @ zs" "current_consensus_id (consensus_run ys ?f) = None" by auto
    then have "ev # evs = (ev # ys) @ zs \<and> current_consensus_id (consensus_run (ev # ys) f) = None" by simp
    then show ?thesis by blast
  qed
qed



section \<open>A restart is justified\<close>

text \<open>The last event of the history is the poll that announced round \<open>c\<close> over the suspects \<open>S\<close>.\<close>

definition suspects_announced :: "consensus_event list \<Rightarrow> nat \<Rightarrow> string set \<Rightarrow> string set \<Rightarrow> bool" where
  "suspects_announced evs c S R \<longleftrightarrow>
     (\<exists>pre now mesh t e g. evs = pre @ [Poll now mesh]
        \<and> fsm_state (consensus_run pre consensus_new) = BroadcastSuspect c S t e g R)"

text \<open>The last event of the history is the poll that passed the side gate and asked for the restart.\<close>

definition restart_requested :: "consensus_event list \<Rightarrow> nat \<Rightarrow> bool" where
  "restart_requested evs c \<longleftrightarrow>
     (\<exists>pre now mesh e g cs. evs = pre @ [Poll now mesh]
        \<and> failover_quorum_threshold (total_known_members mesh) \<le> live_peer_count mesh
        \<and> snd (consensus_poll now mesh (consensus_run pre consensus_new))
            = EmitFrame (RestartRequest [] c e g cs))"

text \<open>Nothing received since the announcement speaks for a peer that is still suspected.\<close>

definition uncontradicted ::
  "nat \<Rightarrow> string set \<Rightarrow> consensus_event list \<Rightarrow> consensus_event list \<Rightarrow> string \<Rightarrow> bool" where
  "uncontradicted c R mid post p \<longleftrightarrow>
     (\<forall>w. GotResolved c w p \<notin> set (mid @ post))
     \<and> (\<forall>q \<in> R. \<forall>still since. GotConfirm c q still since \<in> set post \<longrightarrow> p \<notin> set since)"

fun round_history :: "consensus_event list \<Rightarrow> consensus_state \<Rightarrow> bool" where
  "round_history evs (CollectingResolutions c S d e g R res) =
     (\<exists>pre mid S0. evs = pre @ mid \<and> suspects_announced pre c S0 R \<and> S \<subseteq> S0
        \<and> (\<forall>p \<in> S. uncontradicted c R mid [] p))"
| "round_history evs (CollectingConfirmations c S e g R rc d k) =
     (\<exists>pre mid post S0. evs = pre @ mid @ post \<and> suspects_announced pre c S0 R
        \<and> restart_requested (pre @ mid) c \<and> S \<subseteq> S0
        \<and> (\<forall>p \<in> S. uncontradicted c R mid post p)
        \<and> (\<forall>(q, t) \<in> set rc. GotConfirm c q (still_suspicious t) (resolved_since t) \<in> set post))"
| "round_history evs s = True"

text \<open>An event that neither speaks for a suspect nor changes the tallies leaves the history intact.\<close>

definition speaks_for :: "consensus_event \<Rightarrow> nat \<Rightarrow> string set \<Rightarrow> string set" where
  "speaks_for ev c R =
     (case ev of
        GotResolved c' w p \<Rightarrow> if c' = c then {p} else {}
      | GotConfirm c' q still since \<Rightarrow> if c' = c \<and> q \<in> R then set since else {}
      | _ \<Rightarrow> {})"

lemma uncontradicted_snoc:
  "uncontradicted c R mid post p \<Longrightarrow> p \<notin> speaks_for ev c R \<Longrightarrow> uncontradicted c R mid (post @ [ev]) p"
  unfolding uncontradicted_def speaks_for_def by (cases ev) auto

lemma uncontradicted_resolving:
  "uncontradicted c R mid [] p \<Longrightarrow> (\<forall>w. ev \<noteq> GotResolved c w p) \<Longrightarrow> uncontradicted c R (mid @ [ev]) [] p"
  unfolding uncontradicted_def by auto

lemma history_resolutions:
  assumes "round_history evs (CollectingResolutions c S d e g R res)" "S' \<subseteq> S"
    and "\<forall>p \<in> S'. \<forall>w. ev \<noteq> GotResolved c w p"
  shows "round_history (evs @ [ev]) (CollectingResolutions c S' d' e' g' R res')"
proof -
  from assms(1) obtain pre mid S0 where h: "evs = pre @ mid" "suspects_announced pre c S0 R" "S \<subseteq> S0"
    "\<forall>p \<in> S. uncontradicted c R mid [] p" by auto
  then have "evs @ [ev] = pre @ (mid @ [ev])" "S' \<subseteq> S0" "\<forall>p \<in> S'. uncontradicted c R (mid @ [ev]) [] p"
    using assms(2,3) by (auto intro: uncontradicted_resolving)
  with h(2) show ?thesis unfolding round_history.simps by blast
qed

lemma history_confirmations:
  assumes "round_history evs (CollectingConfirmations c S e g R rc d k)" "S' \<subseteq> S - speaks_for ev c R"
    and "\<forall>(q, t) \<in> set rc' - set rc. ev = GotConfirm c q (still_suspicious t) (resolved_since t)"
  shows "round_history (evs @ [ev]) (CollectingConfirmations c S' e' g' R rc' d' k')"
proof -
  from assms(1) obtain pre mid post S0 where h: "evs = pre @ mid @ post" "suspects_announced pre c S0 R"
    "restart_requested (pre @ mid) c" "S \<subseteq> S0" "\<forall>p \<in> S. uncontradicted c R mid post p"
    "\<forall>(q, t) \<in> set rc. GotConfirm c q (still_suspicious t) (resolved_since t) \<in> set post"
    unfolding round_history.simps by blast
  have "evs @ [ev] = pre @ mid @ (post @ [ev])" "S' \<subseteq> S0" "\<forall>p \<in> S'. uncontradicted c R mid (post @ [ev]) p"
    using h(1,4,5) assms(2) by (auto intro: uncontradicted_snoc)
  moreover have "\<forall>(q, t) \<in> set rc'. GotConfirm c q (still_suspicious t) (resolved_since t) \<in> set (post @ [ev])"
    using h(6) assms(3) by fastforce
  ultimately show ?thesis using h(2,3) unfolding round_history.simps by blast
qed

lemma set_bt_alter_const: "set (bt_alter k (\<lambda>_. v) m) \<subseteq> insert (k, v) (set m)"
  by (induction m) (auto split: if_splits)

lemma history_announced:
  assumes "fsm_state (consensus_run evs consensus_new) = BroadcastSuspect c S t e g R"
  shows "round_history (evs @ [Poll now mesh]) (CollectingResolutions c S d e g R {})"
proof -
  have "suspects_announced (evs @ [Poll now mesh]) c S R" using assms unfolding suspects_announced_def by blast
  then have "evs @ [Poll now mesh] = (evs @ [Poll now mesh]) @ [] \<and> suspects_announced (evs @ [Poll now mesh]) c S R
    \<and> S \<subseteq> S \<and> (\<forall>p \<in> S. uncontradicted c R [] [] p)" by (simp add: uncontradicted_def)
  then show ?thesis unfolding round_history.simps by blast
qed

lemma history_requested:
  assumes st: "fsm_state (consensus_run evs consensus_new) = CollectingResolutions c S d e g R res"
    and hist: "round_history evs (fsm_state (consensus_run evs consensus_new))"
    and gate: "S \<noteq> {}" "d \<le> now" "failover_quorum_threshold (total_known_members mesh) \<le> live_peer_count mesh"
  shows "round_history (evs @ [Poll now mesh]) (CollectingConfirmations c S e g R [] d' k)"
proof -
  from hist obtain pre mid S0 where h: "evs = pre @ mid" "suspects_announced pre c S0 R" "S \<subseteq> S0"
    "\<forall>p \<in> S. uncontradicted c R mid [] p" unfolding st by auto
  have "restart_requested (evs @ [Poll now mesh]) c"
    using st gate unfolding restart_requested_def consensus_poll_def by (auto simp: split_beta)
  moreover have "\<forall>p \<in> S. uncontradicted c R (mid @ [Poll now mesh]) [] p"
    using h(4) by (auto intro: uncontradicted_resolving)
  ultimately show ?thesis using h(1,2,3) unfolding round_history.simps
    by (intro exI [of _ pre] exI [of _ "mid @ [Poll now mesh]"] exI [of _ "[]"] exI [of _ S0]) auto
qed

lemma history_poll:
  assumes hist: "round_history evs (fsm_state (consensus_run evs consensus_new))"
  shows "round_history (evs @ [Poll now mesh])
    (fst (poll_state now mesh (fsm_state (consensus_run evs consensus_new))))"
proof (cases "fsm_state (consensus_run evs consensus_new)")
  case (BroadcastSuspect c S t e g R)
  then show ?thesis by (simp add: history_announced del: round_history.simps)
next
  case (CollectingResolutions c S d e g R res)
  note st = this
  have stay: "round_history (evs @ [Poll now mesh]) (CollectingResolutions c S d e g R res)"
    by (rule history_resolutions [OF hist [unfolded st]]) auto
  show ?thesis
  proof (cases "S = {}")
    case False
    show ?thesis
    proof (cases "d \<le> now \<and> failover_quorum_threshold (total_known_members mesh) \<le> live_peer_count mesh")
      case True
      then show ?thesis
        using history_requested [OF st hist False, of now mesh "now + CONFIRMATION_DEADLINE" CONFIRMATION_MAX_RETRIES]
          False by (simp add: st del: round_history.simps)
    next
      case no: False
      show ?thesis
      proof (cases "d \<le> now")
        case True
        then show ?thesis using no False by (simp add: st)
      next
        case early: False
        then have "poll_state now mesh (fsm_state (consensus_run evs consensus_new))
          = (CollectingResolutions c S d e g R res, NoOutput)" using False by (simp add: st)
        with stay show ?thesis by (simp del: round_history.simps)
      qed
    qed
  qed (simp add: st)
next
  case (CollectingConfirmations c S e g R rc d k)
  note st = this
  have stay: "round_history (evs @ [Poll now mesh]) (CollectingConfirmations c S e g R rc d' k')" for d' k'
    by (rule history_confirmations [OF hist [unfolded st]]) (auto simp: speaks_for_def)
  show ?thesis using stay by (simp add: st Let_def del: round_history.simps) simp
next
  case (BroadcastRestart c S e g R k)
  have "at_rest (consensus_run evs consensus_new)" by (simp add: consensus_run_at_rest)
  with BroadcastRestart show ?thesis by simp
qed auto

lemma history_step:
  assumes hist: "round_history evs (fsm_state (consensus_run evs consensus_new))"
  shows "round_history (evs @ [ev]) (fsm_state (fst (consensus_step ev (consensus_run evs consensus_new))))"
proof (cases "\<exists>now mesh. ev = Poll now mesh")
  case True
  then show ?thesis using history_poll [OF hist] by (auto simp: consensus_poll_def split_beta simp del: round_history.simps)
next
  case False
  let ?f = "consensus_run evs consensus_new"
  show ?thesis
  proof (cases "fsm_state ?f")
    case (CollectingResolutions c S d e g R res)
    note st = this
    obtain S' res' where "S' \<subseteq> S" "\<forall>p \<in> S'. \<forall>w. ev \<noteq> GotResolved c w p"
      "fsm_state (fst (consensus_step ev ?f)) = CollectingResolutions c S' d e g R res'"
    proof (cases "\<exists>w p. ev = GotResolved c w p \<and> p \<in> S")
      case True
      then obtain w p where "ev = GotResolved c w p" "p \<in> S" by blast
      then show ?thesis using that [of "S - {p}" "insert p res"] by (auto simp: st apply_resolved_def)
    next
      case no: False
      have "fsm_state (fst (consensus_step ev ?f)) = CollectingResolutions c S d e g R res"
        using False no by (cases ev) (auto simp: st consensus_op_defs)
      then show ?thesis using no that [of S res] by blast
    qed
    with history_resolutions [OF hist [unfolded st]] show ?thesis by (metis (no_types))
  next
    case (CollectingConfirmations c S e g R rc d k)
    note st = this
    obtain S' rc' where "S' \<subseteq> S - speaks_for ev c R"
      "\<forall>(q, t) \<in> set rc' - set rc. ev = GotConfirm c q (still_suspicious t) (resolved_since t)"
      "fsm_state (fst (consensus_step ev ?f)) = CollectingConfirmations c S' e g R rc' d k"
    proof (cases "\<exists>q still since. ev = GotConfirm c q still since \<and> q \<in> R")
      case True
      then obtain q still since where ev: "ev = GotConfirm c q still since" "q \<in> R" by blast
      let ?t = "\<lparr>still_suspicious = still, resolved_since = since\<rparr>"
      show ?thesis
        by (rule that [of "S - set since" "bt_alter q (\<lambda>_. ?t) rc"])
          (use ev set_bt_alter_const [of q ?t rc] in \<open>auto simp: st apply_confirm_def speaks_for_def\<close>)
    next
      case no: False
      then show ?thesis using False that [of "S - speaks_for ev c R" rc]
        by (cases ev) (auto simp: st consensus_op_defs speaks_for_def)
    qed
    with history_confirmations [OF hist [unfolded st]] show ?thesis by (metis (no_types))
  qed (use False in \<open>cases ev; auto simp: consensus_op_defs Let_def\<close>)+
qed

lemma run_history: "round_history evs (fsm_state (consensus_run evs consensus_new))"
proof (induction evs rule: rev_induct)
  case (snoc ev evs)
  then show ?case using history_step [of evs ev] by (simp del: round_history.simps)
qed (simp add: consensus_new_def)

lemma retain_confirmed_iff:
  "p \<in> retain_confirmed S rc \<longleftrightarrow>
     p \<in> S \<and> (\<forall>(q, t) \<in> set rc. p \<in> set (still_suspicious t) \<and> p \<notin> set (resolved_since t))"
  by (induction S rc rule: retain_confirmed.induct) auto

lemma poll_restarts:
  "snd (consensus_poll now mesh f) = RestartPeers T \<Longrightarrow>
     \<exists>c S e g R rc d k. fsm_state f = CollectingConfirmations c S e g R rc d k
       \<and> all_responded R rc \<and> T = retain_confirmed S rc \<and> T \<noteq> {}"
  unfolding consensus_poll_def split_beta Let_def
  by (cases "fsm_state f") (auto split: if_splits simp: Let_def)

text \<open>
  C4: A restart is never spurious. When the machine orders the restart of some peers, there is a
  round that announced all of them as suspects and then passed the side gate; since the
  announcement nobody reported hearing from any of them; and since the request every expected
  responder has voted for every one of them and none has retracted.
\<close>

theorem restart_justified:
  "snd (consensus_step ev (consensus_run evs consensus_new)) = RestartPeers T \<Longrightarrow>
     \<exists>c S R pre mid post. evs = pre @ mid @ post \<and> suspects_announced pre c S R
       \<and> restart_requested (pre @ mid) c \<and> T \<noteq> {} \<and> T \<subseteq> S
       \<and> (\<forall>p \<in> T. (\<forall>w. GotResolved c w p \<notin> set (mid @ post))
           \<and> (\<forall>q \<in> R. (\<exists>still since. GotConfirm c q still since \<in> set post \<and> p \<in> set still)
                \<and> (\<forall>still since. GotConfirm c q still since \<in> set post \<longrightarrow> p \<notin> set since)))"
proof -
  assume out: "snd (consensus_step ev (consensus_run evs consensus_new)) = RestartPeers T"
  then obtain now mesh where p: "snd (consensus_poll now mesh (consensus_run evs consensus_new)) = RestartPeers T"
    by (cases ev) auto
  from poll_restarts [OF p] obtain c S e g R rc d k where
    st: "fsm_state (consensus_run evs consensus_new) = CollectingConfirmations c S e g R rc d k"
    and all: "all_responded R rc" and T: "T = retain_confirmed S rc" "T \<noteq> {}"
    by (elim exE conjE)
  from run_history [of evs] obtain pre mid post S0 where h: "evs = pre @ mid @ post"
    "suspects_announced pre c S0 R" "restart_requested (pre @ mid) c" "S \<subseteq> S0"
    "\<forall>p \<in> S. uncontradicted c R mid post p"
    "\<forall>(q, t) \<in> set rc. GotConfirm c q (still_suspicious t) (resolved_since t) \<in> set post"
    unfolding st round_history.simps by blast
  have "T \<subseteq> S" using T by (auto simp: retain_confirmed_iff)
  moreover have "\<exists>still since. GotConfirm c q still since \<in> set post \<and> p \<in> set still"
    if "p \<in> T" "q \<in> R" for p q
  proof -
    from that all obtain t where "(q, t) \<in> set rc" by (force simp: all_responded_def)
    with h(6) that T show ?thesis by (fastforce simp: retain_confirmed_iff)
  qed
  ultimately show ?thesis using h(1-5) T(2) unfolding uncontradicted_def
    by (intro exI [of _ c] exI [of _ S0] exI [of _ R] exI [of _ pre] exI [of _ mid] exI [of _ post]) blast
qed

lemma consensus_poll_fst: "fsm_state (fst (consensus_poll now mesh f)) = fst (poll_state now mesh (fsm_state f))"
  and consensus_poll_snd: "snd (consensus_poll now mesh f) = snd (poll_state now mesh (fsm_state f))"
  by (simp_all add: consensus_poll_def split_beta)

theorem restart_justified_witness:
  "let m = \<lparr>live_peer_count = 4, total_known_members = 6\<rparr>;
       evs = [SeedSuspects {''x''}, Escalate 0 1 0 {''a''}, Poll 0 m, Poll 15000 m, GotConfirm 1 ''a'' [''x''] []]
   in \<exists>c S R pre mid post. evs = pre @ mid @ post \<and> suspects_announced pre c S R
       \<and> restart_requested (pre @ mid) c \<and> {''x''} \<noteq> {} \<and> {''x''} \<subseteq> S
       \<and> (\<forall>p \<in> {''x''}. (\<forall>w. GotResolved c w p \<notin> set (mid @ post))
           \<and> (\<forall>q \<in> R. (\<exists>still since. GotConfirm c q still since \<in> set post \<and> p \<in> set still)
                \<and> (\<forall>still since. GotConfirm c q still since \<in> set post \<longrightarrow> p \<notin> set since)))"
  unfolding Let_def
  by (rule restart_justified [where ev = "Poll 15001 \<lparr>live_peer_count = 4, total_known_members = 6\<rparr>"])
    (simp add: consensus_poll_snd consensus_poll_fst consensus_new_def consensus_op_defs
      failover_quorum_threshold_def div_ceil_def consensus_constants all_responded_def)

section \<open>The side gate\<close>

lemma resolutions_poll_requests:
  assumes "fsm_state f = CollectingResolutions c S d e g R res"
    and "snd (consensus_poll now mesh f) = EmitFrame fr"
  shows "failover_quorum_threshold (total_known_members mesh) \<le> live_peer_count mesh"
  using assms by (auto simp: consensus_poll_snd split: if_splits)

text \<open>
  C15: The side gate is exclusive. When two coordinators with rosters of the same size over one
  fleet each close the resolution phase and go on to ask for restarts, some secondary is on both
  rosters and suspected by neither: the two sides of a partition cannot both pass.
\<close>

theorem side_gate_exclusive:
  assumes "fsm_state fa = CollectingResolutions ca Sa da ea ga Ra resa"
    and "fsm_state fb = CollectingResolutions cb Sb db eb gb Rb resb"
    and "snd (consensus_poll nowa (consensus_mesh_snapshot ra fa) fa) = EmitFrame fra"
    and "snd (consensus_poll nowb (consensus_mesh_snapshot rb fb) fb) = EmitFrame frb"
    and "distinct ra" "distinct rb" "length ra = length rb" "card (set ra \<union> set rb) \<le> length ra + 2"
  shows "\<exists>q \<in> set ra \<inter> set rb. q \<notin> in_flight_suspects fa \<and> q \<notin> in_flight_suspects fb"
proof -
  let ?A = "set (filter (\<lambda>q. q \<notin> in_flight_suspects fa) ra)"
  let ?B = "set (filter (\<lambda>q. q \<notin> in_flight_suspects fb) rb)"
  have "failover_quorum_threshold (length ra + 1) \<le> card ?A"
    using resolutions_poll_requests [OF assms(1,3)] \<open>distinct ra\<close>
    by (simp add: consensus_mesh_snapshot_def distinct_card [symmetric] distinct_filter del: set_filter)
  moreover have "failover_quorum_threshold (length ra + 1) \<le> card ?B"
    using resolutions_poll_requests [OF assms(2,4)] \<open>distinct rb\<close> \<open>length ra = length rb\<close>
    by (simp add: consensus_mesh_snapshot_def distinct_card [symmetric] distinct_filter del: set_filter)
  moreover have "?A \<subseteq> set ra \<union> set rb" "?B \<subseteq> set ra \<union> set rb" by auto
  ultimately have "?A \<inter> ?B \<noteq> {}"
    using side_gate.groups_meet [where M = "set ra \<union> set rb" and n = "length ra + 1"] assms(8) by simp
  then show ?thesis by auto
qed

theorem side_gate_exclusive_witness:
  "let f = \<lparr>fsm_state = CollectingResolutions 1 {''x''} 15000 1 0 {''a''} {}, fsm_ids = 1\<rparr>;
       r = [''a'', ''b'', ''c'', ''d'', ''x'']
   in \<exists>q \<in> set r \<inter> set r. q \<notin> in_flight_suspects f \<and> q \<notin> in_flight_suspects f"
  unfolding Let_def
  by (rule side_gate_exclusive [where nowa = 15000 and nowb = 15000
        and fra = "RestartRequest [] 1 1 0 [''x'']" and frb = "RestartRequest [] 1 1 0 [''x'']"])
    (simp_all add: consensus_poll_snd consensus_mesh_snapshot_def in_flight_suspects_def
      failover_quorum_threshold_def div_ceil_def)

text \<open>
  In a fleet of at most four secondaries no round can pass: the snapshot counts the primary in
  the membership but not among the live peers, so that with one rostered suspect the side gate
  always aborts at the resolution deadline.
\<close>

theorem small_fleet_aborts:
  assumes "fsm_state f = CollectingResolutions c S d e g R res" "d \<le> now"
    and "length roster \<le> 4" "S \<inter> set roster \<noteq> {}"
  shows "\<exists>reason. snd (consensus_poll now (consensus_mesh_snapshot roster f) f) = AbortOutput reason"
proof -
  from assms(4) obtain p where "p \<in> S" "p \<in> set roster" by blast
  then have "length (filter (\<lambda>q. q \<notin> S) roster) < length roster" by (auto intro: length_filter_less)
  then have "length (filter (\<lambda>q. q \<notin> S) roster) < failover_quorum_threshold (length roster + 1)"
    using assms(3) unfolding failover_quorum_threshold_def div_ceil_def by presburger
  moreover have "S \<noteq> {}" using assms(4) by blast
  ultimately show ?thesis using assms(1,2)
    by (simp add: consensus_poll_snd consensus_mesh_snapshot_def in_flight_suspects_def)
qed

theorem small_fleet_aborts_witness:
  "\<exists>reason. snd (consensus_poll 15000
      (consensus_mesh_snapshot [''a'', ''b'', ''c'', ''x'']
        \<lparr>fsm_state = CollectingResolutions 1 {''x''} 15000 1 0 {''a'', ''b'', ''c''} {}, fsm_ids = 1\<rparr>)
      \<lparr>fsm_state = CollectingResolutions 1 {''x''} 15000 1 0 {''a'', ''b'', ''c''} {}, fsm_ids = 1\<rparr>)
    = AbortOutput reason"
  by (rule small_fleet_aborts) auto

text \<open>
  A round that was escalated without any expected responder needs no confirmation: if the roster
  has grown enough by the resolution deadline for the side gate to pass, one and the same drive
  sends the request and restarts every suspect, before any answer can arrive.
\<close>

theorem restart_without_confirmer:
  assumes "fsm_state f = CollectingResolutions c S d e g {} res" "S \<noteq> {}" "d \<le> now"
    and "failover_quorum_threshold (length roster + 1) \<le> length (filter (\<lambda>q. q \<notin> S) roster)"
  shows "fst (snd (drive_consensus_fsm_at now roster f)) =
    [EmitFrame (RestartRequest [] c e g (sorted_list_of_set S)), RestartPeers S]"
  using assms
  by (simp add: drive_consensus_fsm_at_def numeral_eq_Suc consensus_poll_def split_beta consensus_mesh_snapshot_def
      in_flight_suspects_def all_responded_def)

theorem restart_without_confirmer_witness:
  "fst (snd (drive_consensus_fsm_at 15000 [''x'', ''a'', ''b'', ''c'', ''d'']
       \<lparr>fsm_state = CollectingResolutions 1 {''x''} 15000 1 0 {} {}, fsm_ids = 1\<rparr>)) =
    [EmitFrame (RestartRequest [] 1 1 0 (sorted_list_of_set {''x''})), RestartPeers {''x''}]"
  by (rule restart_without_confirmer) (auto simp: failover_quorum_threshold_def div_ceil_def)

end
