(* ===== verification/Consensus_Secondary.thy ===== *)
theory Consensus_Secondary
  imports Consensus_Frames "HOL-Library.Word"
begin

text \<open>
  The secondary's half of the respawn consensus: the prober and responder
  \<open>SecondaryConsensusFsm\<close> (\<open>secondary/consensus/fsm.rs\<close>), its jitter source
  (\<open>jitter.rs\<close>) and the coordinator seam (\<open>wiring.rs\<close>). The \<open>JitterSource\<close> trait the machine
  is generic in becomes the parameter \<open>next_ms\<close>, a state-passing function; its documented
  contract is the locale \<open>jitter_source\<close>, which the xorshift generator of the code fulfils.

  A \<open>BTreeMap<String, Instant>\<close> is an association list sorted by key.
\<close>

unbundle bit_operations_syntax

section \<open>Jitter\<close>

text \<open>\<open>XorshiftJitter\<close>: the seed of \<open>new\<close> is the hash of the peer id and the creation instant.\<close>

definition xorshift_new :: "64 word \<Rightarrow> 64 word" where
  "xorshift_new seed = (if seed = 0 then 0x9E3779B97F4A7C15 else seed)"

definition xorshift_step :: "64 word \<Rightarrow> 64 word" where
  "xorshift_step x =
     (let x = x XOR push_bit 13 x;
          x = x XOR drop_bit 7 x;
          x = x XOR push_bit 17 x
      in x)"

definition xorshift_next_ms :: "64 word \<Rightarrow> int \<times> 64 word" where
  "xorshift_next_ms state =
     (let span = 2 * nat PROBE_JITTER_MS + 1;
          state' = xorshift_step state;
          raw = unat state' mod span
      in (int raw - PROBE_JITTER_MS, state'))"

definition fixed_next_ms :: "int \<Rightarrow> int \<times> int" where
  "fixed_next_ms c = (c, c)"

locale jitter_source =
  fixes next_ms :: "'j \<Rightarrow> int \<times> 'j"
  assumes next_ms_bound: "\<bar>fst (next_ms j)\<bar> \<le> PROBE_JITTER_MS"

interpretation xorshift: jitter_source xorshift_next_ms
proof
  fix j
  have "unat (xorshift_step j) mod 2001 < 2001" by simp
  then show "\<bar>fst (xorshift_next_ms j)\<bar> \<le> PROBE_JITTER_MS"
    by (simp add: xorshift_next_ms_def consensus_constants Let_def)
qed

text \<open>A shift by at least one place and an exclusive or cannot cancel a nonzero word.\<close>

lemma xor_push_bit_nonzero:
  fixes x :: "64 word"
  assumes "x XOR push_bit k x = 0" "0 < k"
  shows "x = 0"
proof -
  have "\<not> bit (x XOR push_bit k x) i" for i using assms(1) by simp
  then have eq: "bit x i \<longleftrightarrow> bit (push_bit k x) i" for i by (simp add: bit_xor_iff)
  have "\<not> bit x i" for i
  proof (induction i rule: less_induct)
    case (less i)
    then show ?case using eq [of i] assms(2) by (cases "k \<le> i") (auto simp: bit_simps)
  qed
  then show ?thesis by (simp add: bit_eq_iff)
qed

lemma xor_drop_bit_nonzero:
  fixes x :: "64 word"
  assumes "x XOR drop_bit k x = 0" "0 < k"
  shows "x = 0"
proof -
  have "\<not> bit (x XOR drop_bit k x) i" for i using assms(1) by simp
  then have eq: "bit x i \<longleftrightarrow> bit x (k + i)" for i by (simp add: bit_xor_iff bit_drop_bit_eq)
  have "\<not> bit x (64 - n)" if "n \<le> 64" for n
    using that
  proof (induction n rule: less_induct)
    case (less n)
    show ?case
    proof (cases "64 - n + k < 64")
      case True
      then have "k + (64 - n) = 64 - (n - k)" "n - k < n" "n - k \<le> 64"
        using assms(2) less.prems by auto
      with less.IH [of "n - k"] eq [of "64 - n"] show ?thesis by metis
    next
      case False
      then show ?thesis using eq [of "64 - n"] bit_imp_le_length [of x "k + (64 - n)"] by fastforce
    qed
  qed
  then have "\<not> bit x i" if "i < 64" for i
    using that by (metis diff_diff_cancel diff_le_self less_imp_le)
  then show ?thesis by (auto simp: bit_eq_iff dest: bit_imp_le_length)
qed

lemma xorshift_step_nonzero: "x \<noteq> 0 \<Longrightarrow> xorshift_step x \<noteq> 0"
  using xor_push_bit_nonzero xor_drop_bit_nonzero unfolding xorshift_step_def Let_def
  by (metis zero_less_numeral)

lemma xorshift_new_nonzero: "xorshift_new seed \<noteq> 0"
  by (simp add: xorshift_new_def)

section \<open>State\<close>

datatype probe_state =
    ProbeIdle
  | ProbingFor nat nat nat "(string \<times> instant) list" "string set"
  | AwaitingRoundEnd nat nat nat "(string \<times> instant) list" "string set" instant

datatype probe_output = ProbeQuiet | EmitFrames "consensus_frame list"

record 'j secondary_fsm =
  probe_state :: probe_state
  self_id :: string
  current_known_primary_epoch :: nat
  jitter :: 'j

definition with_jitter :: "string \<Rightarrow> 'j \<Rightarrow> 'j secondary_fsm" where
  "with_jitter self j =
     \<lparr> probe_state = ProbeIdle, self_id = self, current_known_primary_epoch = 0, jitter = j \<rparr>"

fun probe_round :: "probe_state \<Rightarrow> nat option" where
  "probe_round ProbeIdle = None"
| "probe_round (ProbingFor c e g sus res) = Some c"
| "probe_round (AwaitingRoundEnd c e g sus res d) = Some c"

definition observe_primary_epoch :: "nat \<Rightarrow> 'j secondary_fsm \<Rightarrow> 'j secondary_fsm" where
  "observe_primary_epoch epoch s =
     (if epoch > current_known_primary_epoch s
      then s\<lparr>current_known_primary_epoch := epoch, probe_state := ProbeIdle\<rparr> else s)"

section \<open>Probing\<close>

text \<open>\<open>next_fire\<close> of a probe sent at \<open>now\<close>; \<open>checked_sub\<close> falls back to the undelayed instant.\<close>

definition next_fire :: "instant \<Rightarrow> int \<Rightarrow> instant" where
  "next_fire now jitter_ms =
     (let base = now + PROBE_BASE_PERIOD
      in if jitter_ms \<ge> 0 then base + nat jitter_ms
         else if nat (- jitter_ms) \<le> base then base - nat (- jitter_ms) else base)"

definition due_targets :: "instant \<Rightarrow> (string \<times> instant) list \<Rightarrow> string list" where
  "due_targets now sus = map fst (filter (\<lambda>(q, fire). fire \<le> now) sus)"

fun fire_probes ::
  "('j \<Rightarrow> int \<times> 'j) \<Rightarrow> instant \<Rightarrow> nat \<Rightarrow> string list \<Rightarrow> (string \<times> instant) list \<Rightarrow> 'j
     \<Rightarrow> consensus_frame list \<times> (string \<times> instant) list \<times> 'j" where
  "fire_probes next_ms now c [] sus j = ([], sus, j)"
| "fire_probes next_ms now c (q # qs) sus j =
     (let (jitter_ms, j') = next_ms j;
          (frames, sus', j'') = fire_probes next_ms now c qs (bt_alter q (\<lambda>_. next_fire now jitter_ms) sus) j'
      in (PeerProbe [] c q # frames, sus', j''))"

fun set_suspects :: "probe_state \<Rightarrow> (string \<times> instant) list \<Rightarrow> probe_state" where
  "set_suspects ProbeIdle sus = ProbeIdle"
| "set_suspects (ProbingFor c e g _ res) sus = ProbingFor c e g sus res"
| "set_suspects (AwaitingRoundEnd c e g _ res d) sus = AwaitingRoundEnd c e g sus res d"

fun round_suspects :: "probe_state \<Rightarrow> (string \<times> instant) list" where
  "round_suspects ProbeIdle = []"
| "round_suspects (ProbingFor c e g sus res) = sus"
| "round_suspects (AwaitingRoundEnd c e g sus res d) = sus"

fun round_resolved :: "probe_state \<Rightarrow> string set" where
  "round_resolved ProbeIdle = {}"
| "round_resolved (ProbingFor c e g sus res) = res"
| "round_resolved (AwaitingRoundEnd c e g sus res d) = res"

fun round_expired :: "instant \<Rightarrow> probe_state \<Rightarrow> bool" where
  "round_expired now (AwaitingRoundEnd c e g sus res d) = (d \<le> now)"
| "round_expired now _ = False"

definition probe_poll ::
  "('j \<Rightarrow> int \<times> 'j) \<Rightarrow> instant \<Rightarrow> 'j secondary_fsm \<Rightarrow> 'j secondary_fsm \<times> probe_output" where
  "probe_poll next_ms now s =
     (if round_expired now (probe_state s) then (s\<lparr>probe_state := ProbeIdle\<rparr>, ProbeQuiet)
      else case probe_round (probe_state s) of
        None \<Rightarrow> (s, ProbeQuiet)
      | Some c \<Rightarrow>
          (let sus = round_suspects (probe_state s);
               (frames, sus', j) = fire_probes next_ms now c (due_targets now sus) sus (jitter s);
               s' = s\<lparr>probe_state := set_suspects (probe_state s) sus', jitter := j\<rparr>
           in (s', if frames = [] then ProbeQuiet else EmitFrames frames)))"

section \<open>Inbound frames\<close>

text \<open>\<open>ids.filter(\<noteq> self).map(|id| (id, now)).collect()\<close>\<close>

definition fresh_suspects :: "string \<Rightarrow> instant \<Rightarrow> string list \<Rightarrow> (string \<times> instant) list" where
  "fresh_suspects self now ids =
     fold (\<lambda>q sus. bt_alter q (\<lambda>_. now) sus) (filter (\<lambda>q. q \<noteq> self) ids) []"

definition apply_suspect_peers ::
  "('j \<Rightarrow> int \<times> 'j) \<Rightarrow> nat \<Rightarrow> nat \<Rightarrow> nat \<Rightarrow> string list \<Rightarrow> instant \<Rightarrow> 'j secondary_fsm
     \<Rightarrow> 'j secondary_fsm \<times> probe_output" where
  "apply_suspect_peers next_ms c epoch gen suspected now s =
     (if epoch < current_known_primary_epoch s then (s, ProbeQuiet)
      else let s = observe_primary_epoch epoch s;
               sus = fresh_suspects (self_id s) now suspected
           in if suspected = [] then (s, ProbeQuiet)
              else if sus = [] then (s, ProbeQuiet)
              else probe_poll next_ms now (s\<lparr>probe_state := ProbingFor c epoch gen sus {}\<rparr>))"

text \<open>The two halves of the answer to a commit frame, in the order of the candidates.\<close>

definition still_votes :: "string \<Rightarrow> string set \<Rightarrow> string list \<Rightarrow> string list" where
  "still_votes self res cands = filter (\<lambda>q. q \<noteq> self \<and> q \<notin> res) cands"

definition since_votes :: "string \<Rightarrow> string set \<Rightarrow> string list \<Rightarrow> string list" where
  "since_votes self res cands = filter (\<lambda>q. q \<noteq> self \<and> q \<in> res) cands"

text \<open>\<open>entry(c).or_insert(now)\<close> for every candidate that is neither this node nor resolved\<close>

definition kept_suspects ::
  "string \<Rightarrow> instant \<Rightarrow> (string \<times> instant) list \<Rightarrow> string set \<Rightarrow> string list \<Rightarrow> (string \<times> instant) list" where
  "kept_suspects self now sus res cands =
     fold (\<lambda>q m. bt_alter q (\<lambda>old. case old of None \<Rightarrow> now | Some t \<Rightarrow> t) m) (still_votes self res cands)
       (filter (\<lambda>(q, t). q \<in> set cands \<and> q \<notin> res) sus)"

definition restart_answer ::
  "string \<Rightarrow> instant \<Rightarrow> string list \<Rightarrow> probe_state
     \<Rightarrow> string list \<times> string list \<times> (string \<times> instant) list \<times> string set" where
  "restart_answer self now cands st =
     (if st = ProbeIdle
      then (let sus = fresh_suspects self now cands in (keys sus, [], sus, {}))
      else (let sus = round_suspects st; res = round_resolved st
            in (still_votes self res cands, since_votes self res cands,
                kept_suspects self now sus res cands, res \<inter> set cands)))"

definition apply_restart_request ::
  "nat \<Rightarrow> nat \<Rightarrow> nat \<Rightarrow> string list \<Rightarrow> instant \<Rightarrow> 'j secondary_fsm \<Rightarrow> 'j secondary_fsm \<times> probe_output" where
  "apply_restart_request c epoch gen cands now s =
     (if epoch < current_known_primary_epoch s then (s, ProbeQuiet)
      else let s = observe_primary_epoch epoch s;
               (still, since, sus, res) = restart_answer (self_id s) now cands (probe_state s)
           in (s\<lparr>probe_state := AwaitingRoundEnd c epoch gen sus res (now + AWAITING_ROUND_END_TIMEOUT)\<rparr>,
               EmitFrames [RestartConfirm [] c (self_id s) still since]))"

fun credit :: "string \<Rightarrow> probe_state \<Rightarrow> probe_state" where
  "credit q ProbeIdle = ProbeIdle"
| "credit q (ProbingFor c e g sus res) = ProbingFor c e g (AList.delete q sus) (insert q res)"
| "credit q (AwaitingRoundEnd c e g sus res d) = AwaitingRoundEnd c e g (AList.delete q sus) (insert q res) d"

definition apply_probe_ack :: "string \<Rightarrow> nat \<Rightarrow> 'j secondary_fsm \<Rightarrow> 'j secondary_fsm \<times> probe_output" where
  "apply_probe_ack sender c s =
     (case probe_round (probe_state s) of
        None \<Rightarrow> (s, ProbeQuiet)
      | Some c' \<Rightarrow>
          if c' \<noteq> c then (s, ProbeQuiet)
          else if sender \<in> round_resolved (probe_state s) then (s, ProbeQuiet)
          else if sender \<notin> fst ` set (round_suspects (probe_state s)) then (s, ProbeQuiet)
          else (s\<lparr>probe_state := credit sender (probe_state s)\<rparr>,
                EmitFrames [ResolvedPeer [] c' (self_id s) sender]))"

definition apply_probe_request ::
  "string \<Rightarrow> nat \<Rightarrow> string \<Rightarrow> 'j secondary_fsm \<Rightarrow> 'j secondary_fsm \<times> probe_output" where
  "apply_probe_request sender c probed s =
     (if probed \<noteq> self_id s then (s, ProbeQuiet) else (s, EmitFrames [PeerProbeAck [] c sender]))"

section \<open>The coordinator seam\<close>

definition handle_consensus_suspect_peers ::
  "('j \<Rightarrow> int \<times> 'j) \<Rightarrow> nat \<Rightarrow> nat \<Rightarrow> nat \<Rightarrow> string list \<Rightarrow> instant \<Rightarrow> 'j secondary_fsm
     \<Rightarrow> 'j secondary_fsm \<times> probe_output" where
  "handle_consensus_suspect_peers next_ms c epoch gen suspected now s =
     apply_suspect_peers next_ms c epoch gen suspected now (observe_primary_epoch epoch s)"

definition handle_consensus_restart_request ::
  "nat \<Rightarrow> nat \<Rightarrow> nat \<Rightarrow> string list \<Rightarrow> instant \<Rightarrow> 'j secondary_fsm \<Rightarrow> 'j secondary_fsm \<times> probe_output" where
  "handle_consensus_restart_request c epoch gen cands now s =
     apply_restart_request c epoch gen cands now (observe_primary_epoch epoch s)"

fun stamp_probe_frame :: "string \<Rightarrow> consensus_frame \<Rightarrow> (destination \<times> consensus_frame) option" where
  "stamp_probe_frame me (PeerProbe s c q) = Some (ToSecondary q, PeerProbe me c q)"
| "stamp_probe_frame me (PeerProbeAck s c q) = Some (ToSecondary q, PeerProbeAck me c q)"
| "stamp_probe_frame me (ResolvedPeer s c w q) = Some (ToPrimary, ResolvedPeer me c w q)"
| "stamp_probe_frame me (RestartConfirm s c w still since) = Some (ToPrimary, RestartConfirm me c w still since)"
| "stamp_probe_frame me other = None"

fun dispatch_consensus_output :: "string \<Rightarrow> probe_output \<Rightarrow> (destination \<times> consensus_frame) list" where
  "dispatch_consensus_output me ProbeQuiet = []"
| "dispatch_consensus_output me (EmitFrames frames) = List.map_filter (stamp_probe_frame me) frames"

section \<open>Runs of the machine\<close>

datatype probe_event =
    HearSuspects nat nat nat "string list" instant
  | HearRequest nat nat nat "string list" instant
  | HearAck string nat
  | HearProbe string nat string
  | ObserveEpoch nat
  | ProbeTick instant

fun probe_step :: "('j \<Rightarrow> int \<times> 'j) \<Rightarrow> probe_event \<Rightarrow> 'j secondary_fsm \<Rightarrow> 'j secondary_fsm \<times> probe_output" where
  "probe_step next_ms (HearSuspects c e g ps now) s = handle_consensus_suspect_peers next_ms c e g ps now s"
| "probe_step next_ms (HearRequest c e g ps now) s = handle_consensus_restart_request c e g ps now s"
| "probe_step next_ms (HearAck q c) s = apply_probe_ack q c s"
| "probe_step next_ms (HearProbe q c p) s = apply_probe_request q c p s"
| "probe_step next_ms (ObserveEpoch e) s = (observe_primary_epoch e s, ProbeQuiet)"
| "probe_step next_ms (ProbeTick now) s = probe_poll next_ms now s"

fun probe_run :: "('j \<Rightarrow> int \<times> 'j) \<Rightarrow> probe_event list \<Rightarrow> 'j secondary_fsm \<Rightarrow> 'j secondary_fsm" where
  "probe_run next_ms [] s = s"
| "probe_run next_ms (ev # evs) s = probe_run next_ms evs (fst (probe_step next_ms ev s))"

fun round_epoch :: "probe_state \<Rightarrow> nat option" where
  "round_epoch ProbeIdle = None"
| "round_epoch (ProbingFor c e g sus res) = Some e"
| "round_epoch (AwaitingRoundEnd c e g sus res d) = Some e"

text \<open>
  Well-formedness: the suspects are a B-tree map without this node and without the resolved
  peers, and a round belongs to the newest known primary.
\<close>

definition state_wf :: "string \<Rightarrow> probe_state \<Rightarrow> bool" where
  "state_wf self st \<longleftrightarrow>
     bt_sorted (round_suspects st) \<and> self \<notin> fst ` set (round_suspects st) \<union> round_resolved st
     \<and> fst ` set (round_suspects st) \<inter> round_resolved st = {}"

definition probe_wf :: "'j secondary_fsm \<Rightarrow> bool" where
  "probe_wf s \<longleftrightarrow> state_wf (self_id s) (probe_state s)
     \<and> (\<forall>e. round_epoch (probe_state s) = Some e \<longrightarrow> e = current_known_primary_epoch s)"

lemma state_wf_idle [simp]: "state_wf self ProbeIdle"
  by (simp add: state_wf_def)

lemma observe_self [simp]: "self_id (observe_primary_epoch e s) = self_id s"
  by (simp add: observe_primary_epoch_def)

lemma observe_wf: "probe_wf s \<Longrightarrow> probe_wf (observe_primary_epoch e s)"
  by (simp add: probe_wf_def observe_primary_epoch_def)

lemma observe_idem [simp]: "observe_primary_epoch e (observe_primary_epoch e s) = observe_primary_epoch e s"
  by (simp add: observe_primary_epoch_def)

lemma observe_epoch_le: "current_known_primary_epoch s \<le> current_known_primary_epoch (observe_primary_epoch e s)"
  by (simp add: observe_primary_epoch_def)

lemma bt_fold_alter:
  "bt_sorted m \<Longrightarrow> bt_sorted (fold (\<lambda>q. bt_alter q (F q)) qs m)
     \<and> fst ` set (fold (\<lambda>q. bt_alter q (F q)) qs m) = set qs \<union> fst ` set m"
  by (induction qs arbitrary: m) auto

lemma fresh_suspects_sorted [simp]: "bt_sorted (fresh_suspects self now ids)"
  and fresh_suspects_keys [simp]: "fst ` set (fresh_suspects self now ids) = set ids - {self}"
  using bt_fold_alter [of "[]" "\<lambda>_ _. now" "filter (\<lambda>q. q \<noteq> self) ids"]
  by (auto simp: fresh_suspects_def)

lemma sorted_wrt_map_filter: "sorted_wrt P (map f xs) \<Longrightarrow> sorted_wrt P (map f (filter Q xs))"
  by (induction xs) auto

lemma kept_suspects_sorted: "bt_sorted sus \<Longrightarrow> bt_sorted (kept_suspects self now sus res cands)"
  and kept_suspects_keys: "bt_sorted sus \<Longrightarrow> fst ` set (kept_suspects self now sus res cands) =
    (set cands - {self} - res) \<union> (fst ` set sus \<inter> set cands - res)"
  using bt_fold_alter [of "filter (\<lambda>(q, t). q \<in> set cands \<and> q \<notin> res) sus"
      "\<lambda>q old. case old of None \<Rightarrow> now | Some t \<Rightarrow> t" "still_votes self res cands"]
  by (force simp: kept_suspects_def still_votes_def sorted_wrt_map_filter)+

lemma restart_answer_wf:
  assumes "state_wf self st" "restart_answer self now cands st = (still, since, sus, res)"
  shows "state_wf self (AwaitingRoundEnd c e g sus res d)"
proof (cases "st = ProbeIdle")
  case True
  then have "sus = fresh_suspects self now cands" "res = {}"
    using assms(2) by (auto simp: restart_answer_def Let_def)
  then show ?thesis by (simp add: state_wf_def)
next
  case False
  then have "sus = kept_suspects self now (round_suspects st) (round_resolved st) cands"
    "res = round_resolved st \<inter> set cands"
    using assms(2) by (auto simp: restart_answer_def Let_def)
  then show ?thesis
    using assms(1) kept_suspects_sorted [of "round_suspects st"] kept_suspects_keys [of "round_suspects st"]
    unfolding state_wf_def by simp blast
qed

lemma fire_probes_bt:
  "bt_sorted sus \<Longrightarrow> bt_sorted (fst (snd (fire_probes next_ms now c qs sus j)))
     \<and> fst ` set (fst (snd (fire_probes next_ms now c qs sus j))) = set qs \<union> fst ` set sus"
  by (induction qs arbitrary: sus j) (simp_all add: split_beta Let_def)

lemma fire_probes_frames:
  "fst (fire_probes next_ms now c qs sus j) = map (PeerProbe [] c) qs"
  by (induction qs arbitrary: sus j) (auto simp: split_beta Let_def)

lemma due_targets_keys: "set (due_targets now sus) \<subseteq> fst ` set sus"
  by (force simp: due_targets_def)

lemma set_suspects_proj [simp]:
  "st \<noteq> ProbeIdle \<Longrightarrow> round_suspects (set_suspects st sus) = sus"
  "round_resolved (set_suspects st sus) = round_resolved st"
  "round_epoch (set_suspects st sus) = round_epoch st"
  "probe_round (set_suspects st sus) = probe_round st"
  by (cases st; simp)+

lemma probe_round_None: "probe_round st = None \<longleftrightarrow> st = ProbeIdle"
  by (cases st) auto

text \<open>What a poll of a live round does, in one equation.\<close>

lemma probe_poll_live:
  assumes "probe_round (probe_state s) = Some c" "\<not> round_expired now (probe_state s)"
  obtains sus' j where
    "fire_probes next_ms now c (due_targets now (round_suspects (probe_state s)))
       (round_suspects (probe_state s)) (jitter s)
     = (map (PeerProbe [] c) (due_targets now (round_suspects (probe_state s))), sus', j)"
    "probe_poll next_ms now s =
       (s\<lparr>probe_state := set_suspects (probe_state s) sus', jitter := j\<rparr>,
        if due_targets now (round_suspects (probe_state s)) = [] then ProbeQuiet
        else EmitFrames (map (PeerProbe [] c) (due_targets now (round_suspects (probe_state s)))))"
proof -
  let ?sus = "round_suspects (probe_state s)"
  obtain fr sus' j where f: "fire_probes next_ms now c (due_targets now ?sus) ?sus (jitter s) = (fr, sus', j)"
    by (metis prod_cases3)
  moreover have "fr = map (PeerProbe [] c) (due_targets now ?sus)"
    using fire_probes_frames [of next_ms now c "due_targets now ?sus" ?sus "jitter s"] f by simp
  ultimately show ?thesis using that assms by (simp add: probe_poll_def Let_def)
qed

lemma probe_poll_wf: "probe_wf s \<Longrightarrow> probe_wf (fst (probe_poll next_ms now s))"
proof (cases "round_expired now (probe_state s) \<or> probe_state s = ProbeIdle")
  case False
  assume wf: "probe_wf s"
  from False obtain c where c: "probe_round (probe_state s) = Some c" by (cases "probe_state s") auto
  obtain sus' j where
    f: "fire_probes next_ms now c (due_targets now (round_suspects (probe_state s)))
         (round_suspects (probe_state s)) (jitter s)
       = (map (PeerProbe [] c) (due_targets now (round_suspects (probe_state s))), sus', j)"
    and p: "fst (probe_poll next_ms now s) = s\<lparr>probe_state := set_suspects (probe_state s) sus', jitter := j\<rparr>"
    by (rule probe_poll_live [OF c, of now next_ms]) (use False in auto)
  have "bt_sorted (round_suspects (probe_state s))" using wf by (simp add: probe_wf_def state_wf_def)
  from fire_probes_bt [OF this, of next_ms now c "due_targets now (round_suspects (probe_state s))" "jitter s"]
  have "bt_sorted sus' \<and> fst ` set sus' = fst ` set (round_suspects (probe_state s))"
    using due_targets_keys [of now "round_suspects (probe_state s)"] unfolding f by (simp add: Un_absorb1)
  then show ?thesis using wf False unfolding p by (simp add: probe_wf_def state_wf_def)
qed (auto simp: probe_poll_def probe_wf_def probe_round_None [symmetric])

lemma credit_wf:
  "state_wf self st \<Longrightarrow> q \<in> fst ` set (round_suspects st) \<Longrightarrow> state_wf self (credit q st)"
  by (cases st) (auto simp: state_wf_def AList.delete_eq sorted_wrt_map_filter)

lemma probe_step_wf:
  assumes "probe_wf s"
  shows "probe_wf (fst (probe_step next_ms ev s))"
proof (cases ev)
  case (HearSuspects c e g ps now)
  let ?s = "observe_primary_epoch e s"
  have opened: "probe_wf (fst (probe_poll next_ms now
      (?s\<lparr>probe_state := ProbingFor c e g (fresh_suspects (self_id s) now ps) {}\<rparr>)))"
    if "\<not> e < current_known_primary_epoch ?s"
    using that by (intro probe_poll_wf) (simp add: probe_wf_def state_wf_def observe_primary_epoch_def split: if_splits)
  show ?thesis
    using opened observe_wf [OF assms] HearSuspects
    by (simp add: handle_consensus_suspect_peers_def apply_suspect_peers_def Let_def observe_idem)
next
  case (HearRequest c e g ps now)
  let ?s = "observe_primary_epoch e s"
  obtain still since sus res where a: "restart_answer (self_id s) now ps (probe_state ?s) = (still, since, sus, res)"
    by (metis prod_cases4)
  have "state_wf (self_id s) (AwaitingRoundEnd c e g sus res d)" for d
    using restart_answer_wf [OF _ a] observe_wf [OF assms, of e] by (simp add: probe_wf_def)
  then show ?thesis using observe_wf [OF assms, of e] HearRequest a
    by (auto simp: handle_consensus_restart_request_def apply_restart_request_def Let_def observe_primary_epoch_def
        probe_wf_def split: if_splits)
next
  case (HearAck q c)
  then show ?thesis using assms credit_wf [of "self_id s" "probe_state s" q]
    by (cases "probe_state s") (auto simp: apply_probe_ack_def probe_wf_def)
next
  case (ProbeTick now)
  then show ?thesis using probe_poll_wf [OF assms] by simp
qed (use assms observe_wf in \<open>auto simp: apply_probe_request_def\<close>)

lemma probe_run_wf: "probe_wf s \<Longrightarrow> probe_wf (probe_run next_ms evs s)"
  by (induction evs arbitrary: s) (auto intro: probe_step_wf)

lemma with_jitter_wf: "probe_wf (with_jitter self j)"
  by (simp add: probe_wf_def with_jitter_def)

section \<open>Cadence of the probes\<close>

text \<open>Where the instants of the fired probes land, for any jitter source that keeps its contract.\<close>

context jitter_source
begin

lemma next_fire_window:
  "now + 4000 \<le> next_fire now (fst (next_ms j)) \<and> next_fire now (fst (next_ms j)) \<le> now + 6000"
  using next_ms_bound [of j] unfolding next_fire_def Let_def consensus_constants by auto

lemma fire_probes_window:
  "bt_sorted sus \<Longrightarrow> distinct qs \<Longrightarrow> map_of (fst (snd (fire_probes next_ms now c qs sus j))) q = Some t \<Longrightarrow>
     (q \<in> set qs \<longrightarrow> now + 4000 \<le> t \<and> t \<le> now + 6000) \<and> (q \<notin> set qs \<longrightarrow> map_of sus q = Some t)"
proof (induction qs arbitrary: sus j)
  case (Cons p qs)
  have "(q \<in> set qs \<longrightarrow> now + 4000 \<le> t \<and> t \<le> now + 6000)
      \<and> (q \<notin> set qs \<longrightarrow> map_of (bt_alter p (\<lambda>_. next_fire now (fst (next_ms j))) sus) q = Some t)"
    using Cons.prems Cons.IH [of "bt_alter p (\<lambda>_. next_fire now (fst (next_ms j))) sus" "snd (next_ms j)"]
    by (simp add: split_beta Let_def)
  with Cons.prems(1,2) next_fire_window [of now j] show ?case by (auto split: if_splits)
qed auto

lemma poll_cadence:
  assumes "bt_sorted (round_suspects (probe_state s))" "probe_round (probe_state s) = Some c"
    and "\<not> round_expired now (probe_state s)" "probe_poll next_ms now s = (s', out)"
    and "map_of (round_suspects (probe_state s)) q = Some t"
  shows "\<exists>t'. map_of (round_suspects (probe_state s')) q = Some t'
    \<and> (if t \<le> now then now + 4000 \<le> t' \<and> t' \<le> now + 6000 else t' = t)"
proof -
  let ?sus = "round_suspects (probe_state s)"
  obtain sus' j where
    f: "fire_probes next_ms now c (due_targets now ?sus) ?sus (jitter s)
        = (map (PeerProbe [] c) (due_targets now ?sus), sus', j)"
    and p: "s' = s\<lparr>probe_state := set_suspects (probe_state s) sus', jitter := j\<rparr>"
    by (rule probe_poll_live [OF assms(2,3), of next_ms]) (use assms(4) in auto)
  have d: "distinct (keys ?sus)" using assms(1) by (rule bt_sorted_distinct)
  then have "distinct (due_targets now ?sus)" by (simp add: due_targets_def distinct_map_filter)
  moreover have due: "q \<in> set (due_targets now ?sus) \<longleftrightarrow> t \<le> now"
    using assms(5) d by (force simp: due_targets_def map_of_eq_Some_iff image_iff dest: eq_key_imp_eq_value)
  moreover have "fst ` set sus' = fst ` set ?sus"
    using fire_probes_bt [OF assms(1), of next_ms now c "due_targets now ?sus" "jitter s"]
      due_targets_keys [of now ?sus] unfolding f by (simp add: Un_absorb1)
  then obtain t' where "map_of sus' q = Some t'"
    using assms(5) by (metis domD domI dom_map_of_conv_image_fst)
  moreover have "probe_state s \<noteq> ProbeIdle" using assms(2) by auto
  ultimately show ?thesis
    using fire_probes_window [OF assms(1), of "due_targets now ?sus" now c "jitter s" q t'] assms(5)
    unfolding f p by auto
qed

end

lemma probe_step_frames:
  assumes wf: "probe_wf s" and out: "snd (probe_step next_ms ev s) = EmitFrames fs"
  shows "fs \<noteq> [] \<and> (\<forall>fr \<in> set fs. stamp_probe_frame me fr \<noteq> None)
    \<and> (\<forall>c q. PeerProbe [] c q \<in> set fs \<longrightarrow> q \<noteq> self_id s)"
proof -
  have poll: "fs' \<noteq> [] \<and> (\<forall>fr \<in> set fs'. stamp_probe_frame me fr \<noteq> None)
      \<and> (\<forall>c q. PeerProbe [] c q \<in> set fs' \<longrightarrow> q \<noteq> self_id s')"
    if "probe_wf s'" "snd (probe_poll next_ms now s') = EmitFrames fs'" for s' now fs'
  proof -
    have live: "\<not> round_expired now (probe_state s')" "probe_state s' \<noteq> ProbeIdle"
      using that(2) by (auto simp: probe_poll_def)
    then obtain c where c: "probe_round (probe_state s') = Some c" by (cases "probe_state s'") auto
    have "fs' = map (PeerProbe [] c) (due_targets now (round_suspects (probe_state s')))"
      "due_targets now (round_suspects (probe_state s')) \<noteq> []"
      by (rule probe_poll_live [OF c live(1), of next_ms]; use that(2) in \<open>simp split: if_splits\<close>)+
    then show ?thesis
      using that(1) due_targets_keys [of now "round_suspects (probe_state s')"]
      by (auto simp: probe_wf_def state_wf_def)
  qed
  show ?thesis
  proof (cases ev)
    case (HearSuspects c e g ps now)
    let ?s = "(observe_primary_epoch e s)\<lparr>probe_state := ProbingFor c e g (fresh_suspects (self_id s) now ps) {}\<rparr>"
    have "snd (probe_poll next_ms now ?s) = EmitFrames fs" "\<not> e < current_known_primary_epoch (observe_primary_epoch e s)"
      using out HearSuspects
      by (auto simp: handle_consensus_suspect_peers_def apply_suspect_peers_def Let_def split: if_splits)
    moreover from this have "probe_wf ?s"
      by (simp add: probe_wf_def state_wf_def observe_primary_epoch_def split: if_splits)
    ultimately show ?thesis using poll [of ?s now fs] by simp
  next
    case (ProbeTick now)
    then show ?thesis using poll [OF wf] out by simp
  qed (use out in \<open>auto simp: handle_consensus_restart_request_def apply_restart_request_def apply_probe_ack_def
      apply_probe_request_def Let_def split_beta split: if_splits option.splits\<close>)
qed

lemma probe_step_self [simp]: "self_id (fst (probe_step next_ms ev s)) = self_id s"
  by (cases ev)
    (auto simp: handle_consensus_suspect_peers_def apply_suspect_peers_def handle_consensus_restart_request_def
      apply_restart_request_def apply_probe_ack_def apply_probe_request_def probe_poll_def Let_def split_beta
      split: option.split)

lemma probe_run_self [simp]: "self_id (probe_run next_ms evs s) = self_id s"
  by (induction evs arbitrary: s) auto

lemma map_filter_total: "(\<forall>x \<in> set xs. f x \<noteq> None) \<Longrightarrow> length (List.map_filter f xs) = length xs"
  by (induction xs) (auto simp: List.map_filter_simps)

text \<open>
  C35: The prober is well formed in every reachable state: its suspects are a map without the node
  itself and without the peers it has already heard, and its round belongs to the newest known
  primary. Every step that emits something emits frames the seam can address, so that none is
  dropped, and the node never probes itself.
\<close>

theorem prober_well_formed:
  "probe_wf (probe_run next_ms evs (with_jitter self j))
   \<and> (snd (probe_step next_ms ev (probe_run next_ms evs (with_jitter self j))) = EmitFrames fs \<longrightarrow>
        fs \<noteq> [] \<and> length (dispatch_consensus_output self (EmitFrames fs)) = length fs
        \<and> (\<forall>c. PeerProbe [] c self \<notin> set fs))"
proof -
  let ?s = "probe_run next_ms evs (with_jitter self j)"
  have wf: "probe_wf ?s" by (intro probe_run_wf with_jitter_wf)
  moreover have "self_id ?s = self" by (simp add: with_jitter_def)
  ultimately show ?thesis using probe_step_frames [OF wf, of next_ms ev fs self] by (auto intro: map_filter_total)
qed

theorem prober_well_formed_witness:
  "snd (probe_step fixed_next_ms (ProbeTick 9000)
      (probe_run fixed_next_ms [HearSuspects 1 1 0 [''x'', ''me''] 0] (with_jitter ''me'' 0)))
     = EmitFrames [PeerProbe [] 1 ''x'']
   \<and> length (dispatch_consensus_output ''me'' (EmitFrames [PeerProbe [] 1 ''x''])) = 1"
proof -
  have "snd (probe_step fixed_next_ms (ProbeTick 9000)
      (probe_run fixed_next_ms [HearSuspects 1 1 0 [''x'', ''me''] 0] (with_jitter ''me'' 0)))
     = EmitFrames [PeerProbe [] 1 ''x'']"
    by (simp add: handle_consensus_suspect_peers_def apply_suspect_peers_def Let_def observe_primary_epoch_def
        with_jitter_def fresh_suspects_def probe_poll_def due_targets_def fixed_next_ms_def next_fire_def
        consensus_constants)
  with prober_well_formed [of fixed_next_ms "[HearSuspects 1 1 0 [''x'', ''me''] 0]" "''me''" 0 "ProbeTick 9000"
      "[PeerProbe [] 1 ''x'']"]
  show ?thesis by simp
qed

text \<open>
  C36: The cadence of the probes with the jitter source of the code: while a round is live, a poll
  leaves every suspect in the schedule; one that was due is fired again between four and six
  seconds later, and one that was not due keeps its instant.
\<close>

theorem probe_cadence:
  "probe_wf s \<Longrightarrow> probe_round (probe_state s) = Some c \<Longrightarrow> \<not> round_expired now (probe_state s) \<Longrightarrow>
   probe_poll xorshift_next_ms now s = (s', out) \<Longrightarrow> map_of (round_suspects (probe_state s)) q = Some t \<Longrightarrow>
     \<exists>t'. map_of (round_suspects (probe_state s')) q = Some t'
       \<and> (if t \<le> now then now + 4000 \<le> t' \<and> t' \<le> now + 6000 else t' = t)"
  by (rule xorshift.poll_cadence) (simp_all add: probe_wf_def state_wf_def)

theorem probe_cadence_witness:
  "\<exists>t'. map_of (round_suspects (probe_state (fst (probe_poll xorshift_next_ms 10
        \<lparr>probe_state = ProbingFor 1 1 0 [(''x'', 5)] {}, self_id = ''me'', current_known_primary_epoch = 1,
         jitter = xorshift_new 0\<rparr>)))) ''x'' = Some t'
     \<and> (if 5 \<le> (10 :: nat) then 10 + 4000 \<le> t' \<and> t' \<le> 10 + 6000 else t' = 5)"
  using probe_cadence [of "\<lparr>probe_state = ProbingFor 1 1 0 [(''x'', 5)] {}, self_id = ''me'',
      current_known_primary_epoch = 1, jitter = xorshift_new 0\<rparr>" 1 10, OF _ _ _ prod.collapse [symmetric], of "''x''" 5]
  by (simp add: probe_wf_def state_wf_def)

end
