(* ===== verification/Consensus_Round.thy ===== *)
theory Consensus_Round
  imports Consensus_Primary Consensus_Secondary
begin

text \<open>
  The two halves of the respawn consensus together: what a secondary has heard during a round
  reaches the verdict of the primary. The prober's record of a round is exactly the set of
  suspects whose acknowledgement arrived (\<open>in_round_exact\<close>), its answer to the commit frame
  retracts exactly those, and a retraction is final on the primary (\<open>acked_peer_spared\<close>).
  The last theorem records that the prober has no end of its own for a round that the primary
  gives up.
\<close>

section \<open>What the prober knows\<close>

text \<open>The events that leave a prober in its round.\<close>

fun in_round_event :: "nat \<Rightarrow> probe_event \<Rightarrow> bool" where
  "in_round_event e (HearAck q c) = True"
| "in_round_event e (HearProbe q c p) = True"
| "in_round_event e (ProbeTick now) = True"
| "in_round_event e (ObserveEpoch e') = (e' \<le> e)"
| "in_round_event e _ = False"

lemma in_round_step:
  assumes "probe_wf s" "probe_state s = ProbingFor c e g sus res" "in_round_event e ev"
  shows "\<exists>sus'. probe_state (fst (probe_step next_ms ev s))
      = ProbingFor c e g sus' (res \<union> {q \<in> fst ` set sus. ev = HearAck q c})
    \<and> fst ` set sus' = fst ` set sus - {q. ev = HearAck q c}"
proof (cases ev)
  case (HearAck q c')
  then show ?thesis using assms(1,2)
    by (auto simp: apply_probe_ack_def probe_wf_def state_wf_def simp del: set_map)
next
  case (ProbeTick now)
  have r: "probe_round (probe_state s) = Some c" "\<not> round_expired now (probe_state s)"
    "bt_sorted (round_suspects (probe_state s))" using assms by (auto simp: probe_wf_def state_wf_def)
  obtain sus' j where
    f: "fire_probes next_ms now c (due_targets now sus) sus (jitter s)
        = (map (PeerProbe [] c) (due_targets now sus), sus', j)"
    and p: "fst (probe_poll next_ms now s) = s\<lparr>probe_state := ProbingFor c e g sus' res, jitter := j\<rparr>"
    by (rule probe_poll_live [OF r(1,2), of next_ms]) (use assms(2) in auto)
  have "fst ` set sus' = fst ` set sus"
    using fire_probes_bt [of sus next_ms now c "due_targets now sus" "jitter s"] r(3) assms(2)
      due_targets_keys [of now sus] unfolding f by (simp add: Un_absorb1)
  then show ?thesis using p ProbeTick by simp
qed (use assms in \<open>auto simp: apply_probe_request_def observe_primary_epoch_def probe_wf_def\<close>)

lemma in_round_exact:
  assumes "probe_wf s" "probe_state s = ProbingFor c e g sus res" "\<forall>ev \<in> set evs. in_round_event e ev"
  shows "\<exists>sus'. probe_state (probe_run next_ms evs s)
      = ProbingFor c e g sus' (res \<union> {q \<in> fst ` set sus. HearAck q c \<in> set evs})"
  using assms
proof (induction evs arbitrary: s sus res)
  case (Cons ev evs)
  let ?s = "fst (probe_step next_ms ev s)"
  from Cons.prems obtain sus' where st: "probe_state ?s
      = ProbingFor c e g sus' (res \<union> {q \<in> fst ` set sus. ev = HearAck q c})"
    "fst ` set sus' = fst ` set sus - {q. ev = HearAck q c}"
    using in_round_step [OF Cons.prems(1,2), of ev next_ms] by auto
  from Cons.IH [OF probe_step_wf [OF Cons.prems(1)] st(1)] Cons.prems(3) obtain sus'' where
    "probe_state (probe_run next_ms evs ?s) = ProbingFor c e g sus''
      (res \<union> {q \<in> fst ` set sus. ev = HearAck q c} \<union> {q \<in> fst ` set sus'. HearAck q c \<in> set evs})" by auto
  moreover have "res \<union> {q \<in> fst ` set sus. ev = HearAck q c} \<union> {q \<in> fst ` set sus'. HearAck q c \<in> set evs}
    = res \<union> {q \<in> fst ` set sus. HearAck q c \<in> set (ev # evs)}"
    unfolding st(2) by auto
  ultimately show ?case by (metis probe_run.simps(2))
qed auto

section \<open>A retraction is final\<close>

text \<open>The suspects of a round only shrink, and a round that has ended never comes back.\<close>

definition round_bounded :: "nat \<Rightarrow> string set \<Rightarrow> consensus_fsm \<Rightarrow> bool" where
  "round_bounded c X f \<longleftrightarrow>
     c \<le> fsm_ids f \<and> (current_consensus_id f = Some c \<longrightarrow> in_flight_suspects f \<subseteq> X)"

lemma poll_state_bounded:
  "(state_round (fst (poll_state now mesh st)) = Some c \<longrightarrow>
      state_round st = Some c \<and> state_suspects (fst (poll_state now mesh st)) \<subseteq> state_suspects st)"
  by (cases st) (auto simp: Let_def split: if_splits)

lemma round_bounded_step: "round_bounded c X f \<Longrightarrow> round_bounded c X (fst (consensus_step ev f))"
proof (cases "\<exists>now mesh. ev = Poll now mesh")
  case True
  assume b: "round_bounded c X f"
  from True obtain now mesh where ev: "ev = Poll now mesh" by blast
  show ?thesis using b poll_state_bounded [of now mesh "fsm_state f" c] ev
    by (auto simp: round_bounded_def current_consensus_id_def in_flight_suspects_def consensus_poll_def split_beta)
next
  case False
  assume "round_bounded c X f"
  then show ?thesis using False
    by (cases ev; cases "fsm_state f")
      (auto simp: round_bounded_def current_consensus_id_def in_flight_suspects_def consensus_op_defs Let_def)
qed

lemma round_bounded_run: "round_bounded c X f \<Longrightarrow> round_bounded c X (consensus_run evs f)"
  by (induction evs arbitrary: f) (auto intro: round_bounded_step)

lemma restart_within_suspects:
  assumes "snd (consensus_step ev f) = RestartPeers T"
  shows "\<exists>c. current_consensus_id f = Some c \<and> T \<subseteq> in_flight_suspects f"
proof -
  from assms obtain now mesh where "snd (consensus_poll now mesh f) = RestartPeers T" by (cases ev) auto
  from poll_restarts [OF this] show ?thesis
    by (auto simp: current_consensus_id_def in_flight_suspects_def retain_confirmed_iff)
qed

lemma restart_request_answer:
  assumes "probe_state s = ProbingFor c' e g sus res" "current_known_primary_epoch s = e"
  shows "snd (probe_step next_ms (HearRequest c e g' cands now) s) =
    EmitFrames [RestartConfirm [] c (self_id s) (still_votes (self_id s) res cands) (since_votes (self_id s) res cands)]"
  using assms
  by (simp add: handle_consensus_restart_request_def apply_restart_request_def observe_primary_epoch_def
      restart_answer_def Let_def)

text \<open>
  C7: An acknowledgement saves the peer. A secondary that opened the round as a prober and has
  received the suspect's acknowledgement answers the commit frame with a retraction of that
  suspect; and once the primary has taken this answer from one of its expected responders,
  no continuation of the round restarts the peer.
\<close>

theorem acked_peer_spared:
  assumes "probe_wf s" "probe_state s = ProbingFor c e g sus {}" "p \<in> fst ` set sus"
    and "\<forall>ev \<in> set acks. in_round_event e ev" "HearAck p c \<in> set acks" "p \<in> set cands"
    and "fsm_state f = CollectingConfirmations c S e g R rc d k" "c \<le> fsm_ids f" "self_id s \<in> R"
  shows "\<exists>still since.
    snd (probe_step next_ms (HearRequest c e g cands now) (probe_run next_ms acks s))
      = EmitFrames [RestartConfirm [] c (self_id s) still since]
    \<and> p \<notin> set still \<and> p \<in> set since
    \<and> (\<forall>evs ev T. current_consensus_id (consensus_run evs (apply_confirm c (self_id s) still since f)) = Some c \<longrightarrow>
        snd (consensus_step ev (consensus_run evs (apply_confirm c (self_id s) still since f))) = RestartPeers T \<longrightarrow>
        p \<notin> T)"
proof -
  let ?s = "probe_run next_ms acks s"
  obtain sus' where st: "probe_state ?s = ProbingFor c e g sus' {q \<in> fst ` set sus. HearAck q c \<in> set acks}"
    using in_round_exact [OF assms(1,2,4)] by auto
  let ?res = "{q \<in> fst ` set sus. HearAck q c \<in> set acks}"
  let ?still = "still_votes (self_id s) ?res cands" and ?since = "since_votes (self_id s) ?res cands"
  have wf: "probe_wf ?s" using assms(1) by (rule probe_run_wf)
  then have "current_known_primary_epoch ?s = e" using st by (simp add: probe_wf_def)
  then have out: "snd (probe_step next_ms (HearRequest c e g cands now) ?s)
      = EmitFrames [RestartConfirm [] c (self_id s) ?still ?since]"
    using restart_request_answer [OF st] by simp
  have "self_id s \<notin> fst ` set sus" using assms(1,2) by (simp add: probe_wf_def state_wf_def)
  then have "p \<noteq> self_id s" using assms(3) by blast
  then have votes: "p \<notin> set ?still" "p \<in> set ?since"
    using assms(3,5,6) by (auto simp: still_votes_def since_votes_def)
  have "round_bounded c (S - set ?since) (apply_confirm c (self_id s) ?still ?since f)"
    using assms(7-9) by (simp add: round_bounded_def apply_confirm_def in_flight_suspects_def)
  then have "p \<notin> T"
    if "current_consensus_id (consensus_run evs (apply_confirm c (self_id s) ?still ?since f)) = Some c"
      "snd (consensus_step ev (consensus_run evs (apply_confirm c (self_id s) ?still ?since f))) = RestartPeers T"
    for evs ev T
    using round_bounded_run restart_within_suspects [OF that(2)] that(1) votes(2)
    by (fastforce simp: round_bounded_def)
  with out votes show ?thesis by blast
qed

theorem acked_peer_spared_witness:
  "\<exists>still since.
    snd (probe_step fixed_next_ms (HearRequest 1 1 0 [''x''] 9)
        (probe_run fixed_next_ms [HearAck ''x'' 1]
          \<lparr>probe_state = ProbingFor 1 1 0 [(''x'', 5)] {}, self_id = ''a'', current_known_primary_epoch = 1, jitter = 0\<rparr>))
      = EmitFrames [RestartConfirm [] 1 ''a'' still since]
    \<and> ''x'' \<notin> set still \<and> ''x'' \<in> set since"
  using acked_peer_spared [of "\<lparr>probe_state = ProbingFor 1 1 0 [(''x'', 5)] {}, self_id = ''a'',
      current_known_primary_epoch = 1, jitter = 0\<rparr>" 1 1 0 "[(''x'', 5)]" "''x''" "[HearAck ''x'' 1]" "[''x'']"
      "\<lparr>fsm_state = CollectingConfirmations 1 {''x''} 1 0 {''a''} [] 5000 1, fsm_ids = 1\<rparr>"
      "{''x''}" "{''a''}" "[]" 5000 1 fixed_next_ms 9]
  by (auto simp: probe_wf_def state_wf_def)

text \<open>
  A prober never gives up a round by itself: as long as nothing but the clock moves, a suspect
  that has not answered stays suspected and is probed again at every poll that finds it due,
  however long ago the primary has ended the round.
\<close>

theorem prober_never_stops:
  assumes "probe_wf s" "probe_state s = ProbingFor c e g sus res" "(q, t) \<in> set sus"
  shows "\<exists>sus'. probe_state (probe_run next_ms (map ProbeTick nows) s) = ProbingFor c e g sus' res
    \<and> (\<exists>t'. (q, t') \<in> set sus' \<and> (\<forall>now \<ge> t'. \<exists>fs.
         snd (probe_poll next_ms now (probe_run next_ms (map ProbeTick nows) s)) = EmitFrames fs
         \<and> PeerProbe [] c q \<in> set fs))"
proof -
  let ?s = "probe_run next_ms (map ProbeTick nows) s"
  have inv: "\<exists>sus'. probe_state (probe_run next_ms (map ProbeTick nows) s') = ProbingFor c e g sus' res
      \<and> q \<in> fst ` set sus'"
    if "probe_wf s'" "probe_state s' = ProbingFor c e g sus0 res" "q \<in> fst ` set sus0" for s' sus0
    using that
  proof (induction nows arbitrary: s' sus0)
    case (Cons now nows)
    from in_round_step [OF Cons.prems(1,2), of "ProbeTick now" next_ms] obtain sus1 where
      st: "probe_state (fst (probe_step next_ms (ProbeTick now) s')) = ProbingFor c e g sus1 res"
      and ks: "fst ` set sus1 = fst ` set sus0" by auto
    from Cons.prems(3) have "q \<in> fst ` set sus1" by (simp only: ks)
    from Cons.IH [OF probe_step_wf [OF Cons.prems(1)] st this] show ?case by simp
  qed auto
  from inv [OF assms(1,2)] assms(3) obtain sus' where
    st: "probe_state ?s = ProbingFor c e g sus' res" and "q \<in> fst ` set sus'" by force
  then obtain t' where t': "(q, t') \<in> set sus'" by force
  have "\<exists>fs. snd (probe_poll next_ms now ?s) = EmitFrames fs \<and> PeerProbe [] c q \<in> set fs" if "t' \<le> now" for now
  proof -
    have "q \<in> set (due_targets now sus')" using t' that by (force simp: due_targets_def)
    then have due: "due_targets now sus' \<noteq> []"
      "PeerProbe [] c q \<in> set (map (PeerProbe [] c) (due_targets now sus'))" by auto
    have live: "probe_round (probe_state ?s) = Some c" "\<not> round_expired now (probe_state ?s)" using st by auto
    have "snd (probe_poll next_ms now ?s) = EmitFrames (map (PeerProbe [] c) (due_targets now sus'))"
      by (rule probe_poll_live [OF live, of next_ms]) (simp add: st due(1))
    with due(2) show ?thesis by blast
  qed
  with st t' show ?thesis by blast
qed

theorem prober_never_stops_witness:
  "\<exists>sus'. probe_state (probe_run fixed_next_ms (map ProbeTick [6000, 12000, 3600000])
        \<lparr>probe_state = ProbingFor 1 1 0 [(''x'', 5)] {}, self_id = ''a'', current_known_primary_epoch = 1, jitter = 0\<rparr>)
      = ProbingFor 1 1 0 sus' {}"
  using prober_never_stops [of "\<lparr>probe_state = ProbingFor 1 1 0 [(''x'', 5)] {}, self_id = ''a'',
      current_known_primary_epoch = 1, jitter = 0\<rparr>" 1 1 0 "[(''x'', 5)]" "{}" "''x''" 5
      fixed_next_ms "[6000, 12000, 3600000]"]
  by (auto simp: probe_wf_def state_wf_def)

end
