(* ===== verification/Link_Health.thy ===== *)
theory Link_Health
  imports Consensus_Frames
begin

text \<open>
  Two small monitors of a secondary: \<open>OwnTickHealth\<close> (\<open>own_tick_health.rs\<close>), which notices that
  the node itself was stalled and must not read its own stall as the silence of a peer, and
  \<open>PrimaryLink\<close> (\<open>secondary/primary_link.rs\<close>), which paces the requests to the primary and counts
  the failures of the link. Instants and durations are milliseconds; the difference of two
  instants is 0 when the first is not later. The warning throttle only affects logging and is left
  out.
\<close>

section \<open>Own tick health\<close>

definition STARVATION_TICK_MULTIPLE :: nat where "STARVATION_TICK_MULTIPLE = 3"

record own_tick_health =
  starvation_threshold :: nat
  chronic_after :: "nat option"
  last_tick_at :: "instant option"
  trustworthy_since :: "instant option"
  judged_elapsed :: nat
  starved_streak_since :: "instant option"
  chronic :: bool

definition own_tick_build :: "nat \<Rightarrow> nat option \<Rightarrow> own_tick_health" where
  "own_tick_build cadence bound =
     \<lparr> starvation_threshold = cadence * STARVATION_TICK_MULTIPLE, chronic_after = bound, last_tick_at = None,
       trustworthy_since = None, judged_elapsed = 0, starved_streak_since = None, chronic = False \<rparr>"

definition inter_tick_gap_starved :: "instant option \<Rightarrow> instant \<Rightarrow> nat \<Rightarrow> bool" where
  "inter_tick_gap_starved prev now threshold =
     (case prev of Some t \<Rightarrow> now - t > threshold | None \<Rightarrow> False)"

text \<open>The result is whether silence judgments are to be deferred at this tick.\<close>

definition observe_tick :: "instant \<Rightarrow> own_tick_health \<Rightarrow> bool \<times> own_tick_health" where
  "observe_tick now h =
     (let starved = inter_tick_gap_starved (last_tick_at h) now (starvation_threshold h);
          gap = (case last_tick_at h of Some t \<Rightarrow> min (now - t) (starvation_threshold h) | None \<Rightarrow> 0);
          h1 = h\<lparr>last_tick_at := Some now, judged_elapsed := judged_elapsed h + gap\<rparr>
      in if \<not> starved then (False, h1\<lparr>starved_streak_since := None, chronic := False\<rparr>)
         else let since = (case starved_streak_since h of Some t \<Rightarrow> t | None \<Rightarrow> now);
                  is_chronic = (case chronic_after h of Some bound \<Rightarrow> now - since > bound | None \<Rightarrow> False)
              in (\<not> is_chronic,
                  h1\<lparr>starved_streak_since := Some since, chronic := is_chronic,
                     trustworthy_since := (if is_chronic then trustworthy_since h else Some now)\<rparr>))"

definition trustworthy_anchor :: "own_tick_health \<Rightarrow> instant \<Rightarrow> instant" where
  "trustworthy_anchor h anchor = (case trustworthy_since h of Some floor \<Rightarrow> max anchor floor | None \<Rightarrow> anchor)"

text \<open>
  A tick that defers its judgment leaves no silence to judge: measured from the trustworthy
  anchor, no event of the past is older than this tick.
\<close>

lemma deferred_tick_rebases:
  "observe_tick now h = (True, h') \<Longrightarrow> now - trustworthy_anchor h' anchor = 0"
  by (auto simp: observe_tick_def trustworthy_anchor_def Let_def split: if_splits)

lemma judged_elapsed_bounded:
  "observe_tick now h = (b, h') \<Longrightarrow> judged_elapsed h' \<le> judged_elapsed h + starvation_threshold h"
  by (auto simp: observe_tick_def Let_def split: if_splits option.splits)

section \<open>The link to the primary\<close>

definition INITIAL_BACKOFF :: nat where "INITIAL_BACKOFF = 1000"
definition MAX_BACKOFF :: nat where "MAX_BACKOFF = 60000"

record primary_link =
  request_backoff :: "worker_id \<rightharpoonup> nat"
  last_request_time :: "worker_id \<rightharpoonup> instant"
  first_failure_at :: "instant option"
  failure_count :: nat
  failure_threshold :: nat
  failure_window :: nat
  failover_reconfirm :: "worker_id set option"
  last_breach_report :: "instant option"

definition with_failover_threshold :: "nat \<Rightarrow> nat \<Rightarrow> primary_link" where
  "with_failover_threshold threshold window =
     \<lparr> request_backoff = Map.empty, last_request_time = Map.empty, first_failure_at = None, failure_count = 0,
       failure_threshold = threshold, failure_window = window, failover_reconfirm = None,
       last_breach_report = None \<rparr>"

definition backoff_of :: "worker_id \<Rightarrow> primary_link \<Rightarrow> nat" where
  "backoff_of w l = (case request_backoff l w of Some b \<Rightarrow> b | None \<Rightarrow> INITIAL_BACKOFF)"

definition should_request_now :: "instant \<Rightarrow> worker_id \<Rightarrow> primary_link \<Rightarrow> bool" where
  "should_request_now now w l =
     (case last_request_time l w of Some t \<Rightarrow> now - t \<ge> backoff_of w l | None \<Rightarrow> True)"

definition note_request_sent :: "instant \<Rightarrow> worker_id \<Rightarrow> primary_link \<Rightarrow> primary_link" where
  "note_request_sent now w l =
     l\<lparr>last_request_time := (last_request_time l)(w \<mapsto> now),
       request_backoff := (request_backoff l)(w \<mapsto> min (backoff_of w l * 2) MAX_BACKOFF),
       failover_reconfirm := map_option (insert w) (failover_reconfirm l)\<rparr>"

definition reset_backoff :: "worker_id \<Rightarrow> primary_link \<Rightarrow> primary_link" where
  "reset_backoff w l =
     l\<lparr>request_backoff := (request_backoff l)(w := None), last_request_time := (last_request_time l)(w := None)\<rparr>"

definition reset_all_backoff :: "primary_link \<Rightarrow> primary_link" where
  "reset_all_backoff l = l\<lparr>request_backoff := Map.empty, last_request_time := Map.empty\<rparr>"

definition arm_failover_reconfirm :: "primary_link \<Rightarrow> primary_link" where
  "arm_failover_reconfirm l = l\<lparr>failover_reconfirm := Some {}\<rparr>"

definition periodic_repoll_pending :: "worker_id list \<Rightarrow> primary_link \<Rightarrow> bool \<times> primary_link" where
  "periodic_repoll_pending idle l =
     (case failover_reconfirm l of
        None \<Rightarrow> (False, l)
      | Some confirmed \<Rightarrow>
          (let any_unconfirmed = (\<exists>w \<in> set idle. w \<notin> confirmed)
           in (any_unconfirmed, if any_unconfirmed then l else l\<lparr>failover_reconfirm := None\<rparr>)))"

definition should_arm_failover :: "instant \<Rightarrow> primary_link \<Rightarrow> bool" where
  "should_arm_failover now l =
     (case first_failure_at l of
        None \<Rightarrow> False
      | Some t \<Rightarrow> failure_count l \<ge> failure_threshold l \<or> now - t \<ge> failure_window l)"

text \<open>The result is whether the breach is to be reported. The count saturates at \<open>2\<^sup>3\<^sup>2 - 1\<close>.\<close>

definition record_recv_failure :: "instant \<Rightarrow> primary_link \<Rightarrow> bool \<times> primary_link" where
  "record_recv_failure now l =
     (let l1 = l\<lparr>first_failure_at := (case first_failure_at l of None \<Rightarrow> Some now | Some t \<Rightarrow> Some t),
                 failure_count := min (failure_count l + 1) (2 ^ 32 - 1)\<rparr>
      in if \<not> should_arm_failover now l1 then (False, l1)
         else let due = (case last_breach_report l1 of None \<Rightarrow> True | Some t \<Rightarrow> now - t \<ge> failure_window l1)
              in (due, if due then l1\<lparr>last_breach_report := Some now\<rparr> else l1))"

definition record_recv_success :: "primary_link \<Rightarrow> primary_link" where
  "record_recv_success l = l\<lparr>first_failure_at := None, failure_count := 0, last_breach_report := None\<rparr>"

lemma recv_success_disarms: "\<not> should_arm_failover now (record_recv_success l)"
  by (simp add: should_arm_failover_def record_recv_success_def)

lemma request_then_wait:
  "0 < backoff_of w l \<Longrightarrow> \<not> should_request_now now w (note_request_sent now w l)"
  by (simp add: should_request_now_def note_request_sent_def backoff_of_def MAX_BACKOFF_def)

lemma backoff_capped: "backoff_of w l \<le> MAX_BACKOFF \<Longrightarrow> backoff_of w (note_request_sent now w l) \<le> MAX_BACKOFF"
  by (simp add: note_request_sent_def backoff_of_def)

end
