(* ===== verification/Election.thy ===== *)
theory Election
  imports Link_Health
begin

text \<open>
  The failover election of the secondaries (\<open>secondary/election/mod.rs\<close> and \<open>coordinator.rs\<close>).
  A secondary that finds the primary dead asks its peers, and once a quorum agrees the peer with
  the lowest live id campaigns; whoever collects a quorum of confirmations is promoted.

  The coordinator is the record \<open>elector\<close>: the configuration, the two possible holders of the
  election sub-state (the operational state and the set-up election), and what the election reads
  of its surroundings: the replicated primary and observers, the transport's membership and routes,
  the beacons, and the latches. Ages that the code carries as seconds in floating point are
  milliseconds. Frames lose their routing target and timestamp.
\<close>

section \<open>State\<close>

datatype election_frame =
    TimeoutQuery string string
  | TimeoutResponse string string "nat option"
  | PromotionVote string string nat
  | PromotionConfirm string string nat

datatype election_state =
    ElectionNormal
  | Suspecting instant "(string \<times> nat option) list"
  | Candidate nat "string set" instant
  | Voting nat string
  | Promoted

record election_holder =
  election :: election_state
  primary_last_seen :: "instant option"
  peer_keepalives :: "(string \<times> instant) list"
  link :: primary_link

record elector =
  me :: string
  keepalive_interval :: nat
  keepalive_miss_threshold :: nat
  primary_silence_backstop :: nat
  unconfigured_deadline :: nat
  link_failure_threshold :: nat
  link_failure_window :: nat
  operational :: "election_holder option"
  setup_election :: "election_holder option"
  own_tick :: own_tick_health
  current_primary :: "string option"
  observers :: "string set"
  alive_secondary_members :: "string list"
  run_terminal_latched :: bool
  has_peer :: "string \<Rightarrow> bool"
  has_route :: "string \<Rightarrow> bool"
  beacon_last_seen :: "string \<Rightarrow> instant option"
  mesh_degraded :: bool
  deposed_primary :: bool
  last_primary_change_at :: "instant option"
  fatal_exit :: bool

record election_actions =
  broadcast :: "election_frame list"
  promoted :: bool

definition ELECTION_SETTLE_KEEPALIVE_MULTIPLE :: nat where "ELECTION_SETTLE_KEEPALIVE_MULTIPLE = 3"

text \<open>The accessors: the operational holder if there is one, else the one of the set-up election.\<close>

definition holder_of :: "elector \<Rightarrow> election_holder option" where
  "holder_of x = (case operational x of Some h \<Rightarrow> Some h | None \<Rightarrow> setup_election x)"

definition update_holder :: "(election_holder \<Rightarrow> election_holder) \<Rightarrow> elector \<Rightarrow> elector" where
  "update_holder f x =
     (if operational x \<noteq> None then x\<lparr>operational := map_option f (operational x)\<rparr>
      else x\<lparr>setup_election := map_option f (setup_election x)\<rparr>)"

definition set_election :: "election_state \<Rightarrow> elector \<Rightarrow> elector" where
  "set_election s = update_holder (\<lambda>h. h\<lparr>election := s\<rparr>)"

definition election_state_of :: "elector \<Rightarrow> election_state option" where
  "election_state_of x = map_option election (holder_of x)"

definition election_last_seen :: "elector \<Rightarrow> instant option" where
  "election_last_seen x = Option.bind (holder_of x) primary_last_seen"

definition next_round :: "election_state \<Rightarrow> nat" where
  "next_round s = (case s of Voting r c \<Rightarrow> r + 1 | Candidate r cs t \<Rightarrow> r + 1 | _ \<Rightarrow> 1)"

definition push_timeout_query :: "string \<Rightarrow> string option \<Rightarrow> election_frame list" where
  "push_timeout_query sender node = (case node of None \<Rightarrow> [] | Some q \<Rightarrow> [TimeoutQuery sender q])"

section \<open>Evidence\<close>

definition death_deadline :: "elector \<Rightarrow> nat" where
  "death_deadline x = keepalive_interval x * keepalive_miss_threshold x"

definition node_beacon_fresh :: "instant \<Rightarrow> elector \<Rightarrow> string \<Rightarrow> bool" where
  "node_beacon_fresh now x q =
     (case beacon_last_seen x q of
        None \<Rightarrow> False
      | Some t \<Rightarrow> now - trustworthy_anchor (own_tick x) t \<le> death_deadline x)"

definition primary_beacon_fresh :: "instant \<Rightarrow> elector \<Rightarrow> bool" where
  "primary_beacon_fresh now x = (case current_primary x of None \<Rightarrow> False | Some p \<Rightarrow> node_beacon_fresh now x p)"

definition primary_departed_membership :: "elector \<Rightarrow> bool" where
  "primary_departed_membership x \<longleftrightarrow>
     election_last_seen x \<noteq> None
     \<and> (case current_primary x of None \<Rightarrow> False | Some p \<Rightarrow> p \<noteq> me x \<and> \<not> has_route x p)"

definition keepalive_of :: "elector \<Rightarrow> string \<Rightarrow> instant option" where
  "keepalive_of x q = (case holder_of x of None \<Rightarrow> None | Some h \<Rightarrow> map_of (peer_keepalives h) q)"

definition peer_death_observed :: "instant \<Rightarrow> elector \<Rightarrow> string \<Rightarrow> bool" where
  "peer_death_observed now x q \<longleftrightarrow>
     keepalive_of x q \<noteq> None \<and> q \<noteq> me x \<and> \<not> has_route x q \<and> \<not> node_beacon_fresh now x q"

definition queried_node_liveness_age :: "instant \<Rightarrow> elector \<Rightarrow> string \<Rightarrow> nat option" where
  "queried_node_liveness_age now x q =
     (if q = me x then Some 0
      else if peer_death_observed now x q then None
      else map_option (\<lambda>t. now - t) (keepalive_of x q))"

definition live_peer_ids :: "elector \<Rightarrow> string list" where
  "live_peer_ids x =
     (case holder_of x of
        None \<Rightarrow> []
      | Some h \<Rightarrow> filter (\<lambda>q. Some q \<noteq> current_primary x \<and> has_peer x q) (keys (peer_keepalives h)))"

definition current_primary_in_quorum :: "elector \<Rightarrow> bool" where
  "current_primary_in_quorum x =
     (case current_primary x of None \<Rightarrow> False | Some p \<Rightarrow> p \<noteq> me x \<and> has_peer x p)"

definition failover_quorum_peer_count :: "elector \<Rightarrow> nat" where
  "failover_quorum_peer_count x = length (live_peer_ids x) + (if current_primary_in_quorum x then 1 else 0)"

section \<open>The tick\<close>

definition need_election :: "instant \<Rightarrow> elector \<Rightarrow> bool" where
  "need_election now x \<longleftrightarrow>
     (let within_settle_window = (case last_primary_change_at x of
            None \<Rightarrow> False
          | Some t \<Rightarrow> now - trustworthy_anchor (own_tick x) t
                     < keepalive_interval x * ELECTION_SETTLE_KEEPALIVE_MULTIPLE);
          link_dead = (case holder_of x of None \<Rightarrow> False | Some h \<Rightarrow> should_arm_failover now (link h));
          primary_silence_exceeded = (case election_last_seen x of
            None \<Rightarrow> False
          | Some t \<Rightarrow> now - trustworthy_anchor (own_tick x) t > primary_silence_backstop x)
      in (link_dead \<or> primary_silence_exceeded \<or> primary_departed_membership x)
         \<and> \<not> primary_beacon_fresh now x \<and> \<not> run_terminal_latched x \<and> \<not> within_settle_window)"

definition no_actions :: election_actions where
  "no_actions = \<lparr> broadcast = [], promoted = False \<rparr>"

text \<open>Peers whose last word of the primary is older than the deadline, or who have none, and us.\<close>

definition agreeing :: "elector \<Rightarrow> (string \<times> nat option) list \<Rightarrow> nat" where
  "agreeing x responses =
     length (filter (\<lambda>(q, age). case age of Some a \<Rightarrow> a > death_deadline x | None \<Rightarrow> True) responses) + 1"

definition lowest_alive :: "elector \<Rightarrow> string" where
  "lowest_alive x = Min (set (filter (\<lambda>q. q \<notin> observers x) (live_peer_ids x) @ [me x]))"

definition campaign :: "nat \<Rightarrow> instant \<Rightarrow> elector \<Rightarrow> elector \<times> election_actions" where
  "campaign round now x =
     (set_election (Candidate round {me x} now) x,
      \<lparr> broadcast = [PromotionVote (me x) (me x) round], promoted = False \<rparr>)"

text \<open>The arm of a \<open>Suspecting\<close> node whose answers have had one interval to arrive.\<close>

definition tally_suspicion :: "instant \<Rightarrow> (string \<times> nat option) list \<Rightarrow> elector \<Rightarrow> elector \<times> election_actions" where
  "tally_suspicion now responses x =
     (let quorum = failover_quorum (failover_quorum_peer_count x)
      in if agreeing x responses < quorum
         then (x, no_actions\<lparr>broadcast := push_timeout_query (me x) (current_primary x)\<rparr>)
         else let round = next_round (Suspecting now responses) in
           if lowest_alive x = me x then
             (if card {me x} \<ge> quorum \<and> \<not> deposed_primary x
              then (set_election Promoted x, no_actions\<lparr>promoted := True\<rparr>)
              else campaign round now x)
           else (set_election (Voting round (lowest_alive x)) x, no_actions))"

definition run_election_tick :: "instant \<Rightarrow> elector \<Rightarrow> elector \<times> election_actions" where
  "run_election_tick now x =
     (case election_state_of x of
        None \<Rightarrow> (x, no_actions)
      | Some Promoted \<Rightarrow> (x, no_actions)
      | Some ElectionNormal \<Rightarrow>
          (if \<not> need_election now x then (x, no_actions)
           else if mesh_degraded x then (x\<lparr>fatal_exit := True\<rparr>, no_actions)
           else (set_election (Suspecting now []) x,
                 no_actions\<lparr>broadcast := push_timeout_query (me x) (current_primary x)\<rparr>))
      | Some (Suspecting since responses) \<Rightarrow>
          (if now - since < keepalive_interval x then (x, no_actions) else tally_suspicion now responses x)
      | Some (Candidate round confirms started) \<Rightarrow>
          (if now - started > keepalive_interval x * 5 then campaign (round + 1) now x else (x, no_actions))
      | Some (Voting round candidate) \<Rightarrow>
          (if peer_death_observed now x candidate
           then (set_election (Suspecting now []) x,
                 no_actions\<lparr>broadcast := push_timeout_query (me x) (current_primary x)\<rparr>)
           else (x, no_actions)))"

section \<open>Inbound frames\<close>

text \<open>The result is whether the election recovered.\<close>

definition record_primary_message :: "instant \<Rightarrow> elector \<Rightarrow> bool \<times> elector" where
  "record_primary_message now x =
     (let recovered = (case election_state_of x of
            Some (Suspecting _ _) \<Rightarrow> True | Some (Voting _ _) \<Rightarrow> True | Some (Candidate _ _ _) \<Rightarrow> True | _ \<Rightarrow> False)
      in (recovered,
          update_holder (\<lambda>h. h\<lparr>link := record_recv_success (link h),
            election := (if recovered then ElectionNormal else election h), primary_last_seen := Some now\<rparr>) x))"

definition record_primary_message_if_from_primary :: "instant \<Rightarrow> string \<Rightarrow> elector \<Rightarrow> elector" where
  "record_primary_message_if_from_primary now sender x =
     (if current_primary x = Some sender then snd (record_primary_message now x) else x)"

definition record_timeout_response :: "string \<Rightarrow> nat option \<Rightarrow> elector \<Rightarrow> elector" where
  "record_timeout_response peer age x =
     (case election_state_of x of
        Some (Suspecting since responses) \<Rightarrow> set_election (Suspecting since (AList.update peer age responses)) x
      | _ \<Rightarrow> x)"

definition record_promotion_vote :: "instant \<Rightarrow> string \<Rightarrow> nat \<Rightarrow> elector \<Rightarrow> election_frame option \<times> elector" where
  "record_promotion_vote now candidate round x =
     (let frame_silent = (case election_last_seen x of None \<Rightarrow> True | Some t \<Rightarrow> now - t > death_deadline x);
          primary_silent = (frame_silent \<or> primary_departed_membership x) \<and> \<not> primary_beacon_fresh now x
      in if \<not> primary_silent then (None, x)
         else if candidate \<noteq> me x \<and> \<not> has_peer x candidate then (None, x)
         else if Min (set (live_peer_ids x @ [me x])) \<noteq> candidate then (None, x)
         else case election_state_of x of
           None \<Rightarrow> (None, x)
         | Some s \<Rightarrow> (Some (PromotionConfirm (me x) candidate round), set_election (Voting round candidate) x))"

definition record_promotion_confirm :: "string \<Rightarrow> string \<Rightarrow> nat \<Rightarrow> elector \<Rightarrow> bool \<times> elector" where
  "record_promotion_confirm peer target round x =
     (if target \<noteq> me x then (False, x)
      else case election_state_of x of
        Some (Candidate r confirms started) \<Rightarrow>
          (if r = round then
             (if card (insert peer confirms) \<ge> failover_quorum (failover_quorum_peer_count x)
              then (True, set_election Promoted x)
              else (False, set_election (Candidate r (insert peer confirms) started) x))
           else (False, x))
      | _ \<Rightarrow> (False, x))"

definition reset_election_to_normal :: "elector \<Rightarrow> elector" where
  "reset_election_to_normal x =
     (if operational x \<noteq> None then set_election ElectionNormal x else x\<lparr>setup_election := None\<rparr>)"

text \<open>The primary identity advanced in the replicated state, to this node or to another.\<close>

definition on_primary_identity_advanced :: "instant \<Rightarrow> string \<Rightarrow> elector \<Rightarrow> elector" where
  "on_primary_identity_advanced now new x =
     reset_election_to_normal
       (x\<lparr>current_primary := Some new, last_primary_change_at := Some now,
          deposed_primary := (if new = me x then False
                              else if current_primary x = Some (me x) then True else deposed_primary x)\<rparr>)"

definition maybe_arm_setup_election :: "instant \<Rightarrow> nat \<Rightarrow> elector \<Rightarrow> elector" where
  "maybe_arm_setup_election now silent_for x =
     (if setup_election x \<noteq> None \<or> operational x \<noteq> None then x
      else if silent_for < unconfigured_deadline x div 2 then x
      else if mesh_degraded x then x
      else let members = filter (\<lambda>q. q \<noteq> me x \<and> has_peer x q) (alive_secondary_members x)
           in if members = [] then x
              else x\<lparr>setup_election := Some \<lparr> election = ElectionNormal,
                       primary_last_seen = (if silent_for \<le> now then Some (now - silent_for) else None),
                       peer_keepalives = fold (\<lambda>q. AList.update q now) members [],
                       link = with_failover_threshold (link_failure_threshold x) (link_failure_window x) \<rparr>\<rparr>)"

section \<open>Runs of an elector\<close>

datatype election_event =
    ElectionTick instant
  | HearPrimary instant string
  | HearQuery instant string
  | HearResponse string "nat option"
  | HearVote instant string nat
  | HearConfirm string string nat
  | PrimaryAdvanced instant string
  | ArmSetup instant nat

text \<open>The elector after an event, the frames it emits and whether it was promoted by the event.\<close>

fun election_step :: "election_event \<Rightarrow> elector \<Rightarrow> elector \<times> election_frame list \<times> bool" where
  "election_step (ElectionTick now) x =
     (let (x', a) = run_election_tick now x in (x', broadcast a, promoted a))"
| "election_step (HearPrimary now sender) x = (record_primary_message_if_from_primary now sender x, [], False)"
| "election_step (HearQuery now node) x =
     (x, [TimeoutResponse (me x) node (queried_node_liveness_age now x node)], False)"
| "election_step (HearResponse peer age) x = (record_timeout_response peer age x, [], False)"
| "election_step (HearVote now candidate round) x =
     (let (reply, x') = record_promotion_vote now candidate round x
      in (x', case reply of None \<Rightarrow> [] | Some fr \<Rightarrow> [fr], False))"
| "election_step (HearConfirm peer target round) x =
     (let (won, x') = record_promotion_confirm peer target round x in (x', [], won))"
| "election_step (PrimaryAdvanced now new) x = (on_primary_identity_advanced now new x, [], False)"
| "election_step (ArmSetup now silent) x = (maybe_arm_setup_election now silent x, [], False)"

text \<open>
  The history of an elector: its events interleaved with arbitrary changes of everything around
  the election, as long as they leave its state and the identity of the node alone.
\<close>

inductive elector_run :: "elector \<Rightarrow> election_event list \<Rightarrow> elector \<Rightarrow> bool" where
  run_start: "elector_run x [] x"
| run_event: "elector_run x evs y \<Longrightarrow> elector_run x (evs @ [ev]) (fst (election_step ev y))"
| run_surroundings: "elector_run x evs y \<Longrightarrow> me z = me y \<Longrightarrow> election_state_of z = election_state_of y \<Longrightarrow>
     elector_run x evs z"

lemma election_state_set:
  "election_state_of (set_election s x) = (if holder_of x = None then None else Some s)"
  by (auto simp: set_election_def election_state_of_def update_holder_def holder_of_def split: option.splits)

lemma me_set_election [simp]: "me (set_election s x) = me x"
  by (simp add: set_election_def update_holder_def)

lemma election_state_None: "election_state_of x = None \<longleftrightarrow> holder_of x = None"
  by (simp add: election_state_of_def)

lemma record_primary_message_state:
  "election_state_of (snd (record_primary_message now x)) = Some s \<Longrightarrow>
     s = ElectionNormal \<or> (election_state_of x = Some s \<and> s \<noteq> Candidate r cs t)"
  by (auto simp: record_primary_message_def election_state_of_def holder_of_def update_holder_def Let_def
      split: option.splits election_state.splits if_splits)

lemma step_me [simp]: "me (fst (election_step ev x)) = me x"
  by (cases ev)
    (auto simp: run_election_tick_def tally_suspicion_def campaign_def record_primary_message_if_from_primary_def
      record_primary_message_def record_timeout_response_def record_promotion_vote_def record_promotion_confirm_def
      on_primary_identity_advanced_def reset_election_to_normal_def maybe_arm_setup_election_def update_holder_def
      Let_def split: option.splits election_state.splits)

lemma reset_election_state:
  "election_state_of (reset_election_to_normal x) = (if operational x = None then None else Some ElectionNormal)"
proof (cases "operational x")
  case None
  then show ?thesis by (simp add: reset_election_to_normal_def election_state_of_def holder_of_def)
next
  case (Some h)
  then have "holder_of x \<noteq> None" by (simp add: holder_of_def)
  with Some show ?thesis by (simp add: reset_election_to_normal_def election_state_set)
qed

lemma election_state_fatal [simp]: "election_state_of (x\<lparr>fatal_exit := b\<rparr>) = election_state_of x"
  by (simp add: election_state_of_def holder_of_def cong: option.case_cong)

text \<open>Where the candidate state can come from.\<close>

lemma tick_candidate:
  assumes "election_state_of (fst (run_election_tick now x)) = Some (Candidate r cs t)"
  shows "cs = {me x} \<or> election_state_of x = Some (Candidate r cs t)"
  using assms
  by (auto simp: run_election_tick_def tally_suspicion_def campaign_def election_state_set Let_def
      split: option.splits election_state.splits if_splits)

lemma confirm_candidate:
  assumes "election_state_of (snd (record_promotion_confirm peer target round x)) = Some (Candidate r cs t)"
  shows "(\<exists>cs0. election_state_of x = Some (Candidate r cs0 t)
      \<and> (cs = cs0 \<or> (cs = insert peer cs0 \<and> round = r \<and> target = me x)))"
  using assms
  by (auto simp: record_promotion_confirm_def election_state_set split: option.splits election_state.splits if_splits)

lemma other_step_candidate:
  assumes "election_state_of (fst (election_step ev x)) = Some (Candidate r cs t)"
    and "\<And>now. ev \<noteq> ElectionTick now" "\<And>p q k. ev \<noteq> HearConfirm p q k"
  shows "election_state_of x = Some (Candidate r cs t)"
proof (cases ev)
  case (HearPrimary now sender)
  then show ?thesis using assms(1) record_primary_message_state [of now x]
    by (auto simp: record_primary_message_if_from_primary_def split: if_splits)
next
  case (HearResponse peer age)
  then show ?thesis using assms(1)
    by (auto simp: record_timeout_response_def election_state_set split: option.splits election_state.splits if_splits)
next
  case (HearVote now candidate round)
  then show ?thesis using assms(1)
    by (auto simp: record_promotion_vote_def election_state_set Let_def split: option.splits if_splits)
next
  case (PrimaryAdvanced now new)
  then show ?thesis using assms(1)
    by (simp add: on_primary_identity_advanced_def reset_election_state split: if_splits)
next
  case (ArmSetup now silent)
  then show ?thesis using assms(1)
    by (auto simp: maybe_arm_setup_election_def election_state_of_def holder_of_def Let_def split: option.splits if_splits)
qed (use assms in auto)

text \<open>The confirmations a candidate counts were all received, for this node and this round.\<close>

definition confirmers :: "string \<Rightarrow> nat \<Rightarrow> election_event list \<Rightarrow> string set" where
  "confirmers m r evs = insert m {q. HearConfirm q m r \<in> set evs}"

lemma finite_confirmers [simp]: "finite (confirmers m r evs)"
proof -
  have "{q. HearConfirm q m r \<in> set evs} \<subseteq> (\<lambda>ev. case ev of HearConfirm q _ _ \<Rightarrow> q | _ \<Rightarrow> m) ` set evs"
    by force
  then show ?thesis by (simp add: confirmers_def finite_subset)
qed

lemma candidate_confirms:
  "elector_run x evs y \<Longrightarrow> election_state_of x = Some ElectionNormal \<Longrightarrow>
   election_state_of y = Some (Candidate r cs t) \<Longrightarrow> cs \<subseteq> confirmers (me y) r evs"
proof (induction arbitrary: r cs t rule: elector_run.induct)
  case (run_event x evs y ev)
  have mono: "confirmers (me y) r evs \<subseteq> confirmers (me y) r (evs @ [ev])" by (auto simp: confirmers_def)
  note IH = run_event.IH [OF run_event.prems(1)]
  show ?case
  proof (cases "\<exists>now. ev = ElectionTick now")
    case True
    then obtain now where "ev = ElectionTick now" by blast
    with run_event.prems(2) tick_candidate [of now y r cs t]
    have "cs = {me y} \<or> election_state_of y = Some (Candidate r cs t)" by (simp add: split_beta Let_def)
    then show ?thesis using IH [of r cs t] mono by (auto simp: confirmers_def)
  next
    case noTick: False
    show ?thesis
    proof (cases "\<exists>p q k. ev = HearConfirm p q k")
      case True
      then obtain p q k where ev: "ev = HearConfirm p q k" by blast
      from run_event.prems(2) confirm_candidate [of p q k y r cs t] obtain cs0 where
        "election_state_of y = Some (Candidate r cs0 t)"
        "cs = cs0 \<or> (cs = insert p cs0 \<and> k = r \<and> q = me y)" by (auto simp: ev split_beta Let_def)
      moreover from this(1) have "cs0 \<subseteq> confirmers (me y) r (evs @ [ev])" using IH [of r cs0 t] mono by blast
      moreover have "p \<in> confirmers (me y) r (evs @ [ev])" if "k = r" "q = me y"
        using that by (simp add: confirmers_def ev)
      ultimately show ?thesis unfolding step_me by blast
    next
      case False
      with other_step_candidate [OF run_event.prems(2)] noTick have "election_state_of y = Some (Candidate r cs t)" by blast
      then show ?thesis using IH [of r cs t] mono by simp
    qed
  qed
next
  case (run_surroundings x evs y z)
  then show ?case by (metis (no_types))
qed simp

lemma failover_quorum_one: "failover_quorum n \<le> 1 \<Longrightarrow> n = 0"
  by (auto simp: failover_quorum_def div_ceil_def split: if_splits)

lemma tick_promotes:
  assumes "promoted (snd (run_election_tick now x))"
  shows "live_peer_ids x = [] \<and> \<not> current_primary_in_quorum x \<and> \<not> deposed_primary x
    \<and> (\<exists>since rs. election_state_of x = Some (Suspecting since rs))"
  using assms failover_quorum_one [of "failover_quorum_peer_count x"]
  by (auto simp: run_election_tick_def tally_suspicion_def campaign_def no_actions_def Let_def
      failover_quorum_peer_count_def split: option.splits election_state.splits if_splits)

text \<open>
  C5: A promotion has a quorum behind it. Whatever happened before and around, a node is promoted
  either by a confirmation in a round in which it and the distinct senders of confirmations for it
  reach the failover quorum of the fleet it sees, or alone, by its own tick, when it suspects the
  primary, sees no live peer, the primary is no longer a member either, and it is no deposed
  primary itself.
\<close>

theorem promotion_quorate:
  assumes "elector_run x0 evs x" "election_state_of x0 = Some ElectionNormal"
    and "election_step ev x = (x', frames, True)"
  shows "(\<exists>peer r. ev = HearConfirm peer (me x) r
      \<and> failover_quorum (failover_quorum_peer_count x) \<le> card (confirmers (me x) r (evs @ [ev])))
    \<or> (live_peer_ids x = [] \<and> \<not> current_primary_in_quorum x \<and> \<not> deposed_primary x
       \<and> (\<exists>since rs. election_state_of x = Some (Suspecting since rs)))"
proof (cases ev)
  case (ElectionTick now)
  then show ?thesis using assms(3) tick_promotes [of now x] by (auto simp: split_beta Let_def)
next
  case (HearConfirm peer target r)
  then obtain cs t where c: "target = me x" "election_state_of x = Some (Candidate r cs t)"
    "failover_quorum (failover_quorum_peer_count x) \<le> card (insert peer cs)"
    using assms(3)
    by (auto simp: record_promotion_confirm_def split: option.splits election_state.splits if_splits)
  have "cs \<subseteq> confirmers (me x) r evs" using candidate_confirms [OF assms(1,2) c(2)] .
  then have "insert peer cs \<subseteq> confirmers (me x) r (evs @ [ev])"
    using HearConfirm c(1) by (auto simp: confirmers_def)
  then have "card (insert peer cs) \<le> card (confirmers (me x) r (evs @ [ev]))" by (intro card_mono) simp_all
  with c HearConfirm show ?thesis by auto
qed (use assms(3) in \<open>auto simp: split_beta Let_def\<close>)

text \<open>A secondary \<open>m\<close> that has one keepalive-tracked peer, both meshed, and whose primary \<open>p\<close> is gone.\<close>

definition survivor :: "string \<Rightarrow> string list \<Rightarrow> elector" where
  "survivor m peers =
     \<lparr> me = m, keepalive_interval = 1000, keepalive_miss_threshold = 3, primary_silence_backstop = 120000,
       unconfigured_deadline = 600000, link_failure_threshold = 5, link_failure_window = 30000,
       operational = Some \<lparr> election = ElectionNormal, primary_last_seen = Some 0,
         peer_keepalives = map (\<lambda>q. (q, 0)) peers, link = with_failover_threshold 5 30000 \<rparr>,
       setup_election = None, own_tick = own_tick_build 1000 None, current_primary = Some ''p'', observers = {},
       alive_secondary_members = peers, run_terminal_latched = False, has_peer = (\<lambda>q. q \<in> set peers),
       has_route = (\<lambda>q. q \<in> set peers), beacon_last_seen = (\<lambda>q. None), mesh_degraded = False,
       deposed_primary = False, last_primary_change_at = None, fatal_exit = False \<rparr>"

lemmas election_eval =
  survivor_def run_election_tick_def tally_suspicion_def campaign_def need_election_def no_actions_def
  record_timeout_response_def record_promotion_confirm_def record_promotion_vote_def
  record_primary_message_if_from_primary_def record_primary_message_def
  election_state_of_def election_last_seen_def holder_of_def set_election_def update_holder_def
  primary_departed_membership_def primary_beacon_fresh_def node_beacon_fresh_def death_deadline_def
  live_peer_ids_def lowest_alive_def failover_quorum_peer_count_def current_primary_in_quorum_def
  failover_quorum_def div_ceil_def agreeing_def next_round_def push_timeout_query_def
  should_arm_failover_def with_failover_threshold_def record_recv_success_def

fun election_run :: "election_event list \<Rightarrow> elector \<Rightarrow> elector" where
  "election_run [] x = x"
| "election_run (ev # evs) x = election_run evs (fst (election_step ev x))"

lemma elector_run_extend: "elector_run x pre y \<Longrightarrow> elector_run x (pre @ evs) (election_run evs y)"
proof (induction evs arbitrary: pre y)
  case (Cons ev evs)
  from run_event [OF Cons.prems, of ev] Cons.IH show ?case by force
qed simp

lemmas elector_run_fold = elector_run_extend [OF run_start, simplified]

theorem promotion_quorate_witness:
  "let evs = [ElectionTick 4000, HearResponse ''b'' None, ElectionTick 6000];
       x = election_run evs (survivor ''a'' [''b'']); ev = HearConfirm ''b'' ''a'' 1
   in (\<exists>peer r. ev = HearConfirm peer (me x) r
        \<and> failover_quorum (failover_quorum_peer_count x) \<le> card (confirmers (me x) r (evs @ [ev])))
      \<or> (live_peer_ids x = [] \<and> \<not> current_primary_in_quorum x \<and> \<not> deposed_primary x
         \<and> (\<exists>since rs. election_state_of x = Some (Suspecting since rs)))"
  unfolding Let_def
  by (rule promotion_quorate [where x' = "fst (election_step (HearConfirm ''b'' ''a'' 1)
        (election_run [ElectionTick 4000, HearResponse ''b'' None, ElectionTick 6000] (survivor ''a'' [''b''])))"
        and frames = "[]", OF elector_run_fold])
    (simp_all add: election_eval)

text \<open>
  A vote is given on evidence, and at one moment only to one candidate. A confirmation names the
  asking candidate and round; the voter has itself seen the primary silent or departed and has no
  fresh beacon of it; and the candidate is the lowest id among the voter's live peers and itself,
  so that two confirmations on the same view name the same candidate.
\<close>

theorem vote_on_evidence:
  assumes "record_promotion_vote now candidate round x = (Some fr, x')"
  shows "fr = PromotionConfirm (me x) candidate round \<and> election_state_of x' = Some (Voting round candidate)
    \<and> \<not> primary_beacon_fresh now x
    \<and> (primary_departed_membership x
       \<or> (case election_last_seen x of None \<Rightarrow> True | Some t \<Rightarrow> now - t > death_deadline x))
    \<and> candidate \<in> insert (me x) (set (live_peer_ids x))
    \<and> (\<forall>q \<in> insert (me x) (set (live_peer_ids x)). candidate \<le> q)
    \<and> (\<forall>now' candidate' round'. fst (record_promotion_vote now' candidate' round' x) \<noteq> None \<longrightarrow> candidate' = candidate)"
proof -
  let ?V = "insert (me x) (set (live_peer_ids x))"
  have V: "Min (set (live_peer_ids x @ [me x])) = Min ?V" by simp
  have min: "fst (record_promotion_vote n c r x) \<noteq> None \<Longrightarrow> Min ?V = c" for n c r
    unfolding record_promotion_vote_def Let_def V by (auto split: if_splits option.splits)
  have c: "Min ?V = candidate" using min [of now candidate round] assms by simp
  moreover have "candidate \<in> ?V" using c Min_in [of ?V] by simp
  moreover have "\<forall>q \<in> ?V. candidate \<le> q" using c Min_le [of ?V] by blast
  moreover have "fr = PromotionConfirm (me x) candidate round \<and> election_state_of x' = Some (Voting round candidate)
    \<and> \<not> primary_beacon_fresh now x \<and> (primary_departed_membership x
       \<or> (case election_last_seen x of None \<Rightarrow> True | Some t \<Rightarrow> now - t > death_deadline x))"
    using assms election_state_None [of x]
    by (auto simp: record_promotion_vote_def election_state_set Let_def split: if_splits option.splits)
  moreover have "\<forall>now' candidate' round'. fst (record_promotion_vote now' candidate' round' x) \<noteq> None \<longrightarrow> candidate' = candidate"
    using min c by blast
  ultimately show ?thesis by blast
qed

theorem vote_on_evidence_witness:
  "fst (record_promotion_vote 4000 ''a'' 1 (survivor ''b'' [''a''])) = Some (PromotionConfirm ''b'' ''a'' 1)
   \<and> \<not> primary_beacon_fresh 4000 (survivor ''b'' [''a''])"
proof -
  have "fst (record_promotion_vote 4000 ''a'' 1 (survivor ''b'' [''a''])) = Some (PromotionConfirm ''b'' ''a'' 1)"
    by (simp add: election_eval)
  with vote_on_evidence [of 4000 "''a''" 1 "survivor ''b'' [''a'']" "PromotionConfirm ''b'' ''a'' 1"
      "snd (record_promotion_vote 4000 ''a'' 1 (survivor ''b'' [''a'']))"]
  show ?thesis by (metis prod.collapse)
qed

text \<open>
  Two winners share a confirmer. If two candidates that see a fleet of the same size are promoted
  by confirmations, and all that they count are members of one fleet of that size and the node
  itself, then some node has confirmed both.
\<close>

theorem winners_share_confirmer:
  assumes "election_state_of x = Some (Candidate rx cx tx)" "record_promotion_confirm px (me x) rx x = (True, x')"
    and "election_state_of y = Some (Candidate ry cy ty)" "record_promotion_confirm py (me y) ry y = (True, y')"
    and "failover_quorum_peer_count x = n" "failover_quorum_peer_count y = n"
    and "finite M" "insert px cx \<subseteq> M" "insert py cy \<subseteq> M" "card M \<le> n + 1"
  shows "\<exists>q. q \<in> insert px cx \<and> q \<in> insert py cy"
proof -
  have "failover_quorum n \<le> card (insert px cx)"
    using assms(1,2,5) by (simp add: record_promotion_confirm_def split: if_splits)
  moreover have "failover_quorum n \<le> card (insert py cy)"
    using assms(3,4,6) by (simp add: record_promotion_confirm_def split: if_splits)
  ultimately show ?thesis
    using failover_vote.groups_meet [OF assms(7-10)] by blast
qed

theorem winners_share_confirmer_witness:
  "\<exists>q. q \<in> insert ''b'' {''a''} \<and> q \<in> insert ''a'' {''b''}"
  using winners_share_confirmer [of "set_election (Candidate 1 {''a''} 0) (survivor ''a'' [''b''])" 1 "{''a''}" 0 "''b''"
      "set_election Promoted (set_election (Candidate 1 {''a''} 0) (survivor ''a'' [''b'']))"
      "set_election (Candidate 1 {''b''} 0) (survivor ''b'' [''a''])" 1 "{''b''}" 0 "''a''"
      "set_election Promoted (set_election (Candidate 1 {''b''} 0) (survivor ''b'' [''a'']))" 1 "{''a'', ''b''}"]
  by (simp add: election_eval)

text \<open>
  A vote is not kept. After confirming one candidate a voter that loses sight of it confirms
  another in the same round, while the first confirmation is on its way.
\<close>

theorem voter_confirms_two:
  "let v = survivor ''c'' [''a'', ''b'']; v1 = snd (record_promotion_vote 4000 ''a'' 1 v);
       v2 = v1\<lparr>has_peer := (\<lambda>q. q = ''b'')\<rparr>
   in fst (record_promotion_vote 4000 ''a'' 1 v) = Some (PromotionConfirm ''c'' ''a'' 1)
      \<and> fst (record_promotion_vote 4001 ''b'' 1 v2) = Some (PromotionConfirm ''c'' ''b'' 1)"
  by (simp add: election_eval)

text \<open>
  The voter does not leave out the observers as the candidate does: an observer among its live
  peers with an id below the candidate's blocks every confirmation.
\<close>

theorem observer_blocks_vote:
  assumes "obs \<in> set (live_peer_ids x)" "obs \<in> observers x" "obs < candidate"
  shows "record_promotion_vote now candidate round x = (None, x)"
proof -
  have "Min (set (live_peer_ids x @ [me x])) \<le> obs" using assms(1) by (intro Min_le) auto
  then have "Min (set (live_peer_ids x @ [me x])) \<noteq> candidate" using assms(3) by auto
  then show ?thesis by (simp add: record_promotion_vote_def Let_def)
qed

theorem observer_blocks_vote_witness:
  "record_promotion_vote 4000 ''b'' 1 ((survivor ''c'' [''a'', ''b''])\<lparr>observers := {''a''}\<rparr>)
     = (None, (survivor ''c'' [''a'', ''b''])\<lparr>observers := {''a''}\<rparr>)"
  by (rule observer_blocks_vote [of "''a''"]) (simp_all add: survivor_def live_peer_ids_def holder_of_def)

text \<open>
  Rounds start over. A candidate that went back to normal and campaigns again asks for the same
  round as before, so that a confirmation of its first campaign promotes it in the second.
\<close>

theorem campaign_round_reused:
  "let first = [ElectionTick 4000, HearResponse ''b'' None, ElectionTick 6000];
       again = [HearPrimary 6500 ''p'', ElectionTick 8000, HearResponse ''b'' None, ElectionTick 10000];
       x = election_run (first @ again) (survivor ''a'' [''b''])
   in election_state_of (election_run first (survivor ''a'' [''b''])) = Some (Candidate 1 {''a''} 6000)
      \<and> election_state_of x = Some (Candidate 1 {''a''} 10000)
      \<and> fst (record_promotion_confirm ''b'' ''a'' 1 x)"
  by (simp add: election_eval)

end
