(* ===== verification/Base64.thy ===== *)
theory Base64
  imports Prelude "HOL-Library.Word"
begin

text \<open>
  The base64 codec of \<open>dynrunner-slurm/src/peer_info/b64.rs\<close> and the parts of the Rust standard
  library it stands on. A byte is a \<^typ>\<open>char\<close> and a byte string a \<^typ>\<open>string\<close>, so that a Rust
  \<open>str\<close> is the string of its UTF-8 bytes; the groups of three bytes are assembled in 32-bit words
  with the shifts and masks of the code.

  \<open>base64_codec\<close> is the interface that the chunked frame transfer needs of a codec; the
  interpretation shows that this one provides it.
\<close>

unbundle bit_operations_syntax

section \<open>UTF-8\<close>

text \<open>\<open>String::from_utf8\<close> accepts exactly the well-formed byte sequences of the Unicode standard.\<close>

abbreviation byte_in :: "nat \<Rightarrow> nat \<Rightarrow> char \<Rightarrow> bool" where
  "byte_in lo hi c \<equiv> lo \<le> (of_char c :: nat) \<and> (of_char c :: nat) \<le> hi"

abbreviation continuation :: "char \<Rightarrow> bool" where
  "continuation c \<equiv> byte_in 0x80 0xBF c"

fun valid_utf8 :: "string \<Rightarrow> bool" where
  "valid_utf8 [] = True"
| "valid_utf8 (a # s) =
     (if byte_in 0 0x7F a then valid_utf8 s
      else case s of
        [] \<Rightarrow> False
      | b # s1 \<Rightarrow>
          if byte_in 0xC2 0xDF a then continuation b \<and> valid_utf8 s1
          else case s1 of
            [] \<Rightarrow> False
          | c # s2 \<Rightarrow>
              if byte_in 0xE0 0xEF a then
                (if of_char a = (0xE0 :: nat) then byte_in 0xA0 0xBF b
                 else if of_char a = (0xED :: nat) then byte_in 0x80 0x9F b
                 else continuation b) \<and> continuation c \<and> valid_utf8 s2
              else case s2 of
                [] \<Rightarrow> False
              | d # s3 \<Rightarrow>
                  byte_in 0xF0 0xF4 a
                  \<and> (if of_char a = (0xF0 :: nat) then byte_in 0x90 0xBF b
                     else if of_char a = (0xF4 :: nat) then byte_in 0x80 0x8F b
                     else continuation b)
                  \<and> continuation c \<and> continuation d \<and> valid_utf8 s3)"

section \<open>The codec\<close>

definition TABLE :: string where
  "TABLE = ''ABCDEFGHIJKLMNOPQRSTUVWXYZabcdefghijklmnopqrstuvwxyz0123456789+/''"

text \<open>\<open>bytes[i] as u32\<close> and \<open>n as u8\<close>\<close>

definition to_u32 :: "char \<Rightarrow> 32 word" where
  "to_u32 c = word_of_nat (of_char c)"

definition to_byte :: "32 word \<Rightarrow> char" where
  "to_byte w = char_of (unat (w AND 0xff))"

definition sextet :: "nat \<Rightarrow> 32 word \<Rightarrow> char" where
  "sextet k n = TABLE ! unat (drop_bit k n AND 0x3f)"

fun encode_b64 :: "string \<Rightarrow> string" where
  "encode_b64 [] = []"
| "encode_b64 [a] =
     (let n = push_bit 16 (to_u32 a)
      in [sextet 18 n, sextet 12 n, CHR ''='', CHR ''=''])"
| "encode_b64 [a, b] =
     (let n = push_bit 16 (to_u32 a) OR push_bit 8 (to_u32 b)
      in [sextet 18 n, sextet 12 n, sextet 6 n, CHR ''=''])"
| "encode_b64 (a # b # c # s) =
     (let n = push_bit 16 (to_u32 a) OR push_bit 8 (to_u32 b) OR to_u32 c
      in sextet 18 n # sextet 12 n # sextet 6 n # sextet 0 n # encode_b64 s)"

definition b64_val :: "char \<Rightarrow> nat option" where
  "b64_val c =
     (let x = of_char c :: nat in
      if 65 \<le> x \<and> x \<le> 90 then Some (x - 65)
      else if 97 \<le> x \<and> x \<le> 122 then Some (x - 97 + 26)
      else if 48 \<le> x \<and> x \<le> 57 then Some (x - 48 + 52)
      else if c = CHR ''+'' then Some 62
      else if c = CHR ''/'' then Some 63
      else None)"

datatype b64_error = BadLength nat | MisplacedPadding nat | InvalidChar nat | NotUtf8

definition val_or_pad :: "char \<Rightarrow> nat option" where
  "val_or_pad c = (if c = CHR ''='' then Some 0 else b64_val c)"

fun decode_quads :: "nat \<Rightarrow> string \<Rightarrow> b64_error + string" where
  "decode_quads i (qa # qb # qc # qd # s) =
     (let pad = length (filter (\<lambda>b. b = CHR ''='') [qa, qb, qc, qd]) in
      if pad > 2 \<or> (pad > 0 \<and> s \<noteq> []) then Inl (MisplacedPadding i)
      else case b64_val qa of None \<Rightarrow> Inl (InvalidChar i) | Some a \<Rightarrow>
      (case b64_val qb of None \<Rightarrow> Inl (InvalidChar (i + 1)) | Some b \<Rightarrow>
      (case val_or_pad qc of None \<Rightarrow> Inl (InvalidChar (i + 2)) | Some c \<Rightarrow>
      (case val_or_pad qd of None \<Rightarrow> Inl (InvalidChar (i + 3)) | Some d \<Rightarrow>
        (let n = push_bit 18 (word_of_nat a) OR push_bit 12 (word_of_nat b) OR push_bit 6 (word_of_nat c)
               OR word_of_nat d;
             out = to_byte (drop_bit 16 n)
               # (if qc \<noteq> CHR ''='' then [to_byte (drop_bit 8 n)] else [])
               @ (if qd \<noteq> CHR ''='' then [to_byte n] else [])
         in case decode_quads (i + 4) s of Inl e \<Rightarrow> Inl e | Inr rest \<Rightarrow> Inr (out @ rest))))))"
| "decode_quads i s = Inr []"

definition decode_b64_bytes :: "string \<Rightarrow> b64_error + string" where
  "decode_b64_bytes s = (if length s mod 4 \<noteq> 0 then Inl (BadLength (length s)) else decode_quads 0 s)"

definition decode_b64 :: "string \<Rightarrow> b64_error + string" where
  "decode_b64 s =
     (case decode_b64_bytes s of
        Inl e \<Rightarrow> Inl e
      | Inr bytes \<Rightarrow> if valid_utf8 bytes then Inr bytes else Inl NotUtf8)"

section \<open>Round trip\<close>

lemma b64_val_table_all: "map b64_val TABLE = map Some [0..<64]"
  by code_simp

lemma table_length [simp]: "length TABLE = 64"
  by (simp add: TABLE_def)

lemma b64_val_table: "k < 64 \<Longrightarrow> b64_val (TABLE ! k) = Some k"
  using arg_cong [OF b64_val_table_all, of "\<lambda>xs. xs ! k"] by simp

lemma b64_val_pad: "b64_val (CHR ''='') = None"
  by (simp add: b64_val_def)

lemma sextet_eq: "sextet k n = TABLE ! unat (take_bit 6 (drop_bit k n))"
  by (simp add: sextet_def take_bit_eq_mask mask_numeral)

lemma unat_take_bit_6: "unat (take_bit 6 (n :: 32 word)) < 64"
proof -
  have "unat (take_bit 6 n) = take_bit 6 (unat n)" by (rule unsigned_take_bit_eq)
  also have "\<dots> < 2 ^ 6" by (rule take_bit_nat_less_exp)
  finally show ?thesis by simp
qed

lemma sextet_val [simp]: "b64_val (sextet k n) = Some (unat (take_bit 6 (drop_bit k n)))"
  by (simp add: sextet_eq b64_val_table unat_take_bit_6)

lemma sextet_not_pad [simp]: "sextet k n \<noteq> CHR ''=''"
  using sextet_val [of k n] b64_val_pad by force

lemma sextet_val_or_pad [simp]: "val_or_pad (sextet k n) = Some (unat (take_bit 6 (drop_bit k n)))"
  by (simp add: val_or_pad_def)

text \<open>Four sextets hold the lower 24 bits.\<close>

lemma sextets_join:
  "push_bit 18 (take_bit 6 (drop_bit 18 n)) OR push_bit 12 (take_bit 6 (drop_bit 12 n))
     OR push_bit 6 (take_bit 6 (drop_bit 6 n)) OR take_bit 6 n = take_bit 24 (n :: 32 word)"
proof (rule bit_word_eqI)
  fix i :: nat
  assume "i < LENGTH(32)"
  consider "i < 6" | "6 \<le> i" "i < 12" | "12 \<le> i" "i < 18" | "18 \<le> i" "i < 24" | "24 \<le> i" by linarith
  then show "bit (push_bit 18 (take_bit 6 (drop_bit 18 n)) OR push_bit 12 (take_bit 6 (drop_bit 12 n))
     OR push_bit 6 (take_bit 6 (drop_bit 6 n)) OR take_bit 6 n) i = bit (take_bit 24 n) i"
    by cases (auto simp: bit_simps)
qed

lemma to_u32_take: "take_bit 8 (to_u32 c) = to_u32 c"
proof -
  have "take_bit 8 (of_char c :: nat) = of_char c" by (simp add: take_bit_nat_eq_self)
  then show ?thesis unfolding to_u32_def by (metis take_bit_of_nat)
qed

lemma to_u32_bits: "bit (to_u32 c) i \<Longrightarrow> i < 8"
  by (metis bit_take_bit_iff to_u32_take)

lemma unat_to_u32 [simp]: "unat (to_u32 c) = of_char c"
proof -
  have "(of_char c :: nat) < 256" by simp
  then have "(of_char c :: nat) < 4294967296" by linarith
  then show ?thesis by (simp add: to_u32_def unat_of_nat)
qed

lemma to_byte_eq: "to_byte w = char_of (unat (take_bit 8 w))"
  by (simp add: to_byte_def take_bit_eq_mask mask_numeral)

lemma group_bytes:
  fixes a b c :: char
  defines "n \<equiv> push_bit 16 (to_u32 a) OR push_bit 8 (to_u32 b) OR to_u32 c"
  shows "take_bit 24 n = n" "to_byte (drop_bit 16 n) = a" "to_byte (drop_bit 8 n) = b" "to_byte n = c"
proof -
  show "take_bit 24 n = n" unfolding n_def
    by (rule bit_word_eqI) (auto simp: bit_simps dest: to_u32_bits)
  have "take_bit 8 (drop_bit 16 n) = to_u32 a" unfolding n_def
    by (rule bit_word_eqI) (auto simp: bit_simps dest: to_u32_bits)
  then show "to_byte (drop_bit 16 n) = a" by (simp add: to_byte_eq)
  have "take_bit 8 (drop_bit 8 n) = to_u32 b" unfolding n_def
    by (rule bit_word_eqI) (auto simp: bit_simps dest: to_u32_bits)
  then show "to_byte (drop_bit 8 n) = b" by (simp add: to_byte_eq)
  have "take_bit 8 n = to_u32 c" unfolding n_def
    by (rule bit_word_eqI) (auto simp: bit_simps dest: to_u32_bits)
  then show "to_byte n = c" by (simp add: to_byte_eq)
qed

lemma to_u32_zero [simp]: "to_u32 (CHR 0x00) = 0"
  by (simp add: to_u32_def)

lemma decode_group:
  assumes "n = push_bit 16 (to_u32 a) OR push_bit 8 (to_u32 b) OR to_u32 c"
  shows "push_bit 18 (take_bit 6 (drop_bit 18 n)) OR push_bit 12 (take_bit 6 (drop_bit 12 n))
     OR push_bit 6 (take_bit 6 (drop_bit 6 n)) OR take_bit 6 n = n"
  using sextets_join [of n] group_bytes(1) [of a b c] assms by simp

lemma low_sextets:
  fixes x y :: "32 word"
  shows "take_bit 6 (drop_bit 6 (push_bit 16 x)) = 0" "take_bit 6 (push_bit 16 x) = 0"
    "take_bit 6 (push_bit 8 y) = 0"
  by (rule bit_word_eqI, auto simp: bit_simps)+

lemma decode_encode_quads: "decode_quads i (encode_b64 s) = Inr s"
proof (induction s arbitrary: i rule: encode_b64.induct)
  case (2 a)
  let ?n = "push_bit 16 (to_u32 a)"
  have "push_bit 18 (take_bit 6 (drop_bit 18 ?n)) OR push_bit 12 (take_bit 6 (drop_bit 12 ?n)) = ?n"
    using decode_group [of ?n a "CHR 0x00" "CHR 0x00"] by (simp add: low_sextets)
  moreover have "to_byte (drop_bit 16 ?n) = a" using group_bytes(2) [of a "CHR 0x00" "CHR 0x00"] by simp
  ultimately show ?case by (simp add: Let_def val_or_pad_def)
next
  case (3 a b)
  let ?n = "push_bit 16 (to_u32 a) OR push_bit 8 (to_u32 b)"
  have "push_bit 18 (take_bit 6 (drop_bit 18 ?n)) OR push_bit 12 (take_bit 6 (drop_bit 12 ?n))
      OR push_bit 6 (take_bit 6 (drop_bit 6 ?n)) = ?n"
    using decode_group [of ?n a b "CHR 0x00"] by (simp add: low_sextets)
  moreover have "to_byte (drop_bit 16 ?n) = a" "to_byte (drop_bit 8 ?n) = b"
    using group_bytes(2,3) [of a b "CHR 0x00"] by simp_all
  ultimately show ?case by (simp add: Let_def val_or_pad_def [of "CHR ''=''"])
next
  case (4 a b c s)
  let ?n = "push_bit 16 (to_u32 a) OR push_bit 8 (to_u32 b) OR to_u32 c"
  have "push_bit 18 (take_bit 6 (drop_bit 18 ?n)) OR push_bit 12 (take_bit 6 (drop_bit 12 ?n))
      OR push_bit 6 (take_bit 6 (drop_bit 6 ?n)) OR take_bit 6 ?n = ?n"
    by (rule decode_group) simp
  then show ?case using group_bytes(2-4) [of a b c] "4.IH" by (simp add: Let_def)
qed simp

lemma length_encode_b64: "length (encode_b64 s) mod 4 = 0"
  by (induction s rule: encode_b64.induct) (simp_all add: Let_def)

lemma decode_encode_bytes: "decode_b64_bytes (encode_b64 s) = Inr s"
  by (simp add: decode_b64_bytes_def length_encode_b64 decode_encode_quads)

text \<open>
  Encoding and decoding are inverse on every Rust string, that is on every well-formed UTF-8
  byte string.
\<close>

theorem b64_roundtrip: "valid_utf8 s \<Longrightarrow> decode_b64 (encode_b64 s) = Inr s"
  by (simp add: decode_b64_def decode_encode_bytes)

theorem b64_roundtrip_witness: "decode_b64 (encode_b64 ''MII='') = Inr ''MII=''"
  by (rule b64_roundtrip) simp

text \<open>
  Padding is only counted, not located: a final group with one padding character in its third
  place is accepted although the standard encoding never produces it.
\<close>

theorem b64_inner_padding_accepted: "\<exists>x. decode_b64 ''QU=B'' = Inr [CHR ''A'', x]"
  by code_simp

section \<open>The interface of a codec\<close>

text \<open>What a sender and a receiver of base64 text rely on.\<close>

locale base64_codec =
  fixes encode :: "string \<Rightarrow> string"
    and decode :: "string \<Rightarrow> string option"
  assumes decode_encode: "decode (encode bytes) = Some bytes"

definition b64_decode_option :: "string \<Rightarrow> string option" where
  "b64_decode_option s = (case decode_b64_bytes s of Inl e \<Rightarrow> None | Inr bytes \<Rightarrow> Some bytes)"

interpretation slurm_b64: base64_codec encode_b64 b64_decode_option
  by unfold_locales (simp add: b64_decode_option_def decode_encode_bytes)

end
