(* ===== verification/Chunking.thy ===== *)
theory Chunking
  imports Base64 "HOL-Library.Sublist"
begin

text \<open>
  Chunked transfer of one oversized frame
  (\<open>dynrunner-protocol-primary-secondary/src/chunking.rs\<close>): the sender's \<open>split_frame\<close> and the
  receiver's state machine \<open>ChunkReassembler\<close>. The base64 engine is a package outside the
  repository; it is the pair of parameters \<open>enc\<close> and \<open>dec\<close>, of which the round trip needs the
  law of the locale \<open>base64_codec\<close>. Of a \<open>FrameChunk\<close> the routing target and the timestamp are left
  out. Reasons are values of two datatypes instead of strings.
\<close>

section \<open>Splitting\<close>

definition FNV_OFFSET :: "64 word" where "FNV_OFFSET = 0xcbf29ce484222325"
definition FNV_PRIME :: "64 word" where "FNV_PRIME = 0x00000100000001b3"

definition fnv1a64 :: "string \<Rightarrow> 64 word" where
  "fnv1a64 bytes = fold (\<lambda>b hash. (hash XOR word_of_nat (of_char b)) * FNV_PRIME) bytes FNV_OFFSET"

record frame_chunk =
  chunk_sender :: string
  transfer_id :: nat
  index :: nat
  chunk_total :: nat
  checksum :: "64 word"
  payload_b64 :: string

text \<open>\<open>slice::chunks\<close>\<close>

fun chunks :: "nat \<Rightarrow> 'a list \<Rightarrow> 'a list list" where
  "chunks n xs = (if xs = [] \<or> n = 0 then [] else take n xs # chunks n (drop n xs))"

declare chunks.simps [simp del]

text \<open>
  The result holds the chunks and the counter after the transfer id was drawn; \<^const>\<open>None\<close> is a
  panic: an assertion fails, or the number of chunks does not fit in 32 bits.
\<close>

definition split_frame ::
  "(string \<Rightarrow> string) \<Rightarrow> string \<Rightarrow> string \<Rightarrow> nat \<Rightarrow> nat \<Rightarrow> (frame_chunk list \<times> nat) option" where
  "split_frame enc sender json_bytes raw_slice_bytes next_transfer_id =
     (if raw_slice_bytes < 1 \<or> json_bytes = [] then None
      else let n = div_ceil (length json_bytes) raw_slice_bytes in
        if n \<ge> 2 ^ 32 then None
        else Some (map (\<lambda>(i, slice). \<lparr> chunk_sender = sender, transfer_id = next_transfer_id, index = i,
                     chunk_total = n, checksum = fnv1a64 json_bytes, payload_b64 = enc slice \<rparr>)
                   (enumerate 0 (chunks raw_slice_bytes json_bytes)), next_transfer_id + 1))"

section \<open>Reassembling\<close>

datatype abandon_reason =
    MalformedFields | CorruptBase64 | Superseded | InconsistentHeader | LostChunk | OverCap

record abandoned_transfer =
  abandoned_id :: nat
  buffered_bytes :: nat
  chunks_received :: nat
  abandon_reason :: abandon_reason

datatype reject_reason =
    RejMalformed nat nat
  | RejBase64
  | RejUnknown nat nat nat
  | RejHeader
  | RejGap nat nat
  | RejCap nat
  | RejChecksum "64 word" "64 word" nat

datatype chunk_outcome = Incomplete | Complete string | Rejected reject_reason

record partial_transfer =
  p_id :: nat
  p_total :: nat
  p_checksum :: "64 word"
  p_next :: nat
  p_buf :: string

record reassembler =
  partial :: "partial_transfer option"
  max_payload_bytes :: nat

definition reassembler_new :: "nat \<Rightarrow> reassembler" where
  "reassembler_new cap = \<lparr> partial = None, max_payload_bytes = cap \<rparr>"

definition abandon :: "abandon_reason \<Rightarrow> reassembler \<Rightarrow> abandoned_transfer option \<times> reassembler" where
  "abandon reason r =
     (map_option (\<lambda>p. \<lparr> abandoned_id = p_id p, buffered_bytes = length (p_buf p),
                        chunks_received = p_next p, abandon_reason = reason \<rparr>) (partial r),
      r\<lparr>partial := None\<rparr>)"

definition same_transfer :: "nat \<Rightarrow> reassembler \<Rightarrow> bool" where
  "same_transfer tid r \<longleftrightarrow> (case partial r of None \<Rightarrow> False | Some p \<Rightarrow> p_id p = tid)"

text \<open>\<open>if same transfer { self.abandon(reason) } else { None }\<close>, with the rejection\<close>

definition reject_own ::
  "abandon_reason \<Rightarrow> reject_reason \<Rightarrow> frame_chunk \<Rightarrow> reassembler
     \<Rightarrow> abandoned_transfer option \<times> chunk_outcome \<times> reassembler" where
  "reject_own why reason ch r =
     (if same_transfer (transfer_id ch) r
      then (let (ab, r') = abandon why r in (ab, Rejected reason, r'))
      else (None, Rejected reason, r))"

text \<open>The part of \<open>ingest\<close> after the bookkeeping, on the live partial \<open>p\<close> and the decoded slice.\<close>

definition ingest_slice ::
  "frame_chunk \<Rightarrow> string \<Rightarrow> abandoned_transfer option \<Rightarrow> partial_transfer \<Rightarrow> reassembler
     \<Rightarrow> abandoned_transfer option \<times> chunk_outcome \<times> reassembler" where
  "ingest_slice ch raw ab p r =
     (let give_up = (\<lambda>why reason.
            let (ab2, r') = abandon why r
            in ((case ab of Some a \<Rightarrow> Some a | None \<Rightarrow> ab2), Rejected reason, r'))
      in if p_total p \<noteq> chunk_total ch \<or> p_checksum p \<noteq> checksum ch then give_up InconsistentHeader RejHeader
      else if index ch < p_next p then (ab, Incomplete, r)
      else if index ch > p_next p then give_up LostChunk (RejGap (p_next p) (index ch))
      else if max_payload_bytes r \<noteq> 0 \<and> length (p_buf p) + length raw > max_payload_bytes r
        then give_up OverCap (RejCap (max_payload_bytes r))
      else let p' = p\<lparr>p_buf := p_buf p @ raw, p_next := p_next p + 1\<rparr>
        in if p_next p' < p_total p' then (ab, Incomplete, r\<lparr>partial := Some p'\<rparr>)
           else if fnv1a64 (p_buf p') \<noteq> p_checksum p'
             then (ab, Rejected (RejChecksum (p_checksum p') (fnv1a64 (p_buf p')) (length (p_buf p'))), r\<lparr>partial := None\<rparr>)
           else (ab, Complete (p_buf p'), r\<lparr>partial := None\<rparr>))"

definition ingest ::
  "(string \<Rightarrow> string option) \<Rightarrow> frame_chunk \<Rightarrow> reassembler
     \<Rightarrow> abandoned_transfer option \<times> chunk_outcome \<times> reassembler" where
  "ingest dec ch r =
     (if chunk_total ch = 0 \<or> index ch \<ge> chunk_total ch
      then reject_own MalformedFields (RejMalformed (index ch) (chunk_total ch)) ch r
      else case dec (payload_b64 ch) of
        None \<Rightarrow> reject_own CorruptBase64 RejBase64 ch r
      | Some raw \<Rightarrow>
          (case partial r of
             Some p \<Rightarrow>
               if p_id p = transfer_id ch then ingest_slice ch raw None p r
               else let (ab, r1) = abandon Superseded r in
                 if index ch \<noteq> 0 then (ab, Rejected (RejUnknown (index ch) (chunk_total ch) (transfer_id ch)), r1)
                 else let p0 = \<lparr> p_id = transfer_id ch, p_total = chunk_total ch, p_checksum = checksum ch,
                                 p_next = 0, p_buf = [] \<rparr>
                      in ingest_slice ch raw ab p0 (r1\<lparr>partial := Some p0\<rparr>)
           | None \<Rightarrow>
               if index ch \<noteq> 0 then (None, Rejected (RejUnknown (index ch) (chunk_total ch) (transfer_id ch)), r)
               else let p0 = \<lparr> p_id = transfer_id ch, p_total = chunk_total ch, p_checksum = checksum ch,
                               p_next = 0, p_buf = [] \<rparr>
                    in ingest_slice ch raw None p0 (r\<lparr>partial := Some p0\<rparr>)))"

fun ingest_all ::
  "(string \<Rightarrow> string option) \<Rightarrow> frame_chunk list \<Rightarrow> reassembler \<Rightarrow> chunk_outcome list \<times> reassembler" where
  "ingest_all dec [] r = ([], r)"
| "ingest_all dec (ch # cs) r =
     (let (ab, out, r1) = ingest dec ch r; (outs, r2) = ingest_all dec cs r1 in (out # outs, r2))"

section \<open>Whatever is completed was sent\<close>

text \<open>
  The partial transfer mirrors the history: its buffer is the concatenation of the decoded slices
  0, 1, \<dots> of one transfer, received in this order, and fits under the cap.
\<close>

definition slices_of ::
  "(string \<Rightarrow> string option) \<Rightarrow> frame_chunk list \<Rightarrow> nat \<Rightarrow> nat \<Rightarrow> 64 word \<Rightarrow> nat \<Rightarrow> string \<Rightarrow> bool" where
  "slices_of dec hist tid n sm k bytes \<longleftrightarrow>
     (\<exists>cs raws. subseq cs hist \<and> map index cs = [0..<k]
        \<and> (\<forall>c \<in> set cs. transfer_id c = tid \<and> chunk_total c = n \<and> checksum c = sm)
        \<and> map (\<lambda>c. dec (payload_b64 c)) cs = map Some raws \<and> concat raws = bytes)"

definition partial_mirrors :: "(string \<Rightarrow> string option) \<Rightarrow> frame_chunk list \<Rightarrow> reassembler \<Rightarrow> bool" where
  "partial_mirrors dec hist r \<longleftrightarrow>
     (case partial r of None \<Rightarrow> True | Some p \<Rightarrow>
        slices_of dec hist (p_id p) (p_total p) (p_checksum p) (p_next p) (p_buf p) \<and> p_next p < p_total p
        \<and> (max_payload_bytes r \<noteq> 0 \<longrightarrow> length (p_buf p) \<le> max_payload_bytes r))"

lemma slices_of_mono: "slices_of dec hist tid n sm k bytes \<Longrightarrow> slices_of dec (hist @ [ch]) tid n sm k bytes"
  unfolding slices_of_def by (blast intro: list_emb_prefix)

lemma slices_of_empty: "slices_of dec hist tid n sm 0 []"
  unfolding slices_of_def by (auto intro!: exI [of _ "[]"])

lemma slices_of_snoc:
  assumes "slices_of dec hist (transfer_id ch) (chunk_total ch) (checksum ch) (index ch) bytes"
    and "dec (payload_b64 ch) = Some raw"
  shows "slices_of dec (hist @ [ch]) (transfer_id ch) (chunk_total ch) (checksum ch) (index ch + 1) (bytes @ raw)"
proof -
  from assms(1) obtain cs raws where h: "subseq cs hist" "map index cs = [0..<index ch]"
    "\<forall>c \<in> set cs. transfer_id c = transfer_id ch \<and> chunk_total c = chunk_total ch \<and> checksum c = checksum ch"
    "map (\<lambda>c. dec (payload_b64 c)) cs = map Some raws" "concat raws = bytes"
    unfolding slices_of_def by blast
  then have "subseq (cs @ [ch]) (hist @ [ch])" "map index (cs @ [ch]) = [0..<index ch + 1]"
    "map (\<lambda>c. dec (payload_b64 c)) (cs @ [ch]) = map Some (raws @ [raw])" "concat (raws @ [raw]) = bytes @ raw"
    using assms(2) by (auto simp: list_emb_append_mono)
  with h(3) show ?thesis unfolding slices_of_def
    by (intro exI [of _ "cs @ [ch]"] exI [of _ "raws @ [raw]"]) auto
qed

lemma partial_mirrors_None: "partial r = None \<Longrightarrow> partial_mirrors dec hist r"
  by (simp add: partial_mirrors_def)

lemma partial_mirrors_mono: "partial_mirrors dec hist r \<Longrightarrow> partial_mirrors dec (hist @ [ch]) r"
  by (auto simp: partial_mirrors_def slices_of_mono split: option.splits)

text \<open>What a completed transfer guarantees.\<close>

definition completed_by :: "(string \<Rightarrow> string option) \<Rightarrow> frame_chunk list \<Rightarrow> nat \<Rightarrow> frame_chunk \<Rightarrow> string \<Rightarrow> bool" where
  "completed_by dec hist cap ch bytes \<longleftrightarrow>
     slices_of dec hist (transfer_id ch) (chunk_total ch) (checksum ch) (chunk_total ch) bytes
     \<and> fnv1a64 bytes = checksum ch \<and> (cap \<noteq> 0 \<longrightarrow> length bytes \<le> cap)"

lemma ingest_slice_mirrors:
  assumes "ingest_slice ch raw ab p r = (ab', out, r')" "partial_mirrors dec hist r" "partial r = Some p"
    and "p_id p = transfer_id ch" "dec (payload_b64 ch) = Some raw" "index ch < chunk_total ch"
  shows "partial_mirrors dec (hist @ [ch]) r' \<and> max_payload_bytes r' = max_payload_bytes r
    \<and> (\<forall>bytes. out = Complete bytes \<longrightarrow> completed_by dec (hist @ [ch]) (max_payload_bytes r) ch bytes)"
proof (cases "p_total p = chunk_total ch \<and> p_checksum p = checksum ch \<and> index ch = p_next p
    \<and> \<not> (max_payload_bytes r \<noteq> 0 \<and> length (p_buf p) + length raw > max_payload_bytes r)")
  case True
  then have "slices_of dec (hist @ [ch]) (transfer_id ch) (chunk_total ch) (checksum ch) (p_next p + 1) (p_buf p @ raw)"
    using assms(2-5) slices_of_snoc [of dec hist ch "p_buf p" raw] by (simp add: partial_mirrors_def)
  note grown = this
  show ?thesis
  proof (cases "p_next p + 1 < chunk_total ch")
    case more: True
    with grown show ?thesis using assms True
      by (auto simp: ingest_slice_def Let_def partial_mirrors_def split: if_splits)
  next
    case last: False
    then have "p_next p + 1 = chunk_total ch" using True assms(6) by simp
    with grown have "slices_of dec (hist @ [ch]) (transfer_id ch) (chunk_total ch) (checksum ch) (chunk_total ch) (p_buf p @ raw)"
      by simp
    then show ?thesis using assms(1,3) True last
      by (auto simp: ingest_slice_def Let_def partial_mirrors_None completed_by_def split: if_splits)
  qed
next
  case False
  then show ?thesis
    using assms partial_mirrors_mono [OF assms(2), of ch]
    by (auto simp: ingest_slice_def Let_def abandon_def partial_mirrors_None split: if_splits)
qed

lemma reject_own_mirrors:
  "reject_own why reason ch r = (ab, out, r') \<Longrightarrow> partial_mirrors dec hist r \<Longrightarrow>
     partial_mirrors dec (hist @ [ch]) r' \<and> max_payload_bytes r' = max_payload_bytes r \<and> (\<forall>bytes. out \<noteq> Complete bytes)"
  by (auto simp: reject_own_def abandon_def partial_mirrors_None intro: partial_mirrors_mono split: if_splits)

lemma fresh_partial_mirrors:
  "0 < n \<Longrightarrow> partial_mirrors dec hist (r\<lparr>partial := Some \<lparr>p_id = t, p_total = n, p_checksum = sm, p_next = 0, p_buf = []\<rparr>\<rparr>)"
  by (simp add: partial_mirrors_def slices_of_empty)

lemma ingest_mirrors:
  assumes "ingest dec ch r = (ab, out, r')" "partial_mirrors dec hist r"
  shows "partial_mirrors dec (hist @ [ch]) r' \<and> max_payload_bytes r' = max_payload_bytes r
    \<and> (\<forall>bytes. out = Complete bytes \<longrightarrow> completed_by dec (hist @ [ch]) (max_payload_bytes r) ch bytes)"
proof (cases "chunk_total ch = 0 \<or> index ch \<ge> chunk_total ch \<or> dec (payload_b64 ch) = None")
  case True
  then obtain why reason where "reject_own why reason ch r = (ab, out, r')"
    using assms(1) by (auto simp: ingest_def split: if_splits)
  from reject_own_mirrors [OF this assms(2)] show ?thesis by blast
next
  case False
  then obtain raw where raw: "dec (payload_b64 ch) = Some raw" by auto
  let ?p0 = "\<lparr>p_id = transfer_id ch, p_total = chunk_total ch, p_checksum = checksum ch, p_next = 0, p_buf = []\<rparr>"
  have fresh: ?thesis if "ingest_slice ch raw a ?p0 (r0\<lparr>partial := Some ?p0\<rparr>) = (ab, out, r')"
    "max_payload_bytes r0 = max_payload_bytes r" for a r0
  proof -
    have "partial_mirrors dec hist (r0\<lparr>partial := Some ?p0\<rparr>)" by (rule fresh_partial_mirrors) (use False in simp)
    from ingest_slice_mirrors [OF that(1) this _ _ raw] that(2) False show ?thesis by simp
  qed
  have own: ?thesis if "partial r = Some p" "p_id p = transfer_id ch" "ingest_slice ch raw None p r = (ab, out, r')" for p
    using ingest_slice_mirrors [OF that(3) assms(2) that(1,2) raw] False by simp
  show ?thesis
  proof (cases "partial r")
    case None
    then show ?thesis
      using assms False raw fresh [of None r] partial_mirrors_mono [OF assms(2), of ch]
      by (auto simp: ingest_def Let_def split: if_splits)
  next
    case (Some p)
    then show ?thesis
      using assms(1) False raw own [OF Some] fresh [of "fst (abandon Superseded r)" "r\<lparr>partial := None\<rparr>"]
      by (auto simp: ingest_def Let_def abandon_def partial_mirrors_None split: if_splits)
  qed
qed

lemma ingest_all_mirrors:
  "partial_mirrors dec hist r \<Longrightarrow>
     partial_mirrors dec (hist @ cs) (snd (ingest_all dec cs r))
     \<and> max_payload_bytes (snd (ingest_all dec cs r)) = max_payload_bytes r"
proof (induction cs arbitrary: hist r)
  case (Cons ch cs)
  obtain ab out r1 where i: "ingest dec ch r = (ab, out, r1)" by (metis prod_cases3)
  from ingest_mirrors [OF i Cons.prems] Cons.IH [of "hist @ [ch]" r1] show ?case
    by (simp add: i split_beta Let_def)
qed simp

text \<open>
  C27: Nothing is ever completed that was not sent. From a fresh reassembler, whatever chunks arrive
  in whatever order, a completed payload is the concatenation of the slices \<open>0, \<dots>, total - 1\<close> of
  the transfer of the last chunk, received in that order, its checksum is the announced one, and
  it fits under the cap.
\<close>

theorem reassembly_sound:
  assumes "ingest dec ch (snd (ingest_all dec cs (reassembler_new cap))) = (ab, Complete bytes, r')"
  shows "\<exists>sent raws. subseq sent (cs @ [ch]) \<and> map index sent = [0..<chunk_total ch]
     \<and> (\<forall>c \<in> set sent. transfer_id c = transfer_id ch \<and> chunk_total c = chunk_total ch \<and> checksum c = checksum ch)
     \<and> map (\<lambda>c. dec (payload_b64 c)) sent = map Some raws \<and> concat raws = bytes
     \<and> fnv1a64 bytes = checksum ch \<and> (cap \<noteq> 0 \<longrightarrow> length bytes \<le> cap)"
proof -
  have "partial_mirrors dec [] (reassembler_new cap)" by (simp add: partial_mirrors_def reassembler_new_def)
  from ingest_all_mirrors [OF this, of cs]
  have m: "partial_mirrors dec cs (snd (ingest_all dec cs (reassembler_new cap)))"
    "max_payload_bytes (snd (ingest_all dec cs (reassembler_new cap))) = cap"
    by (simp_all add: reassembler_new_def)
  from ingest_mirrors [OF assms m(1)] m(2) have "completed_by dec (cs @ [ch]) cap ch bytes" by simp
  then show ?thesis unfolding completed_by_def slices_of_def by blast
qed

theorem reassembly_sound_witness:
  "\<exists>sent raws. subseq sent ([] @ [\<lparr> chunk_sender = ''a'', transfer_id = 1, index = 0, chunk_total = 1,
        checksum = fnv1a64 ''hi'', payload_b64 = ''hi'' \<rparr>]) \<and> map index sent = [0..<1]
     \<and> (\<forall>c \<in> set sent. transfer_id c = 1 \<and> chunk_total c = 1 \<and> checksum c = fnv1a64 ''hi'')
     \<and> map (\<lambda>c. Some (payload_b64 c)) sent = map Some raws \<and> concat raws = ''hi''
     \<and> fnv1a64 ''hi'' = fnv1a64 ''hi'' \<and> (5 \<noteq> (0 :: nat) \<longrightarrow> length ''hi'' \<le> 5)"
  using reassembly_sound [of Some "\<lparr> chunk_sender = ''a'', transfer_id = 1, index = 0, chunk_total = 1,
      checksum = fnv1a64 ''hi'', payload_b64 = ''hi'' \<rparr>" "[]" 5 None "''hi''" "reassembler_new 5"]
  by (simp add: ingest_def ingest_slice_def reassembler_new_def)

section \<open>What is split is put together again\<close>

lemma concat_chunks: "0 < n \<Longrightarrow> concat (chunks n xs) = xs"
  by (induction n xs rule: chunks.induct) (subst chunks.simps, auto)

lemma length_chunks: "0 < n \<Longrightarrow> length (chunks n xs) = (length xs + n - 1) div n"
proof (induction n xs rule: chunks.induct)
  case (1 n xs)
  show ?case
  proof (cases "xs = []")
    case True
    then show ?thesis using "1.prems" by (simp add: chunks.simps)
  next
    case False
    have "length (chunks n xs) = Suc ((length (drop n xs) + n - 1) div n)"
      using 1 False by (subst chunks.simps) simp
    also have "\<dots> = (length (drop n xs) + n - 1 + n) div n"
      using "1.prems" by (metis Suc_eq_plus1 div_add_self2 not_less_zero)
    also have "\<dots> = (length xs + n - 1) div n"
    proof (cases "n \<le> length xs")
      case True
      then show ?thesis using "1.prems" by simp
    next
      case less: False
      obtain m where "length xs = Suc m" using False by (cases xs) auto
      then have "n * 1 \<le> length xs + n - 1" "length xs + n - 1 < n * Suc 1" using less by simp_all
      then have "(length xs + n - 1) div n = 1" by (rule div_nat_eqI)
      moreover have "(n + n - 1) div n = 1" by (intro div_nat_eqI) (use "1.prems" in auto)
      ultimately show ?thesis using less by simp
    qed
    finally show ?thesis .
  qed
qed

lemma length_concat_take: "length (concat (take k xss)) \<le> length (concat xss)"
  by (metis append_take_drop_id concat_append le_add1 length_append)

text \<open>
  Deliveries that keep the order of the chunks and may repeat any chunk that was already
  delivered; \<open>k\<close> is the next expected one.
\<close>

fun at_least_once :: "nat \<Rightarrow> nat \<Rightarrow> nat list \<Rightarrow> bool" where
  "at_least_once k n [] = (k = n)"
| "at_least_once k n (i # is') =
     (k < n \<and> (if i = k then at_least_once (Suc k) n is' else i < k \<and> at_least_once k n is'))"

lemma at_least_once_nonempty: "at_least_once k n is' \<Longrightarrow> k < n \<Longrightarrow> is' \<noteq> []"
  by auto

text \<open>The reassembler in the middle of a transfer of \<open>bytes\<close>, before slice \<open>k\<close>.\<close>

definition midway :: "nat \<Rightarrow> string \<Rightarrow> string list \<Rightarrow> nat \<Rightarrow> reassembler \<Rightarrow> reassembler" where
  "midway tid bytes slices k r = r\<lparr>partial := Some \<lparr>p_id = tid, p_total = length slices,
     p_checksum = fnv1a64 bytes, p_next = k, p_buf = concat (take k slices)\<rparr>\<rparr>"

definition nth_chunk :: "(string \<Rightarrow> string) \<Rightarrow> string \<Rightarrow> nat \<Rightarrow> string \<Rightarrow> string list \<Rightarrow> nat \<Rightarrow> frame_chunk" where
  "nth_chunk encode sender tid bytes slices i = \<lparr>chunk_sender = sender, transfer_id = tid, index = i,
     chunk_total = length slices, checksum = fnv1a64 bytes, payload_b64 = encode (slices ! i)\<rparr>"

context base64_codec
begin

lemma slice_accepted:
  assumes "concat slices = bytes" "k < length slices" "max_payload_bytes r = 0 \<or> length bytes \<le> max_payload_bytes r"
  shows "ingest_slice (nth_chunk encode sender tid bytes slices k) (slices ! k) ab
      (the (partial (midway tid bytes slices k r))) (midway tid bytes slices k r) =
    (if Suc k < length slices then (ab, Incomplete, midway tid bytes slices (Suc k) r)
     else (ab, Complete bytes, r\<lparr>partial := None\<rparr>))"
proof -
  have "concat (take k slices) @ slices ! k = concat (take (Suc k) slices)"
    using assms(2) by (simp add: take_Suc_conv_app_nth)
  moreover have "length (concat (take (Suc k) slices)) \<le> length bytes"
    using length_concat_take [of "Suc k" slices] assms(1) by simp
  ultimately show ?thesis using assms
    by (auto simp: ingest_slice_def midway_def nth_chunk_def Let_def length_append [symmetric] simp del: length_append)
qed

lemma deliver_midway:
  assumes "concat slices = bytes" "0 < k" "k < length slices" "at_least_once k (length slices) is'"
    and "max_payload_bytes r = 0 \<or> length bytes \<le> max_payload_bytes r"
  shows "ingest_all decode (map (nth_chunk encode sender tid bytes slices) is') (midway tid bytes slices k r)
    = (replicate (length is' - 1) Incomplete @ [Complete bytes], r\<lparr>partial := None\<rparr>)"
  using assms
proof (induction is' arbitrary: k)
  case (Cons i is')
  let ?ch = "nth_chunk encode sender tid bytes slices i" and ?r = "midway tid bytes slices k r"
  have "index ?ch < chunk_total ?ch" "decode (payload_b64 ?ch) = Some (slices ! i)"
    using Cons.prems(3,4) by (auto simp: nth_chunk_def decode_encode split: if_splits)
  then have ing: "ingest decode ?ch ?r = ingest_slice ?ch (slices ! i) None (the (partial ?r)) ?r"
    by (auto simp: ingest_def midway_def nth_chunk_def)
  show ?case
  proof (cases "i = k")
    case True
    show ?thesis
    proof (cases "Suc k < length slices")
      case more: True
      with True Cons.prems have "at_least_once (Suc k) (length slices) is'" "is' \<noteq> []"
        using at_least_once_nonempty [of "Suc k" "length slices" is'] by auto
      with Cons.IH [of "Suc k"] Cons.prems ing slice_accepted [of slices bytes k r sender tid None] more True
      show ?thesis by (cases is') auto
    next
      case last: False
      with True Cons.prems have "is' = []" by (cases is') auto
      with ing slice_accepted [of slices bytes k r sender tid None] Cons.prems last True show ?thesis by simp
    qed
  next
    case False
    with Cons.prems have i: "i < k" "at_least_once k (length slices) is'" "is' \<noteq> []"
      using at_least_once_nonempty [of k "length slices" is'] by auto
    then have "ingest decode ?ch ?r = (None, Incomplete, ?r)"
      unfolding ing by (simp add: ingest_slice_def midway_def nth_chunk_def)
    with Cons.IH [of k] Cons.prems i show ?thesis by (cases is') auto
  qed
qed simp

lemma deliver_all:
  assumes "concat slices = bytes" "0 < length slices" "at_least_once 0 (length slices) is'"
    and "max_payload_bytes r = 0 \<or> length bytes \<le> max_payload_bytes r" "\<not> same_transfer tid r"
  shows "ingest_all decode (map (nth_chunk encode sender tid bytes slices) is') r
    = (replicate (length is' - 1) Incomplete @ [Complete bytes], r\<lparr>partial := None\<rparr>)"
proof -
  from assms(2,3) obtain js where is': "is' = 0 # js" "at_least_once 1 (length slices) js"
    by (cases is') (auto split: if_splits)
  let ?ch = "nth_chunk encode sender tid bytes slices 0"
  have "decode (payload_b64 ?ch) = Some (slices ! 0)" by (simp add: nth_chunk_def decode_encode)
  then obtain ab where "ingest decode ?ch r =
      ingest_slice ?ch (slices ! 0) ab (the (partial (midway tid bytes slices 0 r))) (midway tid bytes slices 0 r)"
    using assms(2,5)
    by (cases "partial r") (auto simp: ingest_def midway_def nth_chunk_def same_transfer_def abandon_def Let_def)
  then have ing: "ingest decode ?ch r = (if 1 < length slices then (ab, Incomplete, midway tid bytes slices 1 r)
     else (ab, Complete bytes, r\<lparr>partial := None\<rparr>))"
    using slice_accepted [OF assms(1,2,4), of sender tid ab] by simp
  show ?thesis
  proof (cases "1 < length slices")
    case True
    with is'(2) have "js \<noteq> []" using at_least_once_nonempty by blast
    then show ?thesis using ing True deliver_midway [OF assms(1) _ True is'(2) assms(4)] is'(1)
      by (cases js) auto
  next
    case False
    with is'(2) have "js = []" by (cases js) auto
    with ing False is'(1) show ?thesis by simp
  qed
qed

end

lemma split_frame_chunks:
  assumes "split_frame enc sender bytes n ctr = Some (cs, ctr')"
  shows "0 < n" "bytes \<noteq> []" "length cs = length (chunks n bytes)"
    "i < length cs \<Longrightarrow> cs ! i = nth_chunk enc sender ctr bytes (chunks n bytes) i"
  using assms
  by (auto simp: split_frame_def Let_def nth_chunk_def length_chunks div_ceil_conv nth_enumerate_eq split: if_splits)

lemma at_least_once_bound: "at_least_once k n is' \<Longrightarrow> i \<in> set is' \<Longrightarrow> i < n"
  by (induction is' arbitrary: k) (auto split: if_splits)

text \<open>
  C10: A split frame is put together again. With a base64 engine that decodes what it encodes, and a
  cap that admits the frame, delivering the chunks of a transfer in order, each at least once and
  any earlier one again before the last, answers every chunk but the last with
  \<open>Incomplete\<close> and the last with the bytes of the frame, whatever other transfer was
  in progress before.
\<close>

theorem chunk_roundtrip:
  assumes "split_frame enc sender bytes n ctr = Some (cs, ctr')" "\<And>x. dec (enc x) = Some x"
    and "at_least_once 0 (length cs) order" "\<not> same_transfer ctr r"
    and "max_payload_bytes r = 0 \<or> length bytes \<le> max_payload_bytes r"
  shows "ingest_all dec (map ((!) cs) order) r
    = (replicate (length order - 1) Incomplete @ [Complete bytes], r\<lparr>partial := None\<rparr>)"
proof -
  note split = split_frame_chunks [OF assms(1)]
  have eq: "map ((!) cs) order = map (nth_chunk enc sender ctr bytes (chunks n bytes)) order"
    using at_least_once_bound [OF assms(3)] split(4) by simp
  have "base64_codec enc dec" by unfold_locales (rule assms(2))
  moreover have "concat (chunks n bytes) = bytes" "0 < length (chunks n bytes)"
    using split(1,2) concat_chunks [of n bytes] by auto
  ultimately show ?thesis
    using base64_codec.deliver_all [of enc dec "chunks n bytes" bytes order r ctr sender] assms(3-5) split(3)
    unfolding eq by simp
qed

theorem chunk_roundtrip_witness:
  "\<exists>cs. split_frame encode_b64 ''a'' ''hello'' 2 7 = Some (cs, 8)
     \<and> ingest_all b64_decode_option (map ((!) cs) [0, 0, 1, 0, 2]) (reassembler_new 5)
       = ([Incomplete, Incomplete, Incomplete, Incomplete, Complete ''hello''], reassembler_new 5)"
proof -
  obtain cs where cs: "split_frame encode_b64 ''a'' ''hello'' 2 7 = Some (cs, 8)"
    by (simp add: split_frame_def div_ceil_def)
  then have "length cs = 3"
    using split_frame_chunks(3) [OF cs] length_chunks [of 2 "''hello''"] by simp
  then show ?thesis
    using chunk_roundtrip [OF cs slurm_b64.decode_encode, of "[0, 0, 1, 0, 2]" "reassembler_new 5"] cs
    by (simp add: same_transfer_def reassembler_new_def numeral_eq_Suc)
qed

text \<open>
  Once a transfer is complete nothing is remembered of it: a frame that fits in one chunk is
  completed a second time when its chunk is delivered again.
\<close>

theorem single_chunk_delivered_twice:
  assumes "split_frame enc sender bytes n ctr = Some ([ch], ctr')" "dec (payload_b64 ch) = Some bytes"
    and "max_payload_bytes r = 0 \<or> length bytes \<le> max_payload_bytes r" "partial r = None"
  shows "ingest_all dec [ch, ch] r = ([Complete bytes, Complete bytes], r)"
proof -
  have "length (chunks n bytes) = 1" using split_frame_chunks(3) [OF assms(1)] by simp
  moreover have "ch = nth_chunk enc sender ctr bytes (chunks n bytes) 0"
    using split_frame_chunks(4) [OF assms(1), of 0] by simp
  ultimately have "chunk_total ch = 1" "index ch = 0" "checksum ch = fnv1a64 bytes"
    by (simp_all add: nth_chunk_def)
  then have "ingest dec ch r = (None, Complete bytes, r)"
    using assms(2-4) by (auto simp: ingest_def ingest_slice_def Let_def)
  then show ?thesis by simp
qed

theorem single_chunk_delivered_twice_witness:
  "ingest_all Some [\<lparr> chunk_sender = ''a'', transfer_id = 7, index = 0, chunk_total = 1,
        checksum = fnv1a64 ''hi'', payload_b64 = ''hi'' \<rparr>, \<lparr> chunk_sender = ''a'', transfer_id = 7, index = 0,
        chunk_total = 1, checksum = fnv1a64 ''hi'', payload_b64 = ''hi'' \<rparr>] (reassembler_new 5)
     = ([Complete ''hi'', Complete ''hi''], reassembler_new 5)"
  by (rule single_chunk_delivered_twice [where enc = "\<lambda>x. x" and sender = "''a''" and n = 2 and ctr = 7 and ctr' = 8])
    (simp_all add: split_frame_def div_ceil_def chunks.simps [of 2] reassembler_new_def)

end
