(* ===== verification/Std_Strings.thy ===== *)
theory Std_Strings
  imports Base64 "HOL-Library.Sublist"
begin

text \<open>
  String operations of the Rust standard library on UTF-8 bytes, as the text formats use them:
  splitting, trimming, decimal numbers, and the lossy conversion of bytes to text.
\<close>

section \<open>Strings of the standard library\<close>

text \<open>\<open>str::split(c)\<close>\<close>

fun split_char :: "char \<Rightarrow> string \<Rightarrow> string list" where
  "split_char c [] = [[]]"
| "split_char c (x # s) =
     (if x = c then [] # split_char c s
      else case split_char c s of [] \<Rightarrow> [[x]] | p # ps \<Rightarrow> (x # p) # ps)"

text \<open>\<open>str::split_once(c)\<close>\<close>

fun split_once :: "char \<Rightarrow> string \<Rightarrow> (string \<times> string) option" where
  "split_once c [] = None"
| "split_once c (x # s) =
     (if x = c then Some ([], s) else map_option (\<lambda>(k, v). (x # k, v)) (split_once c s))"

text \<open>\<open>str::trim\<close>: the UTF-8 encodings of the characters with the property \<open>White_Space\<close>\<close>

definition white_space :: "string list" where
  "white_space = map (map char_of)
     ([[9], [10], [11], [12], [13], [32], [0xC2, 0x85], [0xC2, 0xA0], [0xE1, 0x9A, 0x80]]
      @ map (\<lambda>n. [0xE2, 0x80, n]) ([0x80..<0x8B] @ [0xA8, 0xA9, 0xAF])
      @ [[0xE2, 0x81, 0x9F], [0xE3, 0x80, 0x80 :: nat]])"

function strip_prefixes :: "string list \<Rightarrow> string \<Rightarrow> string" where
  "strip_prefixes ws s =
     (case List.find (\<lambda>w. w \<noteq> [] \<and> prefix w s) ws of
        None \<Rightarrow> s
      | Some w \<Rightarrow> strip_prefixes ws (drop (length w) s))"
  by pat_completeness auto

termination strip_prefixes
proof (relation "measure (length \<circ> snd)")
  fix ws s w assume "List.find (\<lambda>w. w \<noteq> [] \<and> prefix w s) ws = Some w"
  then have "w \<noteq> []" "prefix w s" by (auto dest: find_SomeD)
  then show "((ws, drop (length w) s), ws, s) \<in> measure (length \<circ> snd)"
    by (auto simp: prefix_def)
qed simp

declare strip_prefixes.simps [simp del]

definition trim :: "string \<Rightarrow> string" where
  "trim s = rev (strip_prefixes (map rev white_space) (rev (strip_prefixes white_space s)))"

definition digit :: "nat \<Rightarrow> char" where
  "digit d = char_of (48 + d)"

fun show_nat :: "nat \<Rightarrow> string" where
  "show_nat n = (if n < 10 then [digit n] else show_nat (n div 10) @ [digit (n mod 10)])"

declare show_nat.simps [simp del]

definition is_digit :: "char \<Rightarrow> bool" where
  "is_digit c \<longleftrightarrow> byte_in 48 57 c"

definition read_nat :: "string \<Rightarrow> nat" where
  "read_nat s = fold (\<lambda>c n. n * 10 + (of_char c - 48)) s 0"

text \<open>\<open>str::parse::<u16>\<close>: an optional plus sign and at least one digit, below \<open>2\<^sup>1\<^sup>6\<close>\<close>

definition parse_u16 :: "string \<Rightarrow> nat option" where
  "parse_u16 s =
     (let ds = (if s \<noteq> [] \<and> hd s = CHR ''+'' then tl s else s)
      in if ds \<noteq> [] \<and> list_all is_digit ds \<and> read_nat ds < 65536 then Some (read_nat ds) else None)"

definition newline :: char where "newline = CHR 0x0A"

section \<open>Facts\<close>

abbreviation graphic :: "char \<Rightarrow> bool" where
  "graphic c \<equiv> byte_in 33 126 c"

text \<open>A nonempty text of printable ASCII characters without blanks.\<close>

definition plain :: "string \<Rightarrow> bool" where
  "plain s \<longleftrightarrow> s \<noteq> [] \<and> (\<forall>c \<in> set s. graphic c)"

lemma white_space_ends: "\<forall>w \<in> set white_space. w \<noteq> [] \<longrightarrow> \<not> graphic (hd w) \<and> \<not> graphic (last w)"
  by code_simp

lemma strip_prefixes_graphic:
  assumes "\<forall>w \<in> set ws. w \<noteq> [] \<longrightarrow> \<not> graphic (hd w)" "s \<noteq> []" "graphic (hd s)"
  shows "strip_prefixes ws s = s"
proof -
  have "\<not> (w \<noteq> [] \<and> prefix w s)" if "w \<in> set ws" for w
    using assms that by (auto simp: prefix_def)
  then have "List.find (\<lambda>w. w \<noteq> [] \<and> prefix w s) ws = None" by (auto simp: find_eq_None_iff)
  then show ?thesis by (subst strip_prefixes.simps) simp
qed

lemma trim_graphic:
  assumes "s \<noteq> []" "graphic (hd s)" "graphic (last s)"
  shows "trim s = s"
proof -
  have "strip_prefixes white_space s = s"
    by (rule strip_prefixes_graphic) (use assms white_space_ends in auto)
  moreover have "strip_prefixes (map rev white_space) (rev s) = rev s"
    by (rule strip_prefixes_graphic) (use assms white_space_ends in \<open>auto simp: hd_rev\<close>)
  ultimately show ?thesis by (simp add: trim_def)
qed

lemma plain_trim: "plain s \<Longrightarrow> trim s = s"
  by (rule trim_graphic) (auto simp: plain_def)

lemma plain_newline: "plain s \<Longrightarrow> newline \<notin> set s"
  by (auto simp: plain_def newline_def)

lemma trim_Nil [simp]: "trim [] = []"
proof -
  have "strip_prefixes ws [] = []" for ws
    by (subst strip_prefixes.simps) (auto dest: find_SomeD split: option.split)
  then show ?thesis by (simp add: trim_def)
qed

lemma graphic_digit: "d < 10 \<Longrightarrow> graphic (digit d)"
  by (simp add: digit_def)

lemma plain_show_nat: "plain (show_nat n)"
proof (induction n rule: show_nat.induct)
  case (1 n)
  then show ?case
    using graphic_digit [of n] graphic_digit [of "n mod 10"]
    by (subst show_nat.simps) (auto simp: plain_def)
qed

lemma digits_show_nat: "list_all is_digit (show_nat n)"
proof (induction n rule: show_nat.induct)
  case (1 n)
  have "d < 10 \<Longrightarrow> is_digit (digit d)" for d by (simp add: is_digit_def digit_def)
  with 1 show ?case by (subst show_nat.simps) auto
qed

lemma read_show_nat: "read_nat (show_nat n) = n"
proof (induction n rule: show_nat.induct)
  case (1 n)
  then show ?case by (subst show_nat.simps) (auto simp: read_nat_def digit_def)
qed

lemma parse_show_u16: "n < 65536 \<Longrightarrow> parse_u16 (show_nat n) = Some n"
proof -
  assume "n < 65536"
  moreover have "show_nat n \<noteq> []" using plain_show_nat [of n] by (simp add: plain_def)
  moreover from this digits_show_nat [of n] have "hd (show_nat n) \<noteq> CHR ''+''"
    by (cases "show_nat n") (auto simp: is_digit_def)
  ultimately show ?thesis using digits_show_nat read_show_nat by (simp add: parse_u16_def)
qed

lemma table_graphic: "\<forall>c \<in> set TABLE. graphic c"
  by code_simp

lemma sextet_graphic: "graphic (sextet k n)"
  using table_graphic by (simp add: sextet_eq unat_take_bit_6)

lemma plain_encode_b64: "s \<noteq> [] \<Longrightarrow> plain (encode_b64 s)"
proof (induction s rule: encode_b64.induct)
  case (4 a b c s)
  then show ?case by (cases s) (auto simp: plain_def Let_def sextet_graphic)
qed (auto simp: plain_def Let_def sextet_graphic)

lemma split_char_line: "c \<notin> set l \<Longrightarrow> split_char c (l @ c # s) = l # split_char c s"
  by (induction l) auto

lemma split_char_lines:
  "\<forall>l \<in> set ls. c \<notin> set l \<Longrightarrow> split_char c (concat (map (\<lambda>l. l @ [c]) ls)) = ls @ [[]]"
  by (induction ls) (auto simp: split_char_line)

lemma split_once_key: "c \<notin> set k \<Longrightarrow> split_once c (k @ c # v) = Some (k, v)"
  by (induction k) auto

text \<open>Trimming at the end alone, and text that it leaves as it is.\<close>

definition trim_end :: "string \<Rightarrow> string" where
  "trim_end s = rev (strip_prefixes (map rev white_space) (rev s))"

lemma strip_prefixes_id_iff:
  "strip_prefixes ws s = s \<longleftrightarrow> (\<forall>w \<in> set ws. w \<noteq> [] \<longrightarrow> \<not> prefix w s)"
proof
  have le: "length (strip_prefixes ws s) \<le> length s" for ws s
    by (induction ws s rule: strip_prefixes.induct)
      (subst strip_prefixes.simps, fastforce split: option.split dest: le_trans)
  assume id: "strip_prefixes ws s = s"
  show "\<forall>w \<in> set ws. w \<noteq> [] \<longrightarrow> \<not> prefix w s"
  proof (cases "List.find (\<lambda>w. w \<noteq> [] \<and> prefix w s) ws")
    case None
    then show ?thesis by (auto simp: find_None_iff)
  next
    case (Some w)
    then have "w \<noteq> []" "prefix w s" by (auto simp: find_Some_iff)
    moreover have "strip_prefixes ws s = strip_prefixes ws (drop (length w) s)"
      using Some by (subst strip_prefixes.simps) simp
    ultimately have "length s \<le> length s - length w" using le [of ws "drop (length w) s"] id by simp
    moreover have "length w \<le> length s" "0 < length w" using \<open>w \<noteq> []\<close> \<open>prefix w s\<close> by (auto simp: prefix_length_le)
    ultimately show ?thesis by linarith
  qed
next
  assume "\<forall>w \<in> set ws. w \<noteq> [] \<longrightarrow> \<not> prefix w s"
  then have "List.find (\<lambda>w. w \<noteq> [] \<and> prefix w s) ws = None" by (auto simp: find_None_iff)
  then show "strip_prefixes ws s = s" by (subst strip_prefixes.simps) simp
qed

lemma trim_end_id_iff: "trim_end s = s \<longleftrightarrow> (\<forall>w \<in> set white_space. w \<noteq> [] \<longrightarrow> \<not> suffix w s)"
proof -
  have "trim_end s = s \<longleftrightarrow> strip_prefixes (map rev white_space) (rev s) = rev s"
    by (metis trim_end_def rev_rev_ident)
  then show ?thesis by (simp add: strip_prefixes_id_iff suffix_to_prefix)
qed

lemma white_space_bytes: "\<forall>w \<in> set white_space. \<forall>c \<in> set w. \<not> graphic c"
  by code_simp

lemma trim_end_prepend:
  assumes "trim_end m = m" "pre \<noteq> []" "graphic (last pre)"
  shows "trim_end (pre @ m) = pre @ m"
  unfolding trim_end_id_iff
proof (intro ballI impI notI)
  fix w assume w: "w \<in> set white_space" "w \<noteq> []" "suffix w (pre @ m)"
  then consider "suffix w m" | v where "v \<noteq> []" "w = v @ m" "suffix v pre"
    unfolding suffix_append by (metis append_Nil suffix_order.refl)
  then show False
  proof cases
    case 1
    then show ?thesis using assms(1) w by (simp add: trim_end_id_iff)
  next
    case 2
    then have "last pre \<in> set w" by (auto simp: suffix_def)
    then show ?thesis using white_space_bytes w(1) assms(3) by blast
  qed
qed

lemma trim_end_Nil [simp]: "trim_end [] = []"
  by (simp add: trim_end_id_iff)

lemma trim_end_graphic: "s \<noteq> [] \<Longrightarrow> graphic (last s) \<Longrightarrow> trim_end s = s"
  using trim_end_prepend [of "[]" s] by simp

lemma newline_ends_only:
  "List.find (\<lambda>w. w \<noteq> [] \<and> prefix w (newline # r)) (map rev white_space) = Some [newline]"
proof -
  have "List.find (\<lambda>w. w \<noteq> [] \<and> prefix w (newline # r)) (map rev white_space)
      = List.find (\<lambda>w. w = [newline]) (map rev white_space)"
  proof -
    have "\<forall>w \<in> set (map rev white_space). w \<noteq> [] \<and> hd w = newline \<longrightarrow> w = [newline]"
      by code_simp
    then have "(w \<noteq> [] \<and> prefix w (newline # r)) = (w = [newline])" if "w \<in> set (map rev white_space)" for w
      using that by (cases w) auto
    then show ?thesis by (intro find_cong) auto
  qed
  also have "\<dots> = Some [newline]" by code_simp
  finally show ?thesis .
qed

text \<open>A line that starts with a printable character and has no blank at its end.\<close>

lemma trim_line:
  assumes "s \<noteq> []" "graphic (hd s)" "trim_end s = s"
  shows "trim (s @ [newline]) = s" "trim s = s"
proof -
  have front: "strip_prefixes white_space (s @ t) = s @ t" for t
    by (rule strip_prefixes_graphic) (use assms white_space_ends in auto)
  have "strip_prefixes (map rev white_space) (newline # rev s) = strip_prefixes (map rev white_space) (rev s)"
    by (subst strip_prefixes.simps) (simp only: newline_ends_only, simp)
  then show "trim (s @ [newline]) = s" using front assms(3) by (simp add: trim_def trim_end_def)
  show "trim s = s" using front [of "[]"] assms(3) by (simp add: trim_def trim_end_def)
qed

section \<open>Lossy conversion\<close>

text \<open>
  \<open>String::from_utf8_lossy\<close>: the tests on the bytes that must follow a first byte, none at all when
  it starts no character. As many following bytes as pass their tests belong to the character;
  when they are too few, they and the first byte become one replacement character.
\<close>

definition followers :: "char \<Rightarrow> (char \<Rightarrow> bool) list option" where
  "followers a =
     (if byte_in 0 0x7F a then Some []
      else if byte_in 0xC2 0xDF a then Some [\<lambda>b. continuation b]
      else if byte_in 0xE0 0xEF a then
        Some [\<lambda>b. if of_char a = (0xE0 :: nat) then byte_in 0xA0 0xBF b
                  else if of_char a = (0xED :: nat) then byte_in 0x80 0x9F b
                  else continuation b, \<lambda>c. continuation c]
      else if byte_in 0xF0 0xF4 a then
        Some [\<lambda>b. if of_char a = (0xF0 :: nat) then byte_in 0x90 0xBF b
                  else if of_char a = (0xF4 :: nat) then byte_in 0x80 0x8F b
                  else continuation b, \<lambda>c. continuation c, \<lambda>d. continuation d]
      else None)"

definition matched :: "(char \<Rightarrow> bool) list \<Rightarrow> string \<Rightarrow> nat" where
  "matched ts s = length (takeWhile (\<lambda>(t, c). t c) (zip ts s))"

definition replacement :: string where
  "replacement = map char_of [0xEF, 0xBF, 0xBD :: nat]"

fun from_utf8_lossy :: "string \<Rightarrow> string" where
  "from_utf8_lossy [] = []"
| "from_utf8_lossy (a # s) =
     (case followers a of
        None \<Rightarrow> replacement @ from_utf8_lossy s
      | Some ts \<Rightarrow>
          (let n = matched ts s
           in (if n = length ts then a # take n s else replacement) @ from_utf8_lossy (drop n s)))"

lemma valid_utf8_first:
  assumes "valid_utf8 (a # s)"
  shows "\<exists>ts. followers a = Some ts \<and> matched ts s = length ts \<and> valid_utf8 (drop (length ts) s)"
  using assms
  by (auto simp: followers_def matched_def split: list.splits if_splits)

lemma lossy_valid: "valid_utf8 s \<Longrightarrow> from_utf8_lossy s = s"
proof (induction s rule: from_utf8_lossy.induct)
  case (2 a s)
  from valid_utf8_first [OF 2(3)] obtain ts where
    "followers a = Some ts" "matched ts s = length ts" "valid_utf8 (drop (length ts) s)" by blast
  with 2(2) [of ts "length ts"] show ?case by (simp add: Let_def)
qed simp

end
