(* ===== verification/Peer_Info.thy ===== *)
theory Peer_Info
  imports Std_Strings
begin

text \<open>
  The connection-info file of a secondary (\<open>dynrunner-slurm/src/peer_info\<close>): the writer
  \<open>Builder::format\<close> and the parser \<open>parse\<close>. URLs are parsed by a package outside the
  repository, the parameter \<open>url_parse\<close>: it yields the host and the port of a URL, each if
  present, or nothing when the text is no URL.
\<close>

section \<open>The writer\<close>

record peer_info_builder =
  b_host :: string
  b_tunnel_port :: nat
  b_secondary_id :: "string option"
  b_cert_pem :: "string option"
  b_ipv4 :: "string option"
  b_ipv6 :: "string option"
  b_quic_port :: "nat option"
  b_is_observer :: "bool option"

definition builder_new :: "string \<Rightarrow> nat \<Rightarrow> peer_info_builder" where
  "builder_new host port = \<lparr> b_host = host, b_tunnel_port = port, b_secondary_id = None, b_cert_pem = None,
     b_ipv4 = None, b_ipv6 = None, b_quic_port = None, b_is_observer = None \<rparr>"

definition opt_line :: "('a \<Rightarrow> string) \<Rightarrow> 'a option \<Rightarrow> string" where
  "opt_line f v = (case v of None \<Rightarrow> [] | Some x \<Rightarrow> f x @ [newline])"

definition legacy_line :: "string \<Rightarrow> nat \<Rightarrow> string" where
  "legacy_line host port = ''tcp://'' @ host @ '':'' @ show_nat port"

definition builder_format :: "peer_info_builder \<Rightarrow> string" where
  "builder_format b =
     legacy_line (b_host b) (b_tunnel_port b) @ [newline]
     @ ''version=2'' @ [newline]
     @ opt_line (\<lambda>s. ''secondary_id='' @ s) (b_secondary_id b)
     @ opt_line (\<lambda>s. ''cert_pem_b64='' @ encode_b64 s) (b_cert_pem b)
     @ opt_line (\<lambda>s. ''ipv4='' @ s) (b_ipv4 b)
     @ opt_line (\<lambda>s. ''ipv6='' @ s) (b_ipv6 b)
     @ opt_line (\<lambda>p. ''quic_port='' @ show_nat p) (b_quic_port b)
     @ opt_line (\<lambda>o'. ''is_observer='' @ (if o' then ''true'' else ''false'')) (b_is_observer b)"

section \<open>The parser\<close>

datatype peer_info_version = V1 | V2

datatype uri_problem = NoUrl | NoHost | NoPort

datatype peer_info_error =
    EmptyFile
  | InvalidUri uri_problem string
  | MalformedEnvelopeLine string
  | InvalidQuicPort string
  | InvalidIsObserver string
  | InvalidCert b64_error

record peer_info_record =
  version :: peer_info_version
  legacy_host :: string
  legacy_port :: nat
  secondary_id :: "string option"
  cert_pem :: "string option"
  ipv4 :: "string option"
  ipv6 :: "string option"
  quic_port :: "nat option"
  is_observer :: "bool option"

definition parse_v1_uri ::
  "(string \<Rightarrow> (string option \<times> nat option) option) \<Rightarrow> string \<Rightarrow> peer_info_error + string \<times> nat" where
  "parse_v1_uri url_parse line =
     (let trimmed = trim line in
      if trimmed = [] then Inl EmptyFile
      else case url_parse trimmed of
        None \<Rightarrow> Inl (InvalidUri NoUrl trimmed)
      | Some (None, _) \<Rightarrow> Inl (InvalidUri NoHost trimmed)
      | Some (Some host, None) \<Rightarrow> Inl (InvalidUri NoPort trimmed)
      | Some (Some host, Some port) \<Rightarrow> Inr (host, port))"

fun collect_kvs :: "string list \<Rightarrow> (string \<times> string) list \<Rightarrow> peer_info_error + (string \<times> string) list" where
  "collect_kvs [] kvs = Inr kvs"
| "collect_kvs (raw # lines) kvs =
     (let line = trim raw in
      if line = [] then collect_kvs lines kvs
      else case split_once (CHR ''='') line of
        None \<Rightarrow> Inl (MalformedEnvelopeLine line)
      | Some (k, v) \<Rightarrow> collect_kvs lines (AList.update (trim k) (trim v) kvs))"

definition nonempty :: "string option \<Rightarrow> string option" where
  "nonempty v = (case v of Some s \<Rightarrow> if s = [] then None else Some s | None \<Rightarrow> None)"

definition read_quic_port :: "string option \<Rightarrow> peer_info_error + nat option" where
  "read_quic_port v =
     (case nonempty v of
        None \<Rightarrow> Inr None
      | Some s \<Rightarrow> (case parse_u16 s of None \<Rightarrow> Inl (InvalidQuicPort s) | Some p \<Rightarrow> Inr (Some p)))"

definition read_is_observer :: "string option \<Rightarrow> peer_info_error + bool option" where
  "read_is_observer v =
     (case v of
        None \<Rightarrow> Inr None
      | Some s \<Rightarrow> if s = ''true'' then Inr (Some True)
                  else if s = ''false'' then Inr (Some False) else Inl (InvalidIsObserver s))"

definition read_cert :: "string option \<Rightarrow> peer_info_error + string option" where
  "read_cert v =
     (case nonempty v of
        None \<Rightarrow> Inr None
      | Some s \<Rightarrow> (case decode_b64 s of Inl e \<Rightarrow> Inl (InvalidCert e) | Inr pem \<Rightarrow> Inr (Some pem)))"

definition detect_version :: "(string \<times> string) list \<Rightarrow> peer_info_version" where
  "detect_version kvs =
     (if map_of kvs ''version'' = Some ''2'' then V2 else if kvs = [] then V1 else V2)"

definition parse_peer_info ::
  "(string \<Rightarrow> (string option \<times> nat option) option) \<Rightarrow> string \<Rightarrow> peer_info_error + peer_info_record" where
  "parse_peer_info url_parse contents =
     (case split_char newline contents of
        [] \<Rightarrow> Inl EmptyFile
      | line1 # lines \<Rightarrow>
     (case parse_v1_uri url_parse line1 of Inl e \<Rightarrow> Inl e | Inr (host, port) \<Rightarrow>
     (case collect_kvs lines [] of Inl e \<Rightarrow> Inl e | Inr kvs \<Rightarrow>
     (case read_quic_port (map_of kvs ''quic_port'') of Inl e \<Rightarrow> Inl e | Inr qp \<Rightarrow>
     (case read_is_observer (map_of kvs ''is_observer'') of Inl e \<Rightarrow> Inl e | Inr obs \<Rightarrow>
     (case read_cert (map_of kvs ''cert_pem_b64'') of Inl e \<Rightarrow> Inl e | Inr pem \<Rightarrow>
        Inr \<lparr> version = detect_version kvs, legacy_host = host, legacy_port = port,
              secondary_id = nonempty (map_of kvs ''secondary_id''), cert_pem = pem,
              ipv4 = nonempty (map_of kvs ''ipv4''), ipv6 = nonempty (map_of kvs ''ipv6''),
              quic_port = qp, is_observer = obs \<rparr>))))))"

section \<open>Round trip\<close>

definition entry_line :: "string \<times> string \<Rightarrow> string" where
  "entry_line = (\<lambda>(k, v). k @ CHR ''='' # v)"

abbreviation entry_ok :: "string \<times> string \<Rightarrow> bool" where
  "entry_ok e \<equiv> plain (fst e) \<and> plain (snd e) \<and> CHR ''='' \<notin> set (fst e)"

lemma entry_line_trim: "entry_ok e \<Longrightarrow> trim (entry_line e) = entry_line e"
  by (rule trim_graphic) (auto simp: entry_line_def plain_def split: prod.splits)

lemma collect_entries:
  "\<forall>e \<in> set es. entry_ok e \<Longrightarrow> distinct (keys (kvs @ es)) \<Longrightarrow>
     collect_kvs (map entry_line es @ [[]]) kvs = Inr (kvs @ es)"
proof (induction es arbitrary: kvs)
  case (Cons e es)
  obtain k v where e: "e = (k, v)" by fastforce
  have "k \<notin> fst ` set kvs" using Cons.prems(2) e by auto
  then have "AList.update k v kvs = kvs @ [(k, v)]" by (induction kvs) auto
  moreover have "entry_line e \<noteq> []" by (simp add: entry_line_def e)
  moreover have "split_once (CHR ''='') (entry_line e) = Some (k, v)"
    using Cons.prems(1) e by (simp add: entry_line_def split_once_key)
  ultimately show ?case
    using Cons.IH [of "kvs @ [e]"] Cons.prems e entry_line_trim [of e] plain_trim [of k] plain_trim [of v] by simp
qed simp

text \<open>The entries that the writer emits.\<close>

definition opt_entry :: "string \<Rightarrow> ('a \<Rightarrow> string) \<Rightarrow> 'a option \<Rightarrow> (string \<times> string) list" where
  "opt_entry k f v = (case v of None \<Rightarrow> [] | Some x \<Rightarrow> [(k, f x)])"

definition builder_entries :: "peer_info_builder \<Rightarrow> (string \<times> string) list" where
  "builder_entries b =
     [(''version'', ''2'')]
     @ opt_entry ''secondary_id'' (\<lambda>s. s) (b_secondary_id b)
     @ opt_entry ''cert_pem_b64'' encode_b64 (b_cert_pem b)
     @ opt_entry ''ipv4'' (\<lambda>s. s) (b_ipv4 b)
     @ opt_entry ''ipv6'' (\<lambda>s. s) (b_ipv6 b)
     @ opt_entry ''quic_port'' show_nat (b_quic_port b)
     @ opt_entry ''is_observer'' (\<lambda>x. if x then ''true'' else ''false'') (b_is_observer b)"

lemma opt_line_entry:
  "opt_line (\<lambda>x. k @ CHR ''='' # f x) v = concat (map (\<lambda>l. l @ [newline]) (map entry_line (opt_entry k f v)))"
  by (simp add: opt_line_def opt_entry_def entry_line_def split: option.split)

lemma builder_format_lines:
  "builder_format b = concat (map (\<lambda>l. l @ [newline])
     (legacy_line (b_host b) (b_tunnel_port b) # map entry_line (builder_entries b)))"
  using opt_line_entry [of "''secondary_id''" "\<lambda>s. s"] opt_line_entry [of "''cert_pem_b64''" encode_b64]
    opt_line_entry [of "''ipv4''" "\<lambda>s. s"] opt_line_entry [of "''ipv6''" "\<lambda>s. s"]
    opt_line_entry [of "''quic_port''" show_nat]
    opt_line_entry [of "''is_observer''" "\<lambda>x. if x then ''true'' else ''false''"]
  by (simp add: builder_format_def builder_entries_def entry_line_def)

text \<open>What the writer is given: printable texts, ports of 16 bits, a nonempty well-formed certificate.\<close>

definition builder_ok :: "peer_info_builder \<Rightarrow> bool" where
  "builder_ok b \<longleftrightarrow>
     plain (b_host b) \<and> b_tunnel_port b < 65536
     \<and> pred_option plain (b_secondary_id b) \<and> pred_option (\<lambda>s. s \<noteq> [] \<and> valid_utf8 s) (b_cert_pem b)
     \<and> pred_option plain (b_ipv4 b) \<and> pred_option plain (b_ipv6 b)
     \<and> pred_option (\<lambda>p. p < 65536) (b_quic_port b)"

lemma opt_entry_ok:
  "pred_option (\<lambda>x. plain (f x)) v \<Longrightarrow> plain k \<Longrightarrow> CHR ''='' \<notin> set k \<Longrightarrow> \<forall>e \<in> set (opt_entry k f v). entry_ok e"
  by (cases v) (auto simp: opt_entry_def)

lemma builder_entries_ok:
  assumes "builder_ok b"
  shows "\<forall>e \<in> set (builder_entries b). entry_ok e"
proof -
  note ok = assms [unfolded builder_ok_def]
  have cert: "pred_option (\<lambda>s. plain (encode_b64 s)) (b_cert_pem b)"
    using ok plain_encode_b64 by (cases "b_cert_pem b") auto
  have port: "pred_option (\<lambda>p. plain (show_nat p)) (b_quic_port b)"
    using plain_show_nat by (cases "b_quic_port b") auto
  have obs: "pred_option (\<lambda>x. plain (if x then ''true'' else ''false'')) (b_is_observer b)"
    by (cases "b_is_observer b") (auto simp: plain_def)
  have "entry_ok (''version'', ''2'')" by (simp add: plain_def)
  moreover have "\<forall>e \<in> set (opt_entry ''secondary_id'' (\<lambda>s. s) (b_secondary_id b)). entry_ok e"
    by (rule opt_entry_ok) (use ok in \<open>auto simp: plain_def [of "''secondary_id''"]\<close>)
  moreover have "\<forall>e \<in> set (opt_entry ''cert_pem_b64'' encode_b64 (b_cert_pem b)). entry_ok e"
    by (rule opt_entry_ok [OF cert]) (auto simp: plain_def)
  moreover have "\<forall>e \<in> set (opt_entry ''ipv4'' (\<lambda>s. s) (b_ipv4 b)). entry_ok e"
    by (rule opt_entry_ok) (use ok in \<open>auto simp: plain_def [of "''ipv4''"]\<close>)
  moreover have "\<forall>e \<in> set (opt_entry ''ipv6'' (\<lambda>s. s) (b_ipv6 b)). entry_ok e"
    by (rule opt_entry_ok) (use ok in \<open>auto simp: plain_def [of "''ipv6''"]\<close>)
  moreover have "\<forall>e \<in> set (opt_entry ''quic_port'' show_nat (b_quic_port b)). entry_ok e"
    by (rule opt_entry_ok [OF port]) (auto simp: plain_def)
  moreover have "\<forall>e \<in> set (opt_entry ''is_observer'' (\<lambda>x. if x then ''true'' else ''false'') (b_is_observer b)). entry_ok e"
    by (rule opt_entry_ok [OF obs]) (auto simp: plain_def)
  ultimately show ?thesis unfolding builder_entries_def set_append ball_Un by (intro conjI) (assumption | simp)+
qed

lemma opt_entry_keys [simp]: "fst ` set (opt_entry k f v) = (if v = None then {} else {k})"
  "distinct (keys (opt_entry k f v))"
  by (cases v; simp add: opt_entry_def)+

lemma builder_entries_distinct: "distinct (keys (builder_entries b))"
  by (simp add: builder_entries_def)

lemma map_of_opt_entry: "map_of (opt_entry k f v) x = (if x = k then map_option f v else None)"
  by (cases v) (auto simp: opt_entry_def)

lemma builder_entries_lookup:
  "map_of (builder_entries b) ''version'' = Some ''2''"
  "map_of (builder_entries b) ''secondary_id'' = b_secondary_id b"
  "map_of (builder_entries b) ''cert_pem_b64'' = map_option encode_b64 (b_cert_pem b)"
  "map_of (builder_entries b) ''ipv4'' = b_ipv4 b"
  "map_of (builder_entries b) ''ipv6'' = b_ipv6 b"
  "map_of (builder_entries b) ''quic_port'' = map_option show_nat (b_quic_port b)"
  "map_of (builder_entries b) ''is_observer'' = map_option (\<lambda>x. if x then ''true'' else ''false'') (b_is_observer b)"
  by (simp_all add: builder_entries_def map_add_def map_of_opt_entry option.map_ident split: option.split)

lemma nonempty_plain: "pred_option plain v \<Longrightarrow> nonempty v = v"
  by (cases v) (auto simp: nonempty_def plain_def)

lemma read_quic_port_show: "pred_option (\<lambda>p. p < 65536) v \<Longrightarrow> read_quic_port (map_option show_nat v) = Inr v"
  using plain_show_nat by (cases v) (auto simp: read_quic_port_def nonempty_def plain_def parse_show_u16)

lemma read_is_observer_show:
  "read_is_observer (map_option (\<lambda>x. if x then ''true'' else ''false'') v) = Inr v"
  by (cases v) (auto simp: read_is_observer_def)

lemma read_cert_encode:
  "pred_option (\<lambda>s. s \<noteq> [] \<and> valid_utf8 s) v \<Longrightarrow> read_cert (map_option encode_b64 v) = Inr v"
  using plain_encode_b64
  by (cases v) (auto simp: read_cert_def nonempty_def plain_def decode_b64_def decode_encode_bytes)

lemma legacy_line_plain: "plain host \<Longrightarrow> plain (legacy_line host port)"
  using plain_show_nat [of port] by (auto simp: legacy_line_def plain_def)

text \<open>
  C38: The file of a secondary is read back as it was written. With a URL parser that splits
  \<open>tcp://host:port\<close> into its host and port, parsing the formatted record yields version 2, the host
  and tunnel port of its first line, and every optional field as it was set, for printable texts,
  16-bit ports and a nonempty well-formed certificate.
\<close>

theorem peer_info_roundtrip:
  assumes "builder_ok b"
    and "url_parse (legacy_line (b_host b) (b_tunnel_port b)) = Some (Some (b_host b), Some (b_tunnel_port b))"
  shows "parse_peer_info url_parse (builder_format b) =
    Inr \<lparr> version = V2, legacy_host = b_host b, legacy_port = b_tunnel_port b, secondary_id = b_secondary_id b,
          cert_pem = b_cert_pem b, ipv4 = b_ipv4 b, ipv6 = b_ipv6 b, quic_port = b_quic_port b,
          is_observer = b_is_observer b \<rparr>"
proof -
  let ?line = "legacy_line (b_host b) (b_tunnel_port b)" and ?es = "builder_entries b"
  note ok = assms(1) [unfolded builder_ok_def]
  have line: "plain ?line" using ok legacy_line_plain by blast
  have "newline \<notin> set (entry_line e)" if "e \<in> set ?es" for e
    using builder_entries_ok [OF assms(1)] that plain_newline [of "fst e"] plain_newline [of "snd e"]
    by (auto simp: entry_line_def newline_def split: prod.splits)
  then have "split_char newline (builder_format b) = ?line # map entry_line ?es @ [[]]"
    unfolding builder_format_lines using split_char_lines [of "?line # map entry_line ?es" newline]
      plain_newline [OF line] by simp
  moreover have "parse_v1_uri url_parse ?line = Inr (b_host b, b_tunnel_port b)"
    using line assms(2) plain_trim [OF line] by (simp add: parse_v1_uri_def plain_def)
  moreover have "collect_kvs (map entry_line ?es @ [[]]) [] = Inr ?es"
    using collect_entries [of ?es "[]"] builder_entries_ok [OF assms(1)] builder_entries_distinct by simp
  ultimately show ?thesis using ok
    by (simp add: parse_peer_info_def builder_entries_lookup read_quic_port_show read_is_observer_show
        read_cert_encode nonempty_plain detect_version_def)
qed

theorem peer_info_roundtrip_witness:
  "parse_peer_info (\<lambda>_. Some (Some ''node7'', Some 4433))
      (builder_format ((builder_new ''node7'' 4433)\<lparr>b_cert_pem := Some ''PEM'', b_quic_port := Some 9\<rparr>)) =
    Inr \<lparr> version = V2, legacy_host = ''node7'', legacy_port = 4433, secondary_id = None,
          cert_pem = Some ''PEM'', ipv4 = None, ipv6 = None, quic_port = Some 9, is_observer = None \<rparr>"
  using peer_info_roundtrip [of "(builder_new ''node7'' 4433)\<lparr>b_cert_pem := Some ''PEM'', b_quic_port := Some 9\<rparr>"
      "\<lambda>_. Some (Some ''node7'', Some 4433)"]
  by (simp add: builder_ok_def builder_new_def plain_def)

end
