(* ===== verification/Worker_Codec.thy ===== *)
theory Worker_Codec
  imports Std_Strings Task_Types
begin

text \<open>
  The line codec between a manager and its workers
  (\<open>dynrunner-protocol-manager-worker/src/command.rs\<close> and \<open>codec.rs\<close>). Commands and responses are
  lines of text; custom messages and exceptions travel as base64 of JSON.

  The base64 engine, the JSON library and the derived (de)serialisers are code outside the
  repository: the fields of the record \<open>wire_env\<close>. The theorems need of them that they read back
  what they wrote, and that base64 text is printable.
\<close>

section \<open>Messages\<close>

datatype 'o worker_command =
    Stop
  | ProcessTask string "string option" "string option" "(string \<times> 'o) list"
  | CommandCustom string string

datatype worker_response =
    Ready
  | Done "string option"
  | Error error_type string
  | WorkerException string string string "error_type option"
  | PhaseUpdate string
  | Keepalive
  | Custom string string

datatype json =
    JNull
  | JBool bool
  | JNumber string
  | JString string
  | JArray "json list"
  | JObject "(string \<times> json) list"

record exception_wire =
  w_exception_type :: string
  w_message :: string
  w_traceback :: string
  w_error_type :: "string option"

record 'o wire_env =
  b64_encode :: "string \<Rightarrow> string"
  b64_decode :: "string \<Rightarrow> string option"
  custom_to_json :: "string \<times> string \<Rightarrow> string"
  custom_from_json :: "string \<Rightarrow> (string \<times> string) option"
  exception_to_json :: "exception_wire \<Rightarrow> string"
  exception_from_json :: "string \<Rightarrow> exception_wire option"
  json_to_string :: "json \<Rightarrow> string"
  json_from_str :: "string \<Rightarrow> json option"
  outputs_to_json :: "(string \<times> 'o) list \<Rightarrow> json"
  outputs_from_json :: "json \<Rightarrow> (string \<times> 'o) list option"

section \<open>Custom frames\<close>

definition MALFORMED_CUSTOM_TOPIC :: string where
  "MALFORMED_CUSTOM_TOPIC = ''__malformed_custom__''"

definition serialize_custom_frame :: "'o wire_env \<Rightarrow> string \<Rightarrow> string \<Rightarrow> string" where
  "serialize_custom_frame env topic bytes =
     ''custom:'' @ b64_encode env (custom_to_json env (topic, b64_encode env bytes)) @ [newline]"

definition parse_custom_frame :: "'o wire_env \<Rightarrow> string \<Rightarrow> string \<times> string" where
  "parse_custom_frame env rest =
     (case Option.bind (b64_decode env rest) (custom_from_json env) of
        None \<Rightarrow> (MALFORMED_CUSTOM_TOPIC, rest)
      | Some (topic, data_b64) \<Rightarrow>
          (case b64_decode env data_b64 of
             None \<Rightarrow> (MALFORMED_CUSTOM_TOPIC, rest)
           | Some bytes \<Rightarrow> (topic, bytes)))"

section \<open>Commands\<close>

text \<open>A \<open>serde_json::Map\<close> is a B-tree map.\<close>

definition task_wrapper ::
  "'o wire_env \<Rightarrow> string \<Rightarrow> string option \<Rightarrow> string option \<Rightarrow> (string \<times> 'o) list \<Rightarrow> json" where
  "task_wrapper env relative_path data rp outs = JObject
     ([(''path'', JString relative_path)]
      @ (case data of None \<Rightarrow> [] | Some p \<Rightarrow> [(''payload'', JString p)])
      @ (if outs = [] then [] else [(''predecessor_outputs'', outputs_to_json env outs)])
      @ (case rp of None \<Rightarrow> [] | Some p \<Rightarrow> [(''resolved_path'', JString p)]))"

definition serialize_command :: "'o wire_env \<Rightarrow> 'o worker_command \<Rightarrow> string" where
  "serialize_command env cmd =
     (case cmd of
        Stop \<Rightarrow> ''stop'' @ [newline]
      | ProcessTask relative_path data rp outs \<Rightarrow>
          if data = None \<and> rp = None \<and> outs = [] then relative_path @ [newline]
          else ''task:'' @ json_to_string env (task_wrapper env relative_path data rp outs) @ [newline]
      | CommandCustom topic bytes \<Rightarrow> serialize_custom_frame env topic bytes)"

definition json_get :: "string \<Rightarrow> json \<Rightarrow> json option" where
  "json_get k v = (case v of JObject m \<Rightarrow> map_of m k | _ \<Rightarrow> None)"

definition as_str :: "json \<Rightarrow> string option" where
  "as_str v = (case v of JString s \<Rightarrow> Some s | _ \<Rightarrow> None)"

definition parse_command :: "'o wire_env \<Rightarrow> string \<Rightarrow> 'o worker_command option" where
  "parse_command env raw =
     (let line = trim raw in
      if line = [] then None
      else if line = ''stop'' then Some Stop
      else case strip_prefix ''custom:'' line of
        Some rest \<Rightarrow> Some (case parse_custom_frame env rest of (topic, bytes) \<Rightarrow> CommandCustom topic bytes)
      | None \<Rightarrow>
          (case Option.bind (strip_prefix ''task:'' line) (json_from_str env) of
             Some v \<Rightarrow> Some (ProcessTask
               (case Option.bind (json_get ''path'' v) as_str of None \<Rightarrow> [] | Some s \<Rightarrow> s)
               (Option.bind (json_get ''payload'' v) as_str)
               (Option.bind (json_get ''resolved_path'' v) as_str)
               (case Option.bind (json_get ''predecessor_outputs'' v) (outputs_from_json env) of
                  None \<Rightarrow> [] | Some outs \<Rightarrow> outs))
           | None \<Rightarrow> Some (ProcessTask line None None [])))"

section \<open>Responses\<close>

definition serialize_response :: "'o wire_env \<Rightarrow> worker_response \<Rightarrow> string" where
  "serialize_response env resp =
     (case resp of
        Ready \<Rightarrow> ''ready'' @ [newline]
      | Done None \<Rightarrow> ''done'' @ [newline]
      | Done (Some bytes) \<Rightarrow> ''done:'' @ from_utf8_lossy bytes @ [newline]
      | Error error_type message \<Rightarrow> ''error:'' @ wire_value error_type @ '':'' @ message @ [newline]
      | WorkerException exception_type message traceback error_type \<Rightarrow>
          ''error:exception:'' @ b64_encode env (exception_to_json env
             \<lparr> w_exception_type = exception_type, w_message = message, w_traceback = traceback,
               w_error_type = map_option wire_value error_type \<rparr>) @ [newline]
      | PhaseUpdate phase_name \<Rightarrow> ''phase:'' @ phase_name @ [newline]
      | Keepalive \<Rightarrow> ''keepalive'' @ [newline]
      | Custom topic bytes \<Rightarrow> serialize_custom_frame env topic bytes)"

definition parse_exception :: "'o wire_env \<Rightarrow> string \<Rightarrow> worker_response" where
  "parse_exception env rest =
     (case Option.bind (b64_decode env rest) (exception_from_json env) of
        Some w \<Rightarrow> WorkerException (w_exception_type w) (w_message w) (w_traceback w)
                    (Option.bind (w_error_type w) from_wire)
      | None \<Rightarrow> WorkerException ''MalformedException'' rest [] None)"

definition parse_response :: "'o wire_env \<Rightarrow> string \<Rightarrow> worker_response option" where
  "parse_response env raw =
     (let line = trim raw in
      if line = [] then None
      else if line = ''keepalive'' then Some Keepalive
      else if line = ''ready'' then Some Ready
      else if line = ''done'' then Some (Done None)
      else case strip_prefix ''done:'' line of Some rest \<Rightarrow> Some (Done (Some rest)) | None \<Rightarrow>
     (case strip_prefix ''phase:'' line of Some phase_name \<Rightarrow> Some (PhaseUpdate phase_name) | None \<Rightarrow>
     (case strip_prefix ''custom:'' line of
        Some rest \<Rightarrow> Some (case parse_custom_frame env rest of (topic, bytes) \<Rightarrow> Custom topic bytes)
      | None \<Rightarrow>
     (case strip_prefix ''error:exception:'' line of Some rest \<Rightarrow> Some (parse_exception env rest) | None \<Rightarrow>
     (case strip_prefix ''error:pickle:'' line of
        Some rest \<Rightarrow> Some (WorkerException ''LegacyPickledException'' rest [] None)
      | None \<Rightarrow>
     (case Option.bind (strip_prefix ''error:'' line) (split_once (CHR '':'')) of
        Some (tag, message) \<Rightarrow>
          Some (Error (case from_wire tag of None \<Rightarrow> Recoverable | Some e \<Rightarrow> e) message)
      | None \<Rightarrow> None))))))"

section \<open>Round trips\<close>

text \<open>What the codec relies on of a base64 engine: it reads back what it wrote, and writes printable text.\<close>

locale base64_text = base64_codec +
  assumes printable: "\<forall>c \<in> set (encode bytes). graphic c"
begin

lemma encoded_clean: "trim_end (encode bytes) = encode bytes" "newline \<notin> set (encode bytes)"
  using printable [of bytes] by (cases "encode bytes = []"; fastforce intro: trim_end_graphic simp: newline_def)+

end

interpretation slurm_b64_text: base64_text encode_b64 b64_decode_option
proof
  show "\<forall>c \<in> set (encode_b64 bytes). graphic c" for bytes
    using plain_encode_b64 [of bytes] by (cases bytes) (auto simp: plain_def)
qed

text \<open>A frame: a tag, a body without blanks at its end, and the newline.\<close>

lemma frame_trim:
  assumes "trim_end body = body" "tag \<noteq> []" "graphic (hd tag)" "graphic (last tag)"
  shows "trim (tag @ body @ [newline]) = tag @ body"
  using trim_line(1) [of "tag @ body"] trim_end_prepend [OF assms(1,2,4)] assms(2,3) by simp

lemma strip_prefix_tag [simp]: "strip_prefix tag (tag @ s) = Some s"
  by (simp add: strip_prefix_def)

definition exception_wire_of ::
  "string \<Rightarrow> string \<Rightarrow> string \<Rightarrow> error_type option \<Rightarrow> exception_wire" where
  "exception_wire_of ty msg tb e =
     \<lparr> w_exception_type = ty, w_message = msg, w_traceback = tb, w_error_type = map_option wire_value e \<rparr>"

text \<open>A text that survives as the rest of a line.\<close>

definition line_text :: "string \<Rightarrow> bool" where
  "line_text s \<longleftrightarrow> newline \<notin> set s \<and> trim_end s = s"

text \<open>The responses that the line format carries unchanged.\<close>

fun response_framable :: "'o wire_env \<Rightarrow> worker_response \<Rightarrow> bool" where
  "response_framable env (Done (Some bytes)) \<longleftrightarrow> valid_utf8 bytes \<and> line_text bytes"
| "response_framable env (Error e message) \<longleftrightarrow> CHR '':'' \<notin> set (wire_value e) \<and> line_text message"
| "response_framable env (WorkerException ty msg tb e) \<longleftrightarrow>
     exception_from_json env (exception_to_json env (exception_wire_of ty msg tb e))
       = Some (exception_wire_of ty msg tb e)
     \<and> (\<forall>x. e = Some x \<longrightarrow> error_bounded x)"
| "response_framable env (PhaseUpdate phase_name) \<longleftrightarrow> line_text phase_name"
| "response_framable env (Custom topic bytes) \<longleftrightarrow>
     custom_from_json env (custom_to_json env (topic, b64_encode env bytes)) = Some (topic, b64_encode env bytes)"
| "response_framable env r \<longleftrightarrow> True"

lemma colon_free_wire:
  "CHR '':'' \<notin> set (wire_value e) \<longleftrightarrow> e \<in> {ResourceExhausted memory_kind, NonRecoverable, Recoverable}"
  by (cases e) auto

lemma custom_roundtrip:
  assumes "base64_text (b64_encode env) (b64_decode env)"
    and "custom_from_json env (custom_to_json env (topic, b64_encode env bytes)) = Some (topic, b64_encode env bytes)"
  shows "parse_custom_frame env (b64_encode env (custom_to_json env (topic, b64_encode env bytes))) = (topic, bytes)"
proof -
  have "b64_decode env (b64_encode env x) = Some x" for x
    using base64_codec.decode_encode [OF base64_text.axioms(1) [OF assms(1)]] .
  then show ?thesis using assms(2) by (simp add: parse_custom_frame_def)
qed

lemma b64_textI:
  assumes "\<And>x. b64_decode env (b64_encode env x) = Some x" "\<And>x. \<forall>c \<in> set (b64_encode env x). graphic c"
  shows "base64_text (b64_encode env) (b64_decode env)"
  by unfold_locales (use assms in auto)

lemma serialize_frame:
  assumes "base64_text (b64_encode env) (b64_decode env)" "response_framable env r"
  shows "\<exists>tag body. serialize_response env r = tag @ body @ [newline] \<and> line_text body
    \<and> tag \<noteq> [] \<and> (\<forall>c \<in> set tag. graphic c)"
proof -
  note b64 = base64_text.encoded_clean [OF assms(1)]
  show ?thesis
  proof (cases r)
    case (Done d)
    show ?thesis
    proof (cases d)
      case None
      then show ?thesis using Done
        by (intro exI [of _ "''done''"] exI [of _ "[]"]) (simp add: serialize_response_def line_text_def)
    next
      case (Some bytes)
      then show ?thesis using Done assms(2) lossy_valid [of bytes]
        by (intro exI [of _ "''done:''"] exI [of _ bytes]) (simp add: serialize_response_def)
    qed
  next
    case (Error e m)
    then have "e \<in> {ResourceExhausted memory_kind, NonRecoverable, Recoverable}" "line_text m"
      using assms(2) colon_free_wire by auto
    then show ?thesis using Error
      by (intro exI [of _ "''error:'' @ wire_value e @ '':''"] exI [of _ m])
        (auto simp: serialize_response_def memory_kind_def)
  next
    case (WorkerException ty msg tb e)
    then show ?thesis using b64
      by (intro exI [of _ "''error:exception:''"] exI) (auto simp: serialize_response_def line_text_def)
  next
    case (PhaseUpdate n)
    then show ?thesis using assms(2)
      by (intro exI [of _ "''phase:''"] exI [of _ n]) (simp add: serialize_response_def)
  next
    case (Custom t d)
    then show ?thesis using b64
      by (intro exI [of _ "''custom:''"] exI)
        (auto simp: serialize_response_def serialize_custom_frame_def line_text_def)
  next
    case Ready
    then show ?thesis
      by (intro exI [of _ "''ready''"] exI [of _ "[]"]) (simp add: serialize_response_def line_text_def)
  next
    case Keepalive
    then show ?thesis
      by (intro exI [of _ "''keepalive''"] exI [of _ "[]"]) (simp add: serialize_response_def line_text_def)
  qed
qed

lemma serialize_trim:
  assumes "base64_text (b64_encode env) (b64_decode env)" "response_framable env r"
  shows "trim (serialize_response env r) = butlast (serialize_response env r)"
proof -
  from serialize_frame [OF assms] obtain tag body where
    s: "serialize_response env r = tag @ body @ [newline]" "line_text body" "tag \<noteq> []" "\<forall>c \<in> set tag. graphic c"
    by blast
  then have "trim (tag @ body @ [newline]) = tag @ body" by (intro frame_trim) (auto simp: line_text_def)
  then show ?thesis by (simp add: s(1) butlast_append)
qed

lemma response_roundtrip_core:
  assumes "\<And>x. b64_decode env (b64_encode env x) = Some x"
    and "\<And>x. \<forall>c \<in> set (b64_encode env x). graphic c"
    and "response_framable env r"
  shows "parse_response env (serialize_response env r) = Some r
    \<and> (\<exists>line. serialize_response env r = line @ [newline] \<and> newline \<notin> set line)"
proof
  note b64 = b64_textI [of env, OF assms(1,2)]
  note t = serialize_trim [OF b64 assms(3)]
  show "parse_response env (serialize_response env r) = Some r"
  proof (cases r)
    case (Done d)
    then show ?thesis using t assms(3) lossy_valid
      by (cases d) (auto simp: parse_response_def serialize_response_def butlast_append strip_prefix_def)
  next
    case (Error e m)
    then have "e \<in> {ResourceExhausted memory_kind, NonRecoverable, Recoverable}"
      using assms(3) colon_free_wire by auto
    then show ?thesis using t Error
      by (auto simp: parse_response_def serialize_response_def butlast_append strip_prefix_def memory_kind_def from_wire_def)
  next
    case (WorkerException ty msg tb e)
    then show ?thesis using t assms(1,3)
      by (cases e) (auto simp: parse_response_def serialize_response_def butlast_append strip_prefix_def
          parse_exception_def exception_wire_of_def wire_roundtrip)
  next
    case (Custom topic bytes)
    then show ?thesis using t custom_roundtrip [OF b64] assms(3)
      by (auto simp: parse_response_def serialize_response_def serialize_custom_frame_def butlast_append strip_prefix_def)
  qed (use t in \<open>auto simp: parse_response_def serialize_response_def butlast_append strip_prefix_def\<close>)
  from serialize_frame [OF b64 assms(3)]
  show "\<exists>line. serialize_response env r = line @ [newline] \<and> newline \<notin> set line"
    by (fastforce simp: line_text_def newline_def)
qed

text \<open>
  A response that the line format can carry arrives as it was sent, on a line of its own: with a
  base64 engine that reads back what it wrote and writes printable text, the frame of such a
  response has its only newline at the end, and parsing it yields the response.
\<close>

theorem response_roundtrip:
  assumes "\<And>x. b64_decode env (b64_encode env x) = Some x"
    and "\<And>x. \<forall>c \<in> set (b64_encode env x). graphic c"
    and "response_framable env r"
  shows "parse_response env (serialize_response env r) = Some r
    \<and> (\<exists>line. serialize_response env r = line @ [newline] \<and> newline \<notin> set line)"
  by (rule response_roundtrip_core [OF assms])

text \<open>An environment: the base64 codec of theory \<open>Base64\<close>, and pairs of texts separated by a blank.\<close>

definition pair_to_text :: "string \<times> string \<Rightarrow> string" where
  "pair_to_text = (\<lambda>(a, b). encode_b64 a @ CHR '' '' # encode_b64 b)"

definition pair_from_text :: "string \<Rightarrow> (string \<times> string) option" where
  "pair_from_text s =
     (case split_once (CHR '' '') s of
        None \<Rightarrow> None
      | Some (a, b) \<Rightarrow> (case (b64_decode_option a, b64_decode_option b) of
          (Some x, Some y) \<Rightarrow> Some (x, y) | _ \<Rightarrow> None))"

definition sample_env :: "string wire_env" where
  "sample_env = \<lparr> b64_encode = encode_b64, b64_decode = b64_decode_option,
     custom_to_json = pair_to_text, custom_from_json = pair_from_text,
     exception_to_json = (\<lambda>w. []), exception_from_json = (\<lambda>s. None),
     json_to_string = (\<lambda>v. case v of
        JObject [(_, JString a), (_, JString b)] \<Rightarrow> pair_to_text (a, b) @ ''}'' | _ \<Rightarrow> ''{}''),
     json_from_str = (\<lambda>s. map_option (\<lambda>(a, b). JObject [(''path'', JString a), (''payload'', JString b)])
        (pair_from_text (butlast s))),
     outputs_to_json = (\<lambda>outs. JNull), outputs_from_json = (\<lambda>v. None) \<rparr>"

lemma pair_text_inverse: "pair_from_text (pair_to_text (a, b)) = Some (a, b)"
proof -
  have "CHR '' '' \<notin> set (encode_b64 a)" using slurm_b64_text.printable [of a] by auto
  then show ?thesis
    by (simp add: pair_from_text_def pair_to_text_def split_once_key slurm_b64.decode_encode)
qed

lemma sample_env_b64:
  "b64_decode sample_env (b64_encode sample_env x) = Some x"
  "\<forall>c \<in> set (b64_encode sample_env x). graphic c"
  using slurm_b64.decode_encode slurm_b64_text.printable by (simp_all add: sample_env_def)

theorem response_roundtrip_witness:
  "parse_response sample_env (serialize_response sample_env (Custom ''progress'' ''a:b'')) = Some (Custom ''progress'' ''a:b'')
   \<and> (\<exists>line. serialize_response sample_env (Custom ''progress'' ''a:b'') = line @ [newline] \<and> newline \<notin> set line)"
  by (rule response_roundtrip [OF sample_env_b64]) (simp add: sample_env_def pair_text_inverse)

text \<open>What follows the colon in the wire text of an error.\<close>

fun error_detail :: "error_type \<Rightarrow> string option" where
  "error_detail (ResourceExhausted k) = (if k = memory_kind then None else Some k)"
| "error_detail (Unfulfillable r) = Some r"
| "error_detail (InvalidTask r) = Some r"
| "error_detail e = None"

lemma wire_detail:
  assumes "error_detail e = Some detail"
  obtains tag where "wire_value e = tag @ CHR '':'' # detail"
    "tag \<in> {''resource_exhausted'', ''unfulfillable'', ''invalid_task''}" "retry_class e \<noteq> Retryable"
  using assms by (cases e) (auto split: if_splits)

text \<open>
  C40: The category of a failure does not survive the line format when its wire text has a colon.
  A worker's report that a task is invalid, cannot be fulfilled, or exhausted a resource other than
  memory is read as a recoverable error, with the lost detail in front of the message: a failure
  that is not to be retried becomes one that is.
\<close>

theorem error_category_lost:
  assumes "error_detail e = Some detail" "trim_end message = message"
  shows "parse_response env (serialize_response env (Error e message))
      = Some (Error Recoverable (detail @ '':'' @ message))
    \<and> retry_class e \<noteq> retry_class Recoverable"
proof -
  from wire_detail [OF assms(1)] obtain tag where w: "wire_value e = tag @ CHR '':'' # detail"
    "tag \<in> {''resource_exhausted'', ''unfulfillable'', ''invalid_task''}" "retry_class e \<noteq> Retryable" .
  have "trim (serialize_response env (Error e message)) = ''error:'' @ tag @ CHR '':'' # detail @ '':'' @ message"
    using frame_trim [OF assms(2), of "''error:'' @ wire_value e @ '':''"] by (simp add: serialize_response_def w(1))
  then show ?thesis using w(2,3)
    by (auto simp: parse_response_def strip_prefix_def from_wire_def)
qed

theorem error_category_lost_witness:
  "parse_response sample_env (serialize_response sample_env (Error (InvalidTask ''duplicate'') ''t1''))
     = Some (Error Recoverable ''duplicate:t1'')
   \<and> retry_class (InvalidTask ''duplicate'') \<noteq> retry_class Recoverable"
proof -
  have "trim_end ''t1'' = ''t1''" by (rule trim_end_graphic) simp_all
  then show ?thesis
    using error_category_lost [of "InvalidTask ''duplicate''" "''duplicate''" "''t1''" sample_env] by simp
qed

text \<open>
  The bytes of a result are not opaque to the codec: bytes that are no UTF-8 text are replaced, and
  blanks at the end are cut off.
\<close>

theorem result_bytes_changed:
  "parse_response sample_env (serialize_response sample_env (Done (Some [CHR 0xFF]))) = Some (Done (Some replacement))"
  "parse_response sample_env (serialize_response sample_env (Done (Some ''ok ''))) = Some (Done (Some ''ok''))"
  by code_simp+

section \<open>Commands\<close>

text \<open>
  The commands that the line format carries unchanged. A bare path must not look like one of the
  other forms; a wrapped task needs a JSON library that reads back what it wrote, on one line.
\<close>

fun command_framable :: "'o wire_env \<Rightarrow> 'o worker_command \<Rightarrow> bool" where
  "command_framable env Stop \<longleftrightarrow> True"
| "command_framable env (ProcessTask p data rp outs) \<longleftrightarrow>
     (if data = None \<and> rp = None \<and> outs = []
      then p \<noteq> [] \<and> p \<noteq> ''stop'' \<and> newline \<notin> set p \<and> trim (p @ [newline]) = p
           \<and> strip_prefix ''custom:'' p = None \<and> Option.bind (strip_prefix ''task:'' p) (json_from_str env) = None
      else json_from_str env (json_to_string env (task_wrapper env p data rp outs)) = Some (task_wrapper env p data rp outs)
           \<and> line_text (json_to_string env (task_wrapper env p data rp outs))
           \<and> (outs = [] \<or> outputs_from_json env (outputs_to_json env outs) = Some outs))"
| "command_framable env (CommandCustom topic bytes) \<longleftrightarrow>
     custom_from_json env (custom_to_json env (topic, b64_encode env bytes)) = Some (topic, b64_encode env bytes)"

lemma task_wrapper_get:
  "json_get ''path'' (task_wrapper env p data rp outs) = Some (JString p)"
  "json_get ''payload'' (task_wrapper env p data rp outs) = map_option JString data"
  "json_get ''resolved_path'' (task_wrapper env p data rp outs) = map_option JString rp"
  "json_get ''predecessor_outputs'' (task_wrapper env p data rp outs)
     = (if outs = [] then None else Some (outputs_to_json env outs))"
  by (cases data; cases rp; simp add: task_wrapper_def json_get_def)+

lemma bind_as_str: "Option.bind (map_option JString x) as_str = x"
  by (cases x) (simp_all add: as_str_def)

text \<open>
  A command that the line format can carry arrives as it was sent, on a line of its own, with the
  payload, the resolved path and the predecessor outputs of a task each present exactly when
  they were.
\<close>

theorem command_roundtrip:
  assumes "\<And>x. b64_decode env (b64_encode env x) = Some x"
    and "\<And>x. \<forall>c \<in> set (b64_encode env x). graphic c"
    and "command_framable env c"
  shows "parse_command env (serialize_command env c) = Some c
    \<and> (\<exists>line. serialize_command env c = line @ [newline] \<and> newline \<notin> set line)"
proof (cases c)
  case Stop
  have "trim (''stop'' @ [newline]) = ''stop''" using frame_trim [of "[]" "''stop''"] by simp
  then show ?thesis using Stop by (simp add: parse_command_def serialize_command_def newline_def)
next
  case (CommandCustom topic bytes)
  note b64 = b64_textI [of env, OF assms(1,2)]
  let ?b = "b64_encode env (custom_to_json env (topic, b64_encode env bytes))"
  have "trim (''custom:'' @ ?b @ [newline]) = ''custom:'' @ ?b"
    by (rule frame_trim) (use base64_text.encoded_clean [OF b64] in auto)
  moreover have "newline \<notin> set (''custom:'' @ ?b)"
    using base64_text.encoded_clean [OF b64] by (simp add: newline_def)
  ultimately show ?thesis using CommandCustom assms(3) custom_roundtrip [OF b64]
    by (auto simp: parse_command_def serialize_command_def serialize_custom_frame_def strip_prefix_def)
next
  case (ProcessTask p data rp outs)
  show ?thesis
  proof (cases "data = None \<and> rp = None \<and> outs = []")
    case True
    then show ?thesis using ProcessTask assms(3) by (simp add: parse_command_def serialize_command_def)
  next
    case False
    let ?t = "json_to_string env (task_wrapper env p data rp outs)"
    have framable: "json_from_str env ?t = Some (task_wrapper env p data rp outs)" "line_text ?t"
      "outs = [] \<or> outputs_from_json env (outputs_to_json env outs) = Some outs"
      using ProcessTask False assms(3) by (auto split: if_splits)
    then have "trim (''task:'' @ ?t @ [newline]) = ''task:'' @ ?t"
      by (intro frame_trim) (auto simp: line_text_def)
    moreover have "serialize_command env c = ''task:'' @ ?t @ [newline]"
      using ProcessTask False by (auto simp: serialize_command_def)
    ultimately show ?thesis using ProcessTask framable
      by (auto simp: parse_command_def strip_prefix_def task_wrapper_get bind_as_str as_str_def line_text_def newline_def)
  qed
qed

theorem command_roundtrip_witness:
  "parse_command sample_env (serialize_command sample_env (ProcessTask ''a.bin'' (Some ''1'') None []))
     = Some (ProcessTask ''a.bin'' (Some ''1'') None [])
   \<and> (\<exists>line. serialize_command sample_env (ProcessTask ''a.bin'' (Some ''1'') None []) = line @ [newline] \<and> newline \<notin> set line)"
  by (rule command_roundtrip [OF sample_env_b64]) code_simp

text \<open>A task whose path is the word for stopping stops the worker instead.\<close>

theorem path_taken_for_stop:
  "parse_command env (serialize_command env (ProcessTask ''stop'' None None [])) = Some Stop"
  using frame_trim [of "[]" "''stop''"] by (simp add: parse_command_def serialize_command_def)

end
