(* ===== verification/Worker_Framing.thy ===== *)
theory Worker_Framing
  imports Worker_Codec
begin

text \<open>
  The bounded reader of worker responses (\<open>dynrunner-protocol-manager-worker/src/framing.rs\<close>).
  What \<open>fill_buf\<close> will return is a list of chunks, none empty, and what comes after them: more
  later (the read waits, and its future may be dropped there), the end of the stream, or an error
  of the transport. A read that waits returns \<open>Pending\<close> with the state it leaves behind.
\<close>

section \<open>Reading a line\<close>

definition MAX_RESPONSE_FRAME_BYTES :: nat where
  "MAX_RESPONSE_FRAME_BYTES = 64 * 1024 * 1024"

definition INLINE_VALUE_HARD_CAP_BYTES :: nat where
  "INLINE_VALUE_HARD_CAP_BYTES = 16 * 1024 * 1024"

datatype bounded_line = Line string | Oversize nat | Eof

datatype stream_end = Open | Closed | Broken

datatype io_error = InvalidData | TransportError

datatype read_result = Pending | Returned "io_error + bounded_line"

record frame_read_state =
  fr_buf :: string
  fr_drain :: "nat option"

definition frame_read_new :: frame_read_state where
  "frame_read_new = \<lparr> fr_buf = [], fr_drain = None \<rparr>"

definition into_utf8 :: "string \<Rightarrow> io_error + bounded_line" where
  "into_utf8 buf = (if valid_utf8 buf then Inr (Line buf) else Inl InvalidData)"

text \<open>The number of bytes up to and including the first newline, if there is one.\<close>

definition line_take :: "string \<Rightarrow> nat" where
  "line_take c = (if newline \<in> set c then length (takeWhile (\<lambda>x. x \<noteq> newline) c) + 1 else length c)"

definition consume :: "nat \<Rightarrow> string list \<Rightarrow> string list" where
  "consume n cs = (case cs of [] \<Rightarrow> [] | c # rest \<Rightarrow> if drop n c = [] then rest else drop n c # rest)"

fun drain_loop ::
  "nat \<Rightarrow> string list \<Rightarrow> stream_end \<Rightarrow> frame_read_state \<Rightarrow> read_result \<times> string list \<times> frame_read_state" where
  "drain_loop t [] e st =
     (case e of
        Open \<Rightarrow> (Pending, [], st\<lparr>fr_drain := Some t\<rparr>)
      | Broken \<Rightarrow> (Returned (Inl TransportError), [], st\<lparr>fr_drain := Some t\<rparr>)
      | Closed \<Rightarrow> (Returned (Inr (Oversize t)), [], st\<lparr>fr_drain := None\<rparr>))"
| "drain_loop t (c # cs) e st =
     (if newline \<in> set c
      then (Returned (Inr (Oversize (t + line_take c))), consume (line_take c) (c # cs), st\<lparr>fr_drain := None\<rparr>)
      else drain_loop (t + line_take c) cs e st)"

fun read_loop ::
  "nat \<Rightarrow> string list \<Rightarrow> stream_end \<Rightarrow> frame_read_state \<Rightarrow> read_result \<times> string list \<times> frame_read_state" where
  "read_loop cap [] e st =
     (case e of
        Open \<Rightarrow> (Pending, [], st)
      | Broken \<Rightarrow> (Returned (Inl TransportError), [], st)
      | Closed \<Rightarrow>
          if fr_buf st = [] then (Returned (Inr Eof), [], st)
          else (Returned (into_utf8 (fr_buf st)), [], st\<lparr>fr_buf := []\<rparr>))"
| "read_loop cap (c # cs) e st =
     (if length (fr_buf st) + line_take c > cap
      then drain_loop (length (fr_buf st)) (c # cs) e (st\<lparr>fr_buf := []\<rparr>)
      else if newline \<in> set c
      then (Returned (into_utf8 (fr_buf st @ take (line_take c) c)), consume (line_take c) (c # cs), st\<lparr>fr_buf := []\<rparr>)
      else read_loop cap cs e (st\<lparr>fr_buf := fr_buf st @ take (line_take c) c\<rparr>))"

definition read_line_bounded ::
  "nat \<Rightarrow> string list \<Rightarrow> stream_end \<Rightarrow> frame_read_state \<Rightarrow> read_result \<times> string list \<times> frame_read_state" where
  "read_line_bounded cap cs e st =
     (case fr_drain st of Some t \<Rightarrow> drain_loop t cs e st | None \<Rightarrow> read_loop cap cs e st)"

section \<open>Receiving a response\<close>

definition oversize_response :: "nat \<Rightarrow> worker_response" where
  "oversize_response len = Error NonRecoverable
     (''worker response frame of '' @ show_nat len @ '' bytes exceeds the protocol limit of ''
      @ show_nat MAX_RESPONSE_FRAME_BYTES @ '' bytes; inline published outputs are capped at ''
      @ show_nat INLINE_VALUE_HARD_CAP_BYTES @ '' bytes per value (Task.publish_string) ''
      @ map char_of [0xE2, 0x80, 0x94 :: nat]
      @ '' write bulk artifacts to the staging dir and use Task.publish(src, key=...) instead'')"

definition frame_response :: "'o wire_env \<Rightarrow> io_error + bounded_line \<Rightarrow> worker_response option" where
  "frame_response env r =
     (case r of
        Inr Eof \<Rightarrow> None
      | Inr (Line line) \<Rightarrow> parse_response env line
      | Inr (Oversize len) \<Rightarrow> Some (oversize_response len)
      | Inl error \<Rightarrow> None)"

text \<open>\<open>ResponseFrameReader::recv\<close>; None while it waits.\<close>

definition frame_recv ::
  "'o wire_env \<Rightarrow> string list \<Rightarrow> stream_end \<Rightarrow> frame_read_state
     \<Rightarrow> worker_response option option \<times> string list \<times> frame_read_state" where
  "frame_recv env cs e st =
     (case read_line_bounded MAX_RESPONSE_FRAME_BYTES cs e st of
        (Pending, cs', st') \<Rightarrow> (None, cs', st')
      | (Returned r, cs', st') \<Rightarrow> (Some (frame_response env r), cs', st'))"

section \<open>The lines of a stream\<close>

definition first_line :: "string \<Rightarrow> string" where
  "first_line s = takeWhile (\<lambda>x. x \<noteq> newline) s @ [newline]"

definition after_line :: "string \<Rightarrow> string" where
  "after_line s = tl (dropWhile (\<lambda>x. x \<noteq> newline) s)"

function complete_lines :: "string \<Rightarrow> string list" where
  "complete_lines s = (if newline \<in> set s then first_line s # complete_lines (after_line s) else [])"
  by pat_completeness auto

lemma split_first_line: "newline \<in> set s \<Longrightarrow> first_line s @ after_line s = s"
  by (induction s) (auto simp: first_line_def after_line_def)

termination complete_lines
proof (relation "measure length")
  fix s assume "newline \<in> set s"
  then have "length (first_line s) + length (after_line s) = length s"
    by (metis split_first_line length_append)
  then show "(after_line s, s) \<in> measure length" by (simp add: first_line_def)
qed simp

declare complete_lines.simps [simp del]

definition classify_line :: "nat \<Rightarrow> string \<Rightarrow> io_error + bounded_line" where
  "classify_line cap l = (if length l > cap then Inr (Oversize (length l)) else into_utf8 l)"

text \<open>The state after the bytes \<open>p\<close> of an unfinished line.\<close>

definition holds_partial :: "nat \<Rightarrow> frame_read_state \<Rightarrow> string \<Rightarrow> bool" where
  "holds_partial cap st p \<longleftrightarrow> newline \<notin> set p \<and>
     (if length p \<le> cap then fr_drain st = None \<and> fr_buf st = p
      else fr_drain st = Some (length p) \<and> fr_buf st = [])"

lemma line_take_first:
  assumes "newline \<in> set c"
  shows "line_take c = length (first_line c)" "take (length (first_line c)) c = first_line c"
    "drop (length (first_line c)) c = after_line c"
proof -
  show "line_take c = length (first_line c)" using assms by (simp add: line_take_def first_line_def)
  show "take (length (first_line c)) c = first_line c" "drop (length (first_line c)) c = after_line c"
    by (metis append_eq_conv_conj split_first_line [OF assms])+
qed

lemma first_line_append:
  assumes "newline \<notin> set p"
  shows "first_line (p @ s) = p @ first_line s" "after_line (p @ s) = after_line s"
  using assms by (induction p) (auto simp: first_line_def after_line_def)

lemma first_line_prefix:
  assumes "newline \<in> set c"
  shows "first_line (c @ s) = first_line c" "after_line (c @ s) = after_line c @ s"
  using assms by (induction c) (auto simp: first_line_def after_line_def)

lemma concat_consume: "concat (consume n (c # cs)) = drop n c @ concat cs"
  by (simp add: consume_def)

lemma consume_nonempty: "[] \<notin> set cs \<Longrightarrow> [] \<notin> set (consume n cs)"
  by (auto simp: consume_def split: list.splits if_splits)

text \<open>What one call returns, for every way in which the bytes are cut into chunks.\<close>

definition read_outcome ::
  "nat \<Rightarrow> string \<Rightarrow> stream_end \<Rightarrow> read_result \<times> string list \<times> frame_read_state \<Rightarrow> bool" where
  "read_outcome cap s e out \<longleftrightarrow>
     (case out of (r, cs', st') \<Rightarrow>
        if newline \<in> set s
        then r = Returned (classify_line cap (first_line s)) \<and> concat cs' = after_line s \<and> holds_partial cap st' []
        else cs' = [] \<and>
          (case e of
             Open \<Rightarrow> r = Pending \<and> holds_partial cap st' s
           | Broken \<Rightarrow> r = Returned (Inl TransportError) \<and> holds_partial cap st' s
           | Closed \<Rightarrow> r = Returned (if s = [] then Inr Eof else classify_line cap s) \<and> holds_partial cap st' []))"

lemma drain_loop_outcome:
  assumes "newline \<notin> set p" "length p + (case cs of [] \<Rightarrow> 0 | c # _ \<Rightarrow> line_take c) > cap" "fr_buf st = []"
  shows "read_outcome cap (p @ concat cs) e (drain_loop (length p) cs e st)"
  using assms
proof (induction cs arbitrary: p)
  case Nil
  then show ?case by (cases e) (auto simp: read_outcome_def holds_partial_def classify_line_def)
next
  case (Cons c cs)
  show ?case
  proof (cases "newline \<in> set c")
    case True
    then show ?thesis using Cons.prems
      by (simp add: read_outcome_def first_line_append first_line_prefix classify_line_def concat_consume
          line_take_first holds_partial_def)
  next
    case False
    then have "length (p @ c) + n > cap" for n using Cons.prems(2) by (simp add: line_take_def)
    then show ?thesis using Cons.IH [of "p @ c"] Cons.prems False by (simp add: line_take_def split: list.split)
  qed
qed

lemma read_loop_outcome:
  assumes "newline \<notin> set (fr_buf st)" "length (fr_buf st) \<le> cap" "fr_drain st = None"
  shows "read_outcome cap (fr_buf st @ concat cs) e (read_loop cap cs e st)"
  using assms
proof (induction cs arbitrary: st)
  case Nil
  then show ?case by (cases e) (auto simp: read_outcome_def holds_partial_def classify_line_def)
next
  case (Cons c cs)
  show ?case
  proof (cases "length (fr_buf st) + line_take c > cap")
    case True
    then show ?thesis using Cons.prems drain_loop_outcome [of "fr_buf st" cap "c # cs" "st\<lparr>fr_buf := []\<rparr>" e]
      by simp
  next
    case fits: False
    show ?thesis
    proof (cases "newline \<in> set c")
      case True
      then show ?thesis using fits Cons.prems
        by (simp add: read_outcome_def first_line_append first_line_prefix classify_line_def concat_consume
            line_take_first holds_partial_def)
    next
      case False
      then show ?thesis
        using fits Cons.prems Cons.IH [of "st\<lparr>fr_buf := fr_buf st @ c\<rparr>"] by (simp add: line_take_def)
    qed
  qed
qed

lemma read_line_outcome:
  assumes "holds_partial cap st p"
  shows "read_outcome cap (p @ concat cs) e (read_line_bounded cap cs e st)"
proof (cases "length p \<le> cap")
  case True
  then show ?thesis using assms read_loop_outcome [of st cap cs e]
    by (simp add: holds_partial_def read_line_bounded_def)
next
  case False
  then show ?thesis using assms drain_loop_outcome [of p cap cs st e]
    by (simp add: holds_partial_def read_line_bounded_def split: list.splits)
qed

section \<open>A connection\<close>

text \<open>
  The life of an open connection: chunks arrive, and calls of the reader return a line or wait and
  are dropped, in any order. The indices are the state of the reader, the chunks not yet
  consumed, the bytes that have arrived, and what the calls have returned.
\<close>

inductive connection ::
  "nat \<Rightarrow> frame_read_state \<Rightarrow> string list \<Rightarrow> string \<Rightarrow> (io_error + bounded_line) list \<Rightarrow> bool"
  for cap :: nat where
  conn_start: "connection cap frame_read_new [] [] []"
| conn_arrive: "connection cap st cs s rs \<Longrightarrow> c \<noteq> [] \<Longrightarrow> connection cap st (cs @ [c]) (s @ c) rs"
| conn_wait: "connection cap st cs s rs \<Longrightarrow> read_line_bounded cap cs Open st = (Pending, cs', st')
    \<Longrightarrow> connection cap st' cs' s rs"
| conn_line: "connection cap st cs s rs \<Longrightarrow> read_line_bounded cap cs Open st = (Returned r, cs', st')
    \<Longrightarrow> connection cap st' cs' s (rs @ [r])"

lemma complete_lines_step:
  "newline \<in> set s \<Longrightarrow> complete_lines s = first_line s # complete_lines (after_line s)"
  "newline \<notin> set s \<Longrightarrow> complete_lines s = []"
  by (subst complete_lines.simps; simp)+

text \<open>The lines read so far, and the rest of the bytes.\<close>

lemma complete_lines_append:
  assumes "\<forall>l \<in> set ls. \<exists>t. l = t @ [newline] \<and> newline \<notin> set t"
  shows "complete_lines (concat ls @ s) = ls @ complete_lines s"
  using assms
proof (induction ls)
  case (Cons l ls)
  then obtain t where t: "l = t @ [newline]" "newline \<notin> set t" by auto
  then have "first_line (l @ u) = l" "after_line (l @ u) = u" for u
    using first_line_append [OF t(2), of "newline # u"] by (simp_all add: first_line_def after_line_def)
  then show ?case using Cons t by (simp add: complete_lines_step)
qed simp

lemma connection_history:
  assumes "connection cap st cs s rs"
  shows "\<exists>ls p. s = concat ls @ p @ concat cs \<and> holds_partial cap st p \<and> rs = map (classify_line cap) ls
    \<and> (\<forall>l \<in> set ls. \<exists>t. l = t @ [newline] \<and> newline \<notin> set t)"
  using assms
proof induction
  case conn_start
  then show ?case by (intro exI [of _ "[]"]) (simp add: holds_partial_def frame_read_new_def)
next
  case (conn_arrive st cs s rs c)
  then show ?case by fastforce
next
  case (conn_wait st cs s rs cs' st')
  then obtain ls p where h: "s = concat ls @ p @ concat cs" "holds_partial cap st p" "rs = map (classify_line cap) ls"
    "\<forall>l \<in> set ls. \<exists>t. l = t @ [newline] \<and> newline \<notin> set t" by blast
  from read_line_outcome [OF h(2), of cs Open] conn_wait.hyps(2)
  have "cs' = []" "holds_partial cap st' (p @ concat cs)" by (auto simp: read_outcome_def split: if_splits)
  with h show ?case by (intro exI [of _ ls] exI [of _ "p @ concat cs"]) simp
next
  case (conn_line st cs s rs r cs' st')
  then obtain ls p where h: "s = concat ls @ p @ concat cs" "holds_partial cap st p" "rs = map (classify_line cap) ls"
    "\<forall>l \<in> set ls. \<exists>t. l = t @ [newline] \<and> newline \<notin> set t" by blast
  let ?q = "p @ concat cs"
  from read_line_outcome [OF h(2), of cs Open] conn_line.hyps(2)
  have q: "newline \<in> set ?q" "r = classify_line cap (first_line ?q)" "concat cs' = after_line ?q" "holds_partial cap st' []"
    by (auto simp: read_outcome_def split: if_splits)
  have "\<exists>t. first_line ?q = t @ [newline] \<and> newline \<notin> set t"
    unfolding first_line_def by (auto dest: set_takeWhileD)
  with h q split_first_line [OF q(1)] show ?case
    by (intro exI [of _ "ls @ [first_line ?q]"] exI [of _ "[]"]) auto
qed

lemma framing_core:
  assumes "connection cap st cs s rs"
  shows "rs = map (classify_line cap) (take (length rs) (complete_lines s))
    \<and> (fst (read_line_bounded cap cs Open st) = Pending \<longleftrightarrow> length rs = length (complete_lines s))
    \<and> length (fr_buf st) \<le> cap"
proof -
  from connection_history [OF assms] obtain ls p where
    h: "s = concat ls @ p @ concat cs" "holds_partial cap st p" "rs = map (classify_line cap) ls"
    "\<forall>l \<in> set ls. \<exists>t. l = t @ [newline] \<and> newline \<notin> set t" by blast
  have l: "complete_lines s = ls @ complete_lines (p @ concat cs)"
    using complete_lines_append [OF h(4)] h(1) by simp
  moreover have "fst (read_line_bounded cap cs Open st) = Pending \<longleftrightarrow> complete_lines (p @ concat cs) = []"
    using read_line_outcome [OF h(2), of cs Open] complete_lines_step [of "p @ concat cs"]
    by (cases "newline \<in> set (p @ concat cs)") (auto simp: read_outcome_def)
  moreover have "length (fr_buf st) \<le> cap" using h(2) by (auto simp: holds_partial_def split: if_splits)
  ultimately show ?thesis using h(3) by simp
qed

text \<open>
  C12: The reader returns the lines of the stream. However the bytes are cut into chunks, and wherever
  a read is dropped while it waits, the calls return the complete lines of what has arrived, each
  once and in order: a line within the cap as it is, an error for one that is no UTF-8 text, and
  the length of one beyond the cap. A call waits only when every complete line has been returned,
  and no more than the cap is ever buffered.
\<close>

theorem framing_exact:
  assumes "connection cap st cs s rs"
  shows "rs = map (classify_line cap) (take (length rs) (complete_lines s))
    \<and> (fst (read_line_bounded cap cs Open st) = Pending \<longleftrightarrow> length rs = length (complete_lines s))
    \<and> length (fr_buf st) \<le> cap"
  by (rule framing_core [OF assms])

text \<open>A line beyond the cap arrives in two pieces, with a read dropped in between.\<close>

lemma sample_connection:
  "connection 4 frame_read_new [''k''] (''toolong'' @ newline # ''k'') [Inr (Oversize 8)]"
proof -
  have "connection 4 frame_read_new [''toolo''] ''toolo'' []"
    using conn_arrive [OF conn_start, of "''toolo''" 4] by simp
  moreover have "read_line_bounded 4 [''toolo''] Open frame_read_new = (Pending, [], \<lparr>fr_buf = [], fr_drain = Some 5\<rparr>)"
    by code_simp
  ultimately have "connection 4 \<lparr>fr_buf = [], fr_drain = Some 5\<rparr> [] ''toolo'' []" by (rule conn_wait)
  from conn_arrive [OF this, of "''ng'' @ newline # ''k''"]
  have "connection 4 \<lparr>fr_buf = [], fr_drain = Some 5\<rparr> [''ng'' @ newline # ''k''] (''toolong'' @ newline # ''k'') []" by simp
  moreover have "read_line_bounded 4 [''ng'' @ newline # ''k''] Open \<lparr>fr_buf = [], fr_drain = Some 5\<rparr>
      = (Returned (Inr (Oversize 8)), [''k''], frame_read_new)"
    by code_simp
  ultimately have "connection 4 frame_read_new [''k''] (''toolong'' @ newline # ''k'') ([] @ [Inr (Oversize 8)])"
    by (rule conn_line)
  then show ?thesis by simp
qed

theorem framing_exact_witness:
  "[Inr (Oversize 8)] = map (classify_line 4) (take 1 (complete_lines (''toolong'' @ newline # ''k'')))
   \<and> fst (read_line_bounded 4 [''k''] Open frame_read_new) = Pending"
proof -
  have "length (complete_lines (''toolong'' @ newline # ''k'')) = 1" by code_simp
  then show ?thesis using framing_exact [OF sample_connection] by simp
qed

end
