(* ===== verification/Worker_Protocol.thy ===== *)
theory Worker_Protocol
  imports Worker_Framing
begin

text \<open>
  The manager's side of the protocol with one worker
  (\<open>dynrunner-protocol-manager-worker/src/state.rs\<close>). The states that the code has as type parameters
  of \<open>RunnerProtocol\<close> are the constructors of \<open>RunnerProtocolState\<close>; an operation exists in one state
  only, which is the guard of its step. A received message is an argument, None when the
  connection is closed, and so is whether a send succeeded.
\<close>

section \<open>States and results\<close>

datatype protocol_state = Unconnected | WaitingForReady | Idle | Processing | Stopped | Transitioning

record task_result =
  success :: bool
  result_error :: "error_type option"
  error_message :: "string option"

definition task_ok :: task_result where
  "task_ok = \<lparr> success = True, result_error = None, error_message = None \<rparr>"

definition task_error :: "error_type \<Rightarrow> string \<Rightarrow> task_result" where
  "task_error e message = \<lparr> success = False, result_error = Some e, error_message = Some message \<rparr>"

datatype poll_result =
    Completed task_result "string option"
  | StillRunning "string option" bool "(string \<times> string) option"
  | Disconnected task_result

section \<open>Operations\<close>

definition wait_ready :: "worker_response option \<Rightarrow> protocol_state" where
  "wait_ready r = (case r of Some Ready \<Rightarrow> Idle | Some _ \<Rightarrow> WaitingForReady | None \<Rightarrow> Stopped)"

definition assign_task :: "bool \<Rightarrow> protocol_state" where
  "assign_task sent = (if sent then Processing else Stopped)"

definition failed_poll :: "error_type \<Rightarrow> string \<Rightarrow> poll_result" where
  "failed_poll e message =
     (if e = NonRecoverable then Disconnected (task_error e message) else Completed (task_error e message) None)"

definition classify_response :: "worker_response option \<Rightarrow> poll_result" where
  "classify_response response =
     (case response of
        None \<Rightarrow> Disconnected (task_error Recoverable ''Worker connection closed'')
      | Some (Done result_data) \<Rightarrow> Completed task_ok result_data
      | Some (Error e message) \<Rightarrow> failed_poll e message
      | Some (WorkerException ty message traceback e) \<Rightarrow>
          failed_poll (case e of None \<Rightarrow> NonRecoverable | Some c \<Rightarrow> c)
            (ty @ '': '' @ message @ [newline] @ traceback)
      | Some (PhaseUpdate phase_name) \<Rightarrow> StillRunning (Some phase_name) False None
      | Some Keepalive \<Rightarrow> StillRunning None True None
      | Some (Custom topic bytes) \<Rightarrow> StillRunning None False (Some (topic, bytes))
      | Some Ready \<Rightarrow> StillRunning None False None)"

text \<open>The state that comes with a result.\<close>

fun poll_next :: "poll_result \<Rightarrow> protocol_state" where
  "poll_next (Completed r d) = Idle"
| "poll_next (StillRunning p k c) = Processing"
| "poll_next (Disconnected r) = Stopped"

text \<open>
  \<open>poll_status_with_custom_outbox\<close>, on the outcomes of its \<open>select\<close>: a message to pass on, a closed
  outbox, or a response. The result is what was sent and, once there is one, the outcome.
\<close>

datatype poll_step = CustomStep "(string \<times> string) option" | ResponseStep "worker_response option"

fun poll_outbox :: "poll_step list \<Rightarrow> 'o worker_command list \<times> poll_result option" where
  "poll_outbox [] = ([], None)"
| "poll_outbox (CustomStep (Some (topic, bytes)) # steps) =
     (let (sent, out) = poll_outbox steps in (CommandCustom topic bytes # sent, out))"
| "poll_outbox (CustomStep None # steps) =
     ([], case steps of ResponseStep r # _ \<Rightarrow> Some (classify_response r) | _ \<Rightarrow> None)"
| "poll_outbox (ResponseStep r # steps) = ([], Some (classify_response r))"

text \<open>\<open>take_idle\<close>, \<open>take_processing\<close> and \<open>take_waiting\<close>: whether the state was the wanted one, and what is left.\<close>

definition take_state :: "protocol_state \<Rightarrow> protocol_state \<Rightarrow> bool \<times> protocol_state" where
  "take_state wanted st = (if st = wanted then (True, Transitioning) else (False, st))"

section \<open>One outcome per task\<close>

text \<open>Which responses leave a task running, and which cost the worker its connection.\<close>

fun progress :: "worker_response \<Rightarrow> bool" where
  "progress (PhaseUpdate phase_name) = True"
| "progress Keepalive = True"
| "progress (Custom topic bytes) = True"
| "progress Ready = True"
| "progress _ = False"

definition fatal :: "worker_response option \<Rightarrow> bool" where
  "fatal r \<longleftrightarrow> r = None \<or> (\<exists>m. r = Some (Error NonRecoverable m))
     \<or> (\<exists>ty m tb e. r = Some (WorkerException ty m tb e) \<and> e \<in> {None, Some NonRecoverable})"

lemma poll_next_cases:
  "poll_next (classify_response r) =
     (if fatal r then Stopped else if progress (the r) then Processing else Idle)"
  by (auto simp: classify_response_def failed_poll_def fatal_def split: option.splits worker_response.splits)

lemma fatal_no_progress: "fatal (Some r) \<Longrightarrow> \<not> progress r"
  by (auto simp: fatal_def)

text \<open>The tasks handed to the worker and the answers to the polls.\<close>

datatype 'o protocol_event = Assigned "'o worker_command" | Received "worker_response option"

inductive protocol_run :: "protocol_state \<Rightarrow> 'o protocol_event list \<Rightarrow> bool" where
  run_connect: "protocol_run WaitingForReady []"
| run_ready: "protocol_run WaitingForReady evs \<Longrightarrow> protocol_run (wait_ready r) evs"
| run_assign: "protocol_run Idle evs \<Longrightarrow> cmd = ProcessTask p data rp outs
    \<Longrightarrow> protocol_run (assign_task sent) (evs @ (if sent then [Assigned cmd] else []))"
| run_stop: "protocol_run Idle evs \<Longrightarrow> protocol_run Stopped evs"
| run_poll: "protocol_run Processing evs
    \<Longrightarrow> protocol_run (poll_next (classify_response r)) (evs @ [Received r])"

text \<open>A task under way, and one with its outcome.\<close>

definition under_way :: "'o worker_command \<Rightarrow> worker_response list \<Rightarrow> 'o protocol_event list" where
  "under_way c ps = Assigned c # map (Received \<circ> Some) ps"

definition task_events :: "'o worker_command \<times> worker_response list \<times> worker_response option \<Rightarrow> 'o protocol_event list" where
  "task_events = (\<lambda>(c, ps, final). under_way c ps @ [Received final])"

definition well_ended :: "'o worker_command \<times> worker_response list \<times> worker_response option \<Rightarrow> bool" where
  "well_ended = (\<lambda>(c, ps, final). list_all progress ps \<and> (final = None \<or> \<not> progress (the final)))"

definition protocol_shape :: "protocol_state \<Rightarrow> 'o protocol_event list \<Rightarrow> bool" where
  "protocol_shape st evs \<longleftrightarrow> (\<exists>tasks last.
     evs = concat (map task_events tasks) @ last \<and> list_all well_ended tasks
     \<and> list_all (\<lambda>(c, ps, final). \<not> fatal final) (if st = Stopped then butlast tasks else tasks)
     \<and> (if st = Processing then \<exists>c ps. last = under_way c ps \<and> list_all progress ps else last = []))"

lemma shape_poll:
  assumes "protocol_shape Processing evs"
  shows "protocol_shape (poll_next (classify_response r)) (evs @ [Received r])"
proof -
  from assms obtain tasks c ps where e: "evs = concat (map task_events tasks) @ under_way c ps"
    "list_all well_ended tasks" "list_all (\<lambda>(c, ps, final). \<not> fatal final) tasks" "list_all progress ps"
    by (auto simp: protocol_shape_def)
  show ?thesis
  proof (cases "r \<noteq> None \<and> progress (the r)")
    case True
    then obtain x where x: "r = Some x" "progress x" by auto
    then have "poll_next (classify_response r) = Processing"
      using fatal_no_progress [of x] by (auto simp: poll_next_cases)
    moreover have "under_way c ps @ [Received r] = under_way c (ps @ [x])" by (simp add: under_way_def x)
    ultimately show ?thesis using e x unfolding protocol_shape_def
      by (intro exI [of _ tasks] exI [of _ "under_way c (ps @ [x])"])
        (auto intro!: exI [of _ c] exI [of _ "ps @ [x]"])
  next
    case False
    then have "poll_next (classify_response r) = (if fatal r then Stopped else Idle)"
      by (auto simp: poll_next_cases fatal_def)
    then show ?thesis using e False unfolding protocol_shape_def
      by (intro exI [of _ "tasks @ [(c, ps, r)]"] exI [of _ "[]"]) (auto simp: task_events_def well_ended_def)
  qed
qed

lemma wait_ready_states: "wait_ready r \<in> {Idle, WaitingForReady, Stopped}"
  by (simp add: wait_ready_def split: option.split worker_response.split)

lemma list_all_butlast: "list_all P xs \<Longrightarrow> list_all P (butlast xs)"
  by (auto simp: list_all_iff dest: in_set_butlastD)

lemma shape_rest:
  assumes "protocol_shape st evs" "st \<noteq> Processing" "st \<noteq> Stopped" "st' \<noteq> Processing"
  shows "protocol_shape st' evs"
  using assms list_all_butlast unfolding protocol_shape_def by (cases "st' = Stopped") auto

text \<open>
  C28: Every task handed to a worker has one outcome. In every run of the protocol the events are tasks,
  each followed by any number of phase updates, keepalives, custom messages and stray ready
  messages and then by one answer of another kind, or by the end of the connection; only the last
  task can be without an outcome, and is so exactly while the worker is processing. A worker is
  given another task only after an answer that is not fatal.
\<close>

theorem one_outcome_per_task:
  assumes "protocol_run st evs"
  shows "\<exists>tasks last.
     evs = concat (map task_events tasks) @ last \<and> list_all well_ended tasks
     \<and> list_all (\<lambda>(c, ps, final). \<not> fatal final) (if st = Stopped then butlast tasks else tasks)
     \<and> (if st = Processing then \<exists>c ps. last = under_way c ps \<and> list_all progress ps else last = [])"
proof -
  from assms have "protocol_shape st evs"
  proof induction
    case run_connect
    show ?case unfolding protocol_shape_def by (intro exI [of _ "[]"]) simp
  next
    case (run_ready evs r)
    then show ?case using shape_rest wait_ready_states [of r] by (metis insert_iff empty_iff protocol_state.distinct)
  next
    case (run_assign evs cmd p data rp outs sent)
    show ?case
    proof (cases sent)
      case True
      from run_assign.IH obtain tasks where t: "evs = concat (map task_events tasks)" "list_all well_ended tasks"
        "list_all (\<lambda>(c, ps, final). \<not> fatal final) tasks" by (auto simp: protocol_shape_def)
      then show ?thesis using True unfolding protocol_shape_def
        by (intro exI [of _ tasks] exI [of _ "under_way cmd []"])
          (auto simp: assign_task_def under_way_def intro!: exI [of _ "[]"])
    next
      case False
      then show ?thesis using run_assign.IH shape_rest [of Idle evs Stopped] by (simp add: assign_task_def)
    qed
  next
    case (run_stop evs)
    then show ?case using shape_rest [of Idle evs Stopped] by simp
  next
    case (run_poll evs r)
    then show ?case using shape_poll by blast
  qed
  then show ?thesis by (simp add: protocol_shape_def)
qed

theorem one_outcome_per_task_witness:
  "let cmd = ProcessTask ''a.bin'' None None [] :: string worker_command;
       evs = [Assigned cmd, Received (Some Keepalive), Received (Some (Done None))]
   in \<exists>tasks last.
     evs = concat (map task_events tasks) @ last \<and> list_all well_ended tasks
     \<and> list_all (\<lambda>(c, ps, final). \<not> fatal final) tasks \<and> last = []"
proof -
  let ?cmd = "ProcessTask ''a.bin'' None None [] :: string worker_command"
  have "protocol_run Idle ([] :: string protocol_event list)"
    using run_ready [OF run_connect, of "Some Ready"] by (simp add: wait_ready_def)
  from run_assign [OF this refl, of True] have "protocol_run Processing [Assigned ?cmd]"
    by (simp add: assign_task_def)
  from run_poll [OF this, of "Some Keepalive"]
  have "protocol_run Processing [Assigned ?cmd, Received (Some Keepalive)]" by (simp add: classify_response_def)
  from run_poll [OF this, of "Some (Done None)"]
  have "protocol_run Idle [Assigned ?cmd, Received (Some Keepalive), Received (Some (Done None))]"
    by (simp add: classify_response_def)
  from one_outcome_per_task [OF this] show ?thesis unfolding Let_def by simp
qed

text \<open>A poll with an outbox passes on the messages before its response, and its outcome is that of the response.\<close>

lemma poll_outbox_outcome:
  "snd (poll_outbox steps) = Some out \<Longrightarrow> \<exists>r. ResponseStep r \<in> set steps \<and> out = classify_response r"
  by (induction steps rule: poll_outbox.induct) (auto simp: split_beta Let_def split: list.splits poll_step.splits)

section \<open>From the worker to the manager\<close>

lemma complete_lines_extend: "\<exists>ls. complete_lines (s @ t) = complete_lines s @ ls"
proof (induction s rule: complete_lines.induct)
  case (1 s)
  show ?case
  proof (cases "newline \<in> set s")
    case True
    then show ?thesis using 1 first_line_prefix [OF True, of t] by (simp add: complete_lines_step)
  qed (simp add: complete_lines_step)
qed

lemma frame_classified:
  assumes "length l \<le> cap" "valid_utf8 l"
  shows "frame_response env (classify_line cap l) = parse_response env l"
  using assms by (simp add: classify_line_def into_utf8_def frame_response_def)


text \<open>Two responses, of which the first and half of the second have arrived.\<close>

lemma delivered_connection:
  "connection MAX_RESPONSE_FRAME_BYTES frame_read_new [''rea''] (''keepalive'' @ newline # ''rea'')
     [Inr (Line (''keepalive'' @ [newline]))]"
proof -
  let ?c = "''keepalive'' @ newline # ''rea''"
  have "connection MAX_RESPONSE_FRAME_BYTES frame_read_new [?c] ?c []"
    using conn_arrive [OF conn_start, of ?c MAX_RESPONSE_FRAME_BYTES] by simp
  moreover have "read_line_bounded MAX_RESPONSE_FRAME_BYTES [?c] Open frame_read_new
      = (Returned (Inr (Line (''keepalive'' @ [newline]))), [''rea''], frame_read_new)"
    by (simp add: read_line_bounded_def frame_read_new_def line_take_def newline_def MAX_RESPONSE_FRAME_BYTES_def
        into_utf8_def consume_def)
  ultimately have "connection MAX_RESPONSE_FRAME_BYTES frame_read_new [''rea''] ?c ([] @ [Inr (Line (''keepalive'' @ [newline]))])"
    by (rule conn_line)
  then show ?thesis by simp
qed


end
