(* ===== verification/Reconciliation_Probe.thy ===== *)
theory Reconciliation_Probe
  imports Consensus_Frames Task_Types
begin

text \<open>
  The primary's reconciliation probe (\<open>primary/reconciliation_probe.rs\<close>): a task that has been in
  flight too long makes the primary ask its holder whether it still has it, and only the holder's
  own denial fails the task. \<open>ReconciliationProber\<close> is the record \<open>recon_prober\<close>; the tracked tasks
  are a map, since the code never depends on the order of the hash table. The two handlers of the
  coordinator are modelled over the ledger of tasks in flight.
\<close>

section \<open>State\<close>

definition POLL_CADENCE :: nat where "POLL_CADENCE = 1000"

datatype probe_verdict = Rearmed | Lost | Ignored

record sweep_summary =
  s_total :: nat
  s_held :: nat
  s_lost :: "string list"
  s_no_answer :: "string list"

record stall_signal =
  stall_hash :: string
  stall_holder :: string
  stall_in_flight :: nat

record verdict_outcome =
  verdict :: probe_verdict
  late :: bool
  completed :: "sweep_summary option"
  stalled :: "stall_signal option"

definition outcome_ignored :: verdict_outcome where
  "outcome_ignored = \<lparr> verdict = Ignored, late = False, completed = None, stalled = None \<rparr>"

record sweep_cohort =
  c_total :: nat
  c_held :: nat
  c_lost :: "string list"
  c_pending :: "string list"

definition into_summary :: "sweep_cohort \<Rightarrow> sweep_summary" where
  "into_summary c = \<lparr> s_total = c_total c, s_held = c_held c, s_lost = c_lost c, s_no_answer = c_pending c \<rparr>"

record tracked_task =
  holder :: string
  deadline :: instant
  outstanding :: "instant option"
  first_seen :: instant
  stall_warned :: bool

record recon_prober =
  timeout :: nat
  response_window :: nat
  stall_warn_after :: nat
  next_poll :: "instant option"
  tracked :: "string \<rightharpoonup> tracked_task"
  loss_requeues :: "string \<rightharpoonup> nat"
  cohort :: "sweep_cohort option"

definition recon_new :: "nat \<Rightarrow> nat \<Rightarrow> nat \<Rightarrow> recon_prober" where
  "recon_new tmo window stall = \<lparr> timeout = tmo, response_window = window, stall_warn_after = stall,
     next_poll = None, tracked = Map.empty, loss_requeues = Map.empty, cohort = None \<rparr>"

section \<open>Operations\<close>

definition note_loss_requeue :: "string \<Rightarrow> nat \<Rightarrow> recon_prober \<Rightarrow> bool \<times> recon_prober" where
  "note_loss_requeue h cap p =
     (if cap = 0 then (False, p)
      else let n = (case loss_requeues p h of None \<Rightarrow> 0 | Some k \<Rightarrow> k) + 1
           in (n \<ge> cap, p\<lparr>loss_requeues := (loss_requeues p)(h \<mapsto> n)\<rparr>))"

definition clear_requeues :: "string \<Rightarrow> recon_prober \<Rightarrow> recon_prober" where
  "clear_requeues h p = p\<lparr>loss_requeues := (loss_requeues p)(h := None)\<rparr>"

definition poll_due :: "instant \<Rightarrow> recon_prober \<Rightarrow> bool" where
  "poll_due now p = (case next_poll p of None \<Rightarrow> True | Some t \<Rightarrow> now \<ge> t)"

text \<open>One task of the view: its entry after the poll, and whether it is probed.\<close>

definition fresh_entry :: "instant \<Rightarrow> nat \<Rightarrow> string \<Rightarrow> tracked_task" where
  "fresh_entry now tmo r = \<lparr> holder = r, deadline = now + tmo, outstanding = None,
     first_seen = now, stall_warned = False \<rparr>"

definition poll_entry :: "instant \<Rightarrow> nat \<Rightarrow> nat \<Rightarrow> string \<Rightarrow> tracked_task option \<Rightarrow> tracked_task \<times> bool" where
  "poll_entry now tmo window r entry =
     (case entry of
        None \<Rightarrow> (fresh_entry now tmo r, False)
      | Some e \<Rightarrow>
          if holder e \<noteq> r then (fresh_entry now tmo r, False)
          else case outstanding e of
            Some response_deadline \<Rightarrow>
              (if now \<ge> response_deadline then e\<lparr>outstanding := None, deadline := now + tmo\<rparr> else e, False)
          | None \<Rightarrow>
              if now \<ge> deadline e then (e\<lparr>outstanding := Some (now + window)\<rparr>, True) else (e, False))"

fun poll_view ::
  "instant \<Rightarrow> nat \<Rightarrow> nat \<Rightarrow> (string \<times> string) list \<Rightarrow> (string \<rightharpoonup> tracked_task)
     \<Rightarrow> (string \<rightharpoonup> tracked_task) \<times> (string \<times> string) list" where
  "poll_view now tmo window [] tr = (tr, [])"
| "poll_view now tmo window ((h, r) # view) tr =
     (let (e, fires) = poll_entry now tmo window r (tr h);
          (tr', fired) = poll_view now tmo window view (tr(h \<mapsto> e))
      in (tr', if fires then (h, r) # fired else fired))"

definition recon_poll ::
  "instant \<Rightarrow> (string \<times> string) list \<Rightarrow> recon_prober
     \<Rightarrow> ((string \<times> string) list \<times> sweep_summary option) \<times> recon_prober" where
  "recon_poll now view p =
     (if \<not> poll_due now p then (([], None), p)
      else
        let flushed = map_option into_summary (cohort p);
            (tr, fired) = poll_view now (timeout p) (response_window p) view (tracked p |` (fst ` set view))
        in ((fired, flushed),
            p\<lparr>next_poll := Some (now + POLL_CADENCE), tracked := tr,
              cohort := (if fired = [] then None
                         else Some \<lparr> c_total = length fired, c_held = 0, c_lost = [], c_pending = map fst fired \<rparr>)\<rparr>))"

text \<open>\<open>Vec::swap_remove\<close>\<close>

definition swap_remove :: "nat \<Rightarrow> 'a list \<Rightarrow> 'a list" where
  "swap_remove i xs = butlast (xs[i := last xs])"

text \<open>The tally of a verdict in the cohort: whether it came late, the summary if it was the last one, the rest.\<close>

definition tally_verdict ::
  "string \<Rightarrow> probe_verdict \<Rightarrow> sweep_cohort option \<Rightarrow> bool \<times> sweep_summary option \<times> sweep_cohort option" where
  "tally_verdict h v co =
     (case co of
        None \<Rightarrow> (True, None, None)
      | Some c \<Rightarrow>
          if h \<notin> set (c_pending c) then (True, None, Some c)
          else
            let i = length (takeWhile (\<lambda>x. x \<noteq> h) (c_pending c));
                c1 = c\<lparr>c_pending := swap_remove i (c_pending c)\<rparr>;
                c2 = (if v = Lost then c1\<lparr>c_lost := c_lost c1 @ [h]\<rparr> else c1\<lparr>c_held := c_held c1 + 1\<rparr>)
            in if c_pending c2 = [] then (False, Some (into_summary c2), None) else (False, None, Some c2))"

definition on_response ::
  "string \<Rightarrow> string \<Rightarrow> bool \<Rightarrow> instant \<Rightarrow> recon_prober \<Rightarrow> verdict_outcome \<times> recon_prober" where
  "on_response h responder held now p =
     (case tracked p h of
        None \<Rightarrow> (outcome_ignored, p)
      | Some e \<Rightarrow>
          if outstanding e = None \<or> holder e \<noteq> responder then (outcome_ignored, p)
          else
            let stalls = held \<and> \<not> stall_warned e \<and> now - first_seen e \<ge> stall_warn_after p;
                e' = e\<lparr>outstanding := None, deadline := now + timeout p, stall_warned := stall_warned e \<or> stalls\<rparr>;
                v = (if held then Rearmed else Lost);
                (is_late, done, co) = tally_verdict h v (cohort p)
            in (\<lparr> verdict = v, late = is_late, completed = done,
                  stalled = (if stalls then Some \<lparr> stall_hash = h, stall_holder = holder e,
                               stall_in_flight = now - first_seen e \<rparr> else None) \<rparr>,
                p\<lparr>tracked := (tracked p)(h := (if held then Some e' else None)), cohort := co\<rparr>))"

section \<open>The coordinator\<close>

record in_flight_entry =
  fl_secondary :: string
  fl_local_worker :: "nat option"
  fl_deferred :: bool

definition RECONCILIATION_LOST_WIRE_MESSAGE :: string where
  "RECONCILIATION_LOST_WIRE_MESSAGE = ''reconciliation probe: holder denies holding task''"

definition probe_view :: "(string \<times> in_flight_entry) list \<Rightarrow> (string \<times> string) list" where
  "probe_view fl = map (\<lambda>(h, e). (h, fl_secondary e)) (filter (\<lambda>(h, e). \<not> fl_deferred e) fl)"

definition reconciliation_probe_tick ::
  "instant \<Rightarrow> (string \<times> in_flight_entry) list \<Rightarrow> recon_prober \<Rightarrow> (string \<times> string) list \<times> recon_prober" where
  "reconciliation_probe_tick now fl p =
     (if \<not> poll_due now p then ([], p)
      else let (tick, p') = recon_poll now (probe_view fl) p in (fst tick, p'))"

text \<open>
  The handler of an answer. Its result is the failure that it reports for the task, if any: the
  secondary, the worker, the error and whether the cap on requeues was reached.
\<close>

definition handle_task_hold_response ::
  "string \<Rightarrow> string \<Rightarrow> bool \<Rightarrow> instant \<Rightarrow> nat \<Rightarrow> (string \<times> in_flight_entry) list \<Rightarrow> recon_prober
     \<Rightarrow> (string \<times> nat \<times> error_type \<times> bool) option \<times> recon_prober" where
  "handle_task_hold_response sender h held now cap fl p =
     (let (out, p1) = on_response h sender held now p
      in if verdict out \<noteq> Lost then (None, p1)
         else case map_of fl h of
           None \<Rightarrow> (None, p1)
         | Some e \<Rightarrow>
             if fl_secondary e \<noteq> sender then (None, p1)
             else let (capped, p2) = note_loss_requeue h cap p1
                  in (Some (fl_secondary e, case fl_local_worker e of None \<Rightarrow> 0 | Some w \<Rightarrow> w,
                            if capped then NonRecoverable else Recoverable, capped), p2))"

section \<open>A poll\<close>

lemma poll_view_entry:
  assumes "distinct (map fst view)"
  shows "fst (poll_view now tmo window view tr) h =
      (case map_of view h of None \<Rightarrow> tr h | Some r \<Rightarrow> Some (fst (poll_entry now tmo window r (tr h))))"
  using assms
proof (induction view arbitrary: tr)
  case (Cons x view)
  then have "fst x \<notin> dom (map_of view)" by (simp add: dom_map_of_conv_image_fst)
  with Cons show ?case by (cases x) (auto simp: split_beta Let_def split: option.split)
qed simp

lemma poll_view_fired:
  assumes "distinct (map fst view)"
  shows "(h, r) \<in> set (snd (poll_view now tmo window view tr)) \<longleftrightarrow>
      (h, r) \<in> set view \<and> snd (poll_entry now tmo window r (tr h))"
  using assms
proof (induction view arbitrary: tr)
  case (Cons x view)
  obtain k q where x: "x = (k, q)" by fastforce
  have "(h, s) \<in> set view \<Longrightarrow> h \<noteq> k" for s using Cons.prems x by force
  with Cons x show ?case by (auto simp: split_beta Let_def split: if_splits)
qed simp

lemma poll_view_fired_distinct:
  "distinct (map fst view) \<Longrightarrow> distinct (map fst (snd (poll_view now tmo window view tr)))
     \<and> set (snd (poll_view now tmo window view tr)) \<subseteq> set view"
  by (induction view arbitrary: tr) (force simp: split_beta Let_def)+

text \<open>What a due poll does to one task.\<close>

lemma recon_poll_due:
  assumes "poll_due now p" "distinct (map fst view)" "recon_poll now view p = ((fired, fl), p')"
  shows "tracked p' h = (case map_of view h of None \<Rightarrow> None
      | Some r \<Rightarrow> Some (fst (poll_entry now (timeout p) (response_window p) r (tracked p h))))"
    and "(h, r) \<in> set fired \<longleftrightarrow>
      (h, r) \<in> set view \<and> snd (poll_entry now (timeout p) (response_window p) r (tracked p h))"
    and "timeout p' = timeout p" "response_window p' = response_window p" "stall_warn_after p' = stall_warn_after p"
    and "distinct (map fst fired)"
    and "cohort p' = (if fired = [] then None
      else Some \<lparr> c_total = length fired, c_held = 0, c_lost = [], c_pending = map fst fired \<rparr>)"
    and "fl = map_option into_summary (cohort p)"
proof -
  let ?v = "poll_view now (timeout p) (response_window p) view (tracked p |` (fst ` set view))"
  have out: "fired = snd ?v" "tracked p' = fst ?v" "timeout p' = timeout p" "response_window p' = response_window p"
    "stall_warn_after p' = stall_warn_after p" "fl = map_option into_summary (cohort p)"
    "cohort p' = (if fired = [] then None
      else Some \<lparr> c_total = length fired, c_held = 0, c_lost = [], c_pending = map fst fired \<rparr>)"
    using assms(1,3) by (auto simp: recon_poll_def Let_def split_beta)
  have r: "map_of view h = None \<longleftrightarrow> h \<notin> fst ` set view" by (simp add: map_of_eq_None_iff)
  show "tracked p' h = (case map_of view h of None \<Rightarrow> None
      | Some r \<Rightarrow> Some (fst (poll_entry now (timeout p) (response_window p) r (tracked p h))))"
    using poll_view_entry [OF assms(2)] r out(2) by (force simp: restrict_map_def split: option.split)
  show "(h, r) \<in> set fired \<longleftrightarrow>
      (h, r) \<in> set view \<and> snd (poll_entry now (timeout p) (response_window p) r (tracked p h))"
    using poll_view_fired [OF assms(2)] out(1) by (force simp: restrict_map_def)
  show "distinct (map fst fired)" using poll_view_fired_distinct [OF assms(2)] out(1) by simp
qed (use assms in \<open>auto simp: recon_poll_def Let_def split_beta\<close>)

section \<open>Runs\<close>

datatype probe_event =
    Polled instant "(string \<times> string) list" "(string \<times> string) list"
  | Answered string string bool instant probe_verdict

text \<open>
  The due polls, with the view and the probes they launched, and the answers, with the verdict;
  a poll that is not due does nothing, and the count of requeues is kept aside.
\<close>

inductive probe_run :: "nat \<Rightarrow> nat \<Rightarrow> nat \<Rightarrow> probe_event list \<Rightarrow> recon_prober \<Rightarrow> bool"
  for tmo window stall where
  probe_start: "probe_run tmo window stall [] (recon_new tmo window stall)"
| probe_poll: "probe_run tmo window stall evs p \<Longrightarrow> poll_due now p \<Longrightarrow> distinct (map fst view)
    \<Longrightarrow> recon_poll now view p = ((fired, fl), p') \<Longrightarrow> probe_run tmo window stall (evs @ [Polled now view fired]) p'"
| probe_answer: "probe_run tmo window stall evs p \<Longrightarrow> on_response h r held now p = (out, p')
    \<Longrightarrow> probe_run tmo window stall (evs @ [Answered h r held now (verdict out)]) p'"
| probe_requeue: "probe_run tmo window stall evs p \<Longrightarrow> p' = snd (note_loss_requeue h cap p) \<or> p' = clear_requeues h p
    \<Longrightarrow> probe_run tmo window stall evs p'"

text \<open>A probe of \<open>h\<close> at \<open>r\<close> that is open until \<open>d\<close>: launched, and since then at \<open>r\<close>, with no verdict.\<close>

definition probe_open :: "nat \<Rightarrow> instant \<Rightarrow> probe_event list \<Rightarrow> string \<Rightarrow> string \<Rightarrow> bool" where
  "probe_open window d evs h r \<longleftrightarrow> (\<exists>pre t view fired post.
     evs = pre @ Polled t view fired # post \<and> (h, r) \<in> set fired \<and> d = t + window
     \<and> (\<forall>t' v f. Polled t' v f \<in> set post \<longrightarrow> (h, r) \<in> set v \<and> t' < d)
     \<and> (\<forall>r' b t' v. Answered h r' b t' v \<in> set post \<longrightarrow> v = Ignored))"

text \<open>A task armed at \<open>r\<close> for \<open>d\<close>: seen or confirmed a timeout before, and since then at \<open>r\<close> and not probed.\<close>

definition probe_armed :: "nat \<Rightarrow> instant \<Rightarrow> probe_event list \<Rightarrow> string \<Rightarrow> string \<Rightarrow> bool" where
  "probe_armed tmo d evs h r \<longleftrightarrow> (\<exists>pre ev t post. evs = pre @ ev # post \<and> d = t + tmo
     \<and> (ev = Answered h r True t Rearmed \<or> (\<exists>v f. ev = Polled t v f \<and> (h, r) \<in> set v))
     \<and> (\<forall>t' v f. Polled t' v f \<in> set post \<longrightarrow> (h, r) \<in> set v \<and> (h, r) \<notin> set f))"

definition entry_ok :: "nat \<Rightarrow> nat \<Rightarrow> probe_event list \<Rightarrow> string \<Rightarrow> tracked_task \<Rightarrow> bool" where
  "entry_ok tmo window evs h e \<longleftrightarrow>
     (case outstanding e of
        None \<Rightarrow> probe_armed tmo (deadline e) evs h (holder e)
      | Some d \<Rightarrow> probe_open window d evs h (holder e))"

lemma probe_open_snoc:
  assumes "probe_open window d evs h r"
    and "\<And>t v f. ev = Polled t v f \<Longrightarrow> (h, r) \<in> set v \<and> t < d"
    and "\<And>r' b t v. ev = Answered h r' b t v \<Longrightarrow> v = Ignored"
  shows "probe_open window d (evs @ [ev]) h r"
proof -
  from assms(1) obtain pre t view fired post where
    "evs = pre @ Polled t view fired # post" "(h, r) \<in> set fired" "d = t + window"
    "\<forall>t' v f. Polled t' v f \<in> set post \<longrightarrow> (h, r) \<in> set v \<and> t' < d"
    "\<forall>r' b t' v. Answered h r' b t' v \<in> set post \<longrightarrow> v = Ignored"
    unfolding probe_open_def by blast
  then show ?thesis unfolding probe_open_def using assms(2,3)
    by (intro exI [of _ pre] exI [of _ t] exI [of _ view] exI [of _ fired] exI [of _ "post @ [ev]"]) auto
qed

lemma probe_armed_snoc:
  assumes "probe_armed tmo d evs h r" "\<And>t v f. ev = Polled t v f \<Longrightarrow> (h, r) \<in> set v \<and> (h, r) \<notin> set f"
  shows "probe_armed tmo d (evs @ [ev]) h r"
proof -
  from assms(1) obtain pre e t post where
    "evs = pre @ e # post" "d = t + tmo" "e = Answered h r True t Rearmed \<or> (\<exists>v f. e = Polled t v f \<and> (h, r) \<in> set v)"
    "\<forall>t' v f. Polled t' v f \<in> set post \<longrightarrow> (h, r) \<in> set v \<and> (h, r) \<notin> set f"
    unfolding probe_armed_def by blast
  then show ?thesis unfolding probe_armed_def using assms(2)
    by (intro exI [of _ pre] exI [of _ e] exI [of _ t] exI [of _ "post @ [ev]"]) auto
qed

lemma probe_armed_now:
  "ev = Answered h r True t Rearmed \<or> (\<exists>v f. ev = Polled t v f \<and> (h, r) \<in> set v)
     \<Longrightarrow> probe_armed tmo (t + tmo) (evs @ [ev]) h r"
  unfolding probe_armed_def by (intro exI [of _ evs] exI [of _ ev] exI [of _ t] exI [of _ "[]"]) auto

lemma probe_open_now: "(h, r) \<in> set fired \<Longrightarrow> probe_open window (t + window) (evs @ [Polled t view fired]) h r"
  unfolding probe_open_def
  by (intro exI [of _ evs] exI [of _ t] exI [of _ view] exI [of _ fired] exI [of _ "[]"]) auto

text \<open>One entry at a poll.\<close>

lemma poll_entry_ok:
  assumes old: "\<And>e. entry = Some e \<Longrightarrow> entry_ok tmo window evs h e"
    and view: "(h, r) \<in> set view" "(h, r) \<in> set fired \<longleftrightarrow> snd (poll_entry now tmo window r entry)"
  shows "entry_ok tmo window (evs @ [Polled now view fired]) h (fst (poll_entry now tmo window r entry))"
proof -
  let ?ev = "Polled now view fired"
  have armed: "probe_armed tmo (now + tmo) (evs @ [?ev]) h r"
    by (rule probe_armed_now) (use view(1) in auto)
  show ?thesis
  proof (cases entry)
    case None
    then show ?thesis using armed by (simp add: poll_entry_def fresh_entry_def entry_ok_def)
  next
    case (Some e)
    note ok = old [OF Some]
    show ?thesis
    proof (cases "holder e = r")
      case False
      then show ?thesis using armed Some by (simp add: poll_entry_def fresh_entry_def entry_ok_def)
    next
      case True
      show ?thesis
      proof (cases "outstanding e")
        case None
        show ?thesis
        proof (cases "now \<ge> deadline e")
          case due: True
          then have "(h, r) \<in> set fired" using view(2) Some True None by (simp add: poll_entry_def)
          then show ?thesis using probe_open_now due Some True None by (simp add: poll_entry_def entry_ok_def)
        next
          case False
          then have "(h, r) \<notin> set fired" using view(2) Some True None by (simp add: poll_entry_def)
          then have "probe_armed tmo (deadline e) (evs @ [?ev]) h r"
            using ok view(1) None True by (intro probe_armed_snoc) (auto simp: entry_ok_def)
          then show ?thesis using False Some True None by (simp add: poll_entry_def entry_ok_def)
        qed
      next
        case waits: (Some d)
        show ?thesis
        proof (cases "now \<ge> d")
          case True
          then show ?thesis using armed Some \<open>holder e = r\<close> waits by (simp add: poll_entry_def entry_ok_def)
        next
          case False
          then have "probe_open window d (evs @ [?ev]) h r"
            using ok view(1) waits \<open>holder e = r\<close> by (intro probe_open_snoc) (auto simp: entry_ok_def)
          then show ?thesis using False Some \<open>holder e = r\<close> waits by (simp add: poll_entry_def entry_ok_def)
        qed
      qed
    qed
  qed
qed

text \<open>One entry at an answer.\<close>

lemma entry_ok_answered:
  assumes "entry_ok tmo window evs h e" "k \<noteq> h \<or> v = Ignored"
  shows "entry_ok tmo window (evs @ [Answered k r held now v]) h e"
  using assms probe_open_snoc [of window _ evs h "holder e" "Answered k r held now v"]
    probe_armed_snoc [of tmo _ evs h "holder e" "Answered k r held now v"]
  by (auto simp: entry_ok_def split: option.splits)

lemma on_response_cases:
  assumes "on_response h r held now p = (out, p')"
  obtains "verdict out = Ignored" "p' = p"
  | e d where "tracked p h = Some e" "outstanding e = Some d" "holder e = r" "\<not> held" "verdict out = Lost"
      "tracked p' = (tracked p)(h := None)"
  | e d e' where "tracked p h = Some e" "outstanding e = Some d" "holder e = r" "held" "verdict out = Rearmed"
      "tracked p' = (tracked p)(h \<mapsto> e')" "outstanding e' = None" "deadline e' = now + timeout p" "holder e' = r"
proof -
  consider "out = outcome_ignored" "p' = p"
    | e d where "tracked p h = Some e" "outstanding e = Some d" "holder e = r"
    using assms by (auto simp: on_response_def split: option.splits if_splits)
  then show thesis
  proof cases
    case 1
    then show ?thesis using that(1) by (simp add: outcome_ignored_def)
  next
    case (2 e d)
    show ?thesis
    proof (cases held)
      case True
      let ?e = "e\<lparr>outstanding := None, deadline := now + timeout p,
        stall_warned := stall_warned e \<or> (\<not> stall_warned e \<and> now - first_seen e \<ge> stall_warn_after p)\<rparr>"
      show ?thesis by (rule that(3) [of e d ?e]) (use 2 True assms in \<open>auto simp: on_response_def Let_def split_beta\<close>)
    next
      case False
      show ?thesis by (rule that(2) [of e d]) (use 2 False assms in \<open>auto simp: on_response_def Let_def split_beta\<close>)
    qed
  qed
qed

lemma on_response_config:
  "on_response h r held now p = (out, p') \<Longrightarrow>
     timeout p' = timeout p \<and> response_window p' = response_window p \<and> stall_warn_after p' = stall_warn_after p"
  by (auto simp: on_response_def Let_def split_beta split: option.splits if_splits)

lemma requeue_kept:
  assumes "p' = snd (note_loss_requeue h cap p) \<or> p' = clear_requeues h p"
  shows "tracked p' = tracked p" "timeout p' = timeout p" "response_window p' = response_window p"
    "stall_warn_after p' = stall_warn_after p" "cohort p' = cohort p" "next_poll p' = next_poll p"
  using assms by (auto simp: note_loss_requeue_def clear_requeues_def Let_def split: if_splits)

lemma probe_run_entries:
  assumes "probe_run tmo window stall evs p"
  shows "timeout p = tmo \<and> response_window p = window \<and> stall_warn_after p = stall
    \<and> (\<forall>h e. tracked p h = Some e \<longrightarrow> entry_ok tmo window evs h e)"
  using assms
proof induction
  case probe_start
  show ?case by (simp add: recon_new_def)
next
  case (probe_poll evs p now view fired fl p')
  note due = recon_poll_due [OF probe_poll.hyps(2-4)]
  have "entry_ok tmo window (evs @ [Polled now view fired]) h e" if "tracked p' h = Some e" for h e
  proof -
    from that obtain r where r: "map_of view h = Some r" "e = fst (poll_entry now tmo window r (tracked p h))"
      using due(1) [of h] probe_poll.IH by (auto split: option.splits)
    moreover have "(h, r) \<in> set fired \<longleftrightarrow> snd (poll_entry now tmo window r (tracked p h))"
      using due(2) [of h r] r(1) probe_poll.IH by (auto dest: map_of_SomeD)
    ultimately show ?thesis using poll_entry_ok [of "tracked p h" tmo window evs h r view fired now] probe_poll.IH
      by (auto dest: map_of_SomeD)
  qed
  then show ?case using due(3-5) probe_poll.IH by auto
next
  case (probe_answer evs p h r held now out p')
  have "entry_ok tmo window (evs @ [Answered h r held now (verdict out)]) k e" if "tracked p' k = Some e" for k e
    using probe_answer.hyps(2)
  proof (cases rule: on_response_cases)
    case 1
    then show ?thesis using that probe_answer.IH entry_ok_answered by auto
  next
    case 2
    then show ?thesis using that probe_answer.IH entry_ok_answered [of tmo window evs k e h]
      by (auto split: if_splits)
  next
    case (3 e0 d e1)
    then show ?thesis using that probe_answer.IH entry_ok_answered [of tmo window evs k e h]
        probe_armed_now [of "Answered h r True now Rearmed" h r now tmo evs]
      by (cases "k = h") (auto simp: entry_ok_def)
  qed
  then show ?case using on_response_config [OF probe_answer.hyps(2)] probe_answer.IH by auto
next
  case (probe_requeue evs p p' h cap)
  then show ?case using requeue_kept [OF probe_requeue.hyps(2)] by simp
qed

text \<open>
  C16: A task is failed only on its holder's own denial of a probe that is open. Whatever happened
  before, the handler reports a failure for a task only when the answer says that it is not held,
  comes from the secondary that the ledger has as its holder, and answers a probe that was sent
  to that secondary, after which every poll saw the task there within the response window and no
  other verdict came in.
\<close>

theorem failure_needs_denial:
  assumes "probe_run tmo window stall evs p"
    and "handle_task_hold_response sender h held now cap fl p = (Some (sec, w, err, capped), p')"
  shows "\<not> held \<and> sec = sender \<and> (\<exists>e. map_of fl h = Some e \<and> fl_secondary e = sender)
    \<and> (\<exists>d. probe_open window d evs h sender)"
proof -
  obtain out p1 where o: "on_response h sender held now p = (out, p1)" by fastforce
  then have lost: "verdict out = Lost" "sec = sender \<and> (\<exists>e. map_of fl h = Some e \<and> fl_secondary e = sender)"
    using assms(2) by (auto simp: handle_task_hold_response_def split_beta Let_def split: if_splits option.splits)
  from o show ?thesis
  proof (cases rule: on_response_cases)
    case (2 e d)
    then show ?thesis using lost probe_run_entries [OF assms(1)] by (force simp: entry_ok_def)
  qed (use lost in auto)
qed

text \<open>
  A probe is launched only after the timeout. When a poll launches a probe of a task, the task was
  seen at that secondary, or confirmed by it, at least the timeout before, and every poll since
  then saw it there and launched no probe of it.
\<close>

theorem probe_after_timeout:
  assumes "probe_run tmo window stall evs p" "poll_due now p" "distinct (map fst view)"
    and "recon_poll now view p = ((fired, fl), p')" "(h, r) \<in> set fired"
  shows "(h, r) \<in> set view \<and> (\<exists>d \<le> now. probe_armed tmo d evs h r)"
proof -
  note inv = probe_run_entries [OF assms(1)]
  have "(h, r) \<in> set view" "snd (poll_entry now tmo window r (tracked p h))"
    using recon_poll_due(2) [OF assms(2-4)] assms(5) inv by auto
  then obtain e where "tracked p h = Some e" "holder e = r" "outstanding e = None" "deadline e \<le> now"
    by (auto simp: poll_entry_def split: option.splits if_splits)
  with inv \<open>(h, r) \<in> set view\<close> show ?thesis by (force simp: entry_ok_def)
qed

section \<open>A probe is launched\<close>

text \<open>A series of polls, due or not.\<close>

fun poll_series ::
  "(instant \<times> (string \<times> string) list) list \<Rightarrow> recon_prober \<Rightarrow> (string \<times> string) list \<times> recon_prober" where
  "poll_series [] p = ([], p)"
| "poll_series ((now, view) # polls) p =
     (let (tick, p1) = recon_poll now view p; (fired, p2) = poll_series polls p1
      in (fst tick @ fired, p2))"

lemma recon_poll_not_due: "\<not> poll_due now p \<Longrightarrow> recon_poll now view p = (([], None), p)"
  by (simp add: recon_poll_def)

lemma recon_poll_next: "poll_due now p \<Longrightarrow> next_poll (snd (recon_poll now view p)) = Some (now + POLL_CADENCE)"
  by (simp add: recon_poll_def Let_def split_beta)

text \<open>
  C29: A task that stays at one holder is probed, however often the loop polls. Among any polls that
  all see the task there, of which one comes the cadence after its deadline or later, one
  launches a probe of it.
\<close>

theorem probe_launched:
  assumes "tracked p h = Some e" "holder e = r" "outstanding e = None"
    and "\<forall>n. next_poll p = Some n \<longrightarrow> n \<le> deadline e + POLL_CADENCE"
    and "\<forall>(t, view) \<in> set polls. distinct (map fst view) \<and> (h, r) \<in> set view"
    and "\<exists>(t, view) \<in> set polls. deadline e + POLL_CADENCE \<le> t"
  shows "(h, r) \<in> set (fst (poll_series polls p))"
  using assms
proof (induction polls arbitrary: p)
  case (Cons x polls)
  obtain t view where x: "x = (t, view)" by fastforce
  obtain fired fl p1 where s: "recon_poll t view p = ((fired, fl), p1)" by (metis prod.collapse)
  have v: "distinct (map fst view)" "map_of view h = Some r" "(h, r) \<in> set view"
    using Cons.prems(5) x by (auto intro: map_of_is_SomeI)
  show ?case
  proof (cases "poll_due t p")
    case False
    then have "t < deadline e + POLL_CADENCE"
      using Cons.prems(4) by (auto simp: poll_due_def split: option.splits)
    then have "\<exists>(t, view) \<in> set polls. deadline e + POLL_CADENCE \<le> t" using Cons.prems(6) x by auto
    then show ?thesis using Cons.IH [of p] Cons.prems False x by (simp add: recon_poll_not_due split_beta)
  next
    case True
    note due = recon_poll_due [OF True v(1) s]
    show ?thesis
    proof (cases "deadline e \<le> t")
      case True
      then have "(h, r) \<in> set fired" using due(2) [of h r] v(3) Cons.prems by (simp add: poll_entry_def)
      then show ?thesis using s x by (simp add: split_beta)
    next
      case False
      then have "tracked p1 h = Some e" using due(1) [of h] v(2) Cons.prems by (simp add: poll_entry_def)
      moreover have "next_poll p1 = Some (t + POLL_CADENCE)" using recon_poll_next [OF True, of view] s by simp
      moreover have "\<exists>(t, view) \<in> set polls. deadline e + POLL_CADENCE \<le> t" using Cons.prems(6) x False by auto
      ultimately show ?thesis using Cons.IH [of p1] Cons.prems False s x by (simp add: split_beta)
    qed
  qed
qed simp

section \<open>Accounting\<close>

lemma mset_butlast: "ys \<noteq> [] \<Longrightarrow> mset (butlast ys) = mset ys - {#last ys#}"
  by (induction ys rule: rev_induct) auto

lemma swap_remove_mset:
  assumes "i < length xs"
  shows "mset (swap_remove i xs) = mset xs - {#xs ! i#}"
proof -
  have "last (xs[i := last xs]) = last xs"
    using assms by (cases "xs = []") (simp_all add: last_list_update)
  moreover have "xs[i := last xs] \<noteq> []" using assms by auto
  ultimately show ?thesis using assms mset_butlast [of "xs[i := last xs]"]
    by (simp add: swap_remove_def mset_update)
qed

definition cohort_ok :: "sweep_cohort \<Rightarrow> bool" where
  "cohort_ok c \<longleftrightarrow> c_total c = c_held c + length (c_lost c) + length (c_pending c)
     \<and> distinct (c_lost c @ c_pending c)"

definition summary_ok :: "sweep_summary \<Rightarrow> bool" where
  "summary_ok s \<longleftrightarrow> s_total s = s_held s + length (s_lost s) + length (s_no_answer s)
     \<and> distinct (s_lost s @ s_no_answer s)"

lemma into_summary_ok: "cohort_ok c \<Longrightarrow> summary_ok (into_summary c)"
  by (simp add: cohort_ok_def summary_ok_def into_summary_def)

lemma swap_remove_found:
  assumes "h \<in> set xs" "distinct xs"
  defines "ys \<equiv> swap_remove (length (takeWhile (\<lambda>x. x \<noteq> h) xs)) xs"
  shows "length xs = Suc (length ys)" "distinct ys" "set ys = set xs - {h}"
proof -
  let ?i = "length (takeWhile (\<lambda>x. x \<noteq> h) xs)"
  have i: "?i < length xs" using assms(1) by (induction xs) auto
  then have "xs ! ?i = h" using nth_length_takeWhile by blast
  with swap_remove_mset [OF i] have m: "mset ys = mset xs - {#h#}" by (simp add: ys_def)
  have "h \<in># mset xs" using assms(1) by simp
  then have x: "mset xs = add_mset h (mset ys)" using m by simp
  then show "length xs = Suc (length ys)" by (metis size_add_mset size_mset)
  have d: "distinct (h # ys)" using x assms(2) by (metis mset.simps(2) mset_eq_imp_distinct_iff)
  then show "distinct ys" by simp
  have "set xs = insert h (set ys)" using x by (metis set_mset_add_mset_insert set_mset_mset)
  with d show "set ys = set xs - {h}" by auto
qed

lemma tally_verdict_ok:
  assumes "\<And>c. co = Some c \<Longrightarrow> cohort_ok c" "tally_verdict h v co = (is_late, fin, co')"
  shows "\<And>c. co' = Some c \<Longrightarrow> cohort_ok c" "\<And>s. fin = Some s \<Longrightarrow> summary_ok s"
proof -
  have "(\<forall>c. co' = Some c \<longrightarrow> cohort_ok c) \<and> (\<forall>s. fin = Some s \<longrightarrow> summary_ok s)"
  proof (cases co)
    case None
    then show ?thesis using assms(2) by (auto simp: tally_verdict_def)
  next
    case (Some c)
    show ?thesis
    proof (cases "h \<in> set (c_pending c)")
      case False
      then show ?thesis using Some assms by (auto simp: tally_verdict_def)
    next
      case True
      define c1 where "c1 = c\<lparr>c_pending := swap_remove (length (takeWhile (\<lambda>x. x \<noteq> h) (c_pending c))) (c_pending c)\<rparr>"
      define c2 where "c2 = (if v = Lost then c1\<lparr>c_lost := c_lost c1 @ [h]\<rparr> else c1\<lparr>c_held := c_held c1 + 1\<rparr>)"
      have "cohort_ok c2" using assms(1) [OF Some] swap_remove_found [OF True] True
        by (auto simp: cohort_ok_def c1_def c2_def)
      moreover have "tally_verdict h v (Some c) =
          (if c_pending c2 = [] then (False, Some (into_summary c2), None) else (False, None, Some c2))"
        using True by (simp add: tally_verdict_def Let_def c1_def c2_def)
      ultimately show ?thesis using assms(2) Some into_summary_ok [of c2] by (auto split: if_splits)
    qed
  qed
  then show "\<And>c. co' = Some c \<Longrightarrow> cohort_ok c" "\<And>s. fin = Some s \<Longrightarrow> summary_ok s" by auto
qed

lemma on_response_cohort:
  assumes "\<And>c. cohort p = Some c \<Longrightarrow> cohort_ok c" "on_response h r held now p = (out, p')"
  shows "(\<forall>c. cohort p' = Some c \<longrightarrow> cohort_ok c) \<and> (\<forall>s. completed out = Some s \<longrightarrow> summary_ok s)"
proof (cases "\<exists>e d. tracked p h = Some e \<and> outstanding e = Some d \<and> holder e = r")
  case True
  obtain l f co where t: "tally_verdict h (if held then Rearmed else Lost) (cohort p) = (l, f, co)" by (metis prod.collapse)
  have "cohort p' = co" "completed out = f"
    using True t assms(2) by (auto simp: on_response_def Let_def split_beta split: if_splits)
  then show ?thesis using tally_verdict_ok [OF assms(1) t] by blast
next
  case False
  then have "p' = p" "out = outcome_ignored" using assms(2) by (auto simp: on_response_def split: option.splits if_splits)
  then show ?thesis using assms(1) by (simp add: outcome_ignored_def)
qed

lemma probe_run_cohort: "probe_run tmo window stall evs p \<Longrightarrow> cohort p = Some c \<Longrightarrow> cohort_ok c"
proof (induction arbitrary: c rule: probe_run.induct)
  case (probe_poll evs p now view fired fl p')
  then show ?case using recon_poll_due(6,7) [OF probe_poll.hyps(2-4)] by (auto simp: cohort_ok_def split: if_splits)
next
  case (probe_answer evs p h r held now out p')
  then show ?case using on_response_cohort by blast
next
  case (probe_requeue evs p p' h cap)
  then show ?case using requeue_kept(5) by metis
qed (simp add: recon_new_def)

text \<open>
  The summaries add up: in every summary that a poll flushes or an answer completes, the probes
  launched are those confirmed, those denied and those without an answer, and no task is
  reported twice.
\<close>

theorem summaries_add_up:
  assumes "probe_run tmo window stall evs p"
  shows "snd (fst (recon_poll now view p)) = Some s \<Longrightarrow> summary_ok s"
    and "completed (fst (on_response h r held now p)) = Some s \<Longrightarrow> summary_ok s"
proof -
  note c = probe_run_cohort [OF assms]
  show "snd (fst (recon_poll now view p)) = Some s \<Longrightarrow> summary_ok s"
    using c into_summary_ok by (auto simp: recon_poll_def Let_def split_beta split: if_splits)
  show "completed (fst (on_response h r held now p)) = Some s \<Longrightarrow> summary_ok s"
    using on_response_cohort [of p h r held now] c by (metis prod.collapse)
qed

section \<open>The cap on requeues\<close>

text \<open>A history of losses (true) and of progress (false) of tasks.\<close>

fun requeue_history :: "nat \<Rightarrow> (string \<times> bool) list \<Rightarrow> recon_prober \<Rightarrow> recon_prober" where
  "requeue_history cap [] p = p"
| "requeue_history cap ((h, lost) # ops) p =
     requeue_history cap ops (if lost then snd (note_loss_requeue h cap p) else clear_requeues h p)"

definition consecutive_losses :: "string \<Rightarrow> (string \<times> bool) list \<Rightarrow> nat" where
  "consecutive_losses h ops = length (takeWhile snd (rev (filter (\<lambda>x. fst x = h) ops)))"

lemma requeue_history_append:
  "requeue_history cap (xs @ ys) p = requeue_history cap ys (requeue_history cap xs p)"
  by (induction xs arbitrary: p) auto

lemma requeue_history_count:
  assumes "0 < cap"
  shows "(case loss_requeues (requeue_history cap ops (recon_new a b c)) h of None \<Rightarrow> 0 | Some k \<Rightarrow> k)
    = consecutive_losses h ops"
proof (induction ops rule: rev_induct)
  case Nil
  show ?case by (simp add: recon_new_def consecutive_losses_def)
next
  case (snoc x ops)
  with assms show ?case
    by (cases x) (auto simp: requeue_history_append note_loss_requeue_def clear_requeues_def consecutive_losses_def Let_def
        split: option.splits)
qed

text \<open>
  A loss is answered with a requeue until the cap of consecutive losses of the task, whatever
  happened to other tasks in between; then the task is failed for good.
\<close>

theorem loss_cap_exact:
  "fst (note_loss_requeue h cap (requeue_history cap ops (recon_new a b c))) \<longleftrightarrow>
     0 < cap \<and> cap \<le> consecutive_losses h ops + 1"
  using requeue_history_count [of cap ops a b c h]
  by (cases "cap = 0") (auto simp: note_loss_requeue_def Let_def)

section \<open>Instances\<close>

text \<open>A task in flight at a secondary, probed after the timeout.\<close>

definition flight :: "nat \<Rightarrow> (string \<times> in_flight_entry) list" where
  "flight w = [(''t'', \<lparr> fl_secondary = ''a'', fl_local_worker = Some w, fl_deferred = False \<rparr>)]"

definition seen_prober :: recon_prober where
  "seen_prober = snd (recon_poll 0 [(''t'', ''a'')] (recon_new 600 15 6000))"

definition probing_prober :: recon_prober where
  "probing_prober = snd (recon_poll 1000 [(''t'', ''a'')] seen_prober)"

lemmas probe_eval = seen_prober_def probing_prober_def recon_poll_def recon_new_def poll_due_def POLL_CADENCE_def
  poll_entry_def fresh_entry_def on_response_def tally_verdict_def swap_remove_def into_summary_def
  handle_task_hold_response_def note_loss_requeue_def flight_def probe_view_def reconciliation_probe_tick_def

lemma seen_run: "probe_run 600 15 6000 [Polled 0 [(''t'', ''a'')] []] seen_prober"
proof -
  have "recon_poll 0 [(''t'', ''a'')] (recon_new 600 15 6000) = (([], None), seen_prober)"
    by (simp add: probe_eval)
  from probe_poll [OF probe_start _ _ this] show ?thesis by (simp add: poll_due_def recon_new_def)
qed

lemma probing_run:
  "probe_run 600 15 6000 [Polled 0 [(''t'', ''a'')] [], Polled 1000 [(''t'', ''a'')] [(''t'', ''a'')]] probing_prober"
  using probe_poll [OF seen_run, of 1000 "[(''t'', ''a'')]" "[(''t'', ''a'')]" None probing_prober]
  by (simp add: probe_eval)

theorem failure_needs_denial_witness:
  "fst (handle_task_hold_response ''a'' ''t'' False 1010 3 (flight 1) probing_prober) = Some (''a'', 1, Recoverable, False)
   \<and> (\<exists>d. probe_open 15 d [Polled 0 [(''t'', ''a'')] [], Polled 1000 [(''t'', ''a'')] [(''t'', ''a'')]] ''t'' ''a'')"
proof -
  obtain p' where h: "handle_task_hold_response ''a'' ''t'' False 1010 3 (flight 1) probing_prober
      = (Some (''a'', 1, Recoverable, False), p')"
    by (simp add: probe_eval)
  from failure_needs_denial [OF probing_run h] h show ?thesis by simp
qed

theorem probe_after_timeout_witness:
  "\<exists>d \<le> 1000. probe_armed 600 d [Polled 0 [(''t'', ''a'')] []] ''t'' ''a''"
  using probe_after_timeout [OF seen_run, of 1000 "[(''t'', ''a'')]" "[(''t'', ''a'')]" None probing_prober "''t''" "''a''"]
  by (simp add: probe_eval)

theorem probe_launched_witness:
  "(''t'', ''a'') \<in> set (fst (poll_series [(10, [(''t'', ''a'')]), (700, [(''t'', ''a'')]), (1700, [(''t'', ''a'')])] seen_prober))"
  by (rule probe_launched [where e = "fresh_entry 0 600 ''a''"]) (simp_all add: probe_eval)

text \<open>
  The holder does not identify an assignment. A task that was requeued and handed to the same
  secondary again between two polls still has the probe of its first assignment open, so that the
  answer about the first assignment fails the second: here the task runs on worker 2 when the
  answer given before, about worker 1, arrives.
\<close>

theorem stale_denial_fails_redispatch:
  "(let (probes, p) = reconciliation_probe_tick 1000 (flight 1) seen_prober
    in probes = [(''t'', ''a'')]
       \<and> fst (handle_task_hold_response ''a'' ''t'' False 1010 3 (flight 2) p) = Some (''a'', 2, Recoverable, False))"
  by (simp add: probe_eval)

end
