(* ===== verification/Silence_Gates.thy ===== *)
theory Silence_Gates
  imports Consensus_Frames
begin

text \<open>
  The two guards between a silence that the primary measures and the suspicion of a secondary:
  \<open>IngestEdgeGate\<close> (\<open>primary/heartbeat/ingest_gate.rs\<close>), which defers while frames wait undrained in the
  node's own queue, and \<open>CollectiveSilenceGate\<close> (\<open>collective_silence.rs\<close>), which defers while every remote
  member is silent at once. The batch system's evidence on a job is the parameter \<open>authority\<close>
  (\<open>peer_life\<close>). The throttles and latches that only affect logging are left out.
\<close>

section \<open>The ingest gate\<close>

record ingest_edges =
  arrival :: "(string \<times> instant) list"
  drained :: "string \<rightharpoonup> instant"

record ingest_gate =
  prev_drained :: "string \<rightharpoonup> instant"
  pending_since :: "string \<rightharpoonup> instant"
  deferral_lag :: "nat option"

definition ingest_gate_new :: ingest_gate where
  "ingest_gate_new = \<lparr> prev_drained = Map.empty, pending_since = Map.empty, deferral_lag = None \<rparr>"

text \<open>Whether a peer has an undrained frame and its queue has not moved since the last sweep.\<close>

definition stuck :: "instant \<Rightarrow> instant option \<Rightarrow> instant option \<Rightarrow> bool" where
  "stuck arrived drained_at prev \<longleftrightarrow>
     (case drained_at of None \<Rightarrow> True | Some d \<Rightarrow> arrived > d)
     \<and> \<not> (case (prev, drained_at) of
            (Some q, Some d) \<Rightarrow> d > q
          | (None, Some d) \<Rightarrow> True
          | _ \<Rightarrow> False)"

definition ingest_peer ::
  "instant \<Rightarrow> (string \<rightharpoonup> instant) \<Rightarrow> string \<times> instant \<Rightarrow> ingest_gate \<times> nat option \<Rightarrow> ingest_gate \<times> nat option" where
  "ingest_peer now dr = (\<lambda>(peer, arrived) (g, longest).
     let g1 = (case dr peer of None \<Rightarrow> g | Some d \<Rightarrow> g\<lparr>prev_drained := (prev_drained g)(peer \<mapsto> d)\<rparr>)
     in if stuck arrived (dr peer) (prev_drained g peer) then
          (let since = (case pending_since g peer of None \<Rightarrow> now | Some t \<Rightarrow> t)
           in (g1\<lparr>pending_since := (pending_since g)(peer \<mapsto> since)\<rparr>,
               case longest of None \<Rightarrow> Some (now - since) | Some l \<Rightarrow> Some (max l (now - since))))
        else (g1\<lparr>pending_since := (pending_since g)(peer := None)\<rparr>, longest))"

definition ingest_observe :: "ingest_edges \<Rightarrow> instant \<Rightarrow> nat \<Rightarrow> ingest_gate \<Rightarrow> nat option \<times> ingest_gate" where
  "ingest_observe edges now pending_threshold g =
     (let (g1, longest) = fold (ingest_peer now (drained edges)) (arrival edges) (g, None);
          lag = (case longest of Some age \<Rightarrow> if age > pending_threshold then Some age else None | None \<Rightarrow> None)
      in (lag, g1\<lparr>deferral_lag := lag\<rparr>))"

section \<open>The collective-silence gate\<close>

datatype peer_life_state = Alive | Gone | Unknown

definition MIN_REMOTE_MEMBERS :: nat where "MIN_REMOTE_MEMBERS = 2"

record silence_observation =
  ob_secondary :: string
  ob_remote :: bool
  ob_silent :: bool
  ob_hard :: bool

record silence_gate =
  episode_since :: "instant option"
  hard_suppressed_since :: "instant option"
  escalated :: bool
  deferral :: "nat option"

definition silence_gate_new :: silence_gate where
  "silence_gate_new = \<lparr> episode_since = None, hard_suppressed_since = None, escalated = False, deferral = None \<rparr>"

definition collective :: "silence_observation list \<Rightarrow> bool" where
  "collective ms \<longleftrightarrow>
     (let remotes = filter ob_remote ms
      in length remotes \<ge> MIN_REMOTE_MEMBERS \<and> length (filter ob_silent remotes) = length remotes)"

text \<open>Every silent remote member's job has left the batch system, and there is one.\<close>

definition all_gone :: "(string \<Rightarrow> peer_life_state) \<Rightarrow> silence_observation list \<Rightarrow> bool" where
  "all_gone authority ms \<longleftrightarrow>
     (let lives = map (\<lambda>m. authority (ob_secondary m)) (filter (\<lambda>m. ob_remote m \<and> ob_silent m) ms)
      in \<not> list_ex (\<lambda>s. s = Alive) lives \<and> lives \<noteq> [] \<and> list_all (\<lambda>s. s = Gone) lives)"

definition silence_observe ::
  "silence_observation list \<Rightarrow> instant \<Rightarrow> nat \<Rightarrow> (string \<Rightarrow> peer_life_state) \<Rightarrow> silence_gate
     \<Rightarrow> nat option \<times> silence_gate" where
  "silence_observe ms now escalation_window authority g =
     (if \<not> collective ms then (None, silence_gate_new)
      else
        let since = (case episode_since g of None \<Rightarrow> now | Some t \<Rightarrow> t);
            any_hard_due = list_ex (\<lambda>m. ob_remote m \<and> ob_hard m) ms;
            first = (if any_hard_due \<and> hard_suppressed_since g = None then Some now else hard_suppressed_since g);
            overdue = (case first of None \<Rightarrow> False | Some t \<Rightarrow> now - t > escalation_window);
            esc = (escalated g \<or> overdue \<and> all_gone authority ms);
            verdict = (if esc then None else Some (now - since))
        in (verdict, \<lparr> episode_since = Some since, hard_suppressed_since = first, escalated = esc, deferral = verdict \<rparr>))"

section \<open>What the gates decide\<close>

text \<open>A sweep as the collective gate sees it: the members, the time and the evidence.\<close>

type_synonym sweep = "silence_observation list \<times> instant \<times> (string \<Rightarrow> peer_life_state)"

fun gate_run :: "nat \<Rightarrow> sweep list \<Rightarrow> silence_gate \<Rightarrow> silence_gate" where
  "gate_run window [] g = g"
| "gate_run window ((ms, now, authority) # sweeps) g =
     gate_run window sweeps (snd (silence_observe ms now window authority g))"

lemma gate_run_append: "gate_run window (xs @ ys) g = gate_run window ys (gate_run window xs g)"
  by (induction xs arbitrary: g) auto

text \<open>The sweeps of the current episode: the last ones in which all remotes were silent.\<close>

definition episode :: "sweep list \<Rightarrow> sweep list" where
  "episode sweeps = rev (takeWhile (\<lambda>(ms, now, authority). collective ms) (rev sweeps))"

lemma episode_snoc:
  "episode (sweeps @ [(ms, now, authority)]) = (if collective ms then episode sweeps @ [(ms, now, authority)] else [])"
  by (simp add: episode_def)

definition hard_due :: "silence_observation list \<Rightarrow> bool" where
  "hard_due ms \<longleftrightarrow> list_ex (\<lambda>m. ob_remote m \<and> ob_hard m) ms"

text \<open>Evidence in an episode: a due declaration was put off for the whole window, and then all were gone.\<close>

definition fleet_gone :: "nat \<Rightarrow> sweep list \<Rightarrow> bool" where
  "fleet_gone window ep \<longleftrightarrow> (\<exists>pre ms t a mid ms' t' a' post.
     ep = pre @ (ms, t, a) # mid @ (ms', t', a') # post \<and> hard_due ms \<and> t' - t > window \<and> all_gone a' ms'
     \<and> (\<forall>(m, u, b) \<in> set pre. \<not> hard_due m))"

lemma fleet_gone_snoc: "fleet_gone window ep \<Longrightarrow> fleet_gone window (ep @ [s])"
  unfolding fleet_gone_def by (metis (no_types, lifting) append.assoc append_Cons)

definition gate_matches :: "nat \<Rightarrow> sweep list \<Rightarrow> silence_gate \<Rightarrow> bool" where
  "gate_matches window ep g \<longleftrightarrow>
     episode_since g = (case ep of [] \<Rightarrow> None | (ms, t, a) # _ \<Rightarrow> Some t)
     \<and> hard_suppressed_since g = map_option (fst \<circ> snd) (List.find (\<lambda>(ms, t, a). hard_due ms) ep)
     \<and> (escalated g \<longleftrightarrow> fleet_gone window ep)"

lemma find_split:
  "List.find P xs = Some x \<longleftrightarrow> (\<exists>pre post. xs = pre @ x # post \<and> P x \<and> (\<forall>y \<in> set pre. \<not> P y))"
proof
  show "List.find P xs = Some x \<Longrightarrow> \<exists>pre post. xs = pre @ x # post \<and> P x \<and> (\<forall>y \<in> set pre. \<not> P y)"
  proof (induction xs)
    case (Cons y ys)
    show ?case
    proof (cases "P y")
      case True
      then show ?thesis using Cons.prems by (intro exI [of _ "[]"] exI [of _ ys]) auto
    next
      case False
      then obtain pre post where "ys = pre @ x # post" "P x" "\<forall>y \<in> set pre. \<not> P y" using Cons by auto
      then show ?thesis using False by (intro exI [of _ "y # pre"] exI [of _ post]) auto
    qed
  qed simp
next
  assume "\<exists>pre post. xs = pre @ x # post \<and> P x \<and> (\<forall>y \<in> set pre. \<not> P y)"
  then obtain pre post where xs: "xs = pre @ x # post" and P: "P x" "\<forall>y \<in> set pre. \<not> P y" by blast
  from P show "List.find P xs = Some x" unfolding xs by (induction pre) auto
qed

lemma find_append: "List.find P (xs @ ys) = (case List.find P xs of None \<Rightarrow> List.find P ys | Some x \<Rightarrow> Some x)"
  by (induction xs) auto

lemma fleet_gone_last:
  "fleet_gone window (ep @ [(ms, now, a)]) \<longleftrightarrow>
     fleet_gone window ep
     \<or> all_gone a ms \<and> (\<exists>m t b. List.find (\<lambda>(ms, t, a). hard_due ms) ep = Some (m, t, b) \<and> now - t > window)"
proof
  assume "fleet_gone window (ep @ [(ms, now, a)])"
  then obtain pre m t b mid m' t' b' post where d: "ep @ [(ms, now, a)] = pre @ (m, t, b) # mid @ (m', t', b') # post"
    "hard_due m" "t' - t > window" "all_gone b' m'" "\<forall>(m, u, b) \<in> set pre. \<not> hard_due m"
    unfolding fleet_gone_def by blast
  show "fleet_gone window ep
     \<or> all_gone a ms \<and> (\<exists>m t b. List.find (\<lambda>(ms, t, a). hard_due ms) ep = Some (m, t, b) \<and> now - t > window)"
  proof (cases post rule: rev_cases)
    case Nil
    with d(1) have "ep = pre @ (m, t, b) # mid" "(m', t', b') = (ms, now, a)" by auto
    with d(2-5) have "List.find (\<lambda>(ms, t, a). hard_due ms) ep = Some (m, t, b)" unfolding find_split by blast
    with d \<open>(m', t', b') = (ms, now, a)\<close> show ?thesis by auto
  next
    case (snoc ps z)
    with d(1) have "ep = pre @ (m, t, b) # mid @ (m', t', b') # ps" by simp
    with d(2-5) show ?thesis unfolding fleet_gone_def by blast
  qed
next
  assume "fleet_gone window ep
     \<or> all_gone a ms \<and> (\<exists>m t b. List.find (\<lambda>(ms, t, a). hard_due ms) ep = Some (m, t, b) \<and> now - t > window)"
  then show "fleet_gone window (ep @ [(ms, now, a)])"
  proof
    assume "all_gone a ms \<and> (\<exists>m t b. List.find (\<lambda>(ms, t, a). hard_due ms) ep = Some (m, t, b) \<and> now - t > window)"
    then obtain m t b where f: "all_gone a ms" "now - t > window"
      "List.find (\<lambda>(ms, t, a). hard_due ms) ep = Some (m, t, b)" by blast
    from f(3) obtain pre post where "ep = pre @ (m, t, b) # post" "hard_due m"
      "\<forall>(m, u, b) \<in> set pre. \<not> hard_due m" unfolding find_split by (auto simp: split_beta)
    note this f(1,2)
    then show ?thesis unfolding fleet_gone_def
      by (intro exI [of _ pre] exI [of _ m] exI [of _ t] exI [of _ b] exI [of _ post] exI [of _ ms] exI [of _ now]
          exI [of _ a] exI [of _ "[]"]) auto
  qed (rule fleet_gone_snoc)
qed

lemma gate_tracks_episode: "gate_matches window (episode sweeps) (gate_run window sweeps silence_gate_new)"
proof (induction sweeps rule: rev_induct)
  case Nil
  show ?case by (simp add: gate_matches_def episode_def silence_gate_new_def fleet_gone_def)
next
  case (snoc s sweeps)
  obtain ms now a where s: "s = (ms, now, a)" by (metis prod.collapse)
  let ?g = "gate_run window sweeps silence_gate_new" and ?ep = "episode sweeps"
  show ?case
  proof (cases "collective ms")
    case False
    then show ?thesis using s
      by (simp add: gate_run_append episode_snoc silence_observe_def gate_matches_def silence_gate_new_def fleet_gone_def)
  next
    case True
    have "escalated (gate_run window (sweeps @ [s]) silence_gate_new) \<longleftrightarrow> fleet_gone window (?ep @ [s])"
      using snoc.IH True s
      by (cases "List.find (\<lambda>(ms, t, a). hard_due ms) ?ep")
        (auto simp: gate_run_append silence_observe_def gate_matches_def Let_def fleet_gone_last hard_due_def)
    moreover have "episode_since (gate_run window (sweeps @ [s]) silence_gate_new)
        = (case ?ep @ [s] of [] \<Rightarrow> None | (ms, t, a) # _ \<Rightarrow> Some t)"
      using snoc.IH True s
      by (cases ?ep) (auto simp: gate_run_append silence_observe_def gate_matches_def Let_def)
    moreover have "hard_suppressed_since (gate_run window (sweeps @ [s]) silence_gate_new)
        = map_option (fst \<circ> snd) (List.find (\<lambda>(ms, t, a). hard_due ms) (?ep @ [s]))"
      using snoc.IH True s
      by (auto simp: gate_run_append silence_observe_def gate_matches_def Let_def find_append hard_due_def
          split: option.splits)
    ultimately show ?thesis using True s by (simp add: gate_matches_def episode_snoc)
  qed
qed

text \<open>
  C18: While every remote member is silent, the primary suspects its own wire. After any sweeps, the
  gate lets a sweep pass exactly when some remote member is live or there are fewer than two, or
  when in the present episode of collective silence a due declaration had been put off for longer
  than the window and then the batch system reported the job of every silent member as gone;
  otherwise it defers, with the age of the episode.
\<close>

theorem collective_silence_exact:
  "fst (silence_observe ms now window authority (gate_run window sweeps silence_gate_new)) =
     (let ep = episode (sweeps @ [(ms, now, authority)])
      in if ep = [] \<or> fleet_gone window ep then None else Some (now - fst (snd (hd ep))))"
proof (cases "collective ms")
  case False
  then show ?thesis by (simp add: silence_observe_def episode_snoc)
next
  case True
  let ?s = "(ms, now, authority)" and ?g = "gate_run window sweeps silence_gate_new"
  have "gate_matches window (episode (sweeps @ [?s])) (snd (silence_observe ms now window authority ?g))"
    using gate_tracks_episode [of window "sweeps @ [?s]"] by (simp add: gate_run_append)
  moreover have "fst (silence_observe ms now window authority ?g) =
      (if escalated (snd (silence_observe ms now window authority ?g)) then None
       else Some (now - the (episode_since (snd (silence_observe ms now window authority ?g)))))"
    using True by (simp add: silence_observe_def Let_def)
  moreover have "episode (sweeps @ [?s]) \<noteq> []" using True by (simp add: episode_snoc)
  ultimately show ?thesis by (auto simp: gate_matches_def Let_def neq_Nil_conv)
qed

text \<open>
  The deferral has no bound of its own: as long as the batch system has no answer on some silent
  member, every sweep of the episode is put off, however late it comes.
\<close>

theorem deferral_unbounded:
  assumes "collective ms" "\<forall>(m, t, a) \<in> set sweeps. \<not> all_gone a m" "\<not> all_gone authority ms"
  shows "fst (silence_observe ms now window authority (gate_run window sweeps silence_gate_new)) \<noteq> None"
proof -
  have "set (episode sweeps) \<subseteq> set sweeps" unfolding episode_def by (auto dest: set_takeWhileD)
  with assms(2,3) have "\<not> fleet_gone window (episode sweeps @ [(ms, now, authority)])"
    unfolding fleet_gone_last by (auto simp: fleet_gone_def)
  then show ?thesis using assms(1) gate_tracks_episode [of window "sweeps @ [(ms, now, authority)]"]
    by (auto simp: gate_run_append gate_matches_def episode_snoc silence_observe_def Let_def)
qed

section \<open>The ingest gate in one sweep\<close>

definition since_when :: "instant \<Rightarrow> ingest_gate \<Rightarrow> string \<Rightarrow> instant" where
  "since_when now g peer = (case pending_since g peer of None \<Rightarrow> now | Some t \<Rightarrow> t)"

lemma ingest_peer_other:
  assumes "q \<noteq> peer" "ingest_peer now dr (peer, arrived) (g, longest) = (g', longest')"
  shows "prev_drained g' q = prev_drained g q" "pending_since g' q = pending_since g q"
  using assms by (auto simp: ingest_peer_def Let_def split: if_splits option.splits)

lemma ingest_fold_longest:
  assumes "distinct (map fst as)"
  shows "(\<exists>age > th. snd (fold (ingest_peer now dr) as (g, l)) = Some age) \<longleftrightarrow>
      (\<exists>age > th. l = Some age)
      \<or> (\<exists>(peer, arrived) \<in> set as. stuck arrived (dr peer) (prev_drained g peer) \<and> now - since_when now g peer > th)"
  using assms
proof (induction as arbitrary: g l)
  case (Cons a as)
  obtain peer arrived where a: "a = (peer, arrived)" by fastforce
  obtain g' l' where s: "ingest_peer now dr (peer, arrived) (g, l) = (g', l')" by fastforce
  have other: "prev_drained g' q = prev_drained g q" "since_when now g' q = since_when now g q"
    if "(q, x) \<in> set as" for q x
  proof -
    have "q \<noteq> peer" using Cons.prems that a by force
    from ingest_peer_other [OF this s] show "prev_drained g' q = prev_drained g q" "since_when now g' q = since_when now g q"
      by (simp_all add: since_when_def)
  qed
  have "(\<exists>age > th. l' = Some age) \<longleftrightarrow>
      (\<exists>age > th. l = Some age) \<or> stuck arrived (dr peer) (prev_drained g peer) \<and> now - since_when now g peer > th"
    using s by (auto simp: ingest_peer_def since_when_def Let_def max_def split: if_splits option.splits)
  moreover have "(\<exists>(q, x) \<in> set as. stuck x (dr q) (prev_drained g' q) \<and> now - since_when now g' q > th) \<longleftrightarrow>
      (\<exists>(q, x) \<in> set as. stuck x (dr q) (prev_drained g q) \<and> now - since_when now g q > th)"
    using other by (intro bex_cong) auto
  ultimately show ?case using Cons s a by simp
qed simp

text \<open>The ingest gate defers exactly when some peer's frames have been waiting, without its queue moving, for longer than the threshold.\<close>

lemma ingest_defers_iff:
  assumes "distinct (map fst (arrival edges))"
  shows "fst (ingest_observe edges now th g) \<noteq> None \<longleftrightarrow>
     (\<exists>(peer, arrived) \<in> set (arrival edges).
        stuck arrived (drained edges peer) (prev_drained g peer) \<and> now - since_when now g peer > th)"
  using ingest_fold_longest [OF assms, of th now "drained edges" g None]
  by (auto simp: ingest_observe_def Let_def split_beta split: option.splits if_splits)

end
