(* ===== verification/Heartbeat.thy ===== *)
theory Heartbeat
  imports Silence_Gates Link_Health Consensus_Primary
begin

text \<open>
  The heartbeat sweep of the primary (\<open>primary/heartbeat/mod.rs\<close>): how the silence of a secondary is
  measured, which guards it has to pass, and how it becomes a suspicion that the respawn
  consensus of theory \<open>Consensus_Primary\<close> decides on.

  The record \<open>heart\<close> has what the sweep reads and writes of the coordinator. A connection state
  matters only in being operational or not. The clocks of the inbox, the membership of the ledger
  and the batch system are fields that the environment sets. One tick reads the clock once; the
  code reads it again at the gate and at the escalation. Products of an interval and a multiple do
  not saturate, which in the code they do only beyond the range of \<open>Duration\<close>.
\<close>

section \<open>State\<close>

datatype stage = WarnStage nat | HardStage

definition silence_stage :: "nat \<Rightarrow> nat \<Rightarrow> nat list \<Rightarrow> nat \<Rightarrow> stage option" where
  "silence_stage silence keepalive_interval warn_multiples hard_multiple =
     (if silence > keepalive_interval * hard_multiple then Some HardStage
      else case filter (\<lambda>i. silence > keepalive_interval * warn_multiples ! i) (rev [0..<length warn_multiples]) of
        [] \<Rightarrow> None
      | i # _ \<Rightarrow> Some (WarnStage i))"

record secondary_silence =
  sl_secondary :: string
  sl_last_keepalive :: instant
  sl_silence :: nat

record judged_mark =
  last_evidence :: instant
  judged_at_evidence :: nat

record heart =
  node_id :: string
  keepalive_interval :: nat
  silence_warn_multiples :: "nat list"
  silence_hard_multiple :: nat
  secondaries :: "(string \<times> bool) list"
  secondary_keepalives :: "(string \<times> instant) list"
  keepalive_proven :: "string set"
  silence_warn_stage :: "string \<rightharpoonup> nat"
  silence_judged_marks :: "string \<rightharpoonup> judged_mark"
  own_tick :: own_tick_health
  the_ingest_gate :: ingest_gate
  the_silence_gate :: silence_gate
  fsm :: consensus_fsm
  is_member_departed :: "string \<Rightarrow> bool"
  last_ingest_from :: "string \<Rightarrow> instant option"
  last_transport_arrival_from :: "string \<Rightarrow> instant option"
  transport_ingest_edges :: "ingest_edges option"
  authority :: "string \<Rightarrow> peer_life_state"
  the_primary :: "string option"
  primary_epoch :: nat
  peer_member_gen :: "string \<Rightarrow> nat"
  tasks_added_signals :: nat

section \<open>Evidence of life\<close>

definition record_keepalive :: "instant \<Rightarrow> string \<Rightarrow> heart \<Rightarrow> heart" where
  "record_keepalive now q x =
     (if q \<notin> fst ` set (secondaries x) then x
      else x\<lparr>secondary_keepalives := AList.update q now (secondary_keepalives x),
             silence_warn_stage := (silence_warn_stage x)(q := None),
             fsm := clear_scheduling_suspect_if_present q (fsm x)\<rparr>)"

definition seed_keepalive :: "instant \<Rightarrow> string \<Rightarrow> heart \<Rightarrow> heart" where
  "seed_keepalive now q x =
     x\<lparr>secondary_keepalives := AList.update q now (secondary_keepalives x),
       silence_warn_stage := (silence_warn_stage x)(q := None),
       silence_judged_marks := (silence_judged_marks x)(q := None),
       keepalive_proven := keepalive_proven x - {q}\<rparr>"

text \<open>A keepalive frame whose emitter is a secondary.\<close>

definition note_secondary_keepalive_frame :: "string \<Rightarrow> heart \<Rightarrow> heart" where
  "note_secondary_keepalive_frame q x =
     (if q \<in> fst ` set (secondaries x) then x\<lparr>keepalive_proven := insert q (keepalive_proven x)\<rparr> else x)"

text \<open>The latest of the three clocks: processed, taken into the inbox, arrived at the transport.\<close>

definition latest_evidence :: "heart \<Rightarrow> string \<Rightarrow> instant \<Rightarrow> instant" where
  "latest_evidence x q t =
     foldl max t (List.map_filter (\<lambda>a. a) [last_ingest_from x q, last_transport_arrival_from x q])"

definition judged_member :: "heart \<Rightarrow> string \<Rightarrow> bool" where
  "judged_member x q =
     (case map_of (secondaries x) q of
        None \<Rightarrow> False
      | Some operational \<Rightarrow> \<not> is_member_departed x q \<and> (operational \<or> q \<in> keepalive_proven x))"

definition collect_heartbeat_report :: "instant \<Rightarrow> heart \<Rightarrow> secondary_silence list" where
  "collect_heartbeat_report now x =
     map (\<lambda>(q, t). \<lparr> sl_secondary = q, sl_last_keepalive = latest_evidence x q t,
                      sl_silence = now - latest_evidence x q t \<rparr>)
       (filter (\<lambda>(q, t). judged_member x q) (secondary_keepalives x))"

section \<open>The sweep\<close>

text \<open>The bookkeeping of starvation-honest time, and the silence that counts.\<close>

definition update_mark :: "nat \<Rightarrow> instant \<Rightarrow> judged_mark option \<Rightarrow> judged_mark" where
  "update_mark judged_now evidence mark =
     (case mark of
        None \<Rightarrow> \<lparr> last_evidence = evidence, judged_at_evidence = judged_now \<rparr>
      | Some m \<Rightarrow> if evidence > last_evidence m
                  then \<lparr> last_evidence = evidence, judged_at_evidence = judged_now \<rparr> else m)"

definition counted_silence :: "heart \<Rightarrow> judged_mark \<Rightarrow> secondary_silence \<Rightarrow> nat" where
  "counted_silence x m s =
     (if chronic (own_tick x) then judged_elapsed (own_tick x) - judged_at_evidence m else sl_silence s)"

definition stage_of :: "heart \<Rightarrow> nat \<Rightarrow> stage option" where
  "stage_of x silence =
     silence_stage silence (keepalive_interval x) (silence_warn_multiples x) (silence_hard_multiple x)"

text \<open>\<open>log_silence_warn_once\<close>: the number of stages that have been narrated.\<close>

definition log_silence_warn_once :: "string \<Rightarrow> nat \<Rightarrow> heart \<Rightarrow> heart" where
  "log_silence_warn_once q idx x =
     (let warned = (case silence_warn_stage x q of None \<Rightarrow> 0 | Some n \<Rightarrow> n)
      in if idx < warned then x else x\<lparr>silence_warn_stage := (silence_warn_stage x)(q \<mapsto> idx + 1)\<rparr>)"

definition sweep_member ::
  "secondary_silence \<Rightarrow> heart \<times> silence_observation list \<times> string list
     \<Rightarrow> heart \<times> silence_observation list \<times> string list" where
  "sweep_member s = (\<lambda>(x, obs, dead).
     let q = sl_secondary s;
         m = update_mark (judged_elapsed (own_tick x)) (sl_last_keepalive s) (silence_judged_marks x q);
         x1 = x\<lparr>silence_judged_marks := (silence_judged_marks x)(q \<mapsto> m)\<rparr>;
         st = stage_of x (counted_silence x m s);
         ob = \<lparr> ob_secondary = q, ob_remote = (q \<noteq> node_id x), ob_silent = (st \<noteq> None),
                ob_hard = (st = Some HardStage) \<rparr>
     in case st of
          None \<Rightarrow> (x1, obs @ [ob], dead)
        | Some HardStage \<Rightarrow> (x1, obs @ [ob], dead @ [q])
        | Some (WarnStage i) \<Rightarrow> (log_silence_warn_once q i x1, obs @ [ob], dead))"

definition roster :: "heart \<Rightarrow> string list" where
  "roster x = map fst (secondaries x)"

definition decide_dead_secondaries ::
  "instant \<Rightarrow> secondary_silence list \<Rightarrow> heart \<Rightarrow> heart \<times> consensus_output list" where
  "decide_dead_secondaries now report x =
     (let (x1, obs, dead) = fold sweep_member report (x, [], []);
          (verdict, g) = silence_observe obs now (keepalive_interval x * silence_hard_multiple x) (authority x)
                           (the_silence_gate x1);
          x2 = x1\<lparr>the_silence_gate := g\<rparr>
      in if verdict \<noteq> None then (x2, [])
         else if dead = [] then (x2, [])
         else
           let in_flight = (current_consensus_id (fsm x2) \<noteq> None);
               f = set_scheduling_suspect (set dead) (fsm x2)
           in if in_flight then (x2\<lparr>fsm := f, tasks_added_signals := tasks_added_signals x2 + 1\<rparr>, [])
              else let (f', outs, capped) =
                         consensus_escalate_at (primary_epoch x2) (peer_member_gen x2) (roster x2) (set dead) now f
                   in (x2\<lparr>fsm := f', tasks_added_signals := tasks_added_signals x2 + 1\<rparr>, outs))"

text \<open>
  What a committed restart does to the state of the sweep: \<open>evict_secondary_local_caches\<close> for each
  target, and the wake-up at the end of \<open>requeue_dead_secondary\<close>.
\<close>

definition evict_sweep_state :: "string \<Rightarrow> heart \<Rightarrow> heart" where
  "evict_sweep_state q x =
     x\<lparr>secondaries := AList.delete q (secondaries x),
       secondary_keepalives := AList.delete q (secondary_keepalives x),
       silence_warn_stage := (silence_warn_stage x)(q := None),
       silence_judged_marks := (silence_judged_marks x)(q := None),
       keepalive_proven := keepalive_proven x - {q}\<rparr>"

fun commit_outputs :: "consensus_output list \<Rightarrow> heart \<Rightarrow> heart" where
  "commit_outputs [] x = x"
| "commit_outputs (RestartPeers targets # outs) x =
     commit_outputs outs
       (fold (\<lambda>q x. (evict_sweep_state q x)\<lparr>tasks_added_signals := tasks_added_signals x + 1\<rparr>)
          (sorted_list_of_set targets) x)"
| "commit_outputs (_ # outs) x = commit_outputs outs x"

definition process_heartbeat_tick :: "instant \<Rightarrow> heart \<Rightarrow> heart \<times> consensus_output list" where
  "process_heartbeat_tick now x =
     (let (starved, h) = observe_tick now (own_tick x); x1 = x\<lparr>own_tick := h\<rparr>
      in if starved then (x1, [])
         else
           let (lag, x2) = (case transport_ingest_edges x1 of
                  None \<Rightarrow> (None, x1)
                | Some edges \<Rightarrow>
                    let (l, g) = ingest_observe edges now (keepalive_interval x1 * STARVATION_TICK_MULTIPLE)
                                   (the_ingest_gate x1)
                    in (l, x1\<lparr>the_ingest_gate := g\<rparr>))
           in if lag \<noteq> None then (x2, [])
              else
                let (x3, outs) = decide_dead_secondaries now (collect_heartbeat_report now x2) x2;
                    (f, outs', capped) = drive_consensus_fsm_at now (roster x3) (fsm x3)
                in (commit_outputs (outs @ outs') (x3\<lparr>fsm := f\<rparr>), outs @ outs'))"

definition silent_secondary_ids :: "instant \<Rightarrow> heart \<Rightarrow> string set" where
  "silent_secondary_ids now x =
     (if deferral_lag (the_ingest_gate x) \<noteq> None \<or> deferral (the_silence_gate x) \<noteq> None then {}
      else set (map sl_secondary (filter (\<lambda>s.
             stage_of x
               (if chronic (own_tick x)
                then (case silence_judged_marks x (sl_secondary s) of
                        Some m \<Rightarrow> if sl_last_keepalive s \<le> last_evidence m
                                  then judged_elapsed (own_tick x) - judged_at_evidence m else 0
                      | None \<Rightarrow> 0)
                else sl_silence s) \<noteq> None
             \<and> Some (sl_secondary s) \<noteq> the_primary x)
           (collect_heartbeat_report now x))))"

section \<open>One sweep over the members\<close>

text \<open>The well-formedness of the two hash maps, and the rest states between two calls.\<close>

definition heart_ok :: "heart \<Rightarrow> bool" where
  "heart_ok x \<longleftrightarrow> distinct (map fst (secondaries x)) \<and> distinct (map fst (secondary_keepalives x))"

fun settled :: "consensus_state \<Rightarrow> bool" where
  "settled RoundIdle = True"
| "settled (SchedulingSuspect S) = True"
| "settled (CollectingResolutions c S d e g R res) = True"
| "settled (CollectingConfirmations c S e g R rc d k) = True"
| "settled _ = False"

definition report_silence :: "heart \<Rightarrow> secondary_silence \<Rightarrow> nat" where
  "report_silence x s =
     counted_silence x
       (update_mark (judged_elapsed (own_tick x)) (sl_last_keepalive s) (silence_judged_marks x (sl_secondary s))) s"

definition observation_of :: "heart \<Rightarrow> secondary_silence \<Rightarrow> silence_observation" where
  "observation_of x s =
     \<lparr> ob_secondary = sl_secondary s, ob_remote = (sl_secondary s \<noteq> node_id x),
       ob_silent = (stage_of x (report_silence x s) \<noteq> None),
       ob_hard = (stage_of x (report_silence x s) = Some HardStage) \<rparr>"

lemma stage_hard_iff:
  "stage_of x n = Some HardStage \<longleftrightarrow> n > keepalive_interval x * silence_hard_multiple x"
  by (simp add: stage_of_def silence_stage_def split: list.split)

lemma sweep_member_step:
  "\<exists>w. sweep_member s (x, obs, dead) =
     (x\<lparr>silence_warn_stage := w,
        silence_judged_marks := (silence_judged_marks x)(sl_secondary s \<mapsto>
          update_mark (judged_elapsed (own_tick x)) (sl_last_keepalive s) (silence_judged_marks x (sl_secondary s)))\<rparr>,
      obs @ [observation_of x s],
      dead @ (if stage_of x (report_silence x s) = Some HardStage then [sl_secondary s] else []))"
  unfolding sweep_member_def observation_of_def report_silence_def log_silence_warn_once_def
  by (cases x) (auto simp: Let_def split: option.split stage.split)

text \<open>A member's reading depends on its own mark only.\<close>

lemma reading_frame:
  assumes "m (sl_secondary s) = silence_judged_marks x (sl_secondary s)"
  shows "stage_of (x\<lparr>silence_warn_stage := w, silence_judged_marks := m\<rparr>)
           (report_silence (x\<lparr>silence_warn_stage := w, silence_judged_marks := m\<rparr>) s) = stage_of x (report_silence x s)"
    and "observation_of (x\<lparr>silence_warn_stage := w, silence_judged_marks := m\<rparr>) s = observation_of x s"
  using assms by (simp_all add: observation_of_def report_silence_def counted_silence_def stage_of_def)

lemma sweep_fold:
  assumes "distinct (map sl_secondary rs)"
  shows "\<exists>w m. fold sweep_member rs (x, obs, dead) =
     (x\<lparr>silence_warn_stage := w, silence_judged_marks := m\<rparr>, obs @ map (observation_of x) rs,
      dead @ map sl_secondary (filter (\<lambda>s. stage_of x (report_silence x s) = Some HardStage) rs))"
  using assms
proof (induction rs arbitrary: x obs dead)
  case Nil
  have "x = x\<lparr>silence_warn_stage := silence_warn_stage x, silence_judged_marks := silence_judged_marks x\<rparr>" by simp
  then show ?case by (metis append.right_neutral fold_simps(1) filter.simps(1) list.map(1))
next
  case (Cons s rs)
  obtain w m where step: "sweep_member s (x, obs, dead) =
      (x\<lparr>silence_warn_stage := w, silence_judged_marks := m\<rparr>, obs @ [observation_of x s],
       dead @ (if stage_of x (report_silence x s) = Some HardStage then [sl_secondary s] else []))"
    and m: "\<And>q. q \<noteq> sl_secondary s \<Longrightarrow> m q = silence_judged_marks x q"
    using sweep_member_step [of s x obs dead] by (metis fun_upd_other)
  let ?y = "x\<lparr>silence_warn_stage := w, silence_judged_marks := m\<rparr>"
  have same: "stage_of ?y (report_silence ?y r) = stage_of x (report_silence x r)" "observation_of ?y r = observation_of x r"
    if "r \<in> set rs" for r
  proof -
    have "sl_secondary r \<noteq> sl_secondary s" using Cons.prems that by (metis distinct.simps(2) image_eqI list.simps(9) set_map)
    from m [OF this] show "stage_of ?y (report_silence ?y r) = stage_of x (report_silence x r)"
      "observation_of ?y r = observation_of x r" by (rule reading_frame)+
  qed
  have "distinct (map sl_secondary rs)" using Cons.prems by simp
  from Cons.IH [OF this, of ?y "obs @ [observation_of x s]"
      "dead @ (if stage_of x (report_silence x s) = Some HardStage then [sl_secondary s] else [])"]
  obtain w' m' where "fold sweep_member (s # rs) (x, obs, dead) =
      (?y\<lparr>silence_warn_stage := w', silence_judged_marks := m'\<rparr>,
       (obs @ [observation_of x s]) @ map (observation_of ?y) rs,
       (dead @ (if stage_of x (report_silence x s) = Some HardStage then [sl_secondary s] else []))
         @ map sl_secondary (filter (\<lambda>r. stage_of ?y (report_silence ?y r) = Some HardStage) rs))"
    unfolding fold_simps step by blast
  moreover have "map (observation_of ?y) rs = map (observation_of x) rs" using same(2) by simp
  moreover have "filter (\<lambda>r. stage_of ?y (report_silence ?y r) = Some HardStage) rs =
      filter (\<lambda>r. stage_of x (report_silence x r) = Some HardStage) rs"
    by (rule filter_cong) (simp_all add: same(1))
  ultimately show ?case by (intro exI [of _ w'] exI [of _ m']) simp
qed

lemma report_distinct:
  "distinct (map fst (secondary_keepalives x)) \<Longrightarrow> distinct (map sl_secondary (collect_heartbeat_report now x))"
  by (simp add: collect_heartbeat_report_def comp_def split_beta distinct_map inj_on_def)

section \<open>The round a tick opens\<close>

lemma poll_settled:
  assumes "settled (fsm_state f)" "consensus_poll now mesh f = (f1, out)"
  shows "settled (fsm_state f1) \<and> out \<noteq> EmitFrame (SuspectPeers s c e g ps)"
  using assms by (cases "fsm_state f") (auto simp: consensus_poll_def Let_def split: if_splits prod.splits)

lemma drive_settled:
  assumes "settled (fsm_state f)" "drive_loop n now ros f = (f', outs, b)"
  shows "settled (fsm_state f') \<and> EmitFrame (SuspectPeers s c e g ps) \<notin> set outs"
  using assms
proof (induction n arbitrary: f f' outs b)
  case (Suc n)
  obtain f1 out where p: "consensus_poll now (consensus_mesh_snapshot ros f) f = (f1, out)" by fastforce
  from poll_settled [OF Suc.prems(1) p, of s c e g ps] Suc.prems(2) p show ?case
    using Suc.IH [of f1] by (auto split: if_splits prod.splits)
qed simp

text \<open>Seeding a nonempty set on a machine without a round and escalating it sends one frame.\<close>

lemma escalation_opens:
  assumes "settled (fsm_state f)" "current_consensus_id f = None" "S \<noteq> {}"
  shows "\<exists>f'. consensus_escalate_at epoch gens ros S now (set_scheduling_suspect S f) =
      (f', [EmitFrame (SuspectPeers [] (fsm_ids f + 1) epoch (round_member_gen gens S) (sorted_list_of_set S))], False)
    \<and> fsm_state f' = CollectingResolutions (fsm_ids f + 1) S (now + RESOLUTION_DEADLINE) epoch
        (round_member_gen gens S) (set (filter (\<lambda>q. q \<notin> S) ros)) {}"
proof -
  let ?c = "fsm_ids f + 1" and ?g = "round_member_gen gens S" and ?R = "set (filter (\<lambda>q. q \<notin> S) ros)"
  let ?f0 = "\<lparr>fsm_state = BroadcastSuspect ?c S now epoch ?g ?R, fsm_ids = ?c\<rparr>"
  let ?f1 = "\<lparr>fsm_state = CollectingResolutions ?c S (now + RESOLUTION_DEADLINE) epoch ?g ?R {}, fsm_ids = ?c\<rparr>"
  have seeded: "set_scheduling_suspect S f = f\<lparr>fsm_state := SchedulingSuspect S\<rparr>"
    using assms by (cases "fsm_state f") (simp_all add: set_scheduling_suspect_def current_consensus_id_def)
  have "escalate now epoch ?g ?R (set_scheduling_suspect S f) = ?f0"
    using \<open>S \<noteq> {}\<close> by (simp add: seeded escalate_def next_id_def)
  moreover have "consensus_poll now mesh ?f0 =
      (?f1, EmitFrame (SuspectPeers [] ?c epoch ?g (sorted_list_of_set S)))" for mesh
    by (simp add: consensus_poll_def)
  moreover have "consensus_poll now mesh ?f1 = (?f1, NoOutput)" for mesh
    using \<open>S \<noteq> {}\<close> by (simp add: consensus_poll_def consensus_constants)
  ultimately have "escalate now epoch ?g ?R (set_scheduling_suspect S f) = ?f0"
    and "drive_loop (Suc (Suc n)) now ros ?f0 =
      (?f1, [EmitFrame (SuspectPeers [] ?c epoch ?g (sorted_list_of_set S))], False)" for n
    by simp_all
  from this(1) this(2) [of 6] show ?thesis
    unfolding consensus_escalate_at_def drive_consensus_fsm_at_def by simp
qed

text \<open>The guards of a tick, and the members whose silence exceeds the hard window.\<close>

definition ticked :: "instant \<Rightarrow> heart \<Rightarrow> heart" where
  "ticked now x = x\<lparr>own_tick := snd (observe_tick now (own_tick x))\<rparr>"

definition ingest_lag :: "instant \<Rightarrow> heart \<Rightarrow> nat option" where
  "ingest_lag now x =
     (case transport_ingest_edges x of None \<Rightarrow> None
      | Some edges \<Rightarrow> fst (ingest_observe edges now (keepalive_interval x * STARVATION_TICK_MULTIPLE) (the_ingest_gate x)))"

definition sweep_observations :: "instant \<Rightarrow> heart \<Rightarrow> silence_observation list" where
  "sweep_observations now x =
     map (observation_of (ticked now x)) (collect_heartbeat_report now (ticked now x))"

definition sweep_admitted :: "instant \<Rightarrow> heart \<Rightarrow> bool" where
  "sweep_admitted now x \<longleftrightarrow>
     \<not> fst (observe_tick now (own_tick x)) \<and> ingest_lag now x = None
     \<and> fst (silence_observe (sweep_observations now x) now (keepalive_interval x * silence_hard_multiple x)
             (authority x) (the_silence_gate x)) = None"

definition member_silence :: "instant \<Rightarrow> heart \<Rightarrow> string \<Rightarrow> instant \<Rightarrow> nat" where
  "member_silence now x q t =
     (let h = snd (observe_tick now (own_tick x)); evidence = latest_evidence x q t
      in if chronic h
         then (case silence_judged_marks x q of
                 Some m \<Rightarrow> if evidence \<le> last_evidence m then judged_elapsed h - judged_at_evidence m else 0
               | None \<Rightarrow> 0)
         else now - evidence)"

definition hard_silent :: "instant \<Rightarrow> heart \<Rightarrow> string set" where
  "hard_silent now x =
     {q. judged_member x q \<and>
         (case map_of (secondary_keepalives x) q of None \<Rightarrow> False
          | Some t \<Rightarrow> member_silence now x q t > keepalive_interval x * silence_hard_multiple x)}"

lemma report_silence_ticked:
  "report_silence (ticked now x) \<lparr> sl_secondary = q, sl_last_keepalive = latest_evidence x q t,
      sl_silence = now - latest_evidence x q t \<rparr> = member_silence now x q t"
  by (auto simp: report_silence_def counted_silence_def update_mark_def member_silence_def ticked_def Let_def
      split: option.split)

lemma ticked_frame [simp]:
  "latest_evidence (ticked now x) = latest_evidence x" "judged_member (ticked now x) = judged_member x"
  "secondary_keepalives (ticked now x) = secondary_keepalives x"
  "keepalive_interval (ticked now x) = keepalive_interval x"
  "silence_hard_multiple (ticked now x) = silence_hard_multiple x"
  by (auto simp: ticked_def latest_evidence_def judged_member_def fun_eq_iff split: option.split)

lemma hard_silent_report:
  assumes "distinct (map fst (secondary_keepalives x))"
  shows "set (map sl_secondary (filter (\<lambda>s. stage_of (ticked now x) (report_silence (ticked now x) s) = Some HardStage)
           (collect_heartbeat_report now (ticked now x)))) = hard_silent now x"
proof -
  let ?r = "\<lambda>q t. \<lparr> sl_secondary = q, sl_last_keepalive = latest_evidence x q t, sl_silence = now - latest_evidence x q t \<rparr>"
  have "q \<in> set (map sl_secondary (filter (\<lambda>s. stage_of (ticked now x) (report_silence (ticked now x) s) = Some HardStage)
           (collect_heartbeat_report now (ticked now x)))) \<longleftrightarrow> (\<exists>t. (q, t) \<in> set (secondary_keepalives x) \<and> judged_member x q
      \<and> member_silence now x q t > keepalive_interval x * silence_hard_multiple x)" for q
    unfolding report_silence_ticked [symmetric] by (auto simp: stage_hard_iff collect_heartbeat_report_def image_iff) force
  moreover have "q \<in> hard_silent now x \<longleftrightarrow> (\<exists>t. (q, t) \<in> set (secondary_keepalives x) \<and> judged_member x q
      \<and> member_silence now x q t > keepalive_interval x * silence_hard_multiple x)" for q
    unfolding hard_silent_def map_of_eq_Some_iff [OF assms, symmetric] by (auto split: option.split)
  ultimately show ?thesis by blast
qed

text \<open>The sweep, once its report is folded.\<close>

lemma decide_swept:
  assumes "distinct (map fst (secondary_keepalives x))"
    and "decide_dead_secondaries now (collect_heartbeat_report now (ticked now x)) (ticked now x) = (x', outs)"
    and "settled (fsm_state (fsm x))"
  shows "settled (fsm_state (fsm x')) \<and> roster x' = roster x \<and>
    outs = (if fst (silence_observe (sweep_observations now x) now (keepalive_interval x * silence_hard_multiple x)
                     (authority x) (the_silence_gate x)) = None
                 \<and> hard_silent now x \<noteq> {} \<and> current_consensus_id (fsm x) = None
            then [EmitFrame (SuspectPeers [] (fsm_ids (fsm x) + 1) (primary_epoch x)
                    (round_member_gen (peer_member_gen x) (hard_silent now x)) (sorted_list_of_set (hard_silent now x)))]
            else [])"
proof -
  let ?y = "ticked now x" and ?rs = "collect_heartbeat_report now (ticked now x)"
  let ?dead = "map sl_secondary (filter (\<lambda>s. stage_of ?y (report_silence ?y s) = Some HardStage) ?rs)"
  obtain w m where fold: "fold sweep_member ?rs (?y, [], []) =
      (?y\<lparr>silence_warn_stage := w, silence_judged_marks := m\<rparr>, sweep_observations now x, ?dead)"
    using sweep_fold [OF report_distinct, of ?y now ?y "[]" "[]"] assms(1)
    by (auto simp: sweep_observations_def)
  have dead: "set ?dead = hard_silent now x" using hard_silent_report [OF assms(1)] .
  then have none: "?dead = [] \<longleftrightarrow> hard_silent now x = {}" by (metis set_empty)
  have keep: "set_scheduling_suspect S (fsm x) = fsm x" if "current_consensus_id (fsm x) \<noteq> None" for S
    using that assms(3) by (cases "fsm_state (fsm x)") (simp_all add: set_scheduling_suspect_def current_consensus_id_def)
  obtain v g where gate: "silence_observe (sweep_observations now x) now
      (keepalive_interval x * silence_hard_multiple x) (authority x) (the_silence_gate x) = (v, g)" by fastforce
  show ?thesis
  proof (cases "v = None \<and> hard_silent now x \<noteq> {} \<and> current_consensus_id (fsm x) = None")
    case True
    with escalation_opens [OF assms(3), of "hard_silent now x" "primary_epoch x" "peer_member_gen x" "roster x" now]
    obtain f' where "consensus_escalate_at (primary_epoch x) (peer_member_gen x) (roster x) (hard_silent now x) now
          (set_scheduling_suspect (hard_silent now x) (fsm x)) =
        (f', [EmitFrame (SuspectPeers [] (fsm_ids (fsm x) + 1) (primary_epoch x)
                (round_member_gen (peer_member_gen x) (hard_silent now x)) (sorted_list_of_set (hard_silent now x)))], False)"
      and "settled (fsm_state f')" by auto
    with True assms(2) fold dead none gate show ?thesis
      by (auto simp: decide_dead_secondaries_def ticked_def roster_def)
  next
    case False
    with assms(2,3) fold dead none gate keep show ?thesis
      by (auto simp: decide_dead_secondaries_def ticked_def roster_def Let_def split: if_splits)
  qed
qed

lemma ingest_gate_readings:
  "latest_evidence (x\<lparr>the_ingest_gate := g\<rparr>) = latest_evidence x"
  "judged_member (x\<lparr>the_ingest_gate := g\<rparr>) = judged_member x"
  "observation_of (x\<lparr>the_ingest_gate := g\<rparr>) = observation_of x"
  "ticked now (x\<lparr>the_ingest_gate := g\<rparr>) = (ticked now x)\<lparr>the_ingest_gate := g\<rparr>"
  by (simp_all add: fun_eq_iff latest_evidence_def judged_member_def observation_of_def report_silence_def
      counted_silence_def stage_of_def ticked_def split: option.split)

lemma ingest_gate_frame [simp]:
  "hard_silent now (x\<lparr>the_ingest_gate := g\<rparr>) = hard_silent now x"
  "sweep_observations now (x\<lparr>the_ingest_gate := g\<rparr>) = sweep_observations now x"
  "roster (x\<lparr>the_ingest_gate := g\<rparr>) = roster x"
proof -
  have "member_silence now (x\<lparr>the_ingest_gate := g\<rparr>) = member_silence now x"
    by (simp add: fun_eq_iff member_silence_def ingest_gate_readings Let_def split: option.split)
  then show "hard_silent now (x\<lparr>the_ingest_gate := g\<rparr>) = hard_silent now x"
    by (auto simp: hard_silent_def ingest_gate_readings split: option.splits)
qed (simp_all add: sweep_observations_def collect_heartbeat_report_def ingest_gate_readings roster_def)

text \<open>A tick either stops at one of the first two guards, or sweeps and drives the machine.\<close>

lemma tick_cases:
  obtains (stopped) y where "process_heartbeat_tick now x = (y, [])" "fsm y = fsm x" "roster y = roster x"
      "secondary_keepalives y = secondary_keepalives x"
      "fst (observe_tick now (own_tick x)) \<or> ingest_lag now x \<noteq> None"
  | (swept) g y outs f outs' capped where
      "\<not> fst (observe_tick now (own_tick x))" "ingest_lag now x = None"
      "decide_dead_secondaries now (collect_heartbeat_report now (ticked now (x\<lparr>the_ingest_gate := g\<rparr>)))
         (ticked now (x\<lparr>the_ingest_gate := g\<rparr>)) = (y, outs)"
      "drive_consensus_fsm_at now (roster y) (fsm y) = (f, outs', capped)"
      "process_heartbeat_tick now x = (commit_outputs (outs @ outs') (y\<lparr>fsm := f\<rparr>), outs @ outs')"
proof -
  obtain starved h where tick: "observe_tick now (own_tick x) = (starved, h)" by fastforce
  obtain lag g where gate: "(case transport_ingest_edges x of None \<Rightarrow> (None, the_ingest_gate x)
      | Some edges \<Rightarrow> ingest_observe edges now (keepalive_interval x * STARVATION_TICK_MULTIPLE) (the_ingest_gate x))
      = (lag, g)" by fastforce
  have lag: "ingest_lag now x = lag" using gate by (auto simp: ingest_lag_def split: option.splits)
  have gated: "(case transport_ingest_edges (x\<lparr>own_tick := h\<rparr>) of None \<Rightarrow> (None, x\<lparr>own_tick := h\<rparr>)
      | Some edges \<Rightarrow>
          let (l, g) = ingest_observe edges now (keepalive_interval (x\<lparr>own_tick := h\<rparr>) * STARVATION_TICK_MULTIPLE)
                         (the_ingest_gate (x\<lparr>own_tick := h\<rparr>))
          in (l, (x\<lparr>own_tick := h\<rparr>)\<lparr>the_ingest_gate := g\<rparr>)) = (lag, ticked now (x\<lparr>the_ingest_gate := g\<rparr>))"
    using gate tick by (auto simp: ticked_def split: option.splits)
  note unfolded = process_heartbeat_tick_def tick prod.case Let_def gated [unfolded Let_def]
  show thesis
  proof (cases "starved \<or> lag \<noteq> None")
    case True
    then have "process_heartbeat_tick now x = (if starved then x\<lparr>own_tick := h\<rparr> else ticked now (x\<lparr>the_ingest_gate := g\<rparr>), [])"
      unfolding unfolded by auto
    then show thesis by (rule stopped) (use True in \<open>simp_all add: tick lag ticked_def roster_def\<close>)
  next
    case False
    obtain y outs where d: "decide_dead_secondaries now (collect_heartbeat_report now (ticked now (x\<lparr>the_ingest_gate := g\<rparr>)))
         (ticked now (x\<lparr>the_ingest_gate := g\<rparr>)) = (y, outs)" by fastforce
    obtain f outs' capped where r: "drive_consensus_fsm_at now (roster y) (fsm y) = (f, outs', capped)"
      by (metis prod_cases3)
    have "process_heartbeat_tick now x = (commit_outputs (outs @ outs') (y\<lparr>fsm := f\<rparr>), outs @ outs')"
      unfolding unfolded using False d r by simp
    with False d r show thesis by (intro swept) (simp_all add: tick lag)
  qed
qed


section \<open>Ticks alone\<close>

text \<open>
  What the environment may change between two ticks, and the events that reach the sweep other than
  answers in a round: a tick, a sign of life that is recorded or seeded, a keepalive frame.
\<close>

record world =
  w_departed :: "string \<Rightarrow> bool"
  w_ingest :: "string \<Rightarrow> instant option"
  w_arrival :: "string \<Rightarrow> instant option"
  w_edges :: "ingest_edges option"
  w_authority :: "string \<Rightarrow> peer_life_state"
  w_primary :: "string option"
  w_epoch :: nat
  w_gens :: "string \<Rightarrow> nat"

definition enter_world :: "world \<Rightarrow> heart \<Rightarrow> heart" where
  "enter_world w x =
     x\<lparr>is_member_departed := w_departed w, last_ingest_from := w_ingest w, last_transport_arrival_from := w_arrival w,
       transport_ingest_edges := w_edges w, authority := w_authority w, the_primary := w_primary w,
       primary_epoch := w_epoch w, peer_member_gen := w_gens w\<rparr>"

datatype heart_event =
    Tick instant world
  | Sign instant string
  | Seed instant string
  | KeepaliveFrame string

fun heart_step :: "heart_event \<Rightarrow> heart \<Rightarrow> heart \<times> consensus_output list" where
  "heart_step (Tick now w) x = process_heartbeat_tick now (enter_world w x)"
| "heart_step (Sign now q) x = (record_keepalive now q x, [])"
| "heart_step (Seed now q) x = (seed_keepalive now q x, [])"
| "heart_step (KeepaliveFrame q) x = (note_secondary_keepalive_frame q x, [])"

fun heart_run :: "heart_event list \<Rightarrow> heart \<Rightarrow> heart \<times> consensus_output list" where
  "heart_run [] x = (x, [])"
| "heart_run (ev # evs) x =
     (let (x1, outs) = heart_step ev x; (x2, outs') = heart_run evs x1 in (x2, outs @ outs'))"

text \<open>
  A round nobody has answered. While resolutions are collected every member of the roster is a
  suspect or expected to respond; while confirmations are collected somebody is expected.
\<close>

fun unanswered :: "string set \<Rightarrow> consensus_state \<Rightarrow> bool" where
  "unanswered M RoundIdle = True"
| "unanswered M (SchedulingSuspect S) = True"
| "unanswered M (CollectingResolutions c S d e g R res) = (M \<subseteq> S \<union> R)"
| "unanswered M (CollectingConfirmations c S e g R rc d k) = (rc = [] \<and> R \<noteq> {})"
| "unanswered M _ = False"

lemma unanswered_settled: "unanswered M s \<Longrightarrow> settled s"
  by (cases s) auto

lemma quorum_has_member:
  assumes "failover_quorum_threshold (length ros + 1) \<le> length (filter (\<lambda>q. q \<notin> S) ros)" "set ros \<subseteq> S \<union> R"
  shows "R \<noteq> {}"
proof -
  have "filter (\<lambda>q. q \<notin> S) ros \<noteq> []" using assms(1) by (auto simp: failover_quorum_threshold_def)
  then show ?thesis using assms(2) by (auto simp: filter_empty_conv)
qed

lemma poll_unanswered:
  assumes "unanswered (set ros) (fsm_state f)"
    and "consensus_poll now (consensus_mesh_snapshot ros f) f = (f', out)"
  shows "unanswered (set ros) (fsm_state f') \<and> out \<noteq> RestartPeers T"
proof (cases "fsm_state f")
  case (CollectingResolutions c S d e g R res)
  then show ?thesis using assms quorum_has_member [of ros S R]
    by (auto simp: consensus_poll_def consensus_mesh_snapshot_def in_flight_suspects_def Let_def not_less split: if_splits)
next
  case (CollectingConfirmations c S e g R rc d k)
  then show ?thesis using assms by (auto simp: consensus_poll_def all_responded_def Let_def split: if_splits)
qed (use assms in \<open>auto simp: consensus_poll_def\<close>)

lemma drive_unanswered:
  assumes "unanswered (set ros) (fsm_state f)" "drive_loop n now ros f = (f', outs, b)"
  shows "unanswered (set ros) (fsm_state f') \<and> RestartPeers T \<notin> set outs"
  using assms
proof (induction n arbitrary: f f' outs b)
  case (Suc n)
  obtain f1 out where p: "consensus_poll now (consensus_mesh_snapshot ros f) f = (f1, out)" by fastforce
  from poll_unanswered [OF Suc.prems(1) p, of T] Suc.prems(2) p show ?case
    using Suc.IH [of f1] by (auto split: if_splits prod.splits)
qed simp

lemma commit_nothing: "\<forall>T. RestartPeers T \<notin> set outs \<Longrightarrow> commit_outputs outs x = x"
  by (induction outs x rule: commit_outputs.induct) auto

lemma decide_unanswered:
  assumes "unanswered (set (roster x)) (fsm_state (fsm x))" "decide_dead_secondaries now report x = (y, outs)"
  shows "roster y = roster x \<and> unanswered (set (roster x)) (fsm_state (fsm y)) \<and> RestartPeers T \<notin> set outs"
proof -
  obtain x1 obs dead where fold: "fold sweep_member report (x, [], []) = (x1, obs, dead)" by (metis prod_cases3)
  have same: "fsm x1 = fsm x \<and> secondaries x1 = secondaries x"
    using fold
  proof (induction report arbitrary: x1 obs dead rule: rev_induct)
    case (snoc s rs)
    obtain x0 obs0 dead0 where "fold sweep_member rs (x, [], []) = (x0, obs0, dead0)" by (metis prod_cases3)
    then show ?case using snoc sweep_member_step [of s x0 obs0 dead0] by auto
  qed simp
  have seeded: "unanswered M (fsm_state (set_scheduling_suspect S (fsm x)))" if "unanswered M (fsm_state (fsm x))" for M S
    using that by (cases "fsm_state (fsm x)") (auto simp: set_scheduling_suspect_def)
  have escalated: "unanswered (fst ` set (secondaries x)) (fsm_state (fst r)) \<and> RestartPeers T \<notin> set (fst (snd r))"
    if "r = consensus_escalate_at e gens (map fst (secondaries x)) S now (set_scheduling_suspect S (fsm x))"
      "current_consensus_id (fsm x) = None" "S \<noteq> {}" for e gens S r
    using escalation_opens [OF unanswered_settled [OF assms(1)] that(2,3), of e gens "map fst (secondaries x)" now] that(1) by auto
  from assms fold same show ?thesis
    by (auto simp: decide_dead_secondaries_def roster_def Let_def split_beta seeded escalated [OF refl] split: if_splits)
qed

lemma tick_unanswered:
  assumes "unanswered (set (roster x)) (fsm_state (fsm x))" "process_heartbeat_tick now x = (x', outs)"
  shows "roster x' = roster x \<and> unanswered (set (roster x)) (fsm_state (fsm x')) \<and> RestartPeers T \<notin> set outs"
proof (cases rule: tick_cases [of now x])
  case (stopped y)
  then show ?thesis using assms by simp
next
  case (swept gate y os f os' capped)
  have "unanswered (set (roster (ticked now (x\<lparr>the_ingest_gate := gate\<rparr>))))
      (fsm_state (fsm (ticked now (x\<lparr>the_ingest_gate := gate\<rparr>))))"
    using assms(1) by (simp add: ticked_def roster_def)
  from decide_unanswered [OF this swept(3)]
  have d: "roster y = roster x" "unanswered (set (roster y)) (fsm_state (fsm y))" "\<forall>T. RestartPeers T \<notin> set os"
    by (auto simp: ticked_def roster_def)
  from drive_unanswered [OF d(2) swept(4) [unfolded drive_consensus_fsm_at_def]]
  have r: "unanswered (set (roster y)) (fsm_state f)" "\<forall>T. RestartPeers T \<notin> set os'" by auto
  then have "x' = y\<lparr>fsm := f\<rparr>" "outs = os @ os'"
    using assms(2) swept(5) d(3) by (simp_all add: commit_nothing)
  then show ?thesis using d r by (simp add: roster_def)
qed

lemma heart_step_unanswered:
  assumes "unanswered (set (roster x)) (fsm_state (fsm x))" "heart_step ev x = (x', outs)"
  shows "roster x' = roster x \<and> unanswered (set (roster x)) (fsm_state (fsm x')) \<and> RestartPeers T \<notin> set outs"
proof (cases ev)
  case (Tick now w)
  have "roster (enter_world w x) = roster x" "fsm (enter_world w x) = fsm x" by (simp_all add: enter_world_def roster_def)
  then show ?thesis using tick_unanswered [of "enter_world w x" now x' outs T] assms Tick by simp
next
  case (Sign now q)
  have "unanswered M (fsm_state (clear_scheduling_suspect_if_present q (fsm x)))" if "unanswered M (fsm_state (fsm x))" for M
    using that by (cases "fsm_state (fsm x)") (auto simp: clear_scheduling_suspect_if_present_def)
  then show ?thesis using assms Sign by (auto simp: record_keepalive_def roster_def split: if_splits)
qed (use assms in \<open>auto simp: seed_keepalive_def note_secondary_keepalive_frame_def roster_def split: if_splits\<close>)


section \<open>Examples\<close>

text \<open>Three remote members that spoke last at time 0; the interval is 1000 and the hard window 30000.\<close>

definition quiet_world :: "string set \<Rightarrow> instant \<Rightarrow> world" where
  "quiet_world silent now =
     \<lparr> w_departed = (\<lambda>q. False), w_ingest = (\<lambda>q. if q \<in> silent then None else Some now), w_arrival = (\<lambda>q. None),
       w_edges = None, w_authority = (\<lambda>q. Gone), w_primary = None, w_epoch = 1, w_gens = (\<lambda>q. 0) \<rparr>"

definition small_fleet :: heart where
  "small_fleet =
     \<lparr> node_id = ''p'', keepalive_interval = 1000, silence_warn_multiples = [5, 10], silence_hard_multiple = 30,
       secondaries = [(''a'', True), (''b'', True), (''c'', True)],
       secondary_keepalives = [(''a'', 0), (''b'', 0), (''c'', 0)], keepalive_proven = {},
       silence_warn_stage = Map.empty, silence_judged_marks = Map.empty, own_tick = own_tick_build 60000 None,
       the_ingest_gate = ingest_gate_new, the_silence_gate = silence_gate_new, fsm = consensus_new,
       is_member_departed = (\<lambda>q. False), last_ingest_from = (\<lambda>q. None), last_transport_arrival_from = (\<lambda>q. None),
       transport_ingest_edges = None, authority = (\<lambda>q. Gone), the_primary = None, primary_epoch = 1,
       peer_member_gen = (\<lambda>q. 0), tasks_added_signals = 0 \<rparr>"

lemmas heart_eval =
  small_fleet_def quiet_world_def enter_world_def process_heartbeat_tick_def decide_dead_secondaries_def
  collect_heartbeat_report_def sweep_member_def update_mark_def counted_silence_def stage_of_def silence_stage_def
  judged_member_def latest_evidence_def log_silence_warn_once_def observe_tick_def own_tick_build_def
  inter_tick_gap_starved_def STARVATION_TICK_MULTIPLE_def silence_observe_def silence_gate_new_def collective_def
  all_gone_def MIN_REMOTE_MEMBERS_def consensus_new_def consensus_op_defs consensus_constants current_consensus_id_def
  consensus_escalate_at_def drive_consensus_fsm_at_def round_member_gen_def consensus_mesh_snapshot_def
  in_flight_suspects_def failover_quorum_threshold_def div_ceil_def roster_def sweep_admitted_def ingest_lag_def
  sweep_observations_def observation_of_def report_silence_def ticked_def heart_ok_def List.map_filter_def

lemma drive_loop_numeral:
  "drive_loop (numeral k) now ros f =
     (let (f', out) = consensus_poll now (consensus_mesh_snapshot ros f) f
      in if out = NoOutput then (f', [], False)
         else let (f'', outs, capped) = drive_loop (pred_numeral k) now ros f' in (f'', out # outs, capped))"
  by (simp add: numeral_eq_Suc)

lemma small_fleet_hard_silent:
  "hard_silent 31000 (enter_world (quiet_world {''a''} 31000) small_fleet) = {''a''}"
  by (auto simp: hard_silent_def member_silence_def latest_evidence_def judged_member_def small_fleet_def enter_world_def
      quiet_world_def observe_tick_def own_tick_build_def inter_tick_gap_starved_def Let_def List.map_filter_def
      split: if_splits)

lemma small_fleet_admitted:
  "sweep_admitted 31000 (enter_world (quiet_world {''a''} 31000) small_fleet)"
  by (simp add: heart_eval drive_loop_numeral Let_def)



text \<open>
  A round that fails at the side gate is opened again by the next sweep of the same streak of
  silence: the guard only asks whether a round is running.
\<close>

lemma aborted_round_reopened:
  "snd (heart_run [Tick 31000 (quiet_world {''a''} 31000), Tick 46000 (quiet_world {''a''} 46000),
      Tick 47000 (quiet_world {''a''} 47000)] small_fleet) =
   [EmitFrame (SuspectPeers [] 1 1 0 [''a'']), AbortOutput (SideGate 2 4 3), EmitFrame (SuspectPeers [] 2 1 0 [''a''])]"
  by (simp add: heart_eval drive_loop_numeral Let_def)

text \<open>
  The whole fleet is silent and the batch system reports every job as gone. Once the gate has let the
  sweep pass, the round suspects everybody, nobody is left to count as live, and it aborts.
\<close>

lemma dead_fleet_aborts:
  "snd (heart_run [Tick 31000 (quiet_world {''a'', ''b'', ''c''} 31000), Tick 62000 (quiet_world {''a'', ''b'', ''c''} 62000),
      Tick 77000 (quiet_world {''a'', ''b'', ''c''} 77000)] small_fleet) =
   [EmitFrame (SuspectPeers [] 1 1 0 [''a'', ''b'', ''c'']), AbortOutput (SideGate 0 4 3)]"
  by (simp add: heart_eval drive_loop_numeral Let_def)

text \<open>A sweep that finds a member past the hard window wakes the worker management even though nothing was requeued.\<close>

lemma suspicion_wakes:
  "tasks_added_signals (fst (process_heartbeat_tick 31000 (enter_world (quiet_world {''a''} 31000) small_fleet))) = 1"
  by (simp add: heart_eval drive_loop_numeral Let_def)

end
