(* ===== verification/Affine_Scheduler.thy ===== *)
theory Affine_Scheduler
  imports Ledger_Apply
begin

text \<open>
  The queues that the primary keeps for each secondary (\<open>primary/affine_scheduler.rs\<close>): work tasks
  that need something imported on the secondary they run on, the choice of that secondary, the
  stealing of work, and the record of imports that failed.

  The ledger's cells are read through an argument \<open>cell\<close>, and what the code returns are mutations of
  theory \<open>Ledger_Apply\<close>. The iterated hash maps are association lists; the set of placed tasks is a
  set, and what the code collects from it in some order is a set too.
\<close>

section \<open>State\<close>

datatype queued_unit = Affine nat string | Work string

fun is_work :: "queued_unit \<Rightarrow> bool" where
  "is_work (Work h) = True"
| "is_work (Affine a h) = False"

record work_placement =
  wp_hash :: string
  wp_affine_deps :: "(nat \<times> string) list"

record affine_scheduler =
  unit_queues :: "(string \<times> queued_unit list) list"
  placed_work :: "string set"
  blocked_per_secondary :: "((string \<times> string) \<times> nat set) list"
  failed_since_success :: "nat \<rightharpoonup> string set"

definition affine_clear :: "affine_scheduler \<Rightarrow> affine_scheduler" where
  "affine_clear x =
     x\<lparr>unit_queues := [], placed_work := {}, blocked_per_secondary := [], failed_since_success := Map.empty\<rparr>"

definition affine_default :: affine_scheduler where
  "affine_default =
     \<lparr> unit_queues = [], placed_work = {}, blocked_per_secondary = [], failed_since_success = Map.empty \<rparr>"

section \<open>Failed imports\<close>

definition record_import_failed :: "string \<Rightarrow> nat \<Rightarrow> affine_scheduler \<Rightarrow> affine_scheduler" where
  "record_import_failed q aid x =
     x\<lparr>failed_since_success := (failed_since_success x)(aid \<mapsto>
         insert q (case failed_since_success x aid of None \<Rightarrow> {} | Some S \<Rightarrow> S))\<rparr>"

definition record_import_succeeded :: "string \<Rightarrow> nat \<Rightarrow> affine_scheduler \<Rightarrow> affine_scheduler" where
  "record_import_succeeded q aid x =
     (case failed_since_success x aid of
        None \<Rightarrow> x
      | Some S \<Rightarrow>
          x\<lparr>failed_since_success :=
              (if S - {q} = {} then (failed_since_success x)(aid := None)
               else (failed_since_success x)(aid \<mapsto> S - {q}))\<rparr>)"

definition import_failed_on_every :: "nat \<Rightarrow> string list \<Rightarrow> affine_scheduler \<Rightarrow> bool" where
  "import_failed_on_every aid secs x =
     (secs \<noteq> [] \<and> (case failed_since_success x aid of None \<Rightarrow> False | Some S \<Rightarrow> list_all (\<lambda>q. q \<in> S) secs))"

section \<open>Work that waits for an import\<close>

definition block_until_import :: "string \<Rightarrow> string \<Rightarrow> nat list \<Rightarrow> affine_scheduler \<Rightarrow> affine_scheduler" where
  "block_until_import q work pending x =
     (if pending = [] then x
      else x\<lparr>blocked_per_secondary := AList.update (q, work) (set pending) (blocked_per_secondary x)\<rparr>)"

text \<open>The three sweeps share \<open>retain\<close>: what is dropped is reported.\<close>

definition drop_blocked ::
  "(string \<times> string \<Rightarrow> nat set \<Rightarrow> bool) \<Rightarrow> affine_scheduler \<Rightarrow> string list \<times> affine_scheduler" where
  "drop_blocked hit x =
     (map (snd \<circ> fst) (filter (\<lambda>(k, pending). hit k pending) (blocked_per_secondary x)),
      x\<lparr>blocked_per_secondary := filter (\<lambda>(k, pending). \<not> hit k pending) (blocked_per_secondary x)\<rparr>)"

definition on_cell_finished :: "string \<Rightarrow> nat \<Rightarrow> affine_scheduler \<Rightarrow> string list \<times> affine_scheduler" where
  "on_cell_finished q aid = drop_blocked (\<lambda>(sec, work) pending. sec = q \<and> aid \<in> pending)"

definition drain_blocked_on :: "string \<Rightarrow> nat option \<Rightarrow> affine_scheduler \<Rightarrow> string list \<times> affine_scheduler" where
  "drain_blocked_on q aid =
     drop_blocked (\<lambda>(sec, work) pending. sec = q \<and> (case aid of None \<Rightarrow> True | Some a \<Rightarrow> a \<in> pending))"

definition blocked_work_keyed_elsewhere :: "string \<Rightarrow> affine_scheduler \<Rightarrow> (string \<times> string) list" where
  "blocked_work_keyed_elsewhere q x = sort (filter (\<lambda>(sec, work). sec \<noteq> q) (keys (blocked_per_secondary x)))"

definition rekey_block ::
  "string \<Rightarrow> string \<Rightarrow> string \<Rightarrow> nat list \<Rightarrow> affine_scheduler \<Rightarrow> bool \<times> affine_scheduler" where
  "rekey_block old new work pending x =
     (map_of (blocked_per_secondary x) (old, work) \<noteq> None,
      let b = AList.delete (old, work) (blocked_per_secondary x)
      in x\<lparr>blocked_per_secondary := (if pending = [] then b else AList.update (new, work) (set pending) b)\<rparr>)"

definition orphaned ::
  "(string \<Rightarrow> bool) \<Rightarrow> (string \<Rightarrow> nat \<Rightarrow> secondary_cell) \<Rightarrow> (string \<Rightarrow> nat \<Rightarrow> bool) \<Rightarrow> string \<times> string \<Rightarrow> nat set \<Rightarrow> bool" where
  "orphaned reachable cell import_in_flight = (\<lambda>(sec, work) pending.
     \<not> reachable sec
     \<or> (pending \<noteq> {} \<and> (\<forall>a \<in> pending. cell sec a = CellDone))
     \<or> (\<exists>a \<in> pending. case cell sec a of
          CellDone \<Rightarrow> False | Queued \<Rightarrow> \<not> import_in_flight sec a | _ \<Rightarrow> True))"

definition reconcile_per_secondary_blocked ::
  "(string \<Rightarrow> bool) \<Rightarrow> (string \<Rightarrow> nat \<Rightarrow> secondary_cell) \<Rightarrow> (string \<Rightarrow> nat \<Rightarrow> bool) \<Rightarrow> affine_scheduler
     \<Rightarrow> string list \<times> affine_scheduler" where
  "reconcile_per_secondary_blocked reachable cell import_in_flight =
     drop_blocked (orphaned reachable cell import_in_flight)"

definition record_placed_work :: "string \<Rightarrow> affine_scheduler \<Rightarrow> bool \<times> affine_scheduler" where
  "record_placed_work h x = (h \<notin> placed_work x, x\<lparr>placed_work := insert h (placed_work x)\<rparr>)"

definition unrecord_placed_work :: "string \<Rightarrow> affine_scheduler \<Rightarrow> affine_scheduler" where
  "unrecord_placed_work h x = x\<lparr>placed_work := placed_work x - {h}\<rparr>"

abbreviation unit_queue :: "affine_scheduler \<Rightarrow> string \<Rightarrow> queued_unit list" where
  "unit_queue x q \<equiv> lookup_list (unit_queues x) q"

definition queue_len :: "string \<Rightarrow> affine_scheduler \<Rightarrow> nat" where
  "queue_len q x = length (unit_queue x q)"

definition placed_but_unqueued :: "affine_scheduler \<Rightarrow> string set" where
  "placed_but_unqueued x =
     {h \<in> placed_work x. \<not> list_ex (\<lambda>(q, us). Work h \<in> set us) (unit_queues x)
        \<and> \<not> list_ex (\<lambda>((sec, work), pending). work = h) (blocked_per_secondary x)}"

section \<open>The choice of a secondary\<close>

text \<open>The loop of \<open>dense_rank\<close> over the sorted keys.\<close>

fun rank_walk_keys :: "nat \<Rightarrow> nat \<Rightarrow> 'k option \<Rightarrow> ('k \<times> string) list \<Rightarrow> (string \<rightharpoonup> nat) \<Rightarrow> (string \<rightharpoonup> nat)" where
  "rank_walk_keys i rank prev [] ranks = ranks"
| "rank_walk_keys i rank prev ((k, q) # ks) ranks =
     (let rank' = (case prev of Some p \<Rightarrow> if p \<noteq> k then i else rank | None \<Rightarrow> rank)
      in rank_walk_keys (i + 1) rank' (Some k) ks (ranks(q \<mapsto> rank')))"

definition dense_rank :: "string list \<Rightarrow> (string \<Rightarrow> 'k::linorder) \<Rightarrow> (string \<rightharpoonup> nat)" where
  "dense_rank secs key = rank_walk_keys 0 0 None (sort_key fst (map (\<lambda>q. (key q, q)) secs)) Map.empty"

text \<open>The sum of the bytes, at the width of \<open>usize\<close>.\<close>

definition hash_spread :: "string \<Rightarrow> 64 word" where
  "hash_spread h = foldl (\<lambda>acc b. acc + word_of_nat (of_char b)) 0 h"

definition affine_score :: "(string \<Rightarrow> nat \<Rightarrow> secondary_cell) \<Rightarrow> work_placement \<Rightarrow> string \<Rightarrow> nat" where
  "affine_score cell p q =
     length (filter (\<lambda>(a, h). cell q a = CellDone \<or> cell q a = Queued) (wp_affine_deps p))"

text \<open>\<open>Reverse\<close> of a count is its negation; the outer option is the panic of an index into the ranks.\<close>

definition select_secondary ::
  "string list \<Rightarrow> work_placement \<Rightarrow> (string \<Rightarrow> nat \<Rightarrow> secondary_cell) \<Rightarrow> affine_scheduler \<Rightarrow> string option option" where
  "select_secondary secs p cell x =
     (if secs = [] then Some None
      else
        let affine_rank = dense_rank secs (\<lambda>q. - int (affine_score cell p q));
            queue_rank = dense_rank secs (\<lambda>q. queue_len q x)
        in if list_all (\<lambda>q. affine_rank q \<noteq> None \<and> queue_rank q \<noteq> None) secs then
             (let ranked = sort (map (\<lambda>q. (the (affine_rank q) + the (queue_rank q), q)) secs);
                  top = map snd (take 2 ranked)
              in Some (Some (top ! (unat (hash_spread (wp_hash p)) mod length top))))
           else None)"

section \<open>Queues\<close>

text \<open>\<open>place\<close> queues the work alone. The vector of mutations it returns is always empty and is left out.\<close>

definition place ::
  "string \<Rightarrow> work_placement \<Rightarrow> affine_scheduler \<Rightarrow> affine_scheduler" where
  "place q p x = x\<lparr>unit_queues := AList.update q (unit_queue x q @ [Work (wp_hash p)]) (unit_queues x)\<rparr>"

definition pop_next :: "string \<Rightarrow> affine_scheduler \<Rightarrow> queued_unit option \<times> affine_scheduler" where
  "pop_next q x =
     (case map_of (unit_queues x) q of
        None \<Rightarrow> (None, x)
      | Some [] \<Rightarrow> (None, x)
      | Some (u # us) \<Rightarrow> (Some u, x\<lparr>unit_queues := AList.update q us (unit_queues x)\<rparr>))"

definition requeue_front :: "string \<Rightarrow> queued_unit \<Rightarrow> affine_scheduler \<Rightarrow> affine_scheduler" where
  "requeue_front q u x = x\<lparr>unit_queues := AList.update q (u # unit_queue x q) (unit_queues x)\<rparr>"

section \<open>Stealing\<close>

definition steal_eligible :: "string \<Rightarrow> (string \<Rightarrow> string \<Rightarrow> bool) \<Rightarrow> string \<times> queued_unit list \<Rightarrow> bool" where
  "steal_eligible thief can_steal = (\<lambda>(t, us).
     t \<noteq> thief \<and> us \<noteq> []
     \<and> (case List.find is_work us of Some (Work h) \<Rightarrow> can_steal t h | _ \<Rightarrow> False))"

text \<open>\<open>Iterator::max_by\<close>: the later of two equal elements. Longer queues first, then smaller names.\<close>

definition donor_less_eq :: "string \<times> queued_unit list \<Rightarrow> string \<times> queued_unit list \<Rightarrow> bool" where
  "donor_less_eq a b \<longleftrightarrow>
     length (snd a) < length (snd b) \<or> length (snd a) = length (snd b) \<and> fst b \<le> fst a"

fun max_donor :: "(string \<times> queued_unit list) list \<Rightarrow> (string \<times> queued_unit list) option" where
  "max_donor [] = None"
| "max_donor (a # as) = Some (foldl (\<lambda>m b. if donor_less_eq m b then b else m) a as)"

definition unqueue_claims ::
  "string \<Rightarrow> (string \<Rightarrow> nat \<Rightarrow> secondary_cell) \<Rightarrow> queued_unit list \<Rightarrow> ('i, 'j, 'p) cluster_mutation list" where
  "unqueue_claims donor cell us =
     List.map_filter (\<lambda>u. case u of
         Affine a h \<Rightarrow> if cell donor a = Queued then Some (SecondaryCellUnqueued donor a 0) else None
       | Work h \<Rightarrow> None) us"

definition queue_claims ::
  "string \<Rightarrow> (string \<Rightarrow> nat \<Rightarrow> secondary_cell) \<Rightarrow> queued_unit list \<Rightarrow> ('i, 'j, 'p) cluster_mutation list" where
  "queue_claims q cell us =
     List.map_filter (\<lambda>u. case u of
         Affine a h \<Rightarrow> if cell q a = NotDone then Some (SecondaryCellQueued q a 0) else None
       | Work h \<Rightarrow> None) us"

definition steal_for ::
  "string \<Rightarrow> (string \<Rightarrow> nat \<Rightarrow> secondary_cell) \<Rightarrow> (string \<Rightarrow> string \<Rightarrow> bool) \<Rightarrow> affine_scheduler
     \<Rightarrow> ('i, 'j, 'p) cluster_mutation list \<times> affine_scheduler" where
  "steal_for thief cell can_steal x =
     (case max_donor (filter (steal_eligible thief can_steal) (unit_queues x)) of
        None \<Rightarrow> ([], x)
      | Some (donor, us) \<Rightarrow>
          let before = takeWhile (\<lambda>u. \<not> is_work u) us;
              cut = (if length before < length us then length before + 1 else length us);
              prefix = take cut us;
              x1 = x\<lparr>unit_queues := AList.update donor (drop cut us) (unit_queues x)\<rparr>
          in (unqueue_claims donor cell prefix @ queue_claims thief cell prefix,
              x1\<lparr>unit_queues := AList.update thief (unit_queue x1 thief @ prefix) (unit_queues x1)\<rparr>))"

section \<open>Rebuilding after a failover\<close>

text \<open>Each placement in turn; None is the panic of the selection.\<close>

fun rebuild_loop ::
  "string list \<Rightarrow> (string \<Rightarrow> nat \<Rightarrow> secondary_cell) \<Rightarrow> work_placement list \<Rightarrow> affine_scheduler \<Rightarrow> affine_scheduler option" where
  "rebuild_loop secs cell [] x = Some x"
| "rebuild_loop secs cell (p # ps) x =
     (case select_secondary secs p cell x of
        None \<Rightarrow> None
      | Some None \<Rightarrow> rebuild_loop secs cell ps x
      | Some (Some q) \<Rightarrow> rebuild_loop secs cell ps (place q p x))"

definition rebuild ::
  "string list \<Rightarrow> work_placement list \<Rightarrow> (string \<Rightarrow> nat \<Rightarrow> secondary_cell) \<Rightarrow> affine_scheduler \<Rightarrow> affine_scheduler option" where
  "rebuild secs ps cell x = rebuild_loop secs cell ps (affine_clear x)"

section \<open>Ranks\<close>

lemma rank_walk_exact:
  assumes "sorted (map fst (ds @ rest))" "\<And>k q. (k, q) \<in> set rest \<Longrightarrow> k = key q"
    and "prev = (if ds = [] then None else Some (fst (last ds)))"
    and "r = (if ds = [] then 0 else length (filter (\<lambda>d. fst d < fst (last ds)) ds))"
  shows "rank_walk_keys (length ds) r prev rest m =
     (\<lambda>q. if q \<in> snd ` set rest then Some (length (filter (\<lambda>d. fst d < key q) (ds @ rest))) else m q)"
  using assms
proof (induction rest arbitrary: ds r prev m)
  case (Cons e ks)
  obtain k q where e: "e = (k, q)" by fastforce
  have k: "k = key q" using Cons.prems(2) e by simp
  define rank' where "rank' = (case prev of Some p \<Rightarrow> if p \<noteq> k then length ds else r | None \<Rightarrow> r)"
  have below: "fst d \<le> fst (last ds)" if "d \<in> set ds" for d
    using that Cons.prems(1) by (cases ds rule: rev_cases) (auto simp: sorted_append)
  have le: "fst d \<le> k" if "d \<in> set ds" for d using that Cons.prems(1) e by (auto simp: sorted_append)
  have ge: "k \<le> fst d" if "d \<in> set ks" for d using that Cons.prems(1) e by (auto simp: sorted_append)
  have rank': "rank' = length (filter (\<lambda>d. fst d < k) ds)"
  proof (cases "ds = []")
    case False
    then have "fst (last ds) \<le> k" using le by simp
    have "filter (\<lambda>d. fst d < k) ds = ds" if "fst (last ds) < k"
      using that below by (force simp: filter_id_conv)
    then show ?thesis using False Cons.prems(3,4) \<open>fst (last ds) \<le> k\<close> by (auto simp: rank'_def)
  qed (use Cons.prems in \<open>simp add: rank'_def\<close>)
  have all: "length (filter (\<lambda>d. fst d < k) (ds @ e # ks)) = rank'"
    using ge e by (auto simp: rank' filter_empty_conv not_less)
  have snoc: "rank' = length (filter (\<lambda>d. fst d < fst (last (ds @ [e]))) (ds @ [e]))" using rank' e by simp
  have walk: "rank_walk_keys (length ds) r prev (e # ks) m = rank_walk_keys (length (ds @ [e])) rank' (Some k) ks (m(q \<mapsto> rank'))"
    by (simp add: e rank'_def Let_def)
  also have "\<dots> =
      (\<lambda>t. if t \<in> snd ` set ks then Some (length (filter (\<lambda>d. fst d < key t) ((ds @ [e]) @ ks))) else (m(q \<mapsto> rank')) t)"
    by (rule Cons.IH) (use Cons.prems(1,2) e snoc in auto)
  also have "\<dots> = (\<lambda>t. if t \<in> snd ` set (e # ks) then Some (length (filter (\<lambda>d. fst d < key t) (ds @ e # ks))) else m t)"
    by (rule ext) (use all k e in simp)
  finally show ?case .
qed simp

text \<open>A rank is the number of secondaries that are strictly better, so ranks are skipped after a tie.\<close>

lemma dense_rank_exact:
  "dense_rank secs key q = (if q \<in> set secs then Some (length (filter (\<lambda>t. key t < key q) secs)) else None)"
proof -
  let ?ks = "sort_key fst (map (\<lambda>q. (key q, q)) secs)"
  have "dense_rank secs key = (\<lambda>q. if q \<in> snd ` set ?ks then Some (length (filter (\<lambda>d. fst d < key q) ?ks)) else None)"
    unfolding dense_rank_def
    by (rule rank_walk_exact [of "[]" ?ks key None 0 Map.empty, unfolded list.size append_Nil]) auto
  moreover have "snd ` set ?ks = set secs" by force
  moreover have "length (filter (\<lambda>d. fst d < c) ?ks) = length (filter (\<lambda>t. key t < c) secs)" for c
  proof -
    have "mset (filter (\<lambda>d. fst d < c) ?ks) = mset (filter (\<lambda>d. fst d < c) (map (\<lambda>q. (key q, q)) secs))"
      unfolding mset_filter mset_sort ..
    then have "length (filter (\<lambda>d. fst d < c) ?ks) = length (filter (\<lambda>d. fst d < c) (map (\<lambda>q. (key q, q)) secs))"
      by (rule mset_eq_length)
    then show ?thesis by (simp add: filter_map comp_def)
  qed
  ultimately show ?thesis by simp
qed

lemma dense_rank_skips: "map (dense_rank [''a'', ''b'', ''c''] (\<lambda>q. if q = ''c'' then 1 else 0 :: nat)) [''a'', ''b'', ''c'']
    = [Some 0, Some 0, Some 2]"
  by (simp add: dense_rank_exact)

section \<open>The selection\<close>

text \<open>The combined rank, counted directly: secondaries with more of the imports, and with shorter queues.\<close>

definition combined_rank ::
  "string list \<Rightarrow> work_placement \<Rightarrow> (string \<Rightarrow> nat \<Rightarrow> secondary_cell) \<Rightarrow> affine_scheduler \<Rightarrow> string \<Rightarrow> nat" where
  "combined_rank secs p cell x q =
     length (filter (\<lambda>t. affine_score cell p t > affine_score cell p q) secs)
     + length (filter (\<lambda>t. queue_len t x < queue_len q x) secs)"

lemma sorted_nth_iff:
  assumes "distinct xs" "j < length xs"
  shows "sort xs ! j = e \<longleftrightarrow> e \<in> set xs \<and> card {d \<in> set xs. d < e} = j"
proof -
  let ?s = "sort xs"
  have s: "sorted ?s" "distinct ?s" "set ?s = set xs" "length ?s = length xs" using assms(1) by simp_all
  have below: "card {d \<in> set xs. d < ?s ! i} = i" if "i < length ?s" for i
  proof -
    have split: "?s = take i ?s @ ?s ! i # drop (Suc i) ?s" using that by (rule id_take_nth_drop)
    have "sorted_wrt (<) (take i ?s @ ?s ! i # drop (Suc i) ?s)"
      using s(1,2) unfolding split [symmetric] by (simp add: strict_sorted_iff)
    then have "\<forall>d \<in> set (take i ?s). d < ?s ! i" "\<forall>d \<in> set (drop (Suc i) ?s). ?s ! i < d"
      by (simp_all add: sorted_wrt_append)
    moreover have "set xs = set (take i ?s) \<union> {?s ! i} \<union> set (drop (Suc i) ?s)"
      using arg_cong [OF split, of set] s(3) by simp
    ultimately have "{d \<in> set xs. d < ?s ! i} = set (take i ?s)"
      by (simp only: set_eq_iff mem_Collect_eq Un_iff insert_iff empty_iff) (blast dest: order.asym)
    then show ?thesis using s that by (simp add: distinct_card)
  qed
  show ?thesis
  proof
    assume "?s ! j = e" then show "e \<in> set xs \<and> card {d \<in> set xs. d < e} = j"
      using below [of j] s assms(2) by (metis nth_mem)
  next
    assume r: "e \<in> set xs \<and> card {d \<in> set xs. d < e} = j"
    then obtain i where "i < length ?s" "?s ! i = e" using s by (metis in_set_conv_nth)
    with below r show "?s ! j = e" by auto
  qed
qed

lemma hash_spread_mod:
  assumes "m dvd 2 ^ 64"
  shows "unat (hash_spread h) mod m = sum_list (map of_char h) mod m"
proof -
  have "foldl (\<lambda>acc b. acc + word_of_nat (of_char b)) w h = w + word_of_nat (sum_list (map of_char h))" for w :: "64 word"
    by (induction h arbitrary: w) (simp_all add: add.assoc)
  then have "unat (hash_spread h) = sum_list (map of_char h) mod 2 ^ 64"
    by (simp add: hash_spread_def unat_of_nat)
  then show ?thesis using assms by (simp add: mod_mod_cancel)
qed

lemma select_ranked:
  assumes "secs \<noteq> []"
  shows "select_secondary secs p cell x =
     Some (Some (map snd (take 2 (sort (map (\<lambda>q. (combined_rank secs p cell x q, q)) secs)))
                  ! (sum_list (map of_char (wp_hash p)) mod min 2 (length secs))))"
proof -
  have "the (dense_rank secs (\<lambda>q. - int (affine_score cell p q)) q) + the (dense_rank secs (\<lambda>q. queue_len q x) q)
      = combined_rank secs p cell x q" if "q \<in> set secs" for q
    using that by (simp add: dense_rank_exact combined_rank_def)
  then have ranked: "map (\<lambda>q. (the (dense_rank secs (\<lambda>q. - int (affine_score cell p q)) q) + the (dense_rank secs (\<lambda>q. queue_len q x) q), q)) secs
      = map (\<lambda>q. (combined_rank secs p cell x q, q)) secs" by simp
  have "min 2 (length secs) = 1 \<or> min 2 (length secs) = 2" using assms by (cases secs; cases "tl secs") auto
  then have "min 2 (length secs) dvd 2 ^ 64" by auto
  note spread = hash_spread_mod [OF this, of "wp_hash p"]
  have no_panic: "list_all (\<lambda>q. dense_rank secs (\<lambda>q. - int (affine_score cell p q)) q \<noteq> None
      \<and> dense_rank secs (\<lambda>q. queue_len q x) q \<noteq> None) secs"
    by (simp add: list_all_iff dense_rank_exact)
  have top: "length (map snd (take 2 (sort (map (\<lambda>q. (combined_rank secs p cell x q, q)) secs)))) = min 2 (length secs)"
    by (simp add: min.commute)
  show ?thesis
    unfolding select_secondary_def Let_def if_not_P [OF assms] if_P [OF no_panic] ranked top spread ..
qed

text \<open>
  C25: The selection never panics and is exact. It picks the secondary that comes first or second in the
  order of the combined rank, with names to break ties, where the rank of a secondary counts the
  secondaries that hold strictly more of the task's imports and those with a strictly shorter queue;
  which of the two it is depends on the parity of the sum of the bytes of the task's hash, whatever
  overflows on the way, and a single secondary is always picked.
\<close>

theorem selection_exact:
  assumes "distinct secs" "secs \<noteq> []"
  shows "select_secondary secs p cell x = Some (Some q) \<longleftrightarrow>
     q \<in> set secs \<and>
     card {t \<in> set secs. (combined_rank secs p cell x t, t) < (combined_rank secs p cell x q, q)}
       = sum_list (map of_char (wp_hash p)) mod min 2 (length secs)"
proof -
  let ?c = "combined_rank secs p cell x" and ?j = "sum_list (map of_char (wp_hash p)) mod min 2 (length secs)"
  let ?xs = "map (\<lambda>q. (?c q, q)) secs"
  have "?j < min 2 (length secs)" using assms(2) by (intro mod_less_divisor) simp
  then have j: "?j < length secs" "?j < 2" by simp_all
  have "distinct ?xs" using assms(1) by (simp add: distinct_map inj_on_def)
  have "select_secondary secs p cell x = Some (Some q) \<longleftrightarrow> snd (sort ?xs ! ?j) = q"
    using j by (simp add: select_ranked [OF assms(2)])
  also have "\<dots> \<longleftrightarrow> sort ?xs ! ?j = (?c q, q)"
    using nth_mem [of ?j "sort ?xs"] j(1) by auto
  also have "\<dots> \<longleftrightarrow> (?c q, q) \<in> set ?xs \<and> card {d \<in> set ?xs. d < (?c q, q)} = ?j"
    by (rule sorted_nth_iff) (use \<open>distinct ?xs\<close> j in simp_all)
  also have "{d \<in> set ?xs. d < (?c q, q)} = (\<lambda>t. (?c t, t)) ` {t \<in> set secs. (?c t, t) < (?c q, q)}" by auto
  also have "card \<dots> = card {t \<in> set secs. (?c t, t) < (?c q, q)}" by (rule card_image) (simp add: inj_on_def)
  finally show ?thesis by auto
qed

section \<open>Failures since the last success\<close>

fun import_history :: "(string \<times> nat \<times> bool) list \<Rightarrow> affine_scheduler \<Rightarrow> affine_scheduler" where
  "import_history [] x = x"
| "import_history ((q, aid, ok) # evs) x =
     import_history evs (if ok then record_import_succeeded q aid x else record_import_failed q aid x)"

lemma import_history_append: "import_history (xs @ ys) x = import_history ys (import_history xs x)"
  by (induction xs x rule: import_history.induct) auto

text \<open>The latest report of a secondary on an import is a failure.\<close>

definition failed_last :: "(string \<times> nat \<times> bool) list \<Rightarrow> nat \<Rightarrow> string \<Rightarrow> bool" where
  "failed_last evs aid q \<longleftrightarrow>
     (let reports = filter (\<lambda>(r, b, ok). r = q \<and> b = aid) evs in reports \<noteq> [] \<and> \<not> snd (snd (last reports)))"

lemma failed_last_snoc:
  "failed_last (evs @ [(r, b, ok)]) aid q \<longleftrightarrow> (if r = q \<and> b = aid then \<not> ok else failed_last evs aid q)"
  by (simp add: failed_last_def Let_def)

lemma watermark:
  "q \<in> (case failed_since_success (import_history evs affine_default) aid of None \<Rightarrow> {} | Some S \<Rightarrow> S) \<longleftrightarrow>
     failed_last evs aid q"
proof (induction evs arbitrary: aid q rule: rev_induct)
  case Nil
  show ?case by (simp add: affine_default_def failed_last_def)
next
  case (snoc e evs)
  obtain r b ok where e: "e = (r, b, ok)" by (cases e) auto
  show ?case using snoc.IH [of q aid]
    by (auto simp: e import_history_append failed_last_snoc record_import_failed_def record_import_succeeded_def
        split: option.splits if_splits)
qed

text \<open>
  An import counts as failed everywhere exactly when there is a roster and the latest report of every
  rostered secondary on it is a failure, however the reports interleave.
\<close>

theorem import_failed_exact:
  "import_failed_on_every aid secs (import_history evs affine_default) \<longleftrightarrow>
     secs \<noteq> [] \<and> list_all (failed_last evs aid) secs"
proof -
  let ?S = "failed_since_success (import_history evs affine_default) aid"
  have "import_failed_on_every aid secs (import_history evs affine_default) \<longleftrightarrow>
      secs \<noteq> [] \<and> list_all (\<lambda>q. q \<in> (case ?S of None \<Rightarrow> {} | Some S \<Rightarrow> S)) secs"
    by (cases secs) (auto simp: import_failed_on_every_def split: option.split)
  then show ?thesis unfolding watermark .
qed

section \<open>What is stolen\<close>

lemma max_donor_exact:
  assumes "as \<noteq> []"
  shows "\<exists>m. max_donor as = Some m \<and> m \<in> set as \<and> (\<forall>b \<in> set as. donor_less_eq b m)"
proof -
  have refl: "donor_less_eq a a" for a by (simp add: donor_less_eq_def)
  have trans: "donor_less_eq a b \<Longrightarrow> donor_less_eq b c \<Longrightarrow> donor_less_eq a c" for a b c
    by (auto simp: donor_less_eq_def)
  have total: "donor_less_eq a b \<or> donor_less_eq b a" for a b by (auto simp: donor_less_eq_def)
  have "foldl (\<lambda>m b. if donor_less_eq m b then b else m) a bs \<in> set (a # bs)
      \<and> (\<forall>b \<in> set (a # bs). donor_less_eq b (foldl (\<lambda>m b. if donor_less_eq m b then b else m) a bs))" for a bs
  proof (induction bs arbitrary: a)
    case (Cons c bs)
    let ?f = "\<lambda>m b. if donor_less_eq m b then b else m"
    define m where "m = ?f a c"
    define r where "r = foldl ?f m bs"
    have m: "m \<in> {a, c}" "donor_less_eq a m" "donor_less_eq c m" using total [of a c] refl by (auto simp: m_def)
    have ih: "r \<in> set (m # bs)" "\<forall>b \<in> set (m # bs). donor_less_eq b r"
      using Cons.IH [of m] unfolding r_def by blast+
    then have top: "donor_less_eq m r" by simp
    have "r \<in> set (a # c # bs) \<and> (\<forall>b \<in> set (a # c # bs). donor_less_eq b r)"
      using ih m(1) trans [OF m(2) top] trans [OF m(3) top] by auto
    then show ?case by (simp add: r_def m_def)
  qed (simp add: refl)
  then show ?thesis using assms by (cases as) auto
qed

lemma find_is_work:
  "List.find is_work us = Some (Work h) \<longleftrightarrow>
     (\<exists>rest. us = takeWhile (\<lambda>u. \<not> is_work u) us @ Work h # rest)"
  by (induction us) (auto split: if_splits elim: is_work.elims)

lemma eligible_iff:
  "steal_eligible thief can_steal (t, us) \<longleftrightarrow>
     t \<noteq> thief \<and> (\<exists>h rest. us = takeWhile (\<lambda>u. \<not> is_work u) us @ Work h # rest \<and> can_steal t h)"
proof -
  have "is_work u" if "List.find is_work us = Some u" for u using that by (auto simp: find_Some_iff)
  then have "steal_eligible thief can_steal (t, us) \<longleftrightarrow>
      t \<noteq> thief \<and> (\<exists>h. List.find is_work us = Some (Work h) \<and> can_steal t h)"
    by (auto simp: steal_eligible_def split: option.splits queued_unit.splits)
  then show ?thesis unfolding find_is_work by blast
qed

lemma work_claims_nothing:
  "unqueue_claims donor cell (us @ [Work h]) = unqueue_claims donor cell us"
  "queue_claims thief cell (us @ [Work h]) = queue_claims thief cell us"
  by (simp_all add: unqueue_claims_def queue_claims_def List.map_filter_def)

text \<open>
  C24: What an idle secondary steals. If some other secondary has a task queued, and the first one it has
  may be taken, then of those secondaries the one with the longest queue, with the smallest name
  among equals, gives away exactly what is queued up to its first task; this goes to the end of the
  thief's queue, no other queue changes, and nothing is lost or doubled. The donor's claims on the
  moved imports are returned and those that the thief lacks are claimed. Otherwise nothing happens.
\<close>

theorem steal_exact:
  assumes "distinct (keys (unit_queues x))"
    and "steal_for thief cell can_steal x = (muts, x')"
  shows "(\<forall>t us. map_of (unit_queues x) t = Some us \<longrightarrow> \<not> steal_eligible thief can_steal (t, us)) \<and> muts = [] \<and> x' = x
     \<or> (\<exists>donor before h rest.
          donor \<noteq> thief \<and> map_of (unit_queues x) donor = Some (before @ Work h # rest)
          \<and> (\<forall>u \<in> set before. \<not> is_work u) \<and> can_steal donor h
          \<and> (\<forall>t us. map_of (unit_queues x) t = Some us \<longrightarrow> steal_eligible thief can_steal (t, us) \<longrightarrow>
               length us < length (unit_queue x donor) \<or> length us = length (unit_queue x donor) \<and> donor \<le> t)
          \<and> map_of (unit_queues x') = (map_of (unit_queues x))(donor \<mapsto> rest, thief \<mapsto> unit_queue x thief @ before @ [Work h])
          \<and> placed_work x' = placed_work x \<and> blocked_per_secondary x' = blocked_per_secondary x
          \<and> muts = unqueue_claims donor cell before @ queue_claims thief cell before)"
proof (cases "filter (steal_eligible thief can_steal) (unit_queues x) = []")
  case True
  then have "\<forall>t us. map_of (unit_queues x) t = Some us \<longrightarrow> \<not> steal_eligible thief can_steal (t, us)"
    by (auto simp: filter_empty_conv dest: map_of_SomeD)
  then show ?thesis using True assms(2) by (simp add: steal_for_def)
next
  case False
  from max_donor_exact [OF this] obtain donor us where m: "max_donor (filter (steal_eligible thief can_steal) (unit_queues x)) = Some (donor, us)"
    and mem: "(donor, us) \<in> set (unit_queues x)" "steal_eligible thief can_steal (donor, us)"
    and best: "\<forall>b \<in> set (unit_queues x). steal_eligible thief can_steal b \<longrightarrow> donor_less_eq b (donor, us)" by force
  let ?before = "takeWhile (\<lambda>u. \<not> is_work u) us"
  from mem(2) obtain h rest where us: "us = ?before @ Work h # rest" and can: "donor \<noteq> thief" "can_steal donor h"
    unfolding eligible_iff by blast
  have q: "map_of (unit_queues x) donor = Some us" using mem(1) assms(1) by simp
  have len: "length ?before < length us" using arg_cong [OF us, of length] by simp
  have cut: "take (length ?before + 1) us = ?before @ [Work h]" "drop (length ?before + 1) us = rest"
    by (subst us, simp)+
  have out: "muts = unqueue_claims donor cell ?before @ queue_claims thief cell ?before"
    "x' = x\<lparr>unit_queues := AList.update thief (unit_queue x thief @ ?before @ [Work h]) (AList.update donor rest (unit_queues x))\<rparr>"
    using assms(2) m len cut can(1) by (auto simp: steal_for_def Let_def lookup_list_def work_claims_nothing)
  have "\<forall>t us'. map_of (unit_queues x) t = Some us' \<longrightarrow> steal_eligible thief can_steal (t, us') \<longrightarrow>
      length us' < length (unit_queue x donor) \<or> length us' = length (unit_queue x donor) \<and> donor \<le> t"
    using best q by (auto simp: donor_less_eq_def lookup_list_def dest: map_of_SomeD)
  moreover have "\<forall>u \<in> set ?before. \<not> is_work u" by (auto dest: set_takeWhileD)
  ultimately show ?thesis using q us can out
    by (intro disjI2 exI [of _ donor] exI [of _ ?before] exI [of _ h] exI [of _ rest]) auto
qed

section \<open>Examples\<close>

definition uneven :: affine_scheduler where
  "uneven = affine_default\<lparr>unit_queues := [(''a'', [Affine 0 ''i'', Work ''v'', Work ''w'']), (''b'', [Work ''u'']), (''c'', [])]\<rparr>"

theorem selection_exact_witness:
  "select_secondary [''a'', ''b'', ''c''] \<lparr> wp_hash = ''A'', wp_affine_deps = [] \<rparr> (\<lambda>q a. NotDone) uneven = Some (Some ''b'')"
proof -
  let ?s = "[''a'', ''b'', ''c'']" and ?p = "\<lparr> wp_hash = ''A'', wp_affine_deps = [] \<rparr>"
  have "card {t \<in> set ?s. (combined_rank ?s ?p (\<lambda>q a. NotDone) uneven t, t) < (combined_rank ?s ?p (\<lambda>q a. NotDone) uneven ''b'', ''b'')}
      = sum_list (map of_char ''A'') mod min 2 (length ?s)" by code_simp
  then show ?thesis using selection_exact [of ?s ?p "\<lambda>q a. NotDone" uneven "''b''"] by simp
qed

theorem steal_exact_witness:
  "\<exists>x' muts. steal_for ''c'' (\<lambda>q a. if q = ''a'' then Queued else NotDone) (\<lambda>t h. True) uneven
       = (muts :: (unit, unit, unit) cluster_mutation list, x')
     \<and> unit_queue x' ''c'' = [Affine 0 ''i'', Work ''v''] \<and> muts \<noteq> []"
proof -
  let ?cell = "\<lambda>q a. if q = ''a'' then Queued else NotDone"
  obtain muts :: "(unit, unit, unit) cluster_mutation list" and x' where
    s: "steal_for ''c'' ?cell (\<lambda>t h. True) uneven = (muts, x')" by fastforce
  have d: "distinct (keys (unit_queues uneven))" by code_simp
  have e: "map_of (unit_queues uneven) ''a'' = Some [Affine 0 ''i'', Work ''v'', Work ''w'']"
    "steal_eligible ''c'' (\<lambda>t h. True) (''a'', [Affine 0 ''i'', Work ''v'', Work ''w''])" by code_simp+
  from steal_exact [OF d s] e obtain donor before h rest where
    r: "map_of (unit_queues uneven) donor = Some (before @ Work h # rest)" "\<forall>u \<in> set before. \<not> is_work u"
    and long: "length (unit_queue uneven ''a'') < length (unit_queue uneven donor) \<or> length (unit_queue uneven ''a'') = length (unit_queue uneven donor)"
    and out: "map_of (unit_queues x') = (map_of (unit_queues uneven))(donor \<mapsto> rest, ''c'' \<mapsto> unit_queue uneven ''c'' @ before @ [Work h])"
      "muts = unqueue_claims donor ?cell before @ queue_claims ''c'' ?cell before"
    by (fastforce simp: lookup_list_def)
  have "donor = ''a''" using long r(1) by (auto simp: uneven_def affine_default_def lookup_list_def Cons_eq_append_conv split: if_splits)
  then have "before = [Affine 0 ''i'']" "h = ''v''"
    using r by (auto simp: uneven_def affine_default_def Cons_eq_append_conv)
  then show ?thesis using s out \<open>donor = ''a''\<close>
    by (intro exI [of _ x'] exI [of _ muts])
      (auto simp: uneven_def affine_default_def lookup_list_def unqueue_claims_def queue_claims_def List.map_filter_def)
qed

end
