(* ===== verification/Affine_Dispatch.thy ===== *)
theory Affine_Dispatch
  imports Affine_Scheduler
begin

text \<open>
  What the primary does with the queues of theory \<open>Affine_Scheduler\<close> (\<open>primary/affine_dispatch.rs\<close> and the
  seam at the end of \<open>primary/affine_scheduler.rs\<close>): which tasks are placed, the gate a task passes
  when it is popped, the return of tasks that waited for an import, and the rebuild of the queues
  when a node becomes primary.

  The record \<open>affine_env\<close> has what the code reads elsewhere: the ledger's cells, the imports that
  failed for good, the workers with the tasks they hold, the pool's ready imports, the terminal
  tasks, and the placement of a task by its hash, which is absent when the ledger does not know it.
\<close>

section \<open>The coordinator's seam\<close>

definition affine_id_for_hash :: "('i, 'j, 'p) ledger \<Rightarrow> string \<Rightarrow> nat option" where
  "affine_id_for_hash l h = cell_hash_to_id (definitions l) h"

definition affine_placement_from_parts :: "('i, 'j, 'p) ledger \<Rightarrow> string \<Rightarrow> task_dep list \<Rightarrow> work_placement" where
  "affine_placement_from_parts l h deps =
     \<lparr> wp_hash = h,
       wp_affine_deps = List.map_filter (\<lambda>d.
         case task_hash_for_dep l (dep_phase_id d) (dep_task_id d) of
           None \<Rightarrow> None
         | Some prereq \<Rightarrow> map_option (\<lambda>aid. (aid, prereq)) (affine_id_for_hash l prereq)) deps \<rparr>"

definition affine_terminal_mutation ::
  "('i, 'j, 'p) ledger \<Rightarrow> string \<Rightarrow> string \<Rightarrow> bool \<Rightarrow> ('i, 'j, 'p) cluster_mutation option" where
  "affine_terminal_mutation l q h succeeded =
     map_option (\<lambda>aid. if succeeded then SecondaryCellFinished q aid 0 else SecondaryCellFailed q aid 0)
       (affine_id_for_hash l h)"

definition affine_unqueue_mutation ::
  "('i, 'j, 'p) ledger \<Rightarrow> string \<Rightarrow> string \<Rightarrow> ('i, 'j, 'p) cluster_mutation option" where
  "affine_unqueue_mutation l q h = map_option (\<lambda>aid. SecondaryCellUnqueued q aid 0) (affine_id_for_hash l h)"

section \<open>What is decided\<close>

record affine_env =
  cell_of :: "string \<Rightarrow> nat \<Rightarrow> secondary_cell"
  failed_imports :: "string set"
  worker_slots :: "(string \<times> string option) list"
  ready_imports :: "string set"
  terminal_task :: "string \<Rightarrow> bool"
  placement_of :: "string \<Rightarrow> work_placement option"
  import_hash :: "nat \<Rightarrow> string option"

definition affine_placement_secondaries :: "affine_env \<Rightarrow> string list" where
  "affine_placement_secondaries e = remdups_adj (sort (map fst (worker_slots e)))"

definition has_slot_holding :: "affine_env \<Rightarrow> string \<Rightarrow> string \<Rightarrow> bool" where
  "has_slot_holding e q h \<longleftrightarrow> list_ex (\<lambda>(sec, held). sec = q \<and> held = Some h) (worker_slots e)"

definition import_globally_failed_across_time :: "affine_env \<Rightarrow> nat \<Rightarrow> affine_scheduler \<Rightarrow> bool" where
  "import_globally_failed_across_time e aid x =
     (let secs = affine_placement_secondaries e
      in secs \<noteq> [] \<and> (list_all (\<lambda>q. cell_of e q aid = CellFailed) secs \<or> import_failed_on_every aid secs x))"

definition affine_unit_satisfiable_secondaries :: "affine_env \<Rightarrow> work_placement \<Rightarrow> affine_scheduler \<Rightarrow> string list" where
  "affine_unit_satisfiable_secondaries e p x =
     (if list_ex (\<lambda>(aid, h). h \<in> failed_imports e \<or> import_globally_failed_across_time e aid x) (wp_affine_deps p)
      then []
      else filter (\<lambda>q. list_all (\<lambda>(aid, h). cell_of e q aid \<noteq> CellFailed) (wp_affine_deps p))
             (affine_placement_secondaries e))"

datatype affine_placeability = Placeable | Doomed | NotReady

definition affine_work_placeability :: "affine_env \<Rightarrow> work_placement \<Rightarrow> affine_scheduler \<Rightarrow> affine_placeability" where
  "affine_work_placeability e p x =
     (if affine_unit_satisfiable_secondaries e p x = [] then Doomed
      else if list_all (\<lambda>(aid, h). h \<in> ready_imports e \<or> terminal_task e h) (wp_affine_deps p) then Placeable
      else NotReady)"

datatype affine_gate_outcome = GateReady | InFlightHere | StrandedHere | Reroute string | Unsatisfiable

text \<open>The walk over the imports in list order; None is the \<open>unreachable!\<close> on a failed cell.\<close>

fun gate_walk :: "(nat \<Rightarrow> secondary_cell) \<Rightarrow> (nat \<times> string) list \<Rightarrow> affine_gate_outcome option" where
  "gate_walk cell [] = Some GateReady"
| "gate_walk cell ((aid, h) # deps) =
     (case cell aid of
        CellDone \<Rightarrow> gate_walk cell deps
      | Queued \<Rightarrow> Some InFlightHere
      | NotDone \<Rightarrow> Some StrandedHere
      | CellFailed \<Rightarrow> None)"

definition affine_readiness_gate ::
  "affine_env \<Rightarrow> string \<Rightarrow> work_placement \<Rightarrow> affine_scheduler \<Rightarrow> affine_gate_outcome option" where
  "affine_readiness_gate e q p x =
     (if list_ex (\<lambda>(aid, h). h \<in> failed_imports e) (wp_affine_deps p) then Some Unsatisfiable
      else if list_ex (\<lambda>(aid, h). cell_of e q aid = CellFailed) (wp_affine_deps p) then
        (case select_secondary (affine_unit_satisfiable_secondaries e p x) p (cell_of e) x of
           None \<Rightarrow> None
         | Some (Some target) \<Rightarrow> Some (Reroute target)
         | Some None \<Rightarrow> Some Unsatisfiable)
      else gate_walk (cell_of e q) (wp_affine_deps p))"

definition not_done_cells_on :: "affine_env \<Rightarrow> string \<Rightarrow> work_placement \<Rightarrow> nat list" where
  "not_done_cells_on e q p = map fst (filter (\<lambda>(aid, h). cell_of e q aid \<noteq> CellDone) (wp_affine_deps p))"

section \<open>Placing\<close>

text \<open>
  The ledger's tasks, in one iteration order, as placements with their phases; the tasks that are
  imports themselves are left out of the list.
\<close>

type_synonym ledger_work = "(work_placement \<times> phase_id) list"

definition candidates :: "affine_env \<Rightarrow> ledger_work \<Rightarrow> affine_scheduler \<Rightarrow> affine_placeability \<Rightarrow> ledger_work" where
  "candidates e work x v =
     filter (\<lambda>(p, ph). wp_affine_deps p \<noteq> [] \<and> affine_work_placeability e p x = v) work"

fun place_loop :: "affine_env \<Rightarrow> string list \<Rightarrow> work_placement list \<Rightarrow> affine_scheduler \<Rightarrow> affine_scheduler option" where
  "place_loop e secs [] x = Some x"
| "place_loop e secs (p # ps) x =
     (let (fresh, x1) = record_placed_work (wp_hash p) x
      in if \<not> fresh then place_loop e secs ps x1
         else case select_secondary secs p (cell_of e) x1 of
           None \<Rightarrow> None
         | Some None \<Rightarrow> place_loop e secs ps (unrecord_placed_work (wp_hash p) x1)
         | Some (Some q) \<Rightarrow> place_loop e secs ps (place q p x1))"

definition place_dependency_satisfied_affine_tasks ::
  "affine_env \<Rightarrow> ledger_work \<Rightarrow> affine_scheduler \<Rightarrow> ((string \<times> phase_id) list \<times> affine_scheduler) option" where
  "place_dependency_satisfied_affine_tasks e work x =
     (if affine_placement_secondaries e = [] then Some ([], x)
      else map_option (\<lambda>x'. (map (\<lambda>(p, ph). (wp_hash p, ph)) (candidates e work x Doomed), x'))
             (place_loop e (affine_placement_secondaries e) (map fst (candidates e work x Placeable)) x))"

section \<open>Work that stops waiting\<close>

text \<open>Both handlers skip a task that the ledger does not know.\<close>

definition reenqueue_affine_unblocked_on_cell :: "affine_env \<Rightarrow> string \<Rightarrow> nat \<Rightarrow> affine_scheduler \<Rightarrow> affine_scheduler" where
  "reenqueue_affine_unblocked_on_cell e q aid x =
     (let (freed, x1) = on_cell_finished q aid x
      in fold (\<lambda>h x. case placement_of e h of None \<Rightarrow> x | Some p \<Rightarrow> place q p x) freed x1)"

definition reroute_affine_blocked_on ::
  "affine_env \<Rightarrow> string \<Rightarrow> nat option \<Rightarrow> affine_scheduler \<Rightarrow> string list \<times> affine_scheduler" where
  "reroute_affine_blocked_on e q aid x =
     (let (drained, x1) = drain_blocked_on q aid x
      in fold (\<lambda>h (doomed, x). case placement_of e h of
               None \<Rightarrow> (doomed, x)
             | Some p \<Rightarrow> if affine_unit_satisfiable_secondaries e p x = [] then (doomed @ [h], x)
                         else (doomed, unrecord_placed_work h x)) drained ([], x1))"

text \<open>The part of \<open>reconcile_orphaned_blocked_work\<close> that concerns the queues.\<close>

definition reconcile_affine_blocked :: "affine_env \<Rightarrow> affine_scheduler \<Rightarrow> affine_scheduler" where
  "reconcile_affine_blocked e x =
     (let (orphans, x1) = reconcile_per_secondary_blocked (\<lambda>q. q \<in> set (affine_placement_secondaries e)) (cell_of e)
            (\<lambda>q aid. case import_hash e aid of None \<Rightarrow> False | Some h \<Rightarrow> has_slot_holding e q h) x
      in fold unrecord_placed_work orphans x1)"

text \<open>
  \<open>try_affine_pull_waiting_for_worker\<close> up to the dispatch of the import: the placement that was pulled.
  The outer option is a panic of the gate.
\<close>

fun pull_waiting ::
  "affine_env \<Rightarrow> string \<Rightarrow> (string \<times> string) list \<Rightarrow> affine_scheduler \<Rightarrow> (work_placement option \<times> affine_scheduler) option" where
  "pull_waiting e q [] x = Some (None, x)"
| "pull_waiting e q ((busy, h) # ks) x =
     (case placement_of e h of
        None \<Rightarrow> pull_waiting e q ks x
      | Some p \<Rightarrow>
          if list_ex (\<lambda>(aid, ih). has_slot_holding e busy ih) (wp_affine_deps p) then pull_waiting e q ks x
          else case affine_readiness_gate e q p x of
            None \<Rightarrow> None
          | Some g \<Rightarrow>
              if g \<noteq> StrandedHere then pull_waiting e q ks x
              else Some (Some p, snd (rekey_block busy q h (not_done_cells_on e q p) x)))"

definition try_affine_pull_waiting ::
  "affine_env \<Rightarrow> string \<Rightarrow> affine_scheduler \<Rightarrow> (work_placement option \<times> affine_scheduler) option" where
  "try_affine_pull_waiting e q x = pull_waiting e q (blocked_work_keyed_elsewhere q x) x"

section \<open>A promoted primary\<close>

definition affine_rebuild_placements :: "affine_env \<Rightarrow> ledger_work \<Rightarrow> affine_scheduler \<Rightarrow> work_placement list" where
  "affine_rebuild_placements e work x = sort_key wp_hash (map fst (candidates e work x Placeable))"

definition rebuild_affine_schedule :: "affine_env \<Rightarrow> ledger_work \<Rightarrow> affine_scheduler \<Rightarrow> affine_scheduler option" where
  "rebuild_affine_schedule e work x =
     (let x1 = affine_clear x; secs = affine_placement_secondaries e
      in if secs = [] then Some x1
         else
           let ps = affine_rebuild_placements e work x1;
               x2 = fold (\<lambda>p x. snd (record_placed_work (wp_hash p) x)) ps x1
           in rebuild secs ps (cell_of e) x2)"

section \<open>The gate\<close>

lemma select_some:
  assumes "secs \<noteq> []"
  obtains q where "select_secondary secs p cell x = Some (Some q)" "q \<in> set secs"
proof -
  let ?xs = "sort (map (\<lambda>q. (combined_rank secs p cell x q, q)) secs)"
  let ?j = "sum_list (map of_char (wp_hash p)) mod min 2 (length secs)"
  have "?j < min 2 (length secs)" using assms by (intro mod_less_divisor) simp
  then have j: "?j < length (map snd (take 2 ?xs))" by simp
  then have "map snd (take 2 ?xs) ! ?j \<in> set (map snd (take 2 ?xs))" by (rule nth_mem)
  also have "\<dots> \<subseteq> snd ` set ?xs" unfolding set_map by (rule image_mono [OF set_take_subset])
  also have "\<dots> = set secs" by force
  finally show thesis using that select_ranked [OF assms] by blast
qed

lemma select_none: "select_secondary [] p cell x = Some None"
  by (simp add: select_secondary_def)

lemma gate_walk_exact:
  assumes "\<forall>(aid, h) \<in> set deps. cell aid \<noteq> CellFailed"
  shows "gate_walk cell deps =
     (case List.find (\<lambda>(aid, h). cell aid \<noteq> CellDone) deps of
        None \<Rightarrow> Some GateReady
      | Some (aid, h) \<Rightarrow> Some (if cell aid = Queued then InFlightHere else StrandedHere))"
  using assms by (induction cell deps rule: gate_walk.induct) (auto split: secondary_cell.splits)

text \<open>
  C26: The gate before a queued task runs is exact, and it never panics. A task runs exactly when all
  its imports are done on the secondary. It is given up exactly when one of its imports failed for
  good, or failed here while no secondary is left that could have it; it is sent elsewhere exactly
  when an import failed here and some secondary is left, and then to one on the roster where none of
  its imports failed. Otherwise its first import that is not done decides whether it waits.
\<close>

theorem gate_exact:
  "\<exists>g. affine_readiness_gate e q p x = Some g \<and>
     (let deps = set (wp_affine_deps p); left = affine_unit_satisfiable_secondaries e p x;
          dead = (\<exists>(aid, h) \<in> deps. h \<in> failed_imports e);
          here = (\<exists>(aid, h) \<in> deps. cell_of e q aid = CellFailed)
      in (g = GateReady \<longleftrightarrow> \<not> dead \<and> (\<forall>(aid, h) \<in> deps. cell_of e q aid = CellDone))
         \<and> (g = Unsatisfiable \<longleftrightarrow> dead \<or> here \<and> left = [])
         \<and> ((\<exists>t. g = Reroute t) \<longleftrightarrow> \<not> dead \<and> here \<and> left \<noteq> [])
         \<and> (\<forall>t. g = Reroute t \<longrightarrow> t \<in> set (affine_placement_secondaries e)
              \<and> (\<forall>(aid, h) \<in> deps. cell_of e t aid \<noteq> CellFailed))
         \<and> (g = InFlightHere \<longleftrightarrow> \<not> dead \<and> \<not> here \<and>
              (\<exists>aid h. List.find (\<lambda>(aid, h). cell_of e q aid \<noteq> CellDone) (wp_affine_deps p) = Some (aid, h)
                 \<and> cell_of e q aid = Queued)))"
proof -
  let ?deps = "set (wp_affine_deps p)" and ?left = "affine_unit_satisfiable_secondaries e p x"
  consider (dead) "\<exists>(aid, h) \<in> ?deps. h \<in> failed_imports e"
    | (lost) "\<not> (\<exists>(aid, h) \<in> ?deps. h \<in> failed_imports e)" "\<exists>(aid, h) \<in> ?deps. cell_of e q aid = CellFailed" "?left = []"
    | (moved) "\<not> (\<exists>(aid, h) \<in> ?deps. h \<in> failed_imports e)" "\<exists>(aid, h) \<in> ?deps. cell_of e q aid = CellFailed" "?left \<noteq> []"
    | (clear) "\<not> (\<exists>(aid, h) \<in> ?deps. h \<in> failed_imports e)" "\<not> (\<exists>(aid, h) \<in> ?deps. cell_of e q aid = CellFailed)" by blast
  then show ?thesis
  proof cases
    case dead
    then have "affine_readiness_gate e q p x = Some Unsatisfiable" by (auto simp: affine_readiness_gate_def list_ex_iff)
    then show ?thesis using dead by auto
  next
    case lost
    then have "affine_readiness_gate e q p x = Some Unsatisfiable"
      by (auto simp: affine_readiness_gate_def list_ex_iff select_none)
    moreover have "\<not> (\<forall>(aid, h) \<in> ?deps. cell_of e q aid = CellDone)" using lost(2) by fastforce
    ultimately show ?thesis using lost unfolding Let_def by (intro exI [of _ Unsatisfiable]) blast
  next
    case moved
    from moved(3) obtain t where t: "select_secondary ?left p (cell_of e) x = Some (Some t)" "t \<in> set ?left"
      by (rule select_some)
    then have "affine_readiness_gate e q p x = Some (Reroute t)"
      using moved by (auto simp: affine_readiness_gate_def list_ex_iff)
    moreover have "t \<in> set (affine_placement_secondaries e) \<and> (\<forall>(aid, h) \<in> ?deps. cell_of e t aid \<noteq> CellFailed)"
      using t(2) by (auto simp: affine_unit_satisfiable_secondaries_def list_all_iff split: if_splits)
    moreover have "\<not> (\<forall>(aid, h) \<in> ?deps. cell_of e q aid = CellDone)" using moved(2) by fastforce
    ultimately show ?thesis using moved unfolding Let_def by (intro exI [of _ "Reroute t"]) blast
  next
    case clear
    then have "affine_readiness_gate e q p x = gate_walk (cell_of e q) (wp_affine_deps p)"
      by (auto simp: affine_readiness_gate_def list_ex_iff)
    also have "\<dots> = (case List.find (\<lambda>(aid, h). cell_of e q aid \<noteq> CellDone) (wp_affine_deps p) of
        None \<Rightarrow> Some GateReady
      | Some (aid, h) \<Rightarrow> Some (if cell_of e q aid = Queued then InFlightHere else StrandedHere))"
      by (rule gate_walk_exact) (use clear in auto)
    finally have gate: "affine_readiness_gate e q p x = \<dots>" .
    show ?thesis
    proof (cases "List.find (\<lambda>(aid, h). cell_of e q aid \<noteq> CellDone) (wp_affine_deps p)")
      case None
      then have "\<forall>(aid, h) \<in> ?deps. cell_of e q aid = CellDone" by (auto simp: find_None_iff)
      with None gate clear show ?thesis unfolding Let_def by (intro exI [of _ GateReady]) simp
    next
      case (Some d)
      obtain aid h where d: "d = (aid, h)" by fastforce
      then have "(aid, h) \<in> ?deps" "cell_of e q aid \<noteq> CellDone" using Some by (auto simp: find_Some_iff in_set_conv_nth)
      then have "\<not> (\<forall>(aid, h) \<in> ?deps. cell_of e q aid = CellDone)" by blast
      with Some d gate clear show ?thesis unfolding Let_def
        by (intro exI [of _ "if cell_of e q aid = Queued then InFlightHere else StrandedHere"]) simp
    qed
  qed
qed

section \<open>Where a task is\<close>

text \<open>How often a task is queued, and for how many secondaries it waits.\<close>

definition queued_times :: "string \<Rightarrow> affine_scheduler \<Rightarrow> nat" where
  "queued_times h x = (\<Sum>(q, us) \<leftarrow> unit_queues x. count_list us (Work h))"

definition waiting_times :: "string \<Rightarrow> affine_scheduler \<Rightarrow> nat" where
  "waiting_times h x = length (filter (\<lambda>(k, pending). snd k = h) (blocked_per_secondary x))"

definition scheduler_ok :: "affine_scheduler \<Rightarrow> bool" where
  "scheduler_ok x \<longleftrightarrow> distinct (keys (unit_queues x)) \<and> distinct (keys (blocked_per_secondary x))"

definition guarded :: "affine_scheduler \<Rightarrow> bool" where
  "guarded x \<longleftrightarrow>
     scheduler_ok x \<and> (\<forall>h. queued_times h x + waiting_times h x \<le> (if h \<in> placed_work x then 1 else 0))"

lemma sum_alist_update:
  fixes f :: "'v \<Rightarrow> nat"
  assumes "distinct (keys al)"
  shows "(\<Sum>(k, v) \<leftarrow> AList.update q v' al. f v) + (case map_of al q of None \<Rightarrow> 0 | Some v \<Rightarrow> f v)
     = (\<Sum>(k, v) \<leftarrow> al. f v) + f v'"
  using assms
proof (induction al)
  case (Cons a al)
  obtain k v where a: "a = (k, v)" by fastforce
  have "map_of al k = None" using Cons.prems a by (simp add: map_of_eq_None_iff)
  then show ?case using Cons a by auto
qed simp

lemma queue_update_times:
  assumes "distinct (keys (unit_queues x))"
  shows "queued_times h (x\<lparr>unit_queues := AList.update q us (unit_queues x)\<rparr>) + count_list (unit_queue x q) (Work h)
     = queued_times h x + count_list us (Work h)"
  using sum_alist_update [OF assms, where q = q and v' = us and f = "\<lambda>us. count_list us (Work h)"]
  by (auto simp: queued_times_def lookup_list_def split: option.splits)

lemma place_times:
  assumes "scheduler_ok x"
  shows "scheduler_ok (place q p x)" "placed_work (place q p x) = placed_work x"
    "waiting_times h (place q p x) = waiting_times h x"
    "queued_times h (place q p x) = queued_times h x + (if wp_hash p = h then 1 else 0)"
  using assms queue_update_times [of x h q "unit_queue x q @ [Work (wp_hash p)]"]
  by (auto simp: place_def scheduler_ok_def waiting_times_def)

lemma pop_times:
  assumes "scheduler_ok x" "pop_next q x = (Some u, x')"
  shows "scheduler_ok x'" "placed_work x' = placed_work x" "waiting_times h x' = waiting_times h x"
    "queued_times h x' + (if u = Work h then 1 else 0) = queued_times h x"
proof -
  from assms(2) obtain us where q: "map_of (unit_queues x) q = Some (u # us)"
    and x': "x' = x\<lparr>unit_queues := AList.update q us (unit_queues x)\<rparr>"
    by (auto simp: pop_next_def split: option.splits list.splits)
  show "scheduler_ok x'" "placed_work x' = placed_work x" "waiting_times h x' = waiting_times h x"
    using assms(1) by (simp_all add: x' scheduler_ok_def waiting_times_def)
  show "queued_times h x' + (if u = Work h then 1 else 0) = queued_times h x"
    using assms(1) queue_update_times [of x h q us] q by (auto simp: x' scheduler_ok_def lookup_list_def)
qed

lemma requeue_times:
  assumes "scheduler_ok x"
  shows "scheduler_ok (requeue_front q u x)" "placed_work (requeue_front q u x) = placed_work x"
    "waiting_times h (requeue_front q u x) = waiting_times h x"
    "queued_times h (requeue_front q u x) = queued_times h x + (if u = Work h then 1 else 0)"
  using assms queue_update_times [of x h q "u # unit_queue x q"]
  by (auto simp: requeue_front_def scheduler_ok_def waiting_times_def)

lemma waiting_update:
  assumes "distinct (keys b)"
  shows "length (filter (\<lambda>(k, v). snd k = h) (AList.update key v' b))
     = length (filter (\<lambda>(k, v). snd k = h) b) + (if snd key = h \<and> key \<notin> fst ` set b then 1 else 0)"
  using assms by (induction b) auto

lemma waiting_delete:
  assumes "distinct (keys b)"
  shows "length (filter (\<lambda>(k, v). snd k = h) (AList.delete key b)) + (if snd key = h \<and> key \<in> fst ` set b then 1 else 0)
     = length (filter (\<lambda>(k, v). snd k = h) b)"
  using assms
proof (induction b)
  case (Cons a b)
  obtain k v where a: "a = (k, v)" by fastforce
  have "AList.delete k b = b" using Cons.prems a by (simp add: delete_notin_dom)
  then show ?case using Cons a by (cases "key = k") (simp_all split: if_splits)
qed simp

lemma block_times:
  assumes "scheduler_ok x"
  shows "scheduler_ok (block_until_import q w pending x)" "placed_work (block_until_import q w pending x) = placed_work x"
    "queued_times h (block_until_import q w pending x) = queued_times h x"
    "waiting_times h (block_until_import q w pending x) \<le> waiting_times h x + (if w = h then 1 else 0)"
  using assms by (auto simp: block_until_import_def scheduler_ok_def queued_times_def waiting_times_def waiting_update)

lemma drop_times:
  assumes "scheduler_ok x" "drop_blocked hit x = (dropped, x')"
  shows "scheduler_ok x'" "placed_work x' = placed_work x" "queued_times h x' = queued_times h x"
    "waiting_times h x' + count_list dropped h = waiting_times h x"
proof -
  have "length (filter (\<lambda>(k, v). snd k = h) (filter (\<lambda>(k, v). \<not> hit k v) b))
      + count_list (map (snd \<circ> fst) (filter (\<lambda>(k, v). hit k v) b)) h = length (filter (\<lambda>(k, v). snd k = h) b)" for b
    by (induction b) auto
  then show "waiting_times h x' + count_list dropped h = waiting_times h x"
    using assms(2) by (auto simp: drop_blocked_def waiting_times_def)
  show "scheduler_ok x'" "placed_work x' = placed_work x" "queued_times h x' = queued_times h x"
    using assms by (auto simp: drop_blocked_def scheduler_ok_def queued_times_def distinct_map_filter)
qed

section \<open>A task is queued or waiting at most once\<close>

lemma guardedD: "guarded x \<Longrightarrow> queued_times h x + waiting_times h x \<le> (if h \<in> placed_work x then 1 else 0)"
  unfolding guarded_def by blast

lemma guarded_ok: "guarded x \<Longrightarrow> scheduler_ok x"
  unfolding guarded_def by blast

lemma guarded_rule:
  assumes "guarded x" "scheduler_ok x'"
    and "\<And>h. queued_times h x' + waiting_times h x' \<le> queued_times h x + waiting_times h x"
    and "placed_work x \<subseteq> placed_work x'"
  shows "guarded x'"
proof -
  have "queued_times h x' + waiting_times h x' \<le> (if h \<in> placed_work x' then 1 else 0)" for h
    using order.trans [OF assms(3) guardedD [OF assms(1)], of h] assms(4) by (auto split: if_splits)
  then show ?thesis using assms(2) by (simp add: guarded_def)
qed

lemma unrecord_times [simp]:
  "queued_times h (unrecord_placed_work w x) = queued_times h x"
  "waiting_times h (unrecord_placed_work w x) = waiting_times h x"
  "scheduler_ok (unrecord_placed_work w x) = scheduler_ok x"
  by (simp_all add: unrecord_placed_work_def queued_times_def waiting_times_def scheduler_ok_def)

lemma unrecord_guarded:
  assumes "guarded x" "queued_times h x + waiting_times h x = 0"
  shows "guarded (unrecord_placed_work h x)"
proof -
  have "queued_times w x + waiting_times w x \<le> (if w \<in> placed_work (unrecord_placed_work h x) then 1 else 0)" for w
    using guardedD [OF assms(1), of w] assms(2) by (cases "w = h") (simp_all add: unrecord_placed_work_def)
  then show ?thesis using guarded_ok [OF assms(1)] unfolding guarded_def by simp
qed

text \<open>Placing a task whose entry in the guard is fresh.\<close>

lemma record_place_guarded:
  assumes "guarded x" "wp_hash p \<notin> placed_work x"
  shows "guarded (place q p (x\<lparr>placed_work := insert (wp_hash p) (placed_work x)\<rparr>))"
proof -
  let ?y = "x\<lparr>placed_work := insert (wp_hash p) (placed_work x)\<rparr>"
  have ok: "scheduler_ok ?y" using guarded_ok [OF assms(1)] by (simp add: scheduler_ok_def)
  have same: "queued_times h ?y = queued_times h x" "waiting_times h ?y = waiting_times h x" for h
    by (simp_all add: queued_times_def waiting_times_def)
  have "queued_times h (place q p ?y) + waiting_times h (place q p ?y) \<le> (if h \<in> placed_work (place q p ?y) then 1 else 0)" for h
    using guardedD [OF assms(1), of h] assms(2)
    by (cases "h = wp_hash p") (simp_all add: place_times [OF ok] same)
  then show ?thesis using place_times(1) [OF ok] unfolding guarded_def by blast
qed

lemma place_loop_guarded:
  "guarded x \<Longrightarrow> place_loop e secs ps x = Some x' \<Longrightarrow> guarded x'"
proof (induction ps arbitrary: x)
  case (Cons p ps)
  let ?y = "x\<lparr>placed_work := insert (wp_hash p) (placed_work x)\<rparr>"
  show ?case
  proof (cases "wp_hash p \<in> placed_work x")
    case True
    then have "?y = x" by (simp add: insert_absorb)
    then show ?thesis using Cons True by (simp add: record_placed_work_def)
  next
    case False
    have undone: "unrecord_placed_work (wp_hash p) ?y = x" using False by (simp add: unrecord_placed_work_def)
    show ?thesis using Cons.IH Cons.prems False record_place_guarded [OF Cons.prems(1) False] undone
      by (auto simp: record_placed_work_def split: option.splits)
  qed
qed simp

text \<open>The placements of freed tasks, and the release of drained ones.\<close>

lemma reenqueue_fold:
  assumes "scheduler_ok x" "\<And>h p. placement_of e h = Some p \<Longrightarrow> wp_hash p = h"
  shows "let y = fold (\<lambda>h x. case placement_of e h of None \<Rightarrow> x | Some p \<Rightarrow> place q p x) freed x
     in scheduler_ok y \<and> placed_work y = placed_work x \<and> waiting_times w y = waiting_times w x
        \<and> queued_times w y \<le> queued_times w x + count_list freed w"
  using assms(1)
proof (induction freed arbitrary: x)
  case (Cons h freed)
  show ?case
  proof (cases "placement_of e h")
    case None
    then show ?thesis using Cons.IH [OF Cons.prems] by (auto simp: Let_def)
  next
    case (Some p)
    note pl = place_times [OF Cons.prems, where q = q and p = p]
    show ?thesis using Cons.IH [OF pl(1)] Some assms(2) [OF Some] pl(2) pl(3,4) [of w] by (auto simp: Let_def)
  qed
qed simp

lemma unrecord_fold_guarded:
  assumes "guarded x" "\<And>h. h \<in> set hs \<Longrightarrow> queued_times h x + waiting_times h x = 0"
  shows "guarded (fold unrecord_placed_work hs x)"
  using assms
proof (induction hs arbitrary: x)
  case (Cons h hs)
  have "guarded (unrecord_placed_work h x)" using Cons.prems by (intro unrecord_guarded) auto
  moreover have "queued_times w (unrecord_placed_work h x) + waiting_times w (unrecord_placed_work h x) = 0" if "w \<in> set hs" for w
    using Cons.prems(2) [of w] that by simp
  ultimately show ?case using Cons.IH by simp
qed simp

lemma reroute_fold_guarded:
  assumes "guarded x" "\<And>h. h \<in> set hs \<Longrightarrow> queued_times h x + waiting_times h x = 0"
  shows "guarded (snd (fold (\<lambda>h (doomed, x). case placement_of e h of
               None \<Rightarrow> (doomed, x)
             | Some p \<Rightarrow> if affine_unit_satisfiable_secondaries e p x = [] then (doomed @ [h], x)
                         else (doomed, unrecord_placed_work h x)) hs (doomed, x)))"
  using assms
proof (induction hs arbitrary: x doomed)
  case (Cons h hs)
  have g: "guarded (unrecord_placed_work h x)" using Cons.prems by (intro unrecord_guarded) auto
  have "queued_times w (unrecord_placed_work h x) + waiting_times w (unrecord_placed_work h x) = 0" if "w \<in> set hs" for w
    using Cons.prems(2) [of w] that by simp
  note stays = Cons.IH [OF Cons.prems(1) Cons.prems(2)] and goes = Cons.IH [OF g this]
  show ?case
  proof (cases "placement_of e h")
    case None
    then show ?thesis using stays [of doomed] by simp
  next
    case (Some p)
    then show ?thesis using stays [of "doomed @ [h]"] goes [of doomed]
      by (cases "affine_unit_satisfiable_secondaries e p x = []") simp_all
  qed
qed simp

text \<open>What is dropped from the waiting list was there, so that it is nowhere afterwards.\<close>

lemma dropped_nowhere:
  assumes "guarded x" "drop_blocked hit x = (dropped, x')" "h \<in> set dropped"
  shows "queued_times h x' + waiting_times h x' = 0"
proof -
  note d = drop_times [OF guarded_ok [OF assms(1)] assms(2)]
  have "count_list dropped h \<noteq> 0" using assms(3) by (simp add: count_list_0_iff)
  moreover have "queued_times h x + waiting_times h x \<le> 1" using guardedD [OF assms(1), of h] by (auto split: if_splits)
  ultimately show ?thesis using d(3,4) [of h] by linarith
qed

lemma drop_guarded:
  assumes "guarded x" "drop_blocked hit x = (dropped, x')"
  shows "guarded x'"
proof -
  note d = drop_times [OF guarded_ok [OF assms(1)] assms(2)]
  have "queued_times h x' + waiting_times h x' \<le> queued_times h x + waiting_times h x" for h using d(3,4) [of h] by linarith
  with assms(1) d(1,2) show ?thesis by (intro guarded_rule [of x x']) simp_all
qed

lemma steal_guarded:
  assumes "guarded x" "steal_for thief cell can_steal x = (muts, x')"
  shows "guarded x'"
proof (cases "max_donor (filter (steal_eligible thief can_steal) (unit_queues x))")
  case None
  then show ?thesis using assms by (simp add: steal_for_def)
next
  case (Some d)
  obtain donor us where d: "d = (donor, us)" by fastforce
  have ok: "distinct (keys (unit_queues x))" using guarded_ok [OF assms(1)] by (simp add: scheduler_ok_def)
  have "filter (steal_eligible thief can_steal) (unit_queues x) \<noteq> []" using Some by auto
  from max_donor_exact [OF this] Some d have mem: "(donor, us) \<in> set (unit_queues x)" "steal_eligible thief can_steal (donor, us)" by auto
  then have q: "unit_queue x donor = us" "donor \<noteq> thief" using ok by (auto simp: lookup_list_def steal_eligible_def)
  obtain cut where x': "x' = (let x1 = x\<lparr>unit_queues := AList.update donor (drop cut us) (unit_queues x)\<rparr>
      in x1\<lparr>unit_queues := AList.update thief (unit_queue x1 thief @ take cut us) (unit_queues x1)\<rparr>)"
    using assms(2) Some d by (auto simp: steal_for_def Let_def)
  let ?x1 = "x\<lparr>unit_queues := AList.update donor (drop cut us) (unit_queues x)\<rparr>"
  have whole: "count_list us (Work h) = count_list (take cut us) (Work h) + count_list (drop cut us) (Work h)" for h
    by (metis append_take_drop_id count_list_append)
  have donated: "queued_times h ?x1 + count_list us (Work h) = queued_times h x + count_list (drop cut us) (Work h)" for h
    using queue_update_times [OF ok, where q = donor and us = "drop cut us"] q by simp
  have received: "queued_times h x' + count_list (unit_queue ?x1 thief) (Work h)
      = queued_times h ?x1 + count_list (unit_queue ?x1 thief @ take cut us) (Work h)" for h
    unfolding x' Let_def by (rule queue_update_times) (use ok in simp)
  have "queued_times h x' = queued_times h x" for h
    using whole [of h] donated [of h] received [of h] unfolding count_list_append by linarith
  then show ?thesis using guarded_ok [OF assms(1)]
    by (intro guarded_rule [OF assms(1)]) (simp_all add: x' Let_def scheduler_ok_def waiting_times_def)
qed

lemma pull_guarded:
  assumes "guarded x" "pull_waiting e q ks x = Some (r, x')" "set ks \<subseteq> fst ` set (blocked_per_secondary x)"
  shows "guarded x'"
  using assms
proof (induction e q ks x rule: pull_waiting.induct)
  case (2 e q busy h ks x)
  have later: "set ks \<subseteq> fst ` set (blocked_per_secondary x)" and key: "(busy, h) \<in> fst ` set (blocked_per_secondary x)"
    using "2.prems"(3) by auto
  have ok: "scheduler_ok x" using guarded_ok [OF "2.prems"(1)] .
  have "guarded (snd (rekey_block busy q h pending x))" for pending
  proof (rule guarded_rule [OF "2.prems"(1)])
    let ?b = "AList.delete (busy, h) (blocked_per_secondary x)"
    have del: "length (filter (\<lambda>(k, v). snd k = w) ?b) + (if h = w then 1 else 0) = waiting_times w x" for w
      using waiting_delete [where b = "blocked_per_secondary x" and key = "(busy, h)" and h = w] ok key
      by (simp add: scheduler_ok_def waiting_times_def)
    have "length (filter (\<lambda>(k, v). snd k = w) (AList.update (q, h) v ?b)) \<le> waiting_times w x" for w v
      using waiting_update [where b = ?b and key = "(q, h)" and h = w and v' = v] ok del [of w]
      by (auto simp: scheduler_ok_def split: if_splits)
    moreover have "length (filter (\<lambda>(k, v). snd k = w) ?b) \<le> waiting_times w x" for w using del [of w] by simp
    ultimately show "queued_times w (snd (rekey_block busy q h pending x)) + waiting_times w (snd (rekey_block busy q h pending x))
        \<le> queued_times w x + waiting_times w x" for w
      by (auto simp: rekey_block_def queued_times_def waiting_times_def Let_def)
  qed (use ok in \<open>auto simp: rekey_block_def scheduler_ok_def Let_def\<close>)
  then show ?case using 2 later
    by (auto split: option.splits if_splits)
qed simp

text \<open>
  The steps of the queues. A popped unit is dispatched or skipped, put back in front, made to wait for
  an import, or placed elsewhere; a task leaves the guard when it ends or is requeued, at which time
  it is neither queued nor waiting. An import that could not be dispatched is queued by itself.
\<close>

inductive affine_step :: "affine_scheduler \<Rightarrow> affine_scheduler \<Rightarrow> bool" where
  placed: "place_dependency_satisfied_affine_tasks e work x = Some (doomed, x') \<Longrightarrow> affine_step x x'"
| popped: "pop_next q x = (Some u, x') \<Longrightarrow> affine_step x x'"
| refused: "pop_next q x = (Some u, x1) \<Longrightarrow> affine_step x (requeue_front q u x1)"
| blocked: "pop_next q x = (Some (Work h), x1) \<Longrightarrow> affine_step x (block_until_import q h pending x1)"
| rerouted: "pop_next q x = (Some (Work h), x1) \<Longrightarrow> wp_hash p = h \<Longrightarrow> affine_step x (place target p x1)"
| requeued_import: "affine_step x (requeue_front q (Affine aid h) x)"
| stolen: "steal_for thief cell can_steal x = (muts :: (unit, unit, unit) cluster_mutation list, x') \<Longrightarrow> affine_step x x'"
| cell_finished: "(\<And>h p. placement_of e h = Some p \<Longrightarrow> wp_hash p = h) \<Longrightarrow>
    affine_step x (reenqueue_affine_unblocked_on_cell e q aid x)"
| drained: "reroute_affine_blocked_on e q aid' x = (doomed, x') \<Longrightarrow> affine_step x x'"
| reconciled: "affine_step x (reconcile_affine_blocked e x)"
| pulled: "try_affine_pull_waiting e q x = Some (r, x') \<Longrightarrow> affine_step x x'"
| released: "queued_times h x + waiting_times h x = 0 \<Longrightarrow> affine_step x (unrecord_placed_work h x)"
| cleared: "affine_step x (affine_clear x)"

lemma pop_guarded:
  assumes "guarded x" "pop_next q x = (Some u, x')"
  shows "guarded x'"
proof -
  note p = pop_times [OF guarded_ok [OF assms(1)] assms(2)]
  have "queued_times h x' + waiting_times h x' \<le> queued_times h x + waiting_times h x" for h using p(3,4) [of h] by linarith
  then show ?thesis using p(1,2) by (intro guarded_rule [OF assms(1)]) simp_all
qed

lemma pop_then_guarded:
  assumes "guarded x" "pop_next q x = (Some u, x1)" "scheduler_ok x'" "placed_work x' = placed_work x1"
    and "\<And>h. queued_times h x' + waiting_times h x' \<le> queued_times h x1 + waiting_times h x1 + (if u = Work h then 1 else 0)"
  shows "guarded x'"
proof -
  note p = pop_times [OF guarded_ok [OF assms(1)] assms(2)]
  have "queued_times h x' + waiting_times h x' \<le> queued_times h x + waiting_times h x" for h
    using p(3,4) [of h] assms(5) [of h] by linarith
  then show ?thesis using p(2) assms(3,4) by (intro guarded_rule [OF assms(1)]) simp_all
qed

lemma affine_step_guarded: "affine_step x x' \<Longrightarrow> guarded x \<Longrightarrow> guarded x'"
proof (induction rule: affine_step.induct)
  case (placed e work x doomed x')
  then show ?case by (auto simp: place_dependency_satisfied_affine_tasks_def split: if_splits intro: place_loop_guarded)
next
  case (popped q x u x')
  then show ?case by (rule pop_guarded [rotated])
next
  case (refused q x u x1)
  have "scheduler_ok x1" using pop_times(1) [OF guarded_ok] refused by blast
  from requeue_times [OF this] show ?case by (intro pop_then_guarded [OF refused(2,1)]) simp_all
next
  case (blocked q x h x1 pending)
  have "scheduler_ok x1" using pop_times(1) [OF guarded_ok] blocked by blast
  note b = block_times [OF this, where q = q and w = h and pending = pending]
  show ?case
  proof (rule pop_then_guarded [OF blocked(2,1)])
    fix w
    show "queued_times w (block_until_import q h pending x1) + waiting_times w (block_until_import q h pending x1)
        \<le> queued_times w x1 + waiting_times w x1 + (if Work h = Work w then 1 else 0)"
      using b(3,4) [of w] by simp
  qed (use b in simp_all)
next
  case (rerouted q x h x1 p target)
  have "scheduler_ok x1" using pop_times(1) [OF guarded_ok] rerouted by blast
  from place_times [OF this] rerouted(2) show ?case by (intro pop_then_guarded [OF rerouted(3,1)]) simp_all
next
  case (requeued_import x q aid h)
  note r = requeue_times [OF guarded_ok [OF requeued_import], where q = q and u = "Affine aid h"]
  show ?case using r by (intro guarded_rule [OF requeued_import]) simp_all
next
  case (stolen thief cell can_steal x muts x')
  then show ?case by (rule steal_guarded [rotated])
next
  case (cell_finished e x q aid)
  obtain freed x1 where f: "on_cell_finished q aid x = (freed, x1)" by fastforce
  note d = drop_times [OF guarded_ok [OF cell_finished(2)] f [unfolded on_cell_finished_def]]
  have r: "let y = reenqueue_affine_unblocked_on_cell e q aid x
      in scheduler_ok y \<and> placed_work y = placed_work x1 \<and> waiting_times h y = waiting_times h x1
        \<and> queued_times h y \<le> queued_times h x1 + count_list freed h" for h
    using reenqueue_fold [OF d(1) cell_finished(1), where q = q and freed = freed and w = h] f
    by (simp add: reenqueue_affine_unblocked_on_cell_def)
  have "queued_times h (reenqueue_affine_unblocked_on_cell e q aid x) + waiting_times h (reenqueue_affine_unblocked_on_cell e q aid x)
      \<le> queued_times h x + waiting_times h x" for h
    using r [of h] d(3,4) [of h] by (simp add: Let_def)
  then show ?case using r d(2) by (intro guarded_rule [OF cell_finished(2)]) (simp_all add: Let_def)
next
  case (drained e q aid' x doomed x')
  obtain dr x1 where f: "drain_blocked_on q aid' x = (dr, x1)" by fastforce
  note f' = f [unfolded drain_blocked_on_def]
  note g = reroute_fold_guarded [where hs = dr and e = e and doomed = "[]",
      OF drop_guarded [OF drained(2) f'] dropped_nowhere [OF drained(2) f']]
  show ?case using g drained(1) f by (simp add: reroute_affine_blocked_on_def)
next
  case (reconciled x e)
  obtain os x1 where f: "reconcile_per_secondary_blocked (\<lambda>q. q \<in> set (affine_placement_secondaries e)) (cell_of e)
      (\<lambda>q aid. case import_hash e aid of None \<Rightarrow> False | Some h \<Rightarrow> has_slot_holding e q h) x = (os, x1)" by fastforce
  note f' = f [unfolded reconcile_per_secondary_blocked_def]
  show ?case using unrecord_fold_guarded [where hs = os, OF drop_guarded [OF reconciled f'] dropped_nowhere [OF reconciled f']] f
    by (simp add: reconcile_affine_blocked_def)
next
  case (pulled e q x r x')
  then show ?case unfolding try_affine_pull_waiting_def
    by (elim pull_guarded) (auto simp: blocked_work_keyed_elsewhere_def)
next
  case (released h x)
  then show ?case by (intro unrecord_guarded)
next
  case (cleared x)
  show ?case by (simp add: guarded_def scheduler_ok_def affine_clear_def queued_times_def waiting_times_def)
qed


section \<open>After a failover\<close>

lemma rebuild_loop_times:
  assumes "secs \<noteq> []" "scheduler_ok x"
  shows "\<exists>x'. rebuild_loop secs cell ps x = Some x' \<and> scheduler_ok x' \<and> placed_work x' = placed_work x
     \<and> failed_since_success x' = failed_since_success x
     \<and> (\<forall>h. queued_times h x' = queued_times h x + count_list (map wp_hash ps) h)"
  using assms(2)
proof (induction ps arbitrary: x)
  case (Cons p ps)
  from assms(1) obtain q where q: "select_secondary secs p cell x = Some (Some q)" by (rule select_some)
  note pl = place_times [OF Cons.prems, where q = q and p = p]
  from Cons.IH [OF pl(1)] obtain x' where "rebuild_loop secs cell ps (place q p x) = Some x'" "scheduler_ok x'"
    "placed_work x' = placed_work x" "failed_since_success x' = failed_since_success x"
    "\<forall>h. queued_times h x' = queued_times h (place q p x) + count_list (map wp_hash ps) h"
    using pl(2) by (auto simp: place_def)
  then show ?case using q pl(4) by (intro exI [of _ x']) simp
qed simp

lemma place_loop_times:
  assumes "secs \<noteq> []" "scheduler_ok x" "distinct (map wp_hash ps)" "\<forall>p \<in> set ps. wp_hash p \<notin> placed_work x"
  shows "\<exists>x'. place_loop e secs ps x = Some x' \<and> (\<forall>h. queued_times h x' = queued_times h x + count_list (map wp_hash ps) h)"
  using assms(2-)
proof (induction ps arbitrary: x)
  case (Cons p ps)
  let ?y = "x\<lparr>placed_work := insert (wp_hash p) (placed_work x)\<rparr>"
  from assms(1) obtain q where q: "select_secondary secs p (cell_of e) ?y = Some (Some q)" by (rule select_some)
  have ok: "scheduler_ok ?y" using Cons.prems(1) by (simp add: scheduler_ok_def)
  have fresh: "\<forall>p' \<in> set ps. wp_hash p' \<notin> placed_work (place q p ?y)"
    using Cons.prems(2,3) place_times(2) [OF ok] by (auto simp: image_iff)
  have "distinct (map wp_hash ps)" using Cons.prems(2) by simp
  from Cons.IH [OF place_times(1) [OF ok] this fresh] obtain x' where
    "place_loop e secs ps (place q p ?y) = Some x'"
    "\<forall>h. queued_times h x' = queued_times h (place q p ?y) + count_list (map wp_hash ps) h" by blast
  moreover have "queued_times h ?y = queued_times h x" for h by (simp add: queued_times_def)
  ultimately show ?case using Cons.prems(3) q place_times(4) [OF ok, where q = q and p = p]
    by (intro exI [of _ x']) (simp add: record_placed_work_def)
qed simp

lemma cleared_times [simp]:
  "queued_times h (affine_clear x) = 0" "waiting_times h (affine_clear x) = 0" "placed_work (affine_clear x) = {}"
  "scheduler_ok (affine_clear x)" "failed_since_success (affine_clear x) = Map.empty"
  by (simp_all add: affine_clear_def queued_times_def waiting_times_def scheduler_ok_def)

text \<open>Which tasks are placed depends on the queues only through the record of failed imports.\<close>

lemma candidates_cong:
  assumes "failed_since_success x = failed_since_success y"
  shows "candidates e work x v = candidates e work y v"
  using assms
  by (simp add: candidates_def affine_work_placeability_def affine_unit_satisfiable_secondaries_def
      import_globally_failed_across_time_def import_failed_on_every_def)

lemma rebuilt:
  assumes "affine_placement_secondaries e \<noteq> []"
  shows "\<exists>x'. rebuild_affine_schedule e work x = Some x' \<and> scheduler_ok x' \<and> placed_work x' = {}
     \<and> failed_since_success x' = Map.empty
     \<and> (\<forall>h. queued_times h x' = count_list (map wp_hash (map fst (candidates e work (affine_clear x) Placeable))) h)"
proof -
  let ?ps = "affine_rebuild_placements e work (affine_clear x)"
  let ?y = "fold (\<lambda>p x. snd (record_placed_work (wp_hash p) x)) ?ps (affine_clear x)"
  have sorted: "count_list (map wp_hash ?ps) h = count_list (map wp_hash (map fst (candidates e work (affine_clear x) Placeable))) h" for h
    unfolding affine_rebuild_placements_def
    by (metis (no_types, lifting) count_mset mset_map mset_sort)
  from rebuild_loop_times [OF assms, of "affine_clear ?y" "cell_of e" ?ps] show ?thesis
    using assms unfolding rebuild_affine_schedule_def rebuild_def Let_def by (simp add: sorted)
qed

lemma count_list_distinct: "distinct xs \<Longrightarrow> count_list xs a = (if a \<in> set xs then 1 else 0)"
  by (induction xs) auto

text \<open>
  C39: A promoted primary queues every task twice. The rebuild puts each placeable task of the ledger into
  exactly one queue, but the placement guard that it fills beforehand is emptied again on the way, so
  that the next regular placement, which follows any new work, queues every one of them once more.
\<close>

theorem rebuild_then_placed_twice:
  assumes "affine_placement_secondaries e \<noteq> []" "distinct (map (wp_hash \<circ> fst) work)"
    and "(p, ph) \<in> set (candidates e work (affine_clear x) Placeable)"
  shows "\<exists>x1 doomed x2. rebuild_affine_schedule e work x = Some x1 \<and> queued_times (wp_hash p) x1 = 1 \<and> placed_work x1 = {}
     \<and> place_dependency_satisfied_affine_tasks e work x1 = Some (doomed, x2) \<and> queued_times (wp_hash p) x2 = 2"
proof -
  let ?ps = "map fst (candidates e work (affine_clear x) Placeable)"
  have dist: "distinct (map wp_hash ?ps)"
    using assms(2) by (simp add: candidates_def distinct_map_filter map_map comp_def)
  have one: "count_list (map wp_hash ?ps) (wp_hash p) = 1"
  proof -
    have "wp_hash p \<in> set (map wp_hash ?ps)" using assms(3) by force
    then show ?thesis by (simp only: count_list_distinct [OF dist] if_True)
  qed
  from rebuilt [OF assms(1)] obtain x1 where x1: "rebuild_affine_schedule e work x = Some x1" "scheduler_ok x1"
    "placed_work x1 = {}" "failed_since_success x1 = Map.empty" "\<forall>h. queued_times h x1 = count_list (map wp_hash ?ps) h" by blast
  have same: "candidates e work x1 v = candidates e work (affine_clear x) v" for v
    by (rule candidates_cong) (simp add: x1(4))
  from place_loop_times [OF assms(1) x1(2) dist, of e] obtain x2 where
    "place_loop e (affine_placement_secondaries e) ?ps x1 = Some x2" "queued_times (wp_hash p) x2 = 2"
    using x1(3,5) one by auto
  with x1 one assms(1) same show ?thesis by (auto simp: place_dependency_satisfied_affine_tasks_def)
qed

section \<open>Examples\<close>

text \<open>Two secondaries with a worker each, one task with one import.\<close>

definition one_import :: work_placement where
  "one_import = \<lparr> wp_hash = ''w'', wp_affine_deps = [(0, ''i'')] \<rparr>"

definition two_workers :: affine_env where
  "two_workers =
     \<lparr> cell_of = (\<lambda>q a. if q = ''s1'' then CellFailed else NotDone), failed_imports = {},
       worker_slots = [(''s1'', None), (''s2'', None)], ready_imports = {''i''}, terminal_task = (\<lambda>h. False),
       placement_of = (\<lambda>h. if h = ''w'' then Some one_import else None), import_hash = (\<lambda>a. None) \<rparr>"

lemma two_workers_roster: "affine_placement_secondaries two_workers = [''s1'', ''s2'']"
  by code_simp

lemma one_import_candidate: "(one_import, ''p'') \<in> set (candidates two_workers [(one_import, ''p'')] (affine_clear affine_default) Placeable)"
  by code_simp

theorem rebuild_then_placed_twice_witness:
  "\<exists>x1 doomed x2. rebuild_affine_schedule two_workers [(one_import, ''p'')] affine_default = Some x1
     \<and> place_dependency_satisfied_affine_tasks two_workers [(one_import, ''p'')] x1 = Some (doomed, x2)
     \<and> queued_times ''w'' x2 = 2"
proof -
  have "affine_placement_secondaries two_workers \<noteq> []" "distinct (map (wp_hash \<circ> fst) [(one_import, ''p'')])"
    by (simp_all add: two_workers_roster)
  from rebuild_then_placed_twice [OF this one_import_candidate] show ?thesis
    by (auto simp: one_import_def)
qed

theorem gate_exact_witness:
  "\<exists>t. affine_readiness_gate two_workers ''s1'' one_import affine_default = Some (Reroute t)
     \<and> t \<in> set (affine_placement_secondaries two_workers) \<and> cell_of two_workers t 0 \<noteq> CellFailed"
proof -
  have "affine_unit_satisfiable_secondaries two_workers one_import affine_default = [''s2'']" by code_simp
  with gate_exact [of two_workers "''s1''" one_import affine_default] show ?thesis
    by (auto simp: Let_def one_import_def) (auto simp: two_workers_def)
qed


end
