(* ===== verification/Spec2Isabelle.thy ===== *)
theory Spec2Isabelle
  imports Pool_Identity Pool_Queries Scheduler Output_Gather Spawn_Validator Ledger_Spawn Consensus_Round
    Election Chunking Peer_Info Worker_Protocol Reconciliation_Probe Heartbeat Affine_Dispatch
begin

text \<open>
  A verification development for \<open>dynamic-runner\<close>, a distributed task runner written in Rust. All
  paths below are relative to \<open>src/crates\<close>; \<open>manager-distributed\<close> stands for
  \<open>dynrunner-manager-distributed/src\<close>.

  \<^bold>\<open>The program.\<close> A run consists of tasks in phases, with dependencies between tasks and between
  phases. One node is the primary: it keeps the tasks that are not done in the pending pool,
  asks the scheduler which worker gets which task, and originates the mutations of the cluster
  ledger. Every node holds a replica of the ledger, which receives mutations at least once and in
  any order, and merges snapshots of other replicas. Secondaries run the workers, which are
  processes at the other end of a line protocol. Tasks that need something imported on the node
  where they run wait in queues of their own, one for each secondary. When a secondary falls silent,
  the heartbeat sweep of the primary opens a round of the respawn consensus, in which the other
  secondaries take part, on whether to restart it; a task that stays in flight for long is asked
  after by the reconciliation probe; when the primary falls silent, the secondaries elect one of themselves. Frames that
  are too large for the transport are sent in chunks, and a secondary started by the batch system
  is found through a connection-info file.

  \<^bold>\<open>The pending pool\<close> (\<open>dynrunner-scheduler-api/src/pending_pool\<close>, types in
  \<open>dynrunner-core/src/types\<close>). The record \<open>pending_pool\<close> has the fields of \<open>PendingPool\<close>.
  \<^item> \<open>Task_Types\<close>: tasks, dependencies, errors. \<open>Kahn\<close>: the topological sort that construction and
    ingest share.
  \<^item> \<open>Pool_State\<close> (\<open>types.rs\<close>, \<open>pool.rs\<close>): the state, its invariant \<open>pool_wf\<close>, construction.
    \<open>Pool_Extend\<close> (\<open>extend.rs\<close>): which batches are accepted, with the reported cycle.
  \<^item> \<open>Pool_Dispatch\<close> (\<open>dispatch.rs\<close>, \<open>view.rs\<close>): a dispatched task is ready, and a worker gets nothing
    only if nothing is there for it. \<open>Pool_Phase\<close>, \<open>Pool_Lifecycle\<close>, \<open>Pool_Cascade\<close>,
    \<open>Pool_Requeue\<close> (\<open>lifecycle.rs\<close>): phases, completion, the failure cascade as the transitive
    dependents of a failed task, and the operations that put tasks back.
  \<^item> \<open>Pool_Machine\<close>: all of these as steps of one machine, with the invariant of every reachable
    state. \<open>Pool_Queries\<close> (\<open>queries.rs\<close>): the read side. \<open>Pool_Identity\<close>: three places where the
    code and its documentation part.

  \<^bold>\<open>Around the pool.\<close> \<open>Scheduler\<close> (\<open>dynrunner-scheduler\<close>): the trait is the locale
  \<open>scheduler_iface\<close>, the resource-stealing scheduler its interpretation, and its assignments are
  composed with the pool's dispatch. \<open>Output_Gather\<close> (\<open>dynrunner-core/src/output_gather.rs\<close>): the
  outputs a task is given. \<open>Spawn_Validator\<close>: the checks on tasks spawned at run time.

  \<^bold>\<open>The ledger\<close> (\<open>manager-distributed/cluster_state\<close>).
  \<^item> \<open>Replica\<close>: the contracts \<open>lww_register\<close> and \<open>total_register\<close>, interpreted on task states, task
    keys, the primary's claim and the cells. \<open>Grow_Maps\<close>: the contract of maps that only grow.
  \<^item> \<open>Ledger_Types\<close>, \<open>Ledger_State\<close>, \<open>Ledger_Invariant\<close>: task states, the one write path and what the
    derived tables mean. \<open>Ledger_Merge\<close>, \<open>Ledger_Apply\<close>, \<open>Ledger_Spawn\<close>: merging a task state with
    its effect on dependents, every mutation, spawning, and the invariant of the whole machine.
    \<open>Ledger_Converge\<close>: what replicas agree on whatever the order of delivery.
  \<^item> \<open>Def_Store\<close>, \<open>Membership\<close>, \<open>Secondary_Cells\<close>, \<open>Custom_Inbox\<close>: the registry of definitions, the
    peers and their roles, the packed cells, and the inbox refining a table of message statuses.

  \<^bold>\<open>Agreement between nodes\<close> (\<open>manager-distributed/primary/consensus\<close>, \<open>secondary/consensus\<close>,
  \<open>secondary/election\<close>). \<open>Consensus_Frames\<close> has the frames and the locale \<open>quorum_rule\<close>, interpreted
  on both quorum functions. \<open>Consensus_Primary\<close>: a restart is justified, a round ends.
  \<open>Consensus_Secondary\<close>: the prober, with its jitter source as the locale \<open>jitter_source\<close>.
  \<open>Consensus_Round\<close> puts both halves together. \<open>Link_Health\<close> has the two monitors that
  \<open>Election\<close> reads; \<open>Election\<close> shows that a promotion has a quorum, that a vote needs evidence, and
  that two winners over the same fleet share a confirmer.

  \<^bold>\<open>Watching the fleet\<close> (\<open>manager-distributed/primary/heartbeat\<close>, \<open>primary/reconciliation_probe.rs\<close>).
  \<open>Silence_Gates\<close>: the two gates that make the primary doubt its own ears, each characterised by the
  history of sweeps. \<open>Heartbeat\<close> composes them with \<open>Link_Health\<close> and \<open>Consensus_Primary\<close>: a tick
  opens a round exactly for the members past the hard window, and ticks alone restart nobody.
  \<open>Reconciliation_Probe\<close>: a task is failed only on the denial of the holder that was asked, and a
  task that stays in flight is asked after.

  \<^bold>\<open>Affine scheduling\<close> (\<open>manager-distributed/primary/affine_scheduler.rs\<close>, \<open>affine_dispatch.rs\<close>).
  \<open>Affine_Scheduler\<close>: the queues, the choice of a secondary, stealing, failed imports, each with an
  exact statement. \<open>Affine_Dispatch\<close>: placing, the readiness gate and the rebuild after a failover;
  under every order of steps a task is queued or waits at most once, which the rebuild breaks.

  \<^bold>\<open>Managers and workers\<close> (\<open>dynrunner-protocol-manager-worker/src\<close>). \<open>Std_Strings\<close>: the string functions of
  the standard library that the codecs use. \<open>Worker_Codec\<close>: commands and responses as lines, with
  round trips and the messages for which they fail. \<open>Worker_Framing\<close>: lines of bounded length out of
  chunks, equal to a plain split. \<open>Worker_Protocol\<close>: the states of a worker, and the delivery of
  responses through codec and framing.

  \<^bold>\<open>Formats.\<close> \<open>Base64\<close> and \<open>Peer_Info\<close> (\<open>dynrunner-slurm/src/peer_info\<close>): the codec and the
  connection-info file, each with its round trip. \<open>Chunking\<close>
  (\<open>dynrunner-protocol-primary-secondary/src/chunking.rs\<close>): a split frame is put together again,
  and nothing else is ever completed.

  \<^bold>\<open>Conventions.\<close> \<open>Prelude\<close> says how strings, hash maps and B-tree maps are represented. Counters,
  rounds and ids are natural numbers unless their width matters; checksums, cells, base64
  groups and the jitter generator are words. Instants and durations are natural numbers of
  milliseconds, and differences are truncated at zero as \<open>duration_since\<close> is. A panic is the
  value \<open>None\<close> of an outer option, an error a value of a sum. Log lines are left out.

  \<^bold>\<open>Loops and bounds.\<close> Loops are structural or have a termination proof. The walk of
  \<open>Output_Gather\<close> is a partial function, and that it returns is part of its theorem. The cascade
  of \<open>Ledger_Merge\<close> has fuel \<open>merge_fuel\<close>, one more than the number of tasks in memory; a task leaves
  the blocked state at most once, and \<open>cascade_complete\<close> shows that this is enough. The drive loop
  of the consensus has the code's own cap, and \<open>drive_idles\<close> shows that it is not reached.

  \<^bold>\<open>Parameters.\<close> Code outside the repository is an argument: the hasher, the base64 engine of the
  chunks and of the worker lines, the JSON library of the worker lines, the URL parser, the batch
  system's evidence on a peer, and the reading of a settled record back from disk.

  \<^bold>\<open>Not modelled.\<close> The asynchronous loops of the primary, the secondary and the observer, the
  process mesh, the transports, the beacons' threads and sockets, worker processes, shell, ssh and
  file system operations, the Python bindings, and JSON encodings: they are input and output
  or code of libraries. Several parts with decision logic of their own are not covered: the
  retry buckets of the primary, the handling of failed tasks and the hydration after a promotion,
  the verdicts of the observer, the bookkeeping of the local manager, the resolution of addresses,
  and the streaming of snapshots. Of the election, the mutation that a promotion originates is left
  out; of a committed restart, all but its effect on the heartbeat's own maps; of the affine
  scheduling, the dispatch of a unit to a worker and the failing of doomed tasks; of the ledger, the
  segment files of the settled store.
\<close>

end
